(* ===== verification/Prelude.thy ===== *)
theory Prelude
  imports Main "HOL-Library.Word" "HOL-Library.Multiset" "HOL-Library.AList"
begin

text \<open>
  What every component shares: the result of a Go call, Go maps as association lists, and
  a few lemmas on lists and multisets.

  A Go function that returns \<open>(T, error)\<close> and may panic has a result of type
  \<open>'a gores\<close>: \<open>Ok v\<close> for \<open>(v, nil)\<close>, \<open>Err e\<close> for a non-nil error, \<open>Panic p\<close>
  for a run-time panic (nil dereference, unhashable map key, empty queue), \<open>Crash p\<close> for a
  panic in a goroutine that recovers none, which ends the process. A method that
  changes its receiver returns the new receiver beside the result, also when it fails.

  A Go map is an association list with distinct keys. The order of the list is the order in
  which the next \<open>range\<close> over the map visits it; Go fixes no order, so a theorem is
  stated for every list, and what it says of the content goes through \<open>map_of\<close>.
\<close>

named_theorems go_simps \<open>unfolding rules for results of Go calls\<close>

datatype 'a gores = Ok 'a | Err string | Panic string | Crash string

fun go_bind :: "'a gores \<Rightarrow> ('a \<Rightarrow> 'b gores) \<Rightarrow> 'b gores" where
  "go_bind (Ok a) f = f a"
| "go_bind (Err e) f = Err e"
| "go_bind (Panic p) f = Panic p"
| "go_bind (Crash p) f = Crash p"

text \<open>The same for a call that also changes a state: an error stops, the state it left stays.\<close>

fun st_bind :: "'s \<times> 'a gores \<Rightarrow> ('s \<Rightarrow> 'a \<Rightarrow> 's \<times> 'b gores) \<Rightarrow> 's \<times> 'b gores" where
  "st_bind (s, Ok a) f = f s a"
| "st_bind (s, Err e) f = (s, Err e)"
| "st_bind (s, Panic p) f = (s, Panic p)"
| "st_bind (s, Crash p) f = (s, Crash p)"

text \<open>A computation that runs in goroutines of its own when \<open>par\<close> is set.\<close>

definition spawned :: "bool \<Rightarrow> 'a gores \<Rightarrow> 'a gores" where
  "spawned par r = (case r of Panic p \<Rightarrow> if par then Crash p else Panic p | _ \<Rightarrow> r)"

lemma spawned_Ok [simp]: "spawned par (Ok a) = Ok a"
  by (simp add: spawned_def)

lemma st_bind_Ok_iff:
  "snd (st_bind m f) = Ok b \<longleftrightarrow> (\<exists>a. snd m = Ok a \<and> snd (f (fst m) a) = Ok b)"
  by (cases m; cases "snd m") auto

fun is_Ok :: "'a gores \<Rightarrow> bool" where
  "is_Ok (Ok a) = True"
| "is_Ok (Err e) = False"
| "is_Ok (Panic p) = False"
| "is_Ok (Crash p) = False"

type_synonym u8 = "8 word"
type_synonym u16 = "16 word"
type_synonym u32 = "32 word"
type_synonym u64 = "64 word"
type_synonym i64 = "64 word"
type_synonym bytes = "8 word list"

lemma go_bind_Ok_iff [go_simps]: "go_bind m f = Ok b \<longleftrightarrow> (\<exists>a. m = Ok a \<and> f a = Ok b)"
  by (cases m) auto

lemma is_Ok_iff [go_simps]: "is_Ok m \<longleftrightarrow> (\<exists>a. m = Ok a)"
  by (cases m) auto

fun go_map :: "('a \<Rightarrow> 'b gores) \<Rightarrow> 'a list \<Rightarrow> 'b list gores" where
  "go_map f [] = Ok []"
| "go_map f (x # xs) = go_bind (f x) (\<lambda>y. go_bind (go_map f xs) (\<lambda>ys. Ok (y # ys)))"

lemma go_map_Ok [simp]: "(\<And>x. x \<in> set xs \<Longrightarrow> f x = Ok (g x)) \<Longrightarrow> go_map f xs = Ok (map g xs)"
  by (induction xs) auto

subsection \<open>Association lists as maps\<close>

lemma map_of_update [simp]: "map_of (AList.update k v m) = (map_of m)(k \<mapsto> v)"
  by (simp add: update_conv')

lemma map_of_delete [simp]: "map_of (AList.delete k m) = (map_of m)(k := None)"
  by (simp add: delete_conv')

lemma distinct_keys_update [simp, intro]:
  "distinct (map fst m) \<Longrightarrow> distinct (map fst (AList.update k v m))"
  by (rule distinct_update)

lemma distinct_keys_delete [simp, intro]:
  "distinct (map fst m) \<Longrightarrow> distinct (map fst (AList.delete k m))"
  by (rule distinct_delete)

lemma set_update_subset_insert: "set (AList.update k v m) \<subseteq> insert (k, v) (set m)"
  by (induction m) auto

lemma set_delete_subset: "set (AList.delete k m) \<subseteq> set m"
  by (simp add: AList.delete_eq)

subsection \<open>Lists\<close>

lemma nth_drop_all: "n \<le> length xs \<Longrightarrow> take n xs @ drop n xs = xs"
  by simp

lemma mset_eq_mapD: "mset xs = mset ys \<Longrightarrow> mset (map f xs) = mset (map f ys)"
  by (metis mset_map)

lemma sort_eqI: "sorted xs \<Longrightarrow> mset xs = mset ys \<Longrightarrow> xs = sort ys" for xs :: "'a::linorder list"
  by (metis properties_for_sort)

lemma sort_cong_mset: "mset xs = mset ys \<Longrightarrow> sort xs = sort ys" for xs :: "'a::linorder list"
  by (metis mset_sort properties_for_sort sorted_sort)

end
