(* ===== verification/GoHeap.thy ===== *)
theory GoHeap
  imports Prelude
begin

text \<open>
  Go's \<open>container/heap\<close> on a slice, for an arbitrary \<open>Less\<close>: \<open>up\<close>, \<open>down\<close>,
  \<open>Init\<close>, \<open>Push\<close> and \<open>Pop\<close>. The locale \<open>go_heap\<close> states what a caller's
  \<open>Less\<close> promises (it compares a key in a linear order, on the elements it is used on) and
  proves the contract of the operations once: content kept as a multiset, heap order kept,
  the popped element minimal.
\<close>

definition swap :: "'a list \<Rightarrow> nat \<Rightarrow> nat \<Rightarrow> 'a list" where
  "swap xs i j = xs[i := xs ! j, j := xs ! i]"

definition par :: "nat \<Rightarrow> nat" where
  "par j = (j - 1) div 2"

lemma par_le [simp]: "par j \<le> j"
  by (simp add: par_def)

lemma par_less [simp]: "0 < j \<Longrightarrow> par j < j"
  by (simp add: par_def)

lemma par_eq_self [simp]: "par j = j \<longleftrightarrow> j = 0"
  by (cases j) (auto simp: par_def)

lemma par_child: "0 < c \<Longrightarrow> par c = i \<longleftrightarrow> c = 2 * i + 1 \<or> c = 2 * i + 2"
  by (cases c) (auto simp: par_def)

lemma par_eqD [dest]: "par c = m \<Longrightarrow> 0 < c \<Longrightarrow> m < c"
  using par_less by blast

lemma le_parD [dest]: "n \<le> par c \<Longrightarrow> 0 < c \<Longrightarrow> n < c"
  using par_less le_less_trans by blast

function up :: "('a \<Rightarrow> 'a \<Rightarrow> bool) \<Rightarrow> 'a list \<Rightarrow> nat \<Rightarrow> 'a list" where
  "up ls xs j =
     (let i = par j in
      if i = j \<or> \<not> ls (xs ! j) (xs ! i) then xs else up ls (swap xs i j) i)"
  by pat_completeness auto
termination
  by (relation "measure (\<lambda>(ls, xs, j). j)") (auto simp: le_neq_implies_less)

function down :: "('a \<Rightarrow> 'a \<Rightarrow> bool) \<Rightarrow> 'a list \<Rightarrow> nat \<Rightarrow> nat \<Rightarrow> 'a list" where
  "down ls xs i n =
     (let j1 = 2 * i + 1 in
      if n \<le> j1 then xs
      else let j2 = j1 + 1;
               j = (if j2 < n \<and> ls (xs ! j2) (xs ! j1) then j2 else j1) in
           if \<not> ls (xs ! j) (xs ! i) then xs else down ls (swap xs i j) j n)"
  by pat_completeness auto
termination
  by (relation "measure (\<lambda>(ls, xs, i, n). n - i)") (auto simp: Let_def)

declare up.simps [simp del] down.simps [simp del]

definition heap_init :: "('a \<Rightarrow> 'a \<Rightarrow> bool) \<Rightarrow> 'a list \<Rightarrow> 'a list" where
  "heap_init ls xs = fold (\<lambda>i h. down ls h i (length h)) (rev [0..<length xs div 2]) xs"

definition heap_push :: "('a \<Rightarrow> 'a \<Rightarrow> bool) \<Rightarrow> 'a list \<Rightarrow> 'a \<Rightarrow> 'a list" where
  "heap_push ls xs x = up ls (xs @ [x]) (length xs)"

definition heap_pop :: "('a \<Rightarrow> 'a \<Rightarrow> bool) \<Rightarrow> 'a list \<Rightarrow> 'a \<times> 'a list" where
  "heap_pop ls xs =
     (let n = length xs - 1; ys = down ls (swap xs 0 n) 0 n in (ys ! n, take n ys))"

subsection \<open>Content and length, for every \<open>Less\<close>\<close>

lemma length_swap [simp]: "length (swap xs i j) = length xs"
  by (simp add: swap_def)

lemma mset_swap_heap [simp]: "i < length xs \<Longrightarrow> j < length xs \<Longrightarrow> mset (swap xs i j) = mset xs"
  by (simp add: swap_def Multiset.mset_swap)

lemma nth_swap: "i < length xs \<Longrightarrow> j < length xs \<Longrightarrow>
   swap xs i j ! k = (if k = j then xs ! i else if k = i then xs ! j else xs ! k)"
  by (simp add: swap_def nth_list_update)

lemma length_up [simp]: "length (up ls xs j) = length xs"
  by (induction ls xs j rule: up.induct) (subst up.simps, simp add: Let_def)

lemma mset_up: "j < length xs \<Longrightarrow> mset (up ls xs j) = mset xs"
proof (induction ls xs j rule: up.induct)
  case (1 ls xs j)
  have "par j < length xs" using "1.prems" by (rule le_less_trans [OF par_le])
  with 1 show ?case by (subst up.simps) (simp add: Let_def)
qed

lemma length_down [simp]: "length (down ls xs i n) = length xs"
  by (induction ls xs i n rule: down.induct) (subst down.simps, simp add: Let_def)

lemma mset_down: "n \<le> length xs \<Longrightarrow> mset (down ls xs i n) = mset xs"
proof (induction ls xs i n rule: down.induct)
  case (1 ls xs i n)
  then show ?case by (subst down.simps) (simp add: Let_def)
qed

lemma down_beyond: "n \<le> k \<Longrightarrow> n \<le> length xs \<Longrightarrow> down ls xs i n ! k = xs ! k"
proof (induction ls xs i n rule: down.induct)
  case (1 ls xs i n)
  then show ?case by (subst down.simps) (auto simp: Let_def nth_swap)
qed

lemma mset_heap_push [simp]: "mset (heap_push ls xs x) = add_mset x (mset xs)"
  by (simp add: heap_push_def mset_up)

lemma length_heap_push [simp]: "length (heap_push ls xs x) = Suc (length xs)"
  by (simp add: heap_push_def)

lemma mset_heap_init [simp]: "mset (heap_init ls xs) = mset xs"
proof -
  have "mset (fold (\<lambda>i h. down ls h i (length h)) is ys) = mset ys" for "is" ys
    by (induction "is" arbitrary: ys) (simp_all add: mset_down)
  then show ?thesis by (simp add: heap_init_def)
qed

lemma length_heap_init [simp]: "length (heap_init ls xs) = length xs"
  by (metis mset_heap_init size_mset)

lemma heap_pop_mset:
  assumes "xs \<noteq> []" and "heap_pop ls xs = (x, ys)"
  shows "mset xs = add_mset x (mset ys)" and "length xs = Suc (length ys)" and "x = xs ! 0"
proof -
  let ?n = "length xs - 1" and ?d = "down ls (swap xs 0 (length xs - 1)) 0 (length xs - 1)"
  have len: "0 < length xs" "?n < length xs" "length ?d = length xs" using assms(1) by auto
  have x: "x = ?d ! ?n" and ys: "ys = take ?n ?d"
    using assms(2) by (simp_all add: heap_pop_def Let_def)
  have "?d = take ?n ?d @ [?d ! ?n]"
    using len take_Suc_conv_app_nth [of ?n ?d] by simp
  then have "mset ?d = mset (take ?n ?d @ [?d ! ?n])" by (rule arg_cong)
  then have "mset ?d = add_mset x (mset ys)" by (simp add: x ys)
  moreover have "mset ?d = mset xs" using len by (simp add: mset_down)
  ultimately show "mset xs = add_mset x (mset ys)" by simp
  show "length xs = Suc (length ys)" using len by (simp add: ys)
  show "x = xs ! 0" using len by (simp add: x down_beyond nth_swap)
qed

subsection \<open>The heap contract\<close>

text \<open>
  \<open>heap_from k n\<close> is the heap order on the first \<open>n\<close> elements, restricted to the
  parents from \<open>k\<close> on, which is what \<open>Init\<close> builds up from the back.
\<close>

locale go_heap =
  fixes ls :: "'a \<Rightarrow> 'a \<Rightarrow> bool" and key :: "'a \<Rightarrow> int" and good :: "'a \<Rightarrow> bool"
  assumes ls_key: "good a \<Longrightarrow> good b \<Longrightarrow> ls a b \<longleftrightarrow> key a < key b"
begin

definition heap_from :: "nat \<Rightarrow> nat \<Rightarrow> 'a list \<Rightarrow> bool" where
  "heap_from k n xs \<longleftrightarrow>
     (\<forall>c<n. 0 < c \<longrightarrow> k \<le> par c \<longrightarrow> key (xs ! (par c)) \<le> key (xs ! c))"

definition heap_inv :: "'a list \<Rightarrow> bool" where
  "heap_inv xs \<longleftrightarrow> heap_from 0 (length xs) xs"

definition good_list :: "'a list \<Rightarrow> bool" where
  "good_list xs \<longleftrightarrow> (\<forall>x \<in> set xs. good x)"

lemma good_list_mset: "mset xs = mset ys \<Longrightarrow> good_list xs = good_list ys"
  by (metis good_list_def set_mset_mset)

lemma good_list_nth: "good_list xs \<Longrightarrow> i < length xs \<Longrightarrow> good (xs ! i)"
  by (simp add: good_list_def)

lemma good_list_swap: "good_list xs \<Longrightarrow> i < length xs \<Longrightarrow> j < length xs \<Longrightarrow> good_list (swap xs i j)"
  using good_list_mset [of "swap xs i j" xs] by simp

lemma heap_inv_Nil [simp]: "heap_inv []"
  by (simp add: heap_inv_def heap_from_def)

definition up_pre :: "'a list \<Rightarrow> nat \<Rightarrow> bool" where
  "up_pre xs j \<longleftrightarrow> j < length xs \<and>
     (\<forall>c<length xs. 0 < c \<longrightarrow> c \<noteq> j \<longrightarrow> key (xs ! (par c)) \<le> key (xs ! c)) \<and>
     (\<forall>c<length xs. 0 < c \<longrightarrow> par c = j \<longrightarrow> 0 < j \<longrightarrow>
        key (xs ! (par j)) \<le> key (xs ! c))"

lemma up_pre_swap:
  assumes "up_pre xs j" and "0 < j" and "key (xs ! j) < key (xs ! (par j))"
  shows "up_pre (swap xs (par j) j) (par j)"
proof -
  let ?i = "par j"
  have ij: "?i < j" "j < length xs" using assms(1,2) by (auto simp: up_pre_def)
  have edge: "\<And>c. c < length xs \<Longrightarrow> 0 < c \<Longrightarrow> c \<noteq> j \<Longrightarrow> key (xs ! (par c)) \<le> key (xs ! c)"
    and grand: "\<And>c. c < length xs \<Longrightarrow> 0 < c \<Longrightarrow> par c = j \<Longrightarrow> key (xs ! ?i) \<le> key (xs ! c)"
    using assms(1,2) by (auto simp: up_pre_def)
  have n: "swap xs ?i j ! k = (if k = j then xs ! ?i else if k = ?i then xs ! j else xs ! k)" for k
    using ij by (simp add: nth_swap)
  show ?thesis
    unfolding up_pre_def
  proof (intro conjI allI impI)
    show "?i < length (swap xs ?i j)" using ij by simp
  next
    fix c assume c: "c < length (swap xs ?i j)" "0 < c" "c \<noteq> ?i"
    then show "key (swap xs ?i j ! (par c)) \<le> key (swap xs ?i j ! c)"
      using edge [of c] grand [of c] assms(3) by (cases "c = j") (auto simp: n intro: order_trans)
  next
    fix c assume c: "c < length (swap xs ?i j)" "0 < c" "par c = ?i" "0 < ?i"
    then have "key (xs ! (par ?i)) \<le> key (xs ! ?i)" using edge [of ?i] ij by auto
    moreover have "par ?i \<noteq> j" "par ?i \<noteq> ?i" using c(4) ij par_less [of ?i] by linarith+
    ultimately show "key (swap xs ?i j ! (par ?i)) \<le> key (swap xs ?i j ! c)"
      using c edge [of c] by (cases "c = j") (auto simp: n intro: order_trans)
  qed
qed

lemma up_heap: "good_list xs \<Longrightarrow> up_pre xs j \<Longrightarrow> heap_inv (up ls xs j)"
proof (induction j arbitrary: xs rule: less_induct)
  case (less j)
  let ?i = "par j"
  have j: "j < length xs" "?i < length xs" using less.prems(2) le_less_trans [OF par_le] by (auto simp: up_pre_def)
  then have g: "ls (xs ! j) (xs ! ?i) \<longleftrightarrow> key (xs ! j) < key (xs ! ?i)"
    using less.prems(1) by (intro ls_key) (auto intro: good_list_nth)
  show ?case
  proof (cases "?i = j \<or> \<not> ls (xs ! j) (xs ! ?i)")
    case True
    have "key (xs ! (par c)) \<le> key (xs ! c)" if "c < length xs" "0 < c" for c
      using that less.prems(2) True g by (cases "c = j") (auto simp: up_pre_def)
    with True show ?thesis by (subst up.simps) (simp add: heap_inv_def heap_from_def Let_def)
  next
    case False
    then have "0 < j" "?i < j" by (auto simp: le_neq_implies_less)
    with False g less.prems j show ?thesis
      by (subst up.simps) (simp add: Let_def less.IH up_pre_swap good_list_swap)
  qed
qed

lemma heap_push_inv:
  assumes "good_list xs" and "good x" and "heap_inv xs"
  shows "heap_inv (heap_push ls xs x)"
proof -
  have "up_pre (xs @ [x]) (length xs)"
    using assms(3) by (auto simp: up_pre_def heap_inv_def heap_from_def nth_append not_less)
  moreover have "good_list (xs @ [x])" using assms(1,2) by (simp add: good_list_def)
  ultimately show ?thesis by (simp add: heap_push_def up_heap)
qed

definition down_pre :: "nat \<Rightarrow> nat \<Rightarrow> 'a list \<Rightarrow> nat \<Rightarrow> bool" where
  "down_pre k n xs i \<longleftrightarrow> k \<le> i \<and> n \<le> length xs \<and>
     (\<forall>c<n. 0 < c \<longrightarrow> k \<le> par c \<longrightarrow> par c \<noteq> i \<longrightarrow> key (xs ! par c) \<le> key (xs ! c)) \<and>
     (\<forall>c<n. 0 < c \<longrightarrow> par c = i \<longrightarrow> 0 < i \<longrightarrow> k \<le> par i \<longrightarrow> key (xs ! par i) \<le> key (xs ! c))"

lemma down_pre_swap:
  assumes pre: "down_pre k n xs i" and j: "j < n" "0 < j" "par j = i"
    and lt: "key (xs ! j) < key (xs ! i)"
    and least: "\<And>c. c < n \<Longrightarrow> 0 < c \<Longrightarrow> par c = i \<Longrightarrow> key (xs ! j) \<le> key (xs ! c)"
  shows "down_pre k n (swap xs i j) j"
proof -
  have edge: "\<And>c. c < n \<Longrightarrow> 0 < c \<Longrightarrow> k \<le> par c \<Longrightarrow> par c \<noteq> i \<Longrightarrow> key (xs ! par c) \<le> key (xs ! c)"
    and grand: "0 < i \<Longrightarrow> k \<le> par i \<Longrightarrow> key (xs ! par i) \<le> key (xs ! j)"
    and ki: "k \<le> i" and nl: "n \<le> length xs"
    using pre j by (auto simp: down_pre_def)
  have ij: "i < j" using j by auto
  have n: "swap xs i j ! m = (if m = j then xs ! i else if m = i then xs ! j else xs ! m)" for m
    using ij j nl by (simp add: nth_swap)
  show ?thesis
    unfolding down_pre_def
  proof (intro conjI allI impI)
    show "k \<le> j" "n \<le> length (swap xs i j)" using ki ij nl by auto
  next
    fix c assume c: "c < n" "0 < c" "k \<le> par c" "par c \<noteq> j"
    then show "key (swap xs i j ! par c) \<le> key (swap xs i j ! c)"
      using edge [of c] least [of c] grand lt j ij by (cases "par c = i"; cases "c = i") (auto simp: n)
  next
    fix c assume c: "c < n" "0 < c" "par c = j" "0 < j" "k \<le> par j"
    then have "j < c" using par_less by blast
    with c show "key (swap xs i j ! par j) \<le> key (swap xs i j ! c)"
      using edge [of c] ij j ki by (auto simp: n)
  qed
qed

lemma down_heap: "good_list xs \<Longrightarrow> down_pre k n xs i \<Longrightarrow> heap_from k n (down ls xs i n)"
proof (induction "n - i" arbitrary: xs i rule: less_induct)
  case less
  let ?j1 = "2 * i + 1" and ?j2 = "2 * i + 1 + 1"
  define j where "j = (if ?j2 < n \<and> ls (xs ! ?j2) (xs ! ?j1) then ?j2 else ?j1)"
  have nl: "n \<le> length xs" using less.prems(2) by (simp add: down_pre_def)
  have cmp: "ls (xs ! a) (xs ! b) \<longleftrightarrow> key (xs ! a) < key (xs ! b)" if "a < n" "b < n" for a b
    using that nl less.prems(1) by (intro ls_key) (auto intro: good_list_nth)
  show ?case
  proof (cases "n \<le> ?j1")
    case True
    then have "par c \<noteq> i" if "c < n" "0 < c" for c using that by (auto simp: par_child)
    with less.prems(2) True show ?thesis
      by (subst down.simps) (auto simp: heap_from_def down_pre_def)
  next
    case False
    then have j: "j < n" "0 < j" "par j = i" "i < j" by (auto simp: j_def par_def)
    have least: "key (xs ! j) \<le> key (xs ! c)" if "c < n" "0 < c" "par c = i" for c
      using that False cmp by (auto simp: par_child j_def)
    have unf: "down ls xs i n = (if \<not> ls (xs ! j) (xs ! i) then xs else down ls (swap xs i j) j n)"
      unfolding down.simps [of ls xs i n] Let_def j_def [symmetric] using False by simp
    show ?thesis
    proof (cases "ls (xs ! j) (xs ! i)")
      case True
      have "heap_from k n (down ls (swap xs i j) j n)"
        using True less.prems j nl cmp least
        by (intro less.hyps down_pre_swap good_list_swap) (auto simp: diff_less_mono2)
      with True show ?thesis by (simp add: unf)
    next
      case stop: False
      have "key (xs ! par c) \<le> key (xs ! c)" if "c < n" "0 < c" "k \<le> par c" for c
        using that less.prems(2) stop cmp [of j i] j least [of c]
        by (cases "par c = i") (auto simp: down_pre_def)
      with stop show ?thesis by (simp add: unf heap_from_def)
    qed
  qed
qed

lemma heap_root_min: "heap_inv xs \<Longrightarrow> i < length xs \<Longrightarrow> key (xs ! 0) \<le> key (xs ! i)"
proof (induction i rule: less_induct)
  case (less i)
  show ?case
  proof (cases "i = 0")
    case False
    then have "par i < i" by simp
    with less have "key (xs ! 0) \<le> key (xs ! par i)" by simp
    also have "\<dots> \<le> key (xs ! i)" using less.prems False by (simp add: heap_inv_def heap_from_def)
    finally show ?thesis .
  qed simp
qed

lemma heap_pop_inv:
  assumes "good_list xs" and "xs \<noteq> []" and "heap_inv xs" and "heap_pop ls xs = (x, ys)"
  shows "heap_inv ys" and "\<And>y. y \<in> set ys \<Longrightarrow> key x \<le> key y"
proof -
  let ?n = "length xs - 1"
  let ?s = "swap xs 0 ?n"
  have len: "0 < length xs" "?n < length xs" using assms(2) by auto
  have ys: "ys = take ?n (down ls ?s 0 ?n)" using assms(4) by (simp add: heap_pop_def Let_def)
  have "down_pre 0 ?n ?s 0"
    using assms(3) len by (auto simp: down_pre_def nth_swap heap_inv_def heap_from_def)
  then have "heap_from 0 ?n (down ls ?s 0 ?n)"
    using assms(1) len by (intro down_heap good_list_swap) auto
  then show "heap_inv ys"
    using len by (auto simp: ys heap_inv_def heap_from_def le_less_trans [OF par_le])
  fix y assume "y \<in> set ys"
  then have "y \<in> set xs" using heap_pop_mset(1) [OF assms(2,4)] by (metis insert_iff set_mset_add_mset_insert set_mset_mset)
  then obtain i where "i < length xs" "y = xs ! i" by (auto simp: in_set_conv_nth)
  then show "key x \<le> key y"
    using heap_root_min [OF assms(3)] heap_pop_mset(3) [OF assms(2,4)] by simp
qed

lemma heap_init_inv:
  assumes "good_list xs" shows "heap_inv (heap_init ls xs)"
proof -
  define F where "F = (\<lambda>m (h::'a list). fold (\<lambda>i h. down ls h i (length h)) (rev [0..<m]) h)"
  have "heap_from 0 (length h) (F m h)"
    if "good_list h" "heap_from m (length h) h" for m h
    using that
  proof (induction m arbitrary: h)
    case 0
    then show ?case by (simp add: F_def)
  next
    case (Suc m)
    let ?h = "down ls h m (length h)"
    have "down_pre m (length h) h m"
      using Suc.prems(2) by (auto simp: down_pre_def heap_from_def)
    then have "heap_from m (length ?h) ?h" using Suc.prems(1) by (simp add: down_heap)
    moreover have "good_list ?h" using Suc.prems(1) good_list_mset [OF mset_down, of "length h" h] by simp
    ultimately have "heap_from 0 (length ?h) (F m ?h)" by (intro Suc.IH)
    then show ?case by (simp add: F_def)
  qed
  moreover have "heap_from (length xs div 2) (length xs) xs"
    by (auto simp: heap_from_def par_def)
  ultimately have "heap_from 0 (length xs) (F (length xs div 2) xs)" using assms by blast
  then show ?thesis by (simp add: heap_inv_def) (simp add: F_def heap_init_def)
qed

lemma heap_pop_keys:
  assumes "good_list xs" and "xs \<noteq> []" and "heap_inv xs" and "heap_pop ls xs = (x, ys)"
  shows "sort (map key xs) = key x # sort (map key ys)"
proof -
  have "mset (key x # sort (map key ys)) = mset (map key xs)"
    using heap_pop_mset(1) [OF assms(2,4)] by simp
  moreover have "sorted (key x # sort (map key ys))"
    using heap_pop_inv(2) [OF assms] by simp
  ultimately show ?thesis by (metis properties_for_sort)
qed

end

subsection \<open>\<open>sort.Slice\<close>\<close>

text \<open>
  The library's sort is an insertion sort up to twelve elements and quicksort above; it fixes
  no order among equal elements. The model is the insertion sort: each element in turn moves
  towards the front while it is less than its neighbour. The accumulator is the sorted prefix
  in reverse.
\<close>

fun sink :: "('a \<Rightarrow> 'a \<Rightarrow> bool) \<Rightarrow> 'a \<Rightarrow> 'a list \<Rightarrow> 'a list" where
  "sink ls x [] = [x]"
| "sink ls x (y # ys) = (if ls x y then y # sink ls x ys else x # y # ys)"

definition sort_slice :: "('a \<Rightarrow> 'a \<Rightarrow> bool) \<Rightarrow> 'a list \<Rightarrow> 'a list" where
  "sort_slice ls xs = rev (fold (sink ls) xs [])"

lemma mset_sink [simp]: "mset (sink ls x ys) = add_mset x (mset ys)"
  by (induction ys) auto

lemma mset_sort_slice [simp]: "mset (sort_slice ls xs) = mset xs"
proof -
  have "mset (fold (sink ls) xs acc) = mset xs + mset acc" for acc
    by (induction xs arbitrary: acc) auto
  then show ?thesis by (simp add: sort_slice_def)
qed

context go_heap
begin

lemma sink_sorted:
  assumes "good x" and "good_list ys" and "sorted (rev (map key ys))"
  shows "sorted (rev (map key (sink ls x ys)))"
  using assms
proof (induction ys)
  case Nil
  then show ?case by simp
next
  case (Cons y ys)
  have set_sink: "set (sink ls x ys) = insert x (set ys)"
    using mset_sink [of ls x ys] by (metis set_mset_add_mset_insert set_mset_mset)
  from Cons.prems have y: "good y" "good_list ys" by (auto simp: good_list_def)
  show ?case
  proof (cases "ls x y")
    case True
    then have "key x < key y" using Cons.prems(1) y ls_key by blast
    with Cons y True show ?thesis by (auto simp: sorted_append set_sink)
  next
    case False
    then have "key y \<le> key x" using Cons.prems(1) y ls_key by force
    with Cons.prems False show ?thesis by (auto simp: sorted_append)
  qed
qed

lemma sort_slice_keys:
  assumes "good_list xs"
  shows "map key (sort_slice ls xs) = sort (map key xs)"
proof -
  have "sorted (rev (map key (fold (sink ls) xs acc)))"
    if "good_list xs" "good_list acc" "sorted (rev (map key acc))" for xs acc
    using that
  proof (induction xs arbitrary: acc)
    case Nil
    then show ?case by simp
  next
    case (Cons x xs)
    moreover have "good_list (sink ls x acc)"
      using Cons.prems good_list_mset [of "sink ls x acc" "x # acc"] by (simp add: good_list_def)
    ultimately show ?case by (simp add: sink_sorted good_list_def)
  qed
  then have "sorted (rev (map key (fold (sink ls) xs [])))"
    using assms by (simp add: good_list_def)
  then have "sorted (map key (sort_slice ls xs))" by (simp add: sort_slice_def rev_map)
  then show ?thesis by (rule sort_eqI) (metis mset_map mset_sort_slice)
qed

end

end
