(* ===== verification/GoFloat.thy ===== *)
theory GoFloat
  imports Prelude
begin

text \<open>
  Go's \<open>float32\<close> and \<open>float64\<close> as their IEEE 754 bit patterns, with the comparison
  \<open><\<close> of the language: false as soon as one side is a NaN, and blind to the sign of a
  zero. Away from NaN a value is ordered by an integer key (sign and magnitude), which makes
  the comparison a linear preorder that the heap lemmas can use.
\<close>

type_synonym f32 = "32 word"
type_synonym f64 = "64 word"

definition f32_mag :: "f32 \<Rightarrow> nat" where
  "f32_mag b = unat b mod 2 ^ 31"

definition f32_neg :: "f32 \<Rightarrow> bool" where
  "f32_neg b \<longleftrightarrow> 2 ^ 31 \<le> unat b"

definition f32_nan :: "f32 \<Rightarrow> bool" where
  "f32_nan b \<longleftrightarrow> 0x7f800000 < f32_mag b"

definition f32_key :: "f32 \<Rightarrow> int" where
  "f32_key b = (if f32_neg b then - int (f32_mag b) else int (f32_mag b))"

definition f32_lt :: "f32 \<Rightarrow> f32 \<Rightarrow> bool" where
  "f32_lt a b \<longleftrightarrow> \<not> f32_nan a \<and> \<not> f32_nan b \<and> f32_key a < f32_key b"

lemma f32_lt_key: "\<not> f32_nan a \<Longrightarrow> \<not> f32_nan b \<Longrightarrow> f32_lt a b \<longleftrightarrow> f32_key a < f32_key b"
  by (simp add: f32_lt_def)

lemma f32_lt_nan [simp]: "f32_nan a \<Longrightarrow> \<not> f32_lt a b" "f32_nan b \<Longrightarrow> \<not> f32_lt a b"
  by (simp_all add: f32_lt_def)

lemma f32_lt_irrefl [simp]: "\<not> f32_lt a a"
  by (simp add: f32_lt_def)

lemma f32_lt_trans: "f32_lt a b \<Longrightarrow> f32_lt b c \<Longrightarrow> f32_lt a c"
  by (simp add: f32_lt_def)

subsection \<open>Values and rounding\<close>

text \<open>
  A binary format has \<open>eb\<close> exponent and \<open>mb\<close> significand bits; its bit patterns are
  natural numbers below \<open>2 ^ (1 + eb + mb)\<close>. A finite value is a sign, a natural number
  and a power of two. \<open>fp_round\<close> is the rounding of the language (to nearest, ties to even,
  overflow to infinity) of the value \<open>m * 2 powi e\<close>; with \<open>sticky\<close> the value lies
  strictly between \<open>m\<close> and \<open>m + 1\<close>.
\<close>

datatype fpval = FNaN | FInf bool | FFin bool nat int

definition fp_bias :: "nat \<Rightarrow> int" where
  "fp_bias eb = 2 ^ (eb - 1) - 1"

definition fp_emin :: "nat \<Rightarrow> nat \<Rightarrow> int" where
  "fp_emin eb mb = 1 - fp_bias eb - int mb"

definition fp_decode :: "nat \<Rightarrow> nat \<Rightarrow> nat \<Rightarrow> fpval" where
  "fp_decode eb mb n =
     (let s = odd (n div 2 ^ (eb + mb)); e = (n div 2 ^ mb) mod 2 ^ eb; m = n mod 2 ^ mb in
      if e = 2 ^ eb - 1 then (if m = 0 then FInf s else FNaN)
      else if e = 0 then FFin s m (fp_emin eb mb)
      else FFin s (m + 2 ^ mb) (int e - 1 + fp_emin eb mb))"

fun bitlen :: "nat \<Rightarrow> nat" where
  "bitlen n = (if n = 0 then 0 else Suc (bitlen (n div 2)))"

declare bitlen.simps [simp del]

lemma bitlen_eval [simp]:
  "bitlen 0 = 0" "bitlen (Suc 0) = 1" "bitlen (numeral num.One) = 1"
  "bitlen (numeral (num.Bit0 n)) = Suc (bitlen (numeral n))"
  "bitlen (numeral (num.Bit1 n)) = Suc (bitlen (numeral n))"
  by (subst bitlen.simps, simp)+

definition fp_sign_bit :: "nat \<Rightarrow> nat \<Rightarrow> bool \<Rightarrow> nat" where
  "fp_sign_bit eb mb s = (if s then 2 ^ (eb + mb) else 0)"

definition round_even :: "nat \<Rightarrow> nat \<Rightarrow> bool \<Rightarrow> nat" where
  "round_even m k sticky =
     (let d = m div 2 ^ k; r = m mod 2 ^ k; h = 2 ^ k div 2 in
      if k \<noteq> 0 \<and> (h < r \<or> r = h \<and> (sticky \<or> odd d)) then d + 1 else d)"

definition fp_round :: "nat \<Rightarrow> nat \<Rightarrow> bool \<Rightarrow> nat \<Rightarrow> int \<Rightarrow> bool \<Rightarrow> nat" where
  "fp_round eb mb s m e sticky =
     (let q = max (fp_emin eb mb) (e + int (bitlen m) - int (mb + 1));
          d = (if q \<le> e then m * 2 ^ nat (e - q) else round_even m (nat (q - e)) sticky);
          c = nat (q - fp_emin eb mb) * 2 ^ mb + d in
      fp_sign_bit eb mb s +
      (if m = 0 then 0 else if (2 ^ eb - 1) * 2 ^ mb \<le> c then (2 ^ eb - 1) * 2 ^ mb else c))"

definition fp_convert :: "nat \<Rightarrow> nat \<Rightarrow> nat \<Rightarrow> nat \<Rightarrow> nat \<Rightarrow> nat" where
  "fp_convert eb mb eb' mb' n =
     (case fp_decode eb mb n of
        FNaN \<Rightarrow> (2 ^ eb' - 1) * 2 ^ mb' + 2 ^ (mb' - 1)
      | FInf s \<Rightarrow> fp_sign_bit eb' mb' s + (2 ^ eb' - 1) * 2 ^ mb'
      | FFin s m e \<Rightarrow> fp_round eb' mb' s m e False)"

text \<open>\<open>float64(x)\<close> of a \<open>float32\<close> (exact) and of an \<open>int64\<close> (rounded).\<close>

definition f32_to_f64 :: "f32 \<Rightarrow> f64" where
  "f32_to_f64 b = word_of_nat (fp_convert 8 23 11 52 (unat b))"

definition f64_to_f32 :: "f64 \<Rightarrow> f32" where
  "f64_to_f32 b = word_of_nat (fp_convert 11 52 8 23 (unat b))"

definition int_to_f64 :: "int \<Rightarrow> f64" where
  "int_to_f64 i = word_of_nat (fp_round 11 52 (i < 0) (nat \<bar>i\<bar>) 0 False)"

text \<open>
  \<open>int64(v)\<close> of a \<open>float64\<close> truncates towards zero; out of range (and for NaN) the
  conversion of amd64 gives the least \<open>int64\<close>.
\<close>

definition f64_to_i64 :: "f64 \<Rightarrow> i64" where
  "f64_to_i64 b =
     (case fp_decode 11 52 (unat b) of
        FFin s m e \<Rightarrow>
          (let a = int (if 0 \<le> e then m * 2 ^ nat e else m div 2 ^ nat (- e));
               v = (if s then - a else a) in
           if - (2 ^ 63) \<le> v \<and> v < 2 ^ 63 then word_of_int v else 0x8000000000000000)
      | _ \<Rightarrow> 0x8000000000000000)"

lemmas fp_eval = f32_to_f64_def f64_to_f32_def int_to_f64_def f64_to_i64_def fp_convert_def
  fp_decode_def fp_round_def fp_emin_def fp_bias_def fp_sign_bit_def round_even_def Let_def

definition f64_mag :: "f64 \<Rightarrow> nat" where
  "f64_mag b = unat b mod 2 ^ 63"

definition f64_nan :: "f64 \<Rightarrow> bool" where
  "f64_nan b \<longleftrightarrow> 0x7ff0000000000000 < f64_mag b"

definition f64_key :: "f64 \<Rightarrow> int" where
  "f64_key b = (if 2 ^ 63 \<le> unat b then - int (f64_mag b) else int (f64_mag b))"

definition f64_lt :: "f64 \<Rightarrow> f64 \<Rightarrow> bool" where
  "f64_lt a b \<longleftrightarrow> \<not> f64_nan a \<and> \<not> f64_nan b \<and> f64_key a < f64_key b"

definition f64_eq :: "f64 \<Rightarrow> f64 \<Rightarrow> bool" where
  "f64_eq a b \<longleftrightarrow> \<not> f64_nan a \<and> \<not> f64_nan b \<and> f64_key a = f64_key b"

definition f32_eq :: "f32 \<Rightarrow> f32 \<Rightarrow> bool" where
  "f32_eq a b \<longleftrightarrow> \<not> f32_nan a \<and> \<not> f32_nan b \<and> f32_key a = f32_key b"

lemma f64_eq_refl [simp]: "\<not> f64_nan a \<Longrightarrow> f64_eq a a"
  by (simp add: f64_eq_def)

lemma f64_trichotomy: "\<not> f64_nan a \<Longrightarrow> \<not> f64_nan b \<Longrightarrow> \<not> f64_lt a b \<Longrightarrow> \<not> f64_lt b a \<Longrightarrow> f64_eq a b"
  by (simp add: f64_lt_def f64_eq_def)

text \<open>Fields of a word that do not overlap.\<close>

lemma or_disjoint_add: assumes "(a::nat) < 2 ^ k" "2 ^ k dvd b" shows "or b a = b + a" "or a b = b + a"
proof -
  have "a = take_bit k a" "b = push_bit k (drop_bit k b)"
    using assms by (simp_all add: take_bit_nat_eq_self push_bit_eq_mult drop_bit_eq_div)
  then have "\<not> bit b n \<or> \<not> bit a n" for n
    by (metis bit_push_bit_iff_nat bit_take_bit_iff not_le)
  then show "or b a = b + a" by (intro disjunctive_add [symmetric]) blast
  then show "or a b = b + a" by (simp add: or.commute)
qed

end
