(* ===== verification/PriorityQueue.thy ===== *)
theory PriorityQueue
  imports GoHeap GoFloat
begin

text \<open>
  The priority queues of coltt. \<open>edge/priorityqueue/priority_queue.go\<close> (of which
  \<open>core/vectorindex/priority_queue.go\<close> is a copy) wraps \<open>container/heap\<close> on slices of
  items ordered by a \<open>float32\<close>, in a min and a max variant. \<open>edge/priority_queue.go\<close>
  builds on it the bounded queue that collects the hits of a search.
\<close>

subsection \<open>Items, queues and their two orders\<close>

record 'v PriorityQueueItem =
  priority :: f32
  itemval :: 'v

datatype queueType = MinPriorityQueue | MaxPriorityQueue

record 'v priorityQueue =
  qtype :: queueType
  queue :: "'v PriorityQueueItem list"

definition NewPriorityQueueItem :: "f32 \<Rightarrow> 'v \<Rightarrow> 'v PriorityQueueItem" where
  "NewPriorityQueueItem p v = \<lparr>priority = p, itemval = v\<rparr>"

definition minLess :: "'v PriorityQueueItem \<Rightarrow> 'v PriorityQueueItem \<Rightarrow> bool" where
  "minLess a b \<longleftrightarrow> f32_lt (priority a) (priority b)"

definition maxLess :: "'v PriorityQueueItem \<Rightarrow> 'v PriorityQueueItem \<Rightarrow> bool" where
  "maxLess a b \<longleftrightarrow> f32_lt (priority b) (priority a)"

fun pqLess :: "queueType \<Rightarrow> 'v PriorityQueueItem \<Rightarrow> 'v PriorityQueueItem \<Rightarrow> bool" where
  "pqLess MinPriorityQueue = minLess"
| "pqLess MaxPriorityQueue = maxLess"

text \<open>The key that a queue of each type pops the least of.\<close>

fun pqKey :: "queueType \<Rightarrow> 'v PriorityQueueItem \<Rightarrow> int" where
  "pqKey MinPriorityQueue i = f32_key (priority i)"
| "pqKey MaxPriorityQueue i = - f32_key (priority i)"

definition no_nan :: "'v PriorityQueueItem \<Rightarrow> bool" where
  "no_nan i \<longleftrightarrow> \<not> f32_nan (priority i)"

interpretation pqh: go_heap "pqLess t" "pqKey t" no_nan for t
  by unfold_locales (cases t; simp add: minLess_def maxLess_def no_nan_def f32_lt_key)

subsection \<open>Operations\<close>

definition pqLen :: "'v priorityQueue \<Rightarrow> nat" where
  "pqLen pq = length (queue pq)"

definition pqPush :: "'v PriorityQueueItem \<Rightarrow> 'v priorityQueue \<Rightarrow> 'v priorityQueue" where
  "pqPush item pq = pq\<lparr>queue := heap_push (pqLess (qtype pq)) (queue pq) item\<rparr>"

definition pqPop :: "'v priorityQueue \<Rightarrow> 'v priorityQueue \<times> 'v PriorityQueueItem gores" where
  "pqPop pq =
     (if pqLen pq = 0 then (pq, Panic ''Empty priority queue'')
      else let (item, rest) = heap_pop (pqLess (qtype pq)) (queue pq) in
           (pq\<lparr>queue := rest\<rparr>, Ok item))"

definition pqToSlice :: "'v priorityQueue \<Rightarrow> 'v PriorityQueueItem list" where
  "pqToSlice pq = queue pq"

definition pqPeek :: "'v priorityQueue \<Rightarrow> 'v PriorityQueueItem gores" where
  "pqPeek pq =
     (if pqLen pq = 0 then Panic ''Empty priority queue'' else Ok (pqToSlice pq ! 0))"

definition initializePriorityQueue ::
    "queueType \<Rightarrow> 'v PriorityQueueItem list \<Rightarrow> 'v PriorityQueueItem list \<Rightarrow> 'v priorityQueue" where
  "initializePriorityQueue t q items =
     fold pqPush items \<lparr>qtype = t, queue = heap_init (pqLess t) q\<rparr>"

definition NewMinPriorityQueue :: "'v PriorityQueueItem list \<Rightarrow> 'v priorityQueue" where
  "NewMinPriorityQueue items = initializePriorityQueue MinPriorityQueue [] items"

definition NewMaxPriorityQueue :: "'v PriorityQueueItem list \<Rightarrow> 'v priorityQueue" where
  "NewMaxPriorityQueue items = initializePriorityQueue MaxPriorityQueue [] items"

fun otherType :: "queueType \<Rightarrow> queueType" where
  "otherType MinPriorityQueue = MaxPriorityQueue"
| "otherType MaxPriorityQueue = MinPriorityQueue"

text \<open>
  \<open>Reverse\<close> converts the slice header, so the new queue shares its backing array with the
  receiver and \<open>heap.Init\<close> permutes both. The pair is (receiver afterwards, new queue).
\<close>

definition pqReverse :: "'v priorityQueue \<Rightarrow> 'v priorityQueue \<times> 'v priorityQueue" where
  "pqReverse pq =
     (let r = initializePriorityQueue (otherType (qtype pq)) (queue pq) [] in
      (pq\<lparr>queue := queue r\<rparr>, r))"

text \<open>\<open>ToIterator\<close>: the items its goroutine sends over the channel before closing it.\<close>

function pqToIterator :: "'v priorityQueue \<Rightarrow> 'v PriorityQueueItem list" where
  "pqToIterator pq =
     (if pqLen pq = 0 then []
      else case pqPop pq of
             (pq', Ok item) \<Rightarrow> item # pqToIterator pq'
           | (pq', _) \<Rightarrow> [])"
  by pat_completeness auto
termination
proof (relation "measure pqLen", simp, goal_cases)
  case (1 pq pq' r item)
  obtain x ys where p: "heap_pop (pqLess (qtype pq)) (queue pq) = (x, ys)" by fastforce
  have "queue pq \<noteq> []" using 1 by (simp add: pqLen_def)
  from heap_pop_mset(2) [OF this p] 1 p show ?case
    by (auto simp: pqPop_def pqLen_def split: if_splits)
qed

declare pqToIterator.simps [simp del]

definition pqValues :: "'v priorityQueue \<Rightarrow> 'v list" where
  "pqValues pq = map itemval (pqToSlice pq)"

subsection \<open>The invariant and the contract\<close>

definition pq_ok :: "'v priorityQueue \<Rightarrow> bool" where
  "pq_ok pq \<longleftrightarrow> (\<forall>i \<in> set (queue pq). no_nan i) \<and> go_heap.heap_inv (pqKey (qtype pq)) (queue pq)"

lemma pq_okD: "pq_ok pq \<Longrightarrow> pqh.good_list (queue pq)" "pq_ok pq \<Longrightarrow> pqh.heap_inv (qtype pq) (queue pq)"
  by (simp_all add: pq_ok_def pqh.good_list_def)

lemma pq_ok_push [intro]: "pq_ok pq \<Longrightarrow> no_nan item \<Longrightarrow> pq_ok (pqPush item pq)"
proof -
  assume a: "pq_ok pq" "no_nan item"
  have "set (queue (pqPush item pq)) = insert item (set (queue pq))"
    by (metis mset_heap_push pqPush_def priorityQueue.select_convs(2) priorityQueue.surjective
        priorityQueue.update_convs(2) set_mset_add_mset_insert set_mset_mset)
  with a show ?thesis
    by (auto simp: pq_ok_def pqPush_def pqh.good_list_def intro!: pqh.heap_push_inv)
qed

lemma pqPop_Ok:
  assumes "pq_ok pq" and "queue pq \<noteq> []"
  obtains x pq' where "pqPop pq = (pq', Ok x)" "pq_ok pq'" "qtype pq' = qtype pq"
    "mset (queue pq) = add_mset x (mset (queue pq'))"
    "sort (map (pqKey (qtype pq)) (queue pq)) =
       pqKey (qtype pq) x # sort (map (pqKey (qtype pq)) (queue pq'))"
proof -
  obtain x ys where p: "heap_pop (pqLess (qtype pq)) (queue pq) = (x, ys)" by fastforce
  note m = heap_pop_mset(1) [OF assms(2) p]
  have "set ys \<subseteq> set (queue pq)" by (metis m set_mset_add_mset_insert set_mset_mset subset_insertI)
  then have "pq_ok (pq\<lparr>queue := ys\<rparr>)"
    using pqh.heap_pop_inv(1) [OF pq_okD(1) assms(2) pq_okD(2) p] assms(1)
    by (auto simp: pq_ok_def)
  moreover have "pqPop pq = (pq\<lparr>queue := ys\<rparr>, Ok x)"
    using assms(2) p by (simp add: pqPop_def pqLen_def)
  ultimately show thesis
    using that [of "pq\<lparr>queue := ys\<rparr>" x] m
      pqh.heap_pop_keys [OF pq_okD(1) assms(2) pq_okD(2) p] assms(1) by simp
qed

lemma pq_ok_init:
  "(\<And>i. i \<in> set q \<union> set items \<Longrightarrow> no_nan i) \<Longrightarrow> pq_ok (initializePriorityQueue t q items)"
proof -
  assume a: "\<And>i. i \<in> set q \<union> set items \<Longrightarrow> no_nan i"
  have "pq_ok \<lparr>qtype = t, queue = heap_init (pqLess t) q\<rparr>"
    using a pqh.heap_init_inv [of q t]
    by (auto simp: pq_ok_def pqh.good_list_def) (metis UnCI mset_heap_init set_mset_mset)
  moreover have "pq_ok (fold pqPush items pq)" if "pq_ok pq" "\<forall>i \<in> set items. no_nan i" for pq
    using that by (induction items arbitrary: pq) auto
  ultimately show ?thesis using a by (simp add: initializePriorityQueue_def)
qed

lemma qtype_push [simp]: "qtype (pqPush item pq) = qtype pq"
  by (simp add: pqPush_def)

lemma mset_push [simp]: "mset (queue (pqPush item pq)) = add_mset item (mset (queue pq))"
  by (simp add: pqPush_def)

lemma init_content [simp]:
  "qtype (initializePriorityQueue t q items) = t"
  "mset (queue (initializePriorityQueue t q items)) = mset q + mset items"
proof -
  have "qtype (fold pqPush items pq) = qtype pq \<and>
      mset (queue (fold pqPush items pq)) = mset (queue pq) + mset items" for pq
    by (induction items arbitrary: pq) auto
  then show "qtype (initializePriorityQueue t q items) = t"
    and "mset (queue (initializePriorityQueue t q items)) = mset q + mset items"
    by (simp_all add: initializePriorityQueue_def)
qed

lemma ToIterator_sorts:
  "pq_ok pq \<Longrightarrow> mset (pqToIterator pq) = mset (queue pq) \<and>
    map (pqKey (qtype pq)) (pqToIterator pq) = sort (map (pqKey (qtype pq)) (queue pq))"
proof (induction pq rule: pqToIterator.induct)
  case (1 pq)
  show ?case
  proof (cases "queue pq = []")
    case True
    then show ?thesis by (subst (1 2) pqToIterator.simps) (simp add: pqLen_def)
  next
    case False
    obtain x pq' where p: "pqPop pq = (pq', Ok x)" "pq_ok pq'" "qtype pq' = qtype pq"
      "mset (queue pq) = add_mset x (mset (queue pq'))"
      "sort (map (pqKey (qtype pq)) (queue pq)) =
         pqKey (qtype pq) x # sort (map (pqKey (qtype pq)) (queue pq'))"
      using pqPop_Ok [OF "1.prems" False] by metis
    moreover have "pqToIterator pq = x # pqToIterator pq'"
      using False p(1) by (subst pqToIterator.simps) (simp add: pqLen_def)
    moreover have "mset (pqToIterator pq') = mset (queue pq') \<and>
        map (pqKey (qtype pq')) (pqToIterator pq') = sort (map (pqKey (qtype pq')) (queue pq'))"
      using "1.IH" [of "pq'" "Ok x" x] False p(1,2) by (simp add: pqLen_def)
    ultimately show ?thesis by simp
  qed
qed

subsection \<open>The bounded queue of \<open>edge/priority_queue.go\<close>\<close>

record 'm SearchResultItem =
  Id :: u64
  itemMetadata :: 'm
  Score :: f32

record 'm PriorityQueue =
  pqueue :: "'m SearchResultItem priorityQueue"
  maxSize :: int

definition NewPriorityQueue :: "int \<Rightarrow> 'm PriorityQueue" where
  "NewPriorityQueue n = \<lparr>pqueue = NewMinPriorityQueue [], maxSize = n\<rparr>"

definition pqAdd :: "'m SearchResultItem \<Rightarrow> 'm PriorityQueue \<Rightarrow> 'm PriorityQueue" where
  "pqAdd item pq =
     (let q = pqPush (NewPriorityQueueItem (Score item) item) (pqueue pq) in
      if maxSize pq < int (pqLen q) then pq\<lparr>pqueue := fst (pqPop q)\<rparr> else pq\<lparr>pqueue := q\<rparr>)"

definition edgeToSlice :: "'m PriorityQueue \<Rightarrow> 'm SearchResultItem list" where
  "edgeToSlice pq =
     sort_slice (\<lambda>a b. f32_lt (Score a) (Score b)) (map itemval (pqToSlice (pqueue pq)))"

definition edgeLen :: "'m PriorityQueue \<Rightarrow> nat" where
  "edgeLen pq = pqLen (pqueue pq)"

definition score_key :: "'m SearchResultItem \<Rightarrow> int" where
  "score_key i = f32_key (Score i)"

interpretation score_order: go_heap "\<lambda>a b. f32_lt (Score a) (Score b)" score_key
    "\<lambda>i. \<not> f32_nan (Score i)"
  by unfold_locales (simp add: score_key_def f32_lt_key)

text \<open>The \<open>n\<close> largest of a list of keys, in ascending order.\<close>

definition largest :: "nat \<Rightarrow> int list \<Rightarrow> int list" where
  "largest n ks = drop (length ks - n) (sort ks)"

lemma drop_insort:
  "sorted ks \<Longrightarrow> d \<le> length ks \<Longrightarrow> drop (Suc d) (insort k ks) = tl (insort k (drop d ks))"
  for k :: int
proof (induction ks arbitrary: d)
  case Nil
  then show ?case by simp
next
  case (Cons y ks)
  show ?case
  proof (cases d)
    case 0
    then show ?thesis by (simp add: drop_Suc)
  next
    case (Suc d')
    have "insort k (drop d' ks) = k # drop d' ks" if "k \<le> y"
      using that Cons.prems(1) by (intro insort_is_Cons) (force dest: in_set_dropD)
    with Cons Suc show ?thesis by auto
  qed
qed

lemma largest_Cons:
  "largest n (k # ks) =
     (let s = insort k (largest n ks) in if n < length s then tl s else s)"
proof (cases "n \<le> length ks")
  case True
  then show ?thesis
    using drop_insort [of "sort ks" "length ks - n" k]
    by (simp add: largest_def Let_def Suc_diff_le)
next
  case False
  then show ?thesis by (simp add: largest_def Let_def)
qed

definition bounded_ok :: "'m PriorityQueue \<Rightarrow> bool" where
  "bounded_ok pq \<longleftrightarrow> pq_ok (pqueue pq) \<and> qtype (pqueue pq) = MinPriorityQueue \<and>
     (\<forall>i \<in> set (queue (pqueue pq)). priority i = Score (itemval i))"

definition kept_keys :: "'m PriorityQueue \<Rightarrow> int list" where
  "kept_keys pq = sort (map (\<lambda>i. score_key (itemval i)) (queue (pqueue pq)))"

lemma bounded_keys: "bounded_ok pq \<Longrightarrow>
   sort (map (pqKey MinPriorityQueue) (queue (pqueue pq))) = kept_keys pq"
  by (auto simp: bounded_ok_def kept_keys_def score_key_def intro!: arg_cong [where f = sort])

lemma NewPriorityQueue_ok [simp]:
  "bounded_ok (NewPriorityQueue n)" "kept_keys (NewPriorityQueue n) = []"
  "maxSize (NewPriorityQueue n) = n" "queue (pqueue (NewPriorityQueue n)) = []"
  by (simp_all add: bounded_ok_def kept_keys_def NewPriorityQueue_def NewMinPriorityQueue_def
      initializePriorityQueue_def heap_init_def pq_ok_def)

lemma maxSize_pqAdd [simp]: "maxSize (pqAdd item pq) = maxSize pq"
  by (simp add: pqAdd_def Let_def)

lemma pqAdd_step:
  assumes "bounded_ok pq" and "\<not> f32_nan (Score item)"
  shows "bounded_ok (pqAdd item pq)"
    and "kept_keys (pqAdd item pq) =
      (let s = insort (score_key item) (kept_keys pq) in
       if maxSize pq < int (length s) then tl s else s)"
    and "image_mset itemval (mset (queue (pqueue (pqAdd item pq)))) \<subseteq>#
         add_mset item (image_mset itemval (mset (queue (pqueue pq))))"
proof -
  define q where "q = pqPush (NewPriorityQueueItem (Score item) item) (pqueue pq)"
  define pq1 where "pq1 = pq\<lparr>pqueue := q\<rparr>"
  have mq: "mset (queue q) = add_mset (NewPriorityQueueItem (Score item) item) (mset (queue (pqueue pq)))"
    by (simp add: q_def)
  have ok1: "bounded_ok pq1"
    using assms mq by (auto simp: bounded_ok_def pq1_def no_nan_def NewPriorityQueueItem_def q_def
        simp flip: set_mset_mset)
  have keys1: "kept_keys pq1 = insort (score_key item) (kept_keys pq)"
    unfolding kept_keys_def
    by (rule sym, rule sort_eqI) (simp_all add: pq1_def mq NewPriorityQueueItem_def sorted_insort)
  have len: "length (queue q) = Suc (length (queue (pqueue pq)))"
    using arg_cong [OF mq, of size] by simp
  then have lenk: "length (insort (score_key item) (kept_keys pq)) = length (queue q)"
    by (simp add: kept_keys_def)
  have img1: "image_mset itemval (mset (queue q)) = add_mset item (image_mset itemval (mset (queue (pqueue pq))))"
    by (simp add: mq NewPriorityQueueItem_def)
  have "bounded_ok (pqAdd item pq) \<and> kept_keys (pqAdd item pq) =
      (if maxSize pq < int (length (queue q)) then tl (kept_keys pq1) else kept_keys pq1) \<and>
      image_mset itemval (mset (queue (pqueue (pqAdd item pq)))) \<subseteq># image_mset itemval (mset (queue q))"
  proof (cases "maxSize pq < int (pqLen q)")
    case False
    then have "pqAdd item pq = pq1" by (simp add: pqAdd_def Let_def q_def [symmetric] pq1_def)
    with False ok1 show ?thesis by (simp add: pqLen_def pq1_def)
  next
    case True
    have okq: "pq_ok q" "queue q \<noteq> []" using ok1 len by (auto simp: bounded_ok_def pq1_def)
    obtain x q' where pop: "pqPop q = (q', Ok x)" "pq_ok q'" "qtype q' = qtype q"
      "mset (queue q) = add_mset x (mset (queue q'))"
      "sort (map (pqKey (qtype q)) (queue q)) = pqKey (qtype q) x # sort (map (pqKey (qtype q)) (queue q'))"
      by (rule pqPop_Ok [OF okq]) metis
    have add: "pqAdd item pq = pq\<lparr>pqueue := q'\<rparr>"
      using True pop(1) by (simp add: pqAdd_def Let_def q_def [symmetric])
    have "set (queue q') \<subseteq> set (queue q)"
      by (metis pop(4) set_mset_add_mset_insert set_mset_mset subset_insertI)
    then have ok2: "bounded_ok (pqAdd item pq)"
      using ok1 pop(2,3) by (auto simp: add bounded_ok_def pq1_def)
    have "kept_keys (pqAdd item pq) = tl (kept_keys pq1)"
      using pop(3,5) ok1 bounded_keys [OF ok1] bounded_keys [OF ok2]
      by (simp add: add pq1_def bounded_ok_def)
    with True ok2 pop(4) show ?thesis by (simp add: pqLen_def add)
  qed
  then show "bounded_ok (pqAdd item pq)"
    and "kept_keys (pqAdd item pq) = (let s = insort (score_key item) (kept_keys pq) in
       if maxSize pq < int (length s) then tl s else s)"
    and "image_mset itemval (mset (queue (pqueue (pqAdd item pq)))) \<subseteq>#
         add_mset item (image_mset itemval (mset (queue (pqueue pq))))"
    using keys1 lenk img1 by (simp_all add: Let_def)
qed

lemma fold_pqAdd:
  assumes "bounded_ok pq" and "kept_keys pq = largest (nat (maxSize pq)) ks"
    and "\<forall>i \<in> set items. \<not> f32_nan (Score i)"
  shows "bounded_ok (fold pqAdd items pq) \<and>
    kept_keys (fold pqAdd items pq) = largest (nat (maxSize pq)) (rev (map score_key items) @ ks) \<and>
    image_mset itemval (mset (queue (pqueue (fold pqAdd items pq)))) \<subseteq>#
      mset items + image_mset itemval (mset (queue (pqueue pq)))"
  using assms
proof (induction items arbitrary: pq ks)
  case Nil
  then show ?case by simp
next
  case (Cons item items)
  have step: "kept_keys (pqAdd item pq) = largest (nat (maxSize pq)) (score_key item # ks)"
  proof -
    have "kept_keys (pqAdd item pq) = (let s = insort (score_key item) (kept_keys pq) in
       if maxSize pq < int (length s) then tl s else s)"
      using Cons.prems by (intro pqAdd_step) auto
    also have "\<dots> = largest (nat (maxSize pq)) (score_key item # ks)"
    proof (cases "maxSize pq < 0")
      case True
      then show ?thesis by (simp add: Cons.prems(2) largest_Cons Let_def largest_def)
    next
      case False
      then show ?thesis by (simp add: Cons.prems(2) largest_Cons Let_def zless_nat_conj nat_less_iff)
    qed
    finally show ?thesis .
  qed
  have "bounded_ok (pqAdd item pq)" using Cons.prems by (intro pqAdd_step) auto
  from Cons.IH [OF this, of "score_key item # ks"] step Cons.prems
  have ih: "bounded_ok (fold pqAdd items (pqAdd item pq)) \<and>
    kept_keys (fold pqAdd items (pqAdd item pq)) =
      largest (nat (maxSize pq)) (rev (map score_key items) @ score_key item # ks) \<and>
    image_mset itemval (mset (queue (pqueue (fold pqAdd items (pqAdd item pq))))) \<subseteq>#
      mset items + image_mset itemval (mset (queue (pqueue (pqAdd item pq))))" by simp
  have "image_mset itemval (mset (queue (pqueue (pqAdd item pq)))) \<subseteq>#
         add_mset item (image_mset itemval (mset (queue (pqueue pq))))"
    using Cons.prems by (intro pqAdd_step) auto
  then have "mset items + image_mset itemval (mset (queue (pqueue (pqAdd item pq)))) \<subseteq>#
      mset items + add_mset item (image_mset itemval (mset (queue (pqueue pq))))" by simp
  with ih show ?case by (auto intro: subset_mset.order_trans)
qed

text \<open>The shape in which the searches use it: a fresh queue fed with the scored items.\<close>

lemma collected:
  fixes items :: "'m SearchResultItem list"
  assumes "\<forall>i \<in> set items. \<not> f32_nan (Score i)"
  shows "map score_key (edgeToSlice (fold pqAdd items (NewPriorityQueue k))) =
      largest (nat k) (map score_key items)"
    and "mset (edgeToSlice (fold pqAdd items (NewPriorityQueue k))) \<subseteq># mset items"
proof -
  let ?q = "fold pqAdd items (NewPriorityQueue k)"
  have "bounded_ok ?q \<and> kept_keys ?q = largest (nat k) (rev (map score_key items)) \<and>
      image_mset itemval (mset (queue (pqueue ?q))) \<subseteq># mset items"
    using fold_pqAdd [of "NewPriorityQueue k" "[]" items] assms by (simp add: largest_def)
  then have ok: "bounded_ok ?q" and kk: "kept_keys ?q = largest (nat k) (rev (map score_key items))"
    and sub: "image_mset itemval (mset (queue (pqueue ?q))) \<subseteq># mset items" by blast+
  show m: "mset (edgeToSlice ?q) \<subseteq># mset items"
    using sub by (simp add: edgeToSlice_def pqToSlice_def)
  have "set (map itemval (pqToSlice (pqueue ?q))) \<subseteq> set items"
    using set_mset_mono [OF sub] by (simp add: pqToSlice_def)
  then have "score_order.good_list (map itemval (pqToSlice (pqueue ?q)))"
    using assms by (auto simp: score_order.good_list_def)
  then have "map score_key (edgeToSlice ?q) = sort (map score_key (map itemval (pqToSlice (pqueue ?q))))"
    unfolding edgeToSlice_def by (rule score_order.sort_slice_keys)
  also have "\<dots> = kept_keys ?q" by (simp add: kept_keys_def pqToSlice_def o_def)
  also have "\<dots> = largest (nat k) (map score_key items)"
    by (simp add: kk largest_def sort_cong_mset [of "rev (map score_key items)" "map score_key items"])
  finally show "map score_key (edgeToSlice ?q) = largest (nat k) (map score_key items)" .
qed

subsection \<open>Collecting in parts\<close>

text \<open>
  The parallel searches collect each shard in a queue of its own and then add the survivors
  to one queue: the largest of the largest are the largest.
\<close>

lemma largest_mset_cong:
  assumes "mset ks = mset ls"
  shows "largest n ks = largest n ls"
  by (simp only: largest_def sort_cong_mset [OF assms] mset_eq_length [OF assms])

lemma largest_idem [simp]: "largest n (largest n ks) = largest n ks"
proof -
  have "sort (drop m (sort ks)) = drop m (sort ks)" for m
    by (intro sorted_sort_id sorted_wrt_drop) simp
  then show ?thesis by (simp add: largest_def)
qed

lemma largest_append_cong: "largest n ks = largest n ks' \<Longrightarrow> largest n (ls @ ks) = largest n (ls @ ks')"
  by (induction ls) (simp_all add: largest_Cons)

lemma largest_append: "largest n (largest n ks @ ls) = largest n (ks @ ls)"
proof -
  have "largest n (largest n ks @ ls) = largest n (ls @ largest n ks)"
    by (rule largest_mset_cong) simp
  also have "\<dots> = largest n (ls @ ks)" by (rule largest_append_cong) simp
  also have "\<dots> = largest n (ks @ ls)" by (rule largest_mset_cong) simp
  finally show ?thesis .
qed

lemma largest_concat: "largest n (concat (map (largest n) kss)) = largest n (concat kss)"
proof (induction kss)
  case Nil
  then show ?case by simp
next
  case (Cons ks kss)
  have "largest n (largest n ks @ concat (map (largest n) kss)) =
      largest n (ks @ concat (map (largest n) kss))" by (rule largest_append)
  also have "\<dots> = largest n (ks @ concat kss)" by (rule largest_append_cong) (rule Cons.IH)
  finally show ?case by simp
qed

subsection \<open>Statements\<close>

text \<open>
  C11: Whatever NaN-free hits are added, in whatever order, the bounded queue returns those with
  the \<open>k\<close> largest scores, in ascending order of score, and nothing that was not added.
\<close>

theorem bounded_queue_collects:
  "\<forall>i \<in> set items. \<not> f32_nan (Score i) \<Longrightarrow>
   map score_key (edgeToSlice (fold pqAdd items (NewPriorityQueue k))) =
     largest (nat k) (map score_key items) \<and>
   mset (edgeToSlice (fold pqAdd items (NewPriorityQueue k))) \<subseteq># mset items"
  using collected [of items k] by blast

lemma bounded_queue_collects_witness:
  "map score_key (edgeToSlice (fold pqAdd
     [\<lparr>Id = 1, itemMetadata = (), Score = 0x3f800000\<rparr>, \<lparr>Id = 2, itemMetadata = (), Score = 0x40000000\<rparr>]
     (NewPriorityQueue 1))) = [0x40000000]"
proof -
  let ?items = "[\<lparr>Id = 1, itemMetadata = (), Score = 0x3f800000\<rparr>,
     \<lparr>Id = 2, itemMetadata = (), Score = 0x40000000\<rparr>]"
  have k: "f32_key 0x3f800000 = 0x3f800000" "f32_key 0x40000000 = 0x40000000"
    "\<not> f32_nan 0x3f800000" "\<not> f32_nan 0x40000000"
    by (simp_all add: f32_key_def f32_neg_def f32_nan_def f32_mag_def)
  then have "\<forall>i \<in> set ?items. \<not> f32_nan (Score i)" by simp
  from bounded_queue_collects [OF this, of 1] show ?thesis
    by (simp add: score_key_def k largest_def)
qed

text \<open>
  C16: \<open>Pop\<close> of a queue in order returns the item \<open>Peek\<close> shows, which no other item precedes, and
  leaves the rest in order; \<open>ToIterator\<close> therefore sends all items in the order of the queue.
\<close>

theorem pop_peek_iterate:
  "pq_ok pq \<Longrightarrow> queue pq \<noteq> [] \<Longrightarrow>
   (\<exists>x pq'. pqPop pq = (pq', Ok x) \<and> pqPeek pq = Ok x \<and> pq_ok pq' \<and>
      mset (queue pq) = add_mset x (mset (queue pq')) \<and>
      (\<forall>y \<in> set (queue pq). pqKey (qtype pq) x \<le> pqKey (qtype pq) y)) \<and>
   mset (pqToIterator pq) = mset (queue pq) \<and>
   map (pqKey (qtype pq)) (pqToIterator pq) = sort (map (pqKey (qtype pq)) (queue pq))"
proof -
  assume ok: "pq_ok pq" and ne: "queue pq \<noteq> []"
  obtain x pq' where p: "pqPop pq = (pq', Ok x)" "pq_ok pq'" "qtype pq' = qtype pq"
    "mset (queue pq) = add_mset x (mset (queue pq'))"
    "sort (map (pqKey (qtype pq)) (queue pq)) =
       pqKey (qtype pq) x # sort (map (pqKey (qtype pq)) (queue pq'))"
    by (rule pqPop_Ok [OF ok ne]) metis
  obtain z ys where h: "heap_pop (pqLess (qtype pq)) (queue pq) = (z, ys)" by fastforce
  then have x: "x = queue pq ! 0"
    using heap_pop_mset(3) [OF ne h] p(1) ne by (simp add: pqPop_def pqLen_def)
  have "\<forall>y \<in> set (queue pq). pqKey (qtype pq) x \<le> pqKey (qtype pq) y"
    using pqh.heap_root_min [OF pq_okD(2) [OF ok]] x by (auto simp: in_set_conv_nth)
  moreover have "pqPeek pq = Ok x" using ne x by (simp add: pqPeek_def pqLen_def pqToSlice_def)
  ultimately show ?thesis using p ToIterator_sorts [OF ok] by auto
qed

lemma pop_peek_iterate_witness:
  "map priority (pqToIterator (NewMinPriorityQueue
     [NewPriorityQueueItem 0x40000000 (), NewPriorityQueueItem 0x3f800000 ()])) = [0x3f800000, 0x40000000]"
proof -
  let ?items = "[NewPriorityQueueItem 0x40000000 (), NewPriorityQueueItem 0x3f800000 ()]"
  let ?pq = "NewMinPriorityQueue ?items"
  have k: "f32_key 0x3f800000 = 0x3f800000" "f32_key 0x40000000 = 0x40000000"
    "\<not> f32_nan 0x3f800000" "\<not> f32_nan 0x40000000"
    by (simp_all add: f32_key_def f32_neg_def f32_nan_def f32_mag_def)
  have t: "qtype ?pq = MinPriorityQueue" and m: "mset (queue ?pq) = mset ?items"
    unfolding NewMinPriorityQueue_def by simp_all
  have ok: "pq_ok ?pq" unfolding NewMinPriorityQueue_def
    by (rule pq_ok_init) (auto simp: no_nan_def NewPriorityQueueItem_def k)
  have ne: "queue ?pq \<noteq> []" using m by auto
  have r: "mset (pqToIterator ?pq) = mset (queue ?pq)"
    "map (pqKey (qtype ?pq)) (pqToIterator ?pq) = sort (map (pqKey (qtype ?pq)) (queue ?pq))"
    using pop_peek_iterate [OF ok ne] by blast+
  have "mset (map (pqKey MinPriorityQueue) (queue ?pq)) = mset (map (pqKey MinPriorityQueue) ?items)"
    using m by (rule mset_eq_mapD)
  then have "map (pqKey MinPriorityQueue) (pqToIterator ?pq) =
      sort (map (pqKey MinPriorityQueue) ?items)"
    by (rule trans [OF r(2) [unfolded t] sort_cong_mset])
  moreover have "map (pqKey MinPriorityQueue) ?items = [0x40000000, 0x3f800000]"
    by (simp add: NewPriorityQueueItem_def k)
  moreover have "sort [0x40000000, 0x3f800000] = [0x3f800000, 0x40000000 :: int]" by simp
  ultimately have ks: "map (pqKey MinPriorityQueue) (pqToIterator ?pq) = [0x3f800000, 0x40000000]"
    by (simp only:)
  have "set (pqToIterator ?pq) = set ?items" using r(1) m by (metis set_mset_mset)
  moreover obtain L where L: "L = pqToIterator ?pq" by blast
  ultimately have sL: "set L = {NewPriorityQueueItem 0x40000000 (), NewPriorityQueueItem 0x3f800000 ()}"
    by simp
  have q: "priority i = 0x3f800000 \<and> pqKey MinPriorityQueue i = 0x3f800000 \<or>
      priority i = 0x40000000 \<and> pqKey MinPriorityQueue i = 0x40000000" if "i \<in> set L" for i
    using that unfolding sL by (auto simp: NewPriorityQueueItem_def k)
  obtain a b where ab: "L = [a, b]"
    "pqKey MinPriorityQueue a = 0x3f800000" "pqKey MinPriorityQueue b = 0x40000000"
    using ks unfolding map_eq_Cons_conv L [symmetric] by blast
  have "map priority L = [0x3f800000, 0x40000000]" using q [of a] q [of b] ab by auto
  then show ?thesis unfolding L .
qed

text \<open>
  C20: \<open>Reverse\<close> returns a queue of the other type, in its order, with the same items; the
  receiver shares the array and is left holding the same permutation of it.
\<close>

theorem reverse_reorders:
  "pq_ok pq \<Longrightarrow> pqReverse pq = (old, new) \<Longrightarrow>
   pq_ok new \<and> qtype new = otherType (qtype pq) \<and> mset (queue new) = mset (queue pq) \<and>
   queue old = queue new \<and> qtype old = qtype pq"
  using pq_ok_init [of "queue pq" "[]" "otherType (qtype pq)"]
  by (auto simp: pqReverse_def Let_def pq_ok_def)

text \<open>After \<open>Reverse\<close> the receiver need not be a heap: a min queue of 1 and 2 shows 2 first.\<close>

lemma reverse_breaks_receiver:
  "pqPeek (fst (pqReverse (NewMinPriorityQueue
     [NewPriorityQueueItem 0x3f800000 (), NewPriorityQueueItem 0x40000000 ()]))) =
   Ok (NewPriorityQueueItem 0x40000000 ())"
proof -
  let ?a = "NewPriorityQueueItem 0x3f800000 ()" and ?b = "NewPriorityQueueItem 0x40000000 ()"
  have k: "f32_key 0x3f800000 = 0x3f800000" "f32_key 0x40000000 = 0x40000000"
    "\<not> f32_nan 0x3f800000" "\<not> f32_nan 0x40000000"
    by (simp_all add: f32_key_def f32_neg_def f32_nan_def f32_mag_def)
  have l: "minLess ?b ?a = False" "maxLess ?b ?a = True"
    by (simp_all add: minLess_def maxLess_def f32_lt_def NewPriorityQueueItem_def k)
  have u: "up minLess [?a, ?b] 1 = [?a, ?b]" "up minLess [?a] 0 = [?a]"
    by (subst up.simps, simp add: par_def l)+
  have "queue (NewMinPriorityQueue [?a, ?b]) = [?a, ?b]"
    using u by (simp add: NewMinPriorityQueue_def initializePriorityQueue_def pqPush_def heap_push_def
        heap_init_def)
  moreover have "heap_init maxLess [?a, ?b] = [?b, ?a]"
    by (simp add: heap_init_def) (subst down.simps, simp add: l swap_def, subst down.simps, simp)
  moreover have "qtype (NewMinPriorityQueue [?a, ?b]) = MinPriorityQueue"
    by (simp add: NewMinPriorityQueue_def)
  ultimately show ?thesis
    by (simp add: pqReverse_def initializePriorityQueue_def pqPeek_def pqLen_def pqToSlice_def Let_def)
qed

lemma reverse_reorders_witness:
  "\<exists>new. pqReverse (NewMinPriorityQueue [NewPriorityQueueItem 0x3f800000 ()]) =
      (\<lparr>qtype = MinPriorityQueue, queue = queue new\<rparr>, new) \<and> pq_ok new"
proof -
  let ?pq = "NewMinPriorityQueue [NewPriorityQueueItem 0x3f800000 ()]"
  have "pq_ok ?pq" unfolding NewMinPriorityQueue_def
    by (rule pq_ok_init) (auto simp: no_nan_def NewPriorityQueueItem_def f32_nan_def f32_mag_def)
  moreover obtain old new where n: "pqReverse ?pq = (old, new)" by fastforce
  ultimately have r: "pq_ok new" "queue old = queue new" "qtype old = MinPriorityQueue"
    using reverse_reorders [of ?pq old new] by (auto simp: NewMinPriorityQueue_def)
  then have "old = \<lparr>qtype = MinPriorityQueue, queue = queue new\<rparr>" by (cases old) simp
  then show ?thesis using n r by blast
qed

end
