(* ===== verification/FloatCodec.thy ===== *)
theory FloatCodec
  imports GoFloat
begin

text \<open>
  The 16 and 8 bit float formats of \<open>pkg/compresshelper\<close> (\<open>float16.go\<close>, \<open>bf16.go\<close>,
  \<open>float8.go\<close>), which the quantizers of the edge package store vectors in. Each routine is
  the word program of the source; \<open>fp_convert\<close> of \<open>GoFloat\<close> is the reference it is compared
  with. The loop that normalises a subnormal is a partial function: \<open>None\<close> would be a loop that
  never ends, and the conversions are shown never to be \<open>None\<close>.
\<close>

unbundle bit_operations_syntax

subsection \<open>\<open>float16.go\<close>\<close>

datatype Precision = PrecisionExact | PrecisionUnknown | PrecisionInexact
  | PrecisionUnderflow | PrecisionOverflow

definition PrecisionFromfloat32 :: "f32 \<Rightarrow> Precision" where
  "PrecisionFromfloat32 u =
     (if u = 0 \<or> u = 0x80000000 then PrecisionExact
      else
        let e = drop_bit 23 (u AND 0x7f800000) - 127; coef = u AND 0x7fffff in
        if e = 128 then PrecisionExact
        else if e <s - 24 then PrecisionUnderflow
        else if 15 <s e then PrecisionOverflow
        else if coef AND drop_bit 10 0x7fffff \<noteq> 0 then PrecisionInexact
        else if e <s - 14 then PrecisionUnknown
        else PrecisionExact)"

partial_function (option) normalise :: "u32 \<Rightarrow> u32 \<Rightarrow> (u32 \<times> u32) option" where
  [code]: "normalise coef e =
     (if coef AND 0x7f800000 = 0 then normalise (push_bit 1 coef) (e - 1) else Some (coef, e))"

definition f16bitsToF32bits :: "u16 \<Rightarrow> u32 option" where
  "f16bitsToF32bits w =
     (let sgn = push_bit 16 (ucast (w AND 0x8000) :: u32);
          e = drop_bit 10 (ucast (w AND 0x7c00) :: u32);
          coef = push_bit 13 (ucast (w AND 0x03ff) :: u32) in
      if e = 0x1f then
        (if coef = 0 then Some (sgn OR 0x7f800000 OR coef) else Some (sgn OR 0x7fc00000 OR coef))
      else if e = 0 then
        (if coef = 0 then Some sgn
         else case normalise coef (e + 1) of
             None \<Rightarrow> None
           | Some (coef', e') \<Rightarrow>
               Some (sgn OR push_bit 23 (e' + (0x7f - 0xf)) OR (coef' AND 0x007fffff)))
      else Some (sgn OR push_bit 23 (e + (0x7f - 0xf)) OR coef))"

definition f32bitsToF16bits :: "u32 \<Rightarrow> u16" where
  "f32bitsToF16bits u =
     (let sgn = u AND 0x80000000; e = u AND 0x7f800000; coef = u AND 0x007fffff in
      if e = 0x7f800000 then
        (let nanBit = (if coef \<noteq> 0 then 0x0200 else 0) in
         ucast (drop_bit 16 sgn OR 0x7c00 OR nanBit OR drop_bit 13 coef))
      else
        let halfSign = drop_bit 16 sgn; unbiasedExp = drop_bit 23 e - 127;
            halfExp = unbiasedExp + 15 in
        if 0x1f \<le>s halfExp then ucast (halfSign OR 0x7c00)
        else if halfExp \<le>s 0 then
          (if 24 <s 14 - halfExp then ucast halfSign
           else
             let c = coef OR 0x00800000;
                 halfCoef = drop_bit (unat (14 - halfExp)) c;
                 roundBit = push_bit (unat (13 - halfExp)) 1 in
             if c AND roundBit \<noteq> 0 \<and> c AND (3 * roundBit - 1) \<noteq> 0
             then ucast (halfSign OR (halfCoef + 1)) else ucast (halfSign OR halfCoef))
        else
          let uHalfExp = push_bit 10 halfExp; halfCoef = drop_bit 13 coef; roundBit = 0x1000 in
          if coef AND roundBit \<noteq> 0 \<and> coef AND (3 * roundBit - 1) \<noteq> 0
          then ucast ((halfSign OR uHalfExp OR halfCoef) + 1)
          else ucast (halfSign OR uHalfExp OR halfCoef))"

definition FromNaN32ps :: "f32 \<Rightarrow> u16 \<times> bool" where
  "FromNaN32ps u =
     (let sgn = u AND 0x80000000; e = u AND 0x7f800000; coef = u AND 0x007fffff in
      if e \<noteq> 0x7f800000 \<or> coef = 0 then (0x7c01, False)
      else
        let h = ucast (drop_bit 16 sgn OR 0x7c00 OR drop_bit 13 coef) :: u16 in
        if h AND 0x03ff = 0 then (h OR 1, True) else (h, True))"

definition f16_Inf :: "int \<Rightarrow> u16" where
  "f16_Inf s = (if 0 \<le> s then 0x7c00 else 0x8000 OR 0x7c00)"

definition f16_IsNaN :: "u16 \<Rightarrow> bool" where
  "f16_IsNaN f \<longleftrightarrow> f AND 0x7c00 = 0x7c00 \<and> f AND 0x03ff \<noteq> 0"

definition f16_IsQuietNaN :: "u16 \<Rightarrow> bool" where
  "f16_IsQuietNaN f \<longleftrightarrow> f AND 0x7c00 = 0x7c00 \<and> f AND 0x03ff \<noteq> 0 \<and> f AND 0x0200 \<noteq> 0"

definition f16_IsInf :: "u16 \<Rightarrow> int \<Rightarrow> bool" where
  "f16_IsInf f s \<longleftrightarrow> f = 0x7c00 \<and> 0 \<le> s \<or> f = 0xfc00 \<and> s \<le> 0"

definition f16_IsFinite :: "u16 \<Rightarrow> bool" where
  "f16_IsFinite f \<longleftrightarrow> f AND 0x7c00 \<noteq> 0x7c00"

definition f16_IsNormal :: "u16 \<Rightarrow> bool" where
  "f16_IsNormal f \<longleftrightarrow> (let e = f AND 0x7c00 in e \<noteq> 0x7c00 \<and> e \<noteq> 0)"

definition f16_Signbit :: "u16 \<Rightarrow> bool" where
  "f16_Signbit f \<longleftrightarrow> f AND 0x8000 \<noteq> 0"

subsection \<open>Words as sign, exponent and significand\<close>

lemma and_field: "n AND push_bit k (mask j) = push_bit k (take_bit j (drop_bit k n))" for n :: nat
  by (rule bit_eqI) (auto simp: bit_simps)

lemma and_field_mult: "n AND ((2 ^ j - 1) * 2 ^ k) = (n div 2 ^ k mod 2 ^ j) * 2 ^ k" for n :: nat
  using and_field [of n k j]
  by (simp add: push_bit_eq_mult drop_bit_eq_div take_bit_eq_mod mask_eq_exp_minus_1)

lemma and_fields:
  "n AND 0x80000000 = (n div 2 ^ 31 mod 2) * 2 ^ 31"
  "n AND 0x7f800000 = (n div 2 ^ 23 mod 2 ^ 8) * 2 ^ 23"
  "n AND 0x7fffff = n mod 2 ^ 23"
  "n AND 0x8000 = (n div 2 ^ 15 mod 2) * 2 ^ 15"
  "n AND 0x7c00 = (n div 2 ^ 10 mod 2 ^ 5) * 2 ^ 10"
  "n AND 0x3ff = n mod 2 ^ 10" for n :: nat
proof -
  show "n AND 0x80000000 = (n div 2 ^ 31 mod 2) * 2 ^ 31" using and_field_mult [of n 1 31] by simp
  show "n AND 0x7f800000 = (n div 2 ^ 23 mod 2 ^ 8) * 2 ^ 23" using and_field_mult [of n 8 23] by simp
  show "n AND 0x7fffff = n mod 2 ^ 23" using and_field_mult [of n 23 0] by simp
  show "n AND 0x8000 = (n div 2 ^ 15 mod 2) * 2 ^ 15" using and_field_mult [of n 1 15] by simp
  show "n AND 0x7c00 = (n div 2 ^ 10 mod 2 ^ 5) * 2 ^ 10" using and_field_mult [of n 5 10] by simp
  show "n AND 0x3ff = n mod 2 ^ 10" using and_field_mult [of n 10 0] by simp
qed

lemma and_or_distrib: "a AND (b OR c) = (a AND b) OR (a AND c)" for a :: nat
  by (rule bit_eqI) (auto simp: bit_simps)

lemma u32_fields:
  fixes u :: u32
  obtains s E C where "unat u = s * 2 ^ 31 + E * 2 ^ 23 + C" "s < 2" "E < 256" "C < 2 ^ 23"
    "unat u div 2 ^ 31 = s" "unat u div 2 ^ 23 mod 2 ^ 8 = E" "unat u mod 2 ^ 23 = C"
proof (rule that)
  let ?n = "unat u" and ?a = "unat u div 2 ^ 23"
  have n: "?n < 2 * 2 ^ 31" using unsigned_less [of u] by simp
  then show "?n div 2 ^ 31 < 2" by (rule less_mult_imp_div_less)
  have s: "?a div 2 ^ 8 = ?n div 2 ^ 31" by (simp add: div_mult2_eq [symmetric])
  have "?n = ?a * 2 ^ 23 + ?n mod 2 ^ 23" by (rule div_mult_mod_eq [symmetric])
  also have "?a = ?a div 2 ^ 8 * 2 ^ 8 + ?a mod 2 ^ 8" by (rule div_mult_mod_eq [symmetric])
  finally show "?n = (?n div 2 ^ 31) * 2 ^ 31 + (?a mod 2 ^ 8) * 2 ^ 23 + ?n mod 2 ^ 23"
    unfolding s by simp
qed simp_all

lemma round_bit: "0 < k \<Longrightarrow> (c AND 2 ^ (k - 1) \<noteq> 0 \<and> c AND (3 * 2 ^ (k - 1) - 1) \<noteq> 0) =
    (2 ^ k div 2 < c mod 2 ^ k \<or> c mod 2 ^ k = 2 ^ k div 2 \<and> odd (c div 2 ^ k))" for c :: nat
proof -
  assume "0 < k"
  then obtain j where k: "k = Suc j" by (metis gr0_implies_Suc)
  have "3 * 2 ^ j - 1 = push_bit (Suc j) (mask 1) OR (mask j :: nat)"
    by (subst or_disjoint_add [of _ "Suc j"])
      (simp_all add: mask_eq_exp_minus_1 push_bit_eq_mult less_imp_diff_less)
  then have "c AND (3 * 2 ^ j - 1) = (c AND push_bit (Suc j) (mask 1)) OR (c AND mask j)"
    by (simp only: and_or_distrib)
  also have "\<dots> = push_bit (Suc j) (c div 2 ^ Suc j mod 2) OR (c mod 2 ^ j)"
    unfolding and_field using and_field [of c 0 j] by (simp add: take_bit_eq_mod drop_bit_eq_div)
  also have "\<dots> = 0 \<longleftrightarrow> even (c div 2 ^ Suc j) \<and> c mod 2 ^ j = 0"
    by (subst or_disjoint_add(1) [of _ "Suc j"])
      (auto simp: even_iff_mod_2_eq_zero push_bit_eq_mult less_Suc_eq intro: less_trans [of _ "2 ^ j"])
  finally have l: "c AND (3 * 2 ^ j - 1) = 0 \<longleftrightarrow> even (c div 2 ^ Suc j) \<and> c mod 2 ^ j = 0" .
  have b: "c AND 2 ^ j = 0 \<longleftrightarrow> even (c div 2 ^ j)"
    using and_field [of c j 1]
    by (simp add: push_bit_eq_mult take_bit_eq_mod drop_bit_eq_div even_iff_mod_2_eq_zero)
  obtain r q where r: "c mod 2 ^ j = r" "r < 2 ^ j" and q: "c div 2 ^ j mod 2 = q" by simp
  have m: "c mod 2 ^ Suc j = r + 2 ^ j * q"
    using mod_mult2_eq [of c "2 ^ j" 2] r q by (simp add: mult.commute)
  have e: "even (c div 2 ^ j) \<longleftrightarrow> q = 0" "q = 0 \<or> q = 1"
    using q by (auto simp: even_iff_mod_2_eq_zero)
  show ?thesis
    unfolding k diff_Suc_1 l b r(1) m e(1) using r(2) e(2) by auto
qed

lemma half_exp: "E < 256 \<Longrightarrow> sint ((word_of_nat E :: u32) - 127 + 15) = int E - 112"
proof -
  assume E: "E < 256"
  have "(word_of_nat E :: u32) - 127 + 15 = word_of_int (int E - 112)" by simp
  then have "sint ((word_of_nat E :: u32) - 127 + 15) = signed_take_bit 31 (int E - 112)"
    by (simp only: sint_sbintrunc') simp
  also have "\<dots> = int E - 112" using E by (simp add: signed_take_bit_int_eq_self_iff)
  finally show ?thesis .
qed

lemma unat_exp: "j < 32 \<Longrightarrow> unat (push_bit j 1 :: u32) = 2 ^ j"
proof -
  assume "j < 32"
  then have "(2::nat) ^ j < 2 ^ 32" by (intro power_strict_increasing) auto
  then have "unat (word_of_nat (2 ^ j) :: u32) = 2 ^ j" by (subst unat_of_nat) simp
  then show ?thesis by simp
qed

lemma word_round:
  fixes c :: u32
  assumes "j \<le> 23"
  shows "(c AND push_bit j 1 \<noteq> 0 \<and> c AND (3 * push_bit j 1 - 1) \<noteq> 0) =
    (2 ^ Suc j div 2 < unat c mod 2 ^ Suc j \<or>
     unat c mod 2 ^ Suc j = 2 ^ Suc j div 2 \<and> odd (unat c div 2 ^ Suc j))"
proof -
  have j: "(2::nat) ^ j \<le> 2 ^ 23" using assms by (intro power_increasing) auto
  have r: "unat (push_bit j 1 :: u32) = 2 ^ j" using assms by (intro unat_exp) simp
  have "unat (3 * push_bit j 1 :: u32) = 3 * 2 ^ j"
    using j r by (simp add: unat_word_ariths)
  then have r3: "unat (3 * push_bit j 1 - 1 :: u32) = 3 * 2 ^ j - 1"
    by (subst unat_minus_one) (auto simp: unat_eq_0 [symmetric])
  have z: "x = 0 \<longleftrightarrow> unat x = 0" for x :: u32 by (simp add: unat_eq_0)
  show ?thesis
    using round_bit [of "Suc j" "unat c"] by (simp only: z unsigned_and_eq r r3) simp
qed

lemma unat_round_even:
  fixes c :: u32
  assumes "j \<le> 23" "unat c < 2 ^ 24"
  shows "unat (if c AND push_bit j 1 \<noteq> 0 \<and> c AND (3 * push_bit j 1 - 1) \<noteq> 0
      then drop_bit (Suc j) c + 1 else drop_bit (Suc j) c) = round_even (unat c) (Suc j) False"
proof -
  have d: "unat (drop_bit (Suc j) c) = unat c div 2 ^ Suc j"
    by (simp only: unat_drop_bit_eq) (rule drop_bit_eq_div)
  have "unat c div 2 ^ Suc j \<le> unat c" by (rule div_le_dividend)
  then have "unat c div 2 ^ Suc j < 2 ^ 24" using assms(2) by (rule le_less_trans)
  then have "unat (drop_bit (Suc j) c + 1) = unat c div 2 ^ Suc j + 1"
    by (simp add: unat_word_ariths d)
  with d show ?thesis
    unfolding word_round [OF assms(1)] round_even_def Let_def by simp
qed

definition enc16 :: "nat \<Rightarrow> nat \<Rightarrow> nat \<Rightarrow> nat" where
  "enc16 s E C = s * 2 ^ 15 +
     (if E = 255 then 31 * 2 ^ 10
      else if 143 \<le> E then 31 * 2 ^ 10
      else if E < 102 then 0
      else if E \<le> 112 then round_even (C + 2 ^ 23) (126 - E) False
      else (E - 112) * 2 ^ 10 + round_even C 13 False)"

lemma sint_of_int32: "- (2 ^ 31) \<le> i \<Longrightarrow> i < 2 ^ 31 \<Longrightarrow> sint (word_of_int i :: u32) = i"
  by (simp only: sint_sbintrunc') (simp add: signed_take_bit_int_eq_self_iff)

lemma round_even_le: "m < 2 ^ j \<Longrightarrow> k \<le> j \<Longrightarrow> round_even m k t \<le> 2 ^ (j - k)"
proof -
  assume "m < 2 ^ j" "k \<le> j"
  then have "m div 2 ^ k < 2 ^ (j - k)"
    by (intro less_mult_imp_div_less) (simp add: power_add [symmetric])
  then show ?thesis by (simp add: round_even_def Let_def)
qed

lemma enc16_arith:
  assumes u: "unat u div 2 ^ 31 = s" "unat u div 2 ^ 23 mod 2 ^ 8 = E" "unat u mod 2 ^ 23 = C"
    and b: "s < 2" "E < 255" "C < 2 ^ 23"
  shows "unat (f32bitsToF16bits u) = enc16 s E C"
proof -
  define sgn where "sgn = drop_bit 16 (u AND 0x80000000)"
  define e where "e = drop_bit 23 (u AND 0x7f800000)"
  define coef where "coef = u AND 0x7fffff"
  define h where "h = e - 127 + 15"
  have us: "unat sgn = s * 2 ^ 15"
    using u(1) b(1) unfolding sgn_def
    by (subst unat_drop_bit_eq) (simp add: unsigned_and_eq and_fields drop_bit_eq_div)
  have uc: "unat coef = C" using u(3) by (simp add: coef_def unsigned_and_eq and_fields)
  have ue: "unat e = E"
    using u(2) b(2) unfolding e_def
    by (subst unat_drop_bit_eq) (simp add: unsigned_and_eq and_fields drop_bit_eq_div)
  have hw: "h = word_of_int (int E - 112)"
    unfolding h_def ue [symmetric] by simp
  have h: "sint h = int E - 112" unfolding hw using b(2) by (intro sint_of_int32) simp_all
  have n255: "u AND 0x7f800000 \<noteq> 0x7f800000"
  proof
    assume "u AND 0x7f800000 = 0x7f800000"
    then have "unat e = unat (drop_bit 23 (0x7f800000 :: u32))" by (simp only: e_def)
    then show False unfolding ue using b(2) by simp
  qed
  have s2: "s = 0 \<or> s = 1" using b(1) by auto
  have ucast16: "unat (ucast x :: u16) = unat x" if "unat x < 2 ^ 16" for x :: u32
    using that by (simp add: unsigned_ucast_eq take_bit_nat_eq_self)
  have or_sgn: "unat (sgn OR x) = s * 2 ^ 15 + unat x" if "unat x < 2 ^ 15" for x :: u32
    using or_disjoint_add(1) [OF that, of "s * 2 ^ 15"] by (simp only: unsigned_or_eq us) simp
  have fold: "f32bitsToF16bits u =
     (if 0x1f \<le>s h then ucast (sgn OR 0x7c00)
      else if h \<le>s 0 then
        (if 24 <s 14 - h then ucast sgn
         else ucast (sgn OR (let c = coef OR 0x800000; r = push_bit (unat (13 - h)) 1 in
            if c AND r \<noteq> 0 \<and> c AND (3 * r - 1) \<noteq> 0
            then drop_bit (unat (14 - h)) c + 1 else drop_bit (unat (14 - h)) c)))
      else ucast (let r = 0x1000; v = sgn OR push_bit 10 h OR drop_bit 13 coef in
            if coef AND r \<noteq> 0 \<and> coef AND (3 * r - 1) \<noteq> 0 then v + 1 else v))"
    using n255 by (simp only: f32bitsToF16bits_def Let_def if_distrib [of ucast] if_distrib [of "(OR) _"] if_False
       sgn_def e_def coef_def h_def)
  consider "143 \<le> E" | "E < 102" | "102 \<le> E" "E \<le> 112" | "113 \<le> E" "E < 143" by linarith
  then show ?thesis
  proof cases
    case 1
    then have "f32bitsToF16bits u = ucast (sgn OR 0x7c00)"
      unfolding fold by (simp only: word_sle_eq h) simp
    then show ?thesis using 1 s2 or_sgn [of "0x7c00"] ucast16 [of "sgn OR 0x7c00"] b(2) by (auto simp: enc16_def)
  next
    case 2
    have "14 - h = word_of_int (126 - int E)" unfolding hw by simp
    then have "sint (14 - h) = 126 - int E" using 2 by (simp only:) (rule sint_of_int32, simp_all)
    then have "f32bitsToF16bits u = ucast sgn"
      using 2 unfolding fold by (simp only: word_sle_eq word_sless_alt h) simp
    then show ?thesis using 2 s2 ucast16 [of sgn] by (auto simp: enc16_def us)
  next
    case 3
    have w: "14 - h = word_of_nat (126 - E)" "13 - h = word_of_nat (125 - E)"
      unfolding hw using 3 by (simp_all add: of_nat_diff)
    have n: "unat (14 - h) = Suc (125 - E)" "unat (13 - h) = 125 - E"
      unfolding w using 3 by (simp_all only: unat_of_nat) simp_all
    have "14 - h = word_of_int (126 - int E)" unfolding hw by simp
    then have s14: "sint (14 - h) = 126 - int E" using 3 by (simp only:) (rule sint_of_int32, simp_all)
    define c where "c = coef OR 0x800000"
    have c: "unat c = C + 2 ^ 23"
      using or_disjoint_add(2) [of C 23 "2 ^ 23"] b(3) by (simp add: c_def unsigned_or_eq uc)
    define r where "r = (if c AND push_bit (125 - E) 1 \<noteq> 0 \<and> c AND (3 * push_bit (125 - E) 1 - 1) \<noteq> 0
       then drop_bit (Suc (125 - E)) c + 1 else drop_bit (Suc (125 - E)) c)"
    have r: "unat r = round_even (C + 2 ^ 23) (126 - E) False"
    proof -
      have "Suc (125 - E) = 126 - E" using 3 by simp
      then show ?thesis using unat_round_even [of "125 - E" c] 3 c b(3) by (simp add: r_def)
    qed
    have "f32bitsToF16bits u = ucast (sgn OR r)"
      using 3 s14 unfolding fold Let_def n c_def [symmetric] r_def [symmetric]
      by (simp only: word_sle_eq word_sless_alt h) simp
    moreover have "unat r \<le> 2 ^ (24 - (126 - E))"
      unfolding r using b(3) 3 by (intro round_even_le) auto
    moreover have "(2::nat) ^ (24 - (126 - E)) \<le> 2 ^ 10" using 3 by (intro power_increasing) auto
    ultimately show ?thesis
      using 3 s2 or_sgn [of r] ucast16 [of "sgn OR r"] by (auto simp: enc16_def r)
  next
    case 4
    define v where "v = sgn OR push_bit 10 h OR drop_bit 13 coef"
    have d: "unat (drop_bit 13 coef) = C div 2 ^ 13"
      by (subst unat_drop_bit_eq) (simp add: uc drop_bit_eq_div)
    have dl: "C div 2 ^ 13 < 2 ^ 10" using b(3) by (intro less_mult_imp_div_less) simp
    have "h = word_of_nat (E - 112)" unfolding hw using 4 by (simp add: of_nat_diff)
    then have uh: "unat h = E - 112" using 4 by (simp only: unat_of_nat) simp
    have ph: "unat (push_bit 10 h) = (E - 112) * 2 ^ 10"
      unfolding unsigned_push_bit_eq uh using 4 by (simp add: push_bit_eq_mult take_bit_nat_eq_self)
    have "unat (push_bit 10 h OR drop_bit 13 coef) = (E - 112) * 2 ^ 10 + C div 2 ^ 13"
      using or_disjoint_add(1) [OF dl, of "(E - 112) * 2 ^ 10"] by (simp only: unsigned_or_eq ph d) simp
    moreover have "(E - 112) * 2 ^ 10 + C div 2 ^ 13 < 31 * 2 ^ 10"
    proof -
      have "(E - 112) * 2 ^ 10 \<le> 30 * 2 ^ 10" using 4 by (intro mult_right_mono) auto
      then show ?thesis using dl by simp
    qed
    ultimately have v: "unat v = s * 2 ^ 15 + (E - 112) * 2 ^ 10 + C div 2 ^ 13"
      and vl: "unat v < s * 2 ^ 15 + 31 * 2 ^ 10"
      using or_sgn [of "push_bit 10 h OR drop_bit 13 coef"] unfolding v_def or.assoc by simp_all
    let ?up = "coef AND push_bit 12 1 \<noteq> 0 \<and> coef AND (3 * push_bit 12 1 - 1) \<noteq> 0"
    have up: "?up = (2 ^ 13 div 2 < C mod 2 ^ 13 \<or> C mod 2 ^ 13 = 2 ^ 13 div 2 \<and> odd (C div 2 ^ 13))"
      using word_round [of 12 coef] by (simp add: uc)
    have "unat (if ?up then v + 1 else v) = unat v + (if ?up then 1 else 0)"
      using vl s2 by (auto simp: unat_word_ariths)
    also have "\<dots> = s * 2 ^ 15 + (E - 112) * 2 ^ 10 + round_even C 13 False"
      unfolding up by (simp add: v round_even_def Let_def)
    finally have "unat (if ?up then v + 1 else v) = enc16 s E C"
      using 4 by (simp add: enc16_def)
    moreover have "f32bitsToF16bits u = ucast (if ?up then v + 1 else v)"
      using 4 unfolding fold Let_def v_def [symmetric]
      by (simp only: word_sle_eq word_sless_alt h) simp
    moreover have "unat (if ?up then v + 1 else v) < 2 ^ 16"
      using vl s2 by (auto simp: unat_word_ariths)
    ultimately show ?thesis using ucast16 by metis
  qed
qed

lemma bitlen_eq: "2 ^ n \<le> m \<Longrightarrow> m < 2 ^ Suc n \<Longrightarrow> bitlen m = Suc n"
proof (induction n arbitrary: m)
  case 0
  then have "m = 1" by simp
  then show ?case by simp
next
  case (Suc n)
  from Suc.prems have "2 ^ n \<le> m div 2" "m div 2 < 2 ^ Suc n" by auto
  with Suc.IH have "bitlen (m div 2) = Suc n" by blast
  moreover have "m \<noteq> 0" using Suc.prems(1) by (intro notI) simp
  ultimately show ?case by (simp add: bitlen.simps [of m])
qed

lemma bitlen_less: "m < 2 ^ n \<Longrightarrow> bitlen m \<le> n"
proof (induction n arbitrary: m)
  case 0
  then show ?case by simp
next
  case (Suc n)
  then have "m div 2 < 2 ^ n" by auto
  with Suc.IH have "bitlen (m div 2) \<le> n" by blast
  then show ?case by (simp add: bitlen.simps [of m])
qed

lemma round_even_0: "m < 2 ^ k \<Longrightarrow> m < 2 ^ k div 2 \<Longrightarrow> round_even m k t = 0"
  by (simp add: round_even_def Let_def)

lemma enc16_round:
  assumes "s < 2" "E < 255" "C < 2 ^ 23"
  shows "enc16 s E C = fp_convert 8 23 5 10 (s * 2 ^ 31 + E * 2 ^ 23 + C)"
proof -
  let ?n = "s * 2 ^ 31 + E * 2 ^ 23 + C"
  have n: "?n div 2 ^ 31 = s" "?n div 2 ^ 23 mod 2 ^ 8 = E" "?n mod 2 ^ 23 = C"
  proof -
    have "?n = (s * 2 ^ 8 + E) * 2 ^ 23 + C" by simp
    then show d: "?n div 2 ^ 23 mod 2 ^ 8 = E" and "?n mod 2 ^ 23 = C"
      using assms(2,3) by (simp_all only: div_mult_self3 mod_mult_self3) simp_all
    have "E * 2 ^ 23 + C < 2 ^ 31" using assms(2,3) by simp
    then show "?n div 2 ^ 31 = s"
      using div_mult_self3 [of "2 ^ 31 :: nat" s "E * 2 ^ 23 + C"] by (simp add: add.assoc)
  qed
  have dec: "fp_decode 8 23 ?n = (if E = 0 then FFin (odd s) C (- 149) else FFin (odd s) (C + 2 ^ 23) (int E - 150))"
    using n assms(2) by (simp add: fp_decode_def Let_def fp_emin_def fp_bias_def)
  have s2: "s = 0 \<or> s = 1" using assms(1) by auto
  show ?thesis
  proof (cases "E = 0")
    case True
    have "bitlen C \<le> 23" using assms(3) by (rule bitlen_less)
    moreover have "round_even C 125 False = 0" using assms(3) by (intro round_even_0) auto
    ultimately show ?thesis using True s2
      unfolding fp_convert_def dec fp_round_def Let_def
      by (auto simp: enc16_def fp_emin_def fp_bias_def fp_sign_bit_def max_def)
  next
    case False
    have "bitlen (C + 2 ^ 23) = 24" using assms(3) by (subst bitlen_eq [of 23]) auto
    moreover have "enc16 s E C = s * 2 ^ 15 + (let q = max (- 24) (int E - 137);
        c = nat (q + 24) * 2 ^ 10 + round_even (C + 2 ^ 23) (nat (q - (int E - 150))) False in
        if 31 * 2 ^ 10 \<le> c then 31 * 2 ^ 10 else c)"
    proof -
      have r13: "round_even (C + 2 ^ 23) 13 False = 2 ^ 10 + round_even C 13 False"
        using div_mult_self3 [of "2 ^ 13" "2 ^ 10" C] mod_mult_self3 [of "2 ^ 10" "2 ^ 13" C]
        by (simp add: round_even_def Let_def add.commute)
      have le: "round_even C 13 False \<le> 2 ^ (23 - 13)" using assms(3) by (intro round_even_le) auto
      consider "143 \<le> E" | "E < 102" | "102 \<le> E" "E \<le> 112" | "113 \<le> E" "E < 143" by linarith
      then show ?thesis
      proof cases
        case 1
        then have "max (- 24) (int E - 137) = int E - 137" "30 * 2 ^ 10 \<le> (E - 113) * 2 ^ 10"
          "nat (int E - 113) = E - 113" by auto
        with 1 r13 show ?thesis by (simp add: enc16_def Let_def)
      next
        case 2
        have "(2::nat) ^ 24 \<le> 2 ^ (125 - E)" using 2 by (intro power_increasing) auto
        then have "C + 2 ^ 23 < 2 ^ (125 - E)" using assms(3) by simp
        then have "round_even (C + 2 ^ 23) (Suc (125 - E)) False = 0"
          by (intro round_even_0) simp_all
        moreover have "Suc (125 - E) = 126 - E" using 2 by simp
        ultimately have "round_even (C + 2 ^ 23) (126 - E) False = 0" by simp
        moreover have "nat (126 - int E) = 126 - E" by (simp add: nat_diff_distrib)
        ultimately show ?thesis using 2 by (simp add: enc16_def Let_def max_def)
      next
        case 3
        have "round_even (C + 2 ^ 23) (126 - E) False \<le> 2 ^ (24 - (126 - E))"
          using assms(3) 3 by (intro round_even_le) auto
        also have "(2::nat) ^ (24 - (126 - E)) \<le> 2 ^ 10" using 3 by (intro power_increasing) auto
        finally show ?thesis using 3
          by (simp add: enc16_def Let_def max_def nat_diff_distrib)
      next
        case 4
        then have "max (- 24) (int E - 137) = int E - 137" "nat (int E - 113) = E - 113"
          "(E - 112) * 2 ^ 10 = (E - 113) * 2 ^ 10 + 2 ^ 10" "(E - 113) * 2 ^ 10 \<le> 29 * 2 ^ 10" by auto
        with 4 r13 le show ?thesis by (simp add: enc16_def Let_def)
      qed
    qed
    ultimately show ?thesis using False s2
      unfolding fp_convert_def dec fp_round_def Let_def
      by (auto simp: fp_emin_def fp_bias_def fp_sign_bit_def)
  qed
qed

lemma f32_nan_fields:
  "unat u div 2 ^ 23 mod 2 ^ 8 = E \<Longrightarrow> unat u mod 2 ^ 23 = C \<Longrightarrow> f32_nan u \<longleftrightarrow> E = 255 \<and> C \<noteq> 0"
proof -
  assume e: "unat u div 2 ^ 23 mod 2 ^ 8 = E" and c: "unat u mod 2 ^ 23 = C"
  have "unat u mod 2 ^ 31 = E * 2 ^ 23 + C"
    using mod_mult2_eq [of "unat u" "2 ^ 23" "2 ^ 8"] e c by (simp add: mult.commute)
  moreover have "E < 256" "C < 2 ^ 23" using e c by auto
  ultimately show ?thesis by (auto simp: f32_nan_def f32_mag_def)
qed

lemma f16_inf:
  "unat (f32bitsToF16bits 0x7f800000) = fp_convert 8 23 5 10 (unat (0x7f800000 :: u32))"
  "unat (f32bitsToF16bits 0xff800000) = fp_convert 8 23 5 10 (unat (0xff800000 :: u32))"
proof -
  have "f32bitsToF16bits 0x7f800000 = 0x7c00" by (simp add: f32bitsToF16bits_def)
  moreover have "fp_convert 8 23 5 10 0x7f800000 = 0x7c00" by (simp add: fp_eval)
  ultimately show "unat (f32bitsToF16bits 0x7f800000) = fp_convert 8 23 5 10 (unat (0x7f800000 :: u32))" by simp
  have "f32bitsToF16bits 0xff800000 = 0xfc00" by (simp add: f32bitsToF16bits_def)
  moreover have "fp_convert 8 23 5 10 0xff800000 = 0xfc00" by (simp add: fp_eval)
  ultimately show "unat (f32bitsToF16bits 0xff800000) = fp_convert 8 23 5 10 (unat (0xff800000 :: u32))" by simp
qed

lemma f32bitsToF16bits_convert:
  assumes "\<not> f32_nan u"
  shows "unat (f32bitsToF16bits u) = fp_convert 8 23 5 10 (unat u)"
proof -
  obtain s E C where n: "unat u = s * 2 ^ 31 + E * 2 ^ 23 + C" and b: "s < 2" "E < 256" "C < 2 ^ 23"
    and f: "unat u div 2 ^ 31 = s" "unat u div 2 ^ 23 mod 2 ^ 8 = E" "unat u mod 2 ^ 23 = C"
    by (rule u32_fields)
  show ?thesis
  proof (cases "E = 255")
    case False
    then show ?thesis using enc16_arith [OF f b(1) _ b(3)] enc16_round [OF b(1) _ b(3)] b(2) n by simp
  next
    case True
    then have "C = 0" using f32_nan_fields [OF f(2,3)] assms by simp
    moreover have "s = 0 \<or> s = 1" using b(1) by auto
    ultimately have "unat u = 0x7f800000 \<or> unat u = 0xff800000" using True n by auto
    then have "u = 0x7f800000 \<or> u = 0xff800000" proof
      assume "unat u = 0x7f800000"
      then have "unat u = unat (0x7f800000 :: u32)" by simp
      then show ?thesis by (blast intro: unsigned_word_eqI)
    next
      assume "unat u = 0xff800000"
      then have "unat u = unat (0xff800000 :: u32)" by simp
      then show ?thesis by (blast intro: unsigned_word_eqI)
    qed
    then show ?thesis using f16_inf by metis
  qed
qed

lemma normalise_ok:
  "0 < unat c \<Longrightarrow> unat c < 2 ^ 24 \<Longrightarrow> 2 ^ 23 \<le> unat c * 2 ^ k \<Longrightarrow> unat c * 2 ^ k < 2 ^ 24 \<Longrightarrow>
   \<exists>c'. normalise c e = Some (c', e - word_of_nat k) \<and> unat c' = unat c * 2 ^ k"
proof (induction k arbitrary: c e)
  case 0
  then have "unat c div 2 ^ 23 = 1" by (intro div_nat_eqI) auto
  then have "unat (c AND 0x7f800000) \<noteq> 0" by (simp add: unsigned_and_eq and_fields)
  then have "c AND 0x7f800000 \<noteq> 0" by (metis unsigned_0)
  then show ?case by (simp add: normalise.simps)
next
  case (Suc k)
  have "unat c * 2 \<le> unat c * 2 ^ Suc k" by simp
  then have l: "unat c * 2 < 2 ^ 24" by (rule le_less_trans [OF _ Suc.prems(4)])
  then have "unat (c AND 0x7f800000) = 0" by (simp add: unsigned_and_eq and_fields)
  then have "c AND 0x7f800000 = 0" by (simp only: unat_eq_0)
  moreover have d: "unat (push_bit 1 c) = unat c * 2"
    unfolding unsigned_push_bit_eq using l by (simp add: push_bit_eq_mult take_bit_nat_eq_self)
  ultimately show ?case
    using Suc.IH [of "push_bit 1 c" "e - 1"] Suc.prems l
    by (subst normalise.simps) (simp add: algebra_simps)
qed

lemma bitlen_bounds: "0 < m \<Longrightarrow> 0 < bitlen m \<and> 2 ^ (bitlen m - 1) \<le> m \<and> m < 2 ^ bitlen m"
proof (induction m rule: bitlen.induct)
  case (1 m)
  show ?case
  proof (cases "m div 2 = 0")
    case True
    with "1.prems" have "m = 1" by simp
    then show ?thesis by simp
  next
    case False
    with "1.IH" "1.prems" obtain b where b: "bitlen (m div 2) = Suc b" "2 ^ b \<le> m div 2" "m div 2 < 2 ^ Suc b"
      by (metis Suc_pred bot_nat_0.not_eq_extremum diff_Suc_1)
    then have "bitlen m = Suc (Suc b)" using "1.prems" by (simp add: bitlen.simps [of m])
    with b show ?thesis by auto
  qed
qed

lemma u16_fields:
  fixes w :: u16
  obtains s e c where "unat w = s * 2 ^ 15 + e * 2 ^ 10 + c" "s < 2" "e < 32" "c < 2 ^ 10"
    "unat w div 2 ^ 15 = s" "unat w div 2 ^ 10 mod 2 ^ 5 = e" "unat w mod 2 ^ 10 = c"
proof (rule that)
  let ?n = "unat w" and ?a = "unat w div 2 ^ 10"
  have n: "?n < 2 * 2 ^ 15" using unsigned_less [of w] by simp
  then show "?n div 2 ^ 15 < 2" by (rule less_mult_imp_div_less)
  have s: "?a div 2 ^ 5 = ?n div 2 ^ 15" by (simp add: div_mult2_eq [symmetric])
  have "?n = ?a * 2 ^ 10 + ?n mod 2 ^ 10" by (rule div_mult_mod_eq [symmetric])
  also have "?a = ?a div 2 ^ 5 * 2 ^ 5 + ?a mod 2 ^ 5" by (rule div_mult_mod_eq [symmetric])
  finally show "?n = (?n div 2 ^ 15) * 2 ^ 15 + (?a mod 2 ^ 5) * 2 ^ 10 + ?n mod 2 ^ 10"
    unfolding s by simp
qed simp_all

lemma unat_ucast32: "unat (ucast w :: u32) = unat w" for w :: u16
proof -
  have "unat w < 2 ^ 16" using unsigned_less [of w] by simp
  then have "unat w < 2 ^ 32" by simp
  then show ?thesis unfolding unsigned_ucast_eq by (simp add: take_bit_nat_eq_self)
qed

definition dec16 :: "nat \<Rightarrow> nat \<Rightarrow> nat \<Rightarrow> nat" where
  "dec16 s e c = s * 2 ^ 31 +
     (if e = 31 then 255 * 2 ^ 23
      else if e = 0 then
        (if c = 0 then 0 else (101 + bitlen c) * 2 ^ 23 + c * 2 ^ (24 - bitlen c))
      else (e + 112) * 2 ^ 23 + c * 2 ^ 13)"

lemma dec16_arith:
  assumes w: "unat w div 2 ^ 15 = s" "unat w div 2 ^ 10 mod 2 ^ 5 = e" "unat w mod 2 ^ 10 = c"
    and b: "s < 2" "e < 32" "c < 2 ^ 10" and nan: "e = 31 \<Longrightarrow> c = 0"
  shows "\<exists>u. f16bitsToF32bits w = Some u \<and> unat u = dec16 s e c"
proof -
  define sgn where "sgn = push_bit 16 (ucast (w AND 0x8000) :: u32)"
  define ex where "ex = drop_bit 10 (ucast (w AND 0x7c00) :: u32)"
  define coef where "coef = push_bit 13 (ucast (w AND 0x3ff) :: u32)"
  have s2: "s = 0 \<or> s = 1" using b(1) by auto
  have us: "unat sgn = s * 2 ^ 31"
    unfolding sgn_def unsigned_push_bit_eq using w(1) s2
    by (auto simp: unat_ucast32 unsigned_and_eq and_fields push_bit_eq_mult take_bit_nat_eq_self)
  have ue: "unat ex = e"
    unfolding ex_def unat_drop_bit_eq using w(2) b(2)
    by (simp add: unat_ucast32 unsigned_and_eq and_fields drop_bit_eq_div)
  have uc: "unat coef = c * 2 ^ 13"
    unfolding coef_def unsigned_push_bit_eq using w(3) b(3)
    by (simp add: unat_ucast32 unsigned_and_eq and_fields push_bit_eq_mult take_bit_nat_eq_self)
  have ew: "ex = word_of_nat e" unfolding ue [symmetric] by simp
  have ez: "ex = 0x1f \<longleftrightarrow> e = 31" "ex = 0 \<longleftrightarrow> e = 0" "coef = 0 \<longleftrightarrow> c = 0"
    using ue uc b(2) by (auto simp: word_eq_iff_unsigned [where ?'a = nat])
  have or_sgn: "unat (sgn OR x) = s * 2 ^ 31 + unat x" if "unat x < 2 ^ 31" for x :: u32
    using or_disjoint_add(1) [OF that, of "s * 2 ^ 31"] by (simp only: unsigned_or_eq us) simp
  have packed: "unat (sgn OR push_bit 23 (word_of_nat E) OR x) = s * 2 ^ 31 + E * 2 ^ 23 + unat x"
    if "E < 255" "unat x < 2 ^ 23" for E and x :: u32
  proof -
    have "unat (push_bit 23 (word_of_nat E) :: u32) = E * 2 ^ 23"
      unfolding unsigned_push_bit_eq using that(1)
      by (simp add: push_bit_eq_mult take_bit_nat_eq_self unat_of_nat)
    then have "unat (push_bit 23 (word_of_nat E) OR x) = E * 2 ^ 23 + unat x"
      using or_disjoint_add(1) [OF that(2), of "E * 2 ^ 23"] by (simp only: unsigned_or_eq) simp
    moreover have "E * 2 ^ 23 + unat x < 2 ^ 31" using that by simp
    ultimately show ?thesis using or_sgn by (simp add: or.assoc)
  qed
  have fold: "f16bitsToF32bits w = (if ex = 0x1f then if coef = 0 then Some (sgn OR 0x7f800000 OR coef)
        else Some (sgn OR 0x7fc00000 OR coef)
      else if ex = 0 then
        if coef = 0 then Some sgn
        else case normalise coef (ex + 1) of None \<Rightarrow> None
          | Some (coef', e') \<Rightarrow> Some (sgn OR push_bit 23 (e' + (0x7f - 0xf)) OR (coef' AND 0x7fffff))
      else Some (sgn OR push_bit 23 (ex + (0x7f - 0xf)) OR coef))"
    by (simp only: f16bitsToF32bits_def Let_def sgn_def ex_def coef_def)
  consider "e = 31" | "e = 0" "c = 0" | "e = 0" "0 < c" | "0 < e" "e < 31" using b(2) by linarith
  then show ?thesis
  proof cases
    case 1
    then have "coef = 0" using nan ez by simp
    then have "f16bitsToF32bits w = Some (sgn OR 0x7f800000)" using 1 ez(1) unfolding fold by simp
    then show ?thesis using or_sgn [of "0x7f800000"] 1 by (auto simp: dec16_def)
  next
    case 2
    then have "f16bitsToF32bits w = Some sgn" unfolding fold ez by simp
    then show ?thesis using 2 us by (auto simp: dec16_def)
  next
    case 3
    define k where "k = 11 - bitlen c"
    have bl: "0 < bitlen c" "2 ^ (bitlen c - 1) \<le> c" "c < 2 ^ bitlen c"
      using bitlen_bounds [OF 3(2)] by auto
    have b10: "bitlen c \<le> 10" using b(3) by (rule bitlen_less)
    have p: "(2::nat) ^ bitlen c * 2 ^ k = 2 ^ 11" "2 ^ (bitlen c - 1) * 2 ^ k = (2::nat) ^ 10"
      using bl(1) b10 by (simp_all add: k_def power_add [symmetric])
    have lo: "2 ^ 23 \<le> unat coef * 2 ^ k"
      using mult_right_mono [OF bl(2), of "2 ^ k", unfolded p] by (simp add: uc)
    have hi: "unat coef * 2 ^ k < 2 ^ 24"
      using mult_strict_right_mono [OF bl(3), of "2 ^ k", unfolded p] by (simp add: uc)
    have "unat coef < 2 ^ 24" using b(3) by (simp add: uc)
    then obtain c' where c': "normalise coef (ex + 1) = Some (c', ex + 1 - word_of_nat k)"
      "unat c' = unat coef * 2 ^ k"
      using normalise_ok [of coef k "ex + 1"] 3(2) lo hi by (auto simp: uc)
    have e': "ex + 1 - word_of_nat k + (0x7f - 0xf) = word_of_nat (113 - k)"
      unfolding ew using 3(1) by (simp add: k_def of_nat_diff)
    have m: "unat (c' AND 0x7fffff) = unat c' - 2 ^ 23"
      using lo hi c'(2) mod_if [of "unat c'" "2 ^ 23"] by (simp add: unsigned_and_eq and_fields)
    have f: "f16bitsToF32bits w = Some (sgn OR push_bit 23 (word_of_nat (113 - k)) OR (c' AND 0x7fffff))"
      unfolding fold ez c'(1) using 3 e' by simp
    have "c * 2 ^ (24 - bitlen c) = unat c'"
    proof -
      have "24 - bitlen c = 13 + k" using b10 by (simp add: k_def)
      then show ?thesis by (simp add: c'(2) uc power_add)
    qed
    moreover have "unat (sgn OR push_bit 23 (word_of_nat (113 - k)) OR (c' AND 0x7fffff)) =
        s * 2 ^ 31 + (113 - k) * 2 ^ 23 + (unat c' - 2 ^ 23)"
      using packed [of "113 - k" "c' AND 0x7fffff"] hi c'(2) m by simp
    moreover have "113 - k = 102 + bitlen c" using b10 by (simp add: k_def)
    ultimately show ?thesis using 3 f lo c'(2) by (simp add: dec16_def)
  next
    case 4
    then have "ex \<noteq> 0x1f" "ex \<noteq> 0" using ez by auto
    moreover have "ex + (0x7f - 0xf) = word_of_nat (e + 112)" unfolding ew by simp
    ultimately have "f16bitsToF32bits w = Some (sgn OR push_bit 23 (word_of_nat (e + 112)) OR coef)"
      unfolding fold by (simp only: if_False)
    then show ?thesis using 4 packed [of "e + 112" coef] uc b(3) by (auto simp: dec16_def)
  qed
qed

lemma round_even_exact [simp]: "round_even (d * 2 ^ k) k False = d"
  by (cases k) (simp_all add: round_even_def)

lemma dec16_fields:
  assumes u: "unat u = dec16 s e c" and b: "s < 2" "e < 31" "c < 2 ^ 10"
  shows "\<exists>E C. E < 255 \<and> C < 2 ^ 23 \<and> unat u = s * 2 ^ 31 + E * 2 ^ 23 + C \<and>
    enc16 s E C = s * 2 ^ 15 + e * 2 ^ 10 + c"
proof -
  consider "e = 0" "c = 0" | "e = 0" "0 < c" | "0 < e" by linarith
  then show ?thesis
  proof cases
    case 1
    then show ?thesis using u b by (intro exI [of _ 0]) (simp add: dec16_def enc16_def)
  next
    case 2
    define C where "C = c * 2 ^ (24 - bitlen c) - 2 ^ 23"
    have bl: "0 < bitlen c" "2 ^ (bitlen c - 1) \<le> c" "c < 2 ^ bitlen c"
      using bitlen_bounds [OF 2(2)] by auto
    have b10: "bitlen c \<le> 10" using b(3) by (rule bitlen_less)
    have p: "(2::nat) ^ bitlen c * 2 ^ (24 - bitlen c) = 2 ^ 24"
      "2 ^ (bitlen c - 1) * 2 ^ (24 - bitlen c) = (2::nat) ^ 23"
      using bl(1) b10 by (simp_all add: power_add [symmetric])
    have lo: "2 ^ 23 \<le> c * 2 ^ (24 - bitlen c)"
      using mult_right_mono [OF bl(2), of "2 ^ (24 - bitlen c)", unfolded p] by simp
    have hi: "c * 2 ^ (24 - bitlen c) < 2 ^ 24"
      using mult_strict_right_mono [OF bl(3), of "2 ^ (24 - bitlen c)", unfolded p] by simp
    have C: "C + 2 ^ 23 = c * 2 ^ (24 - bitlen c)" using lo by (simp add: C_def)
    have "round_even (C + 2 ^ 23) (24 - bitlen c) False = c"
      unfolding C by (rule round_even_exact)
    moreover have "126 - (102 + bitlen c) = 24 - bitlen c" by simp
    ultimately have "enc16 s (102 + bitlen c) C = s * 2 ^ 15 + c"
      using b10 bl(1) by (simp add: enc16_def)
    moreover have "C < 2 ^ 23" using hi C by simp
    moreover have "unat u = s * 2 ^ 31 + (102 + bitlen c) * 2 ^ 23 + C"
      using u 2 C by (simp add: dec16_def algebra_simps)
    ultimately show ?thesis using 2 b10 by (intro exI [of _ "102 + bitlen c"] exI [of _ C]) simp
  next
    case 3
    then have "enc16 s (e + 112) (c * 2 ^ 13) = s * 2 ^ 15 + e * 2 ^ 10 + c"
      using b by (simp add: enc16_def round_even_def)
    then show ?thesis
      using 3 u b by (intro exI [of _ "e + 112"] exI [of _ "c * 2 ^ 13"]) (simp add: dec16_def)
  qed
qed


lemma fp_decode16:
  assumes w: "unat w div 2 ^ 15 = s" "unat w div 2 ^ 10 mod 2 ^ 5 = e" "unat w mod 2 ^ 10 = c"
  shows "fp_decode 5 10 (unat w) = (if e = 31 then if c = 0 then FInf (odd s) else FNaN
    else if e = 0 then FFin (odd s) c (- 24) else FFin (odd s) (c + 2 ^ 10) (int e - 25))"
  using w by (simp add: fp_decode_def fp_emin_def fp_bias_def)

lemma dec16_round:
  assumes w: "unat w div 2 ^ 15 = s" "unat w div 2 ^ 10 mod 2 ^ 5 = e" "unat w mod 2 ^ 10 = c"
    and b: "s < 2" "e < 32" "c < 2 ^ 10" and nan: "e = 31 \<Longrightarrow> c = 0"
  shows "dec16 s e c = fp_convert 5 10 8 23 (unat w)"
proof -
  have s2: "s = 0 \<or> s = 1" using b(1) by auto
  consider "e = 31" | "e = 0" "c = 0" | "e = 0" "0 < c" | "0 < e" "e < 31" using b(2) by linarith
  then show ?thesis
  proof cases
    case 1
    then show ?thesis using nan s2 unfolding fp_convert_def fp_decode16 [OF w]
      by (auto simp: dec16_def fp_sign_bit_def)
  next
    case 2
    then show ?thesis using s2 unfolding fp_convert_def fp_decode16 [OF w]
      by (auto simp: dec16_def fp_sign_bit_def fp_round_def Let_def)
  next
    case 3
    have bl: "0 < bitlen c" "c < 2 ^ bitlen c"
      using bitlen_bounds [OF 3(2)] by auto
    have b10: "bitlen c \<le> 10" using b(3) by (rule bitlen_less)
    have "c * 2 ^ (24 - bitlen c) < 2 ^ bitlen c * 2 ^ (24 - bitlen c)"
      using bl(2) by (rule mult_strict_right_mono) simp
    also have "\<dots> = 2 ^ 24" using b10 by (simp add: power_add [symmetric])
    finally have hi: "c * 2 ^ (24 - bitlen c) < 2 ^ 24" .
    have n: "max (- 149) (- 24 + int (bitlen c) - 24) = int (bitlen c) - 48"
      "nat (- 24 - (int (bitlen c) - 48)) = 24 - bitlen c" "nat (int (bitlen c) - 48 + 149) = 101 + bitlen c"
      using b10 by simp_all
    have "(101 + bitlen c) * 2 ^ 23 \<le> 111 * 2 ^ 23" using b10 by (intro mult_right_mono) auto
    then have "(101 + bitlen c) * 2 ^ 23 + c * 2 ^ (24 - bitlen c) < 255 * 2 ^ 23" using hi by simp
    then show ?thesis using 3 s2 n b10 unfolding fp_convert_def fp_decode16 [OF w]
      by (auto simp: dec16_def fp_sign_bit_def fp_round_def Let_def fp_emin_def fp_bias_def)
  next
    case 4
    have "bitlen (c + 2 ^ 10) = 11" using b(3) by (subst bitlen_eq [of 10]) auto
    moreover have "max (- 149) (int e - 25 + 11 - 24) = int e - 38"
      "nat (int e - 25 - (int e - 38)) = 13" "nat (int e - 38 + 149) = e + 111" using 4 by simp_all
    moreover have "(e + 111) * 2 ^ 23 + (c + 2 ^ 10) * 2 ^ 13 = (e + 112) * 2 ^ 23 + c * 2 ^ 13"
      by simp
    moreover have "(e + 112) * 2 ^ 23 + c * 2 ^ 13 < 255 * 2 ^ 23"
    proof -
      have "(e + 112) * 2 ^ 23 \<le> 142 * 2 ^ 23" using 4 by (intro mult_right_mono) auto
      then show ?thesis using b(3) by simp
    qed
    ultimately show ?thesis using 4 s2 unfolding fp_convert_def fp_decode16 [OF w]
      by (auto simp: dec16_def fp_sign_bit_def fp_round_def Let_def fp_emin_def fp_bias_def)
  qed
qed

subsection \<open>The results on \<open>float16.go\<close>\<close>

definition Float32 :: "u16 \<Rightarrow> f32" where
  "Float32 f = the (f16bitsToF32bits f)"

definition Fromfloat32 :: "f32 \<Rightarrow> u16" where
  "Fromfloat32 u = f32bitsToF16bits u"

lemma f16_IsNaN_fields:
  assumes "unat w div 2 ^ 10 mod 2 ^ 5 = e" "unat w mod 2 ^ 10 = c"
  shows "f16_IsNaN w \<longleftrightarrow> e = 31 \<and> c \<noteq> 0"
proof -
  have "w AND 0x7c00 = 0x7c00 \<longleftrightarrow> unat (w AND 0x7c00) = 31 * 2 ^ 10"
    unfolding word_eq_iff_unsigned [where ?'a = nat, of "w AND 0x7c00"] by simp
  moreover have "w AND 0x3ff = 0 \<longleftrightarrow> unat (w AND 0x3ff) = 0"
    by (simp only: unat_eq_0)
  ultimately show ?thesis
    using assms unfolding f16_IsNaN_def by (simp add: unsigned_and_eq and_fields)
qed

lemma f16_decode_total: "\<exists>u. f16bitsToF32bits w = Some u"
proof -
  obtain s e c where b: "s < 2" "e < 32" "c < 2 ^ 10"
    and f: "unat w div 2 ^ 15 = s" "unat w div 2 ^ 10 mod 2 ^ 5 = e" "unat w mod 2 ^ 10 = c"
    by (rule u16_fields)
  show ?thesis
  proof (cases "e = 31")
    case False
    then show ?thesis using dec16_arith [OF f b] by auto
  next
    case True
    then have "drop_bit 10 (ucast (w AND 0x7c00) :: u32) = 0x1f"
      using f(2) by (intro unsigned_word_eqI [where ?'a = nat])
        (simp only: unat_drop_bit_eq, simp add: unat_ucast32 unsigned_and_eq and_fields drop_bit_eq_div)
    then show ?thesis by (simp only: f16bitsToF32bits_def Let_def) simp
  qed
qed

lemma f16_decode [simp]: "f16bitsToF32bits w = Some (Float32 w)"
  using f16_decode_total [of w] by (auto simp: Float32_def)

lemma f16_decode_exact: "\<not> f16_IsNaN w \<Longrightarrow> unat (Float32 w) = fp_convert 5 10 8 23 (unat w)"
proof -
  assume a: "\<not> f16_IsNaN w"
  obtain s e c where b: "s < 2" "e < 32" "c < 2 ^ 10"
    and f: "unat w div 2 ^ 15 = s" "unat w div 2 ^ 10 mod 2 ^ 5 = e" "unat w mod 2 ^ 10 = c"
    by (rule u16_fields)
  have "e = 31 \<Longrightarrow> c = 0" using a f16_IsNaN_fields [OF f(2,3)] by simp
  then show ?thesis using dec16_arith [OF f b] dec16_round [OF f b] by auto
qed

lemma f16_roundtrip: "\<not> f16_IsNaN w \<Longrightarrow> f32bitsToF16bits (Float32 w) = w"
proof -
  assume a: "\<not> f16_IsNaN w"
  obtain s e c where n: "unat w = s * 2 ^ 15 + e * 2 ^ 10 + c" and b: "s < 2" "e < 32" "c < 2 ^ 10"
    and f: "unat w div 2 ^ 15 = s" "unat w div 2 ^ 10 mod 2 ^ 5 = e" "unat w mod 2 ^ 10 = c"
    by (rule u16_fields)
  have nan: "e = 31 \<Longrightarrow> c = 0" using a f16_IsNaN_fields [OF f(2,3)] by simp
  have u: "unat (Float32 w) = dec16 s e c" using dec16_arith [OF f b nan] by auto
  show ?thesis
  proof (cases "e = 31")
    case False
    with b(2) have e: "e < 31" by simp
    obtain E C where EC: "E < 255" "C < 2 ^ 23" "unat (Float32 w) = s * 2 ^ 31 + E * 2 ^ 23 + C"
      and enc: "enc16 s E C = s * 2 ^ 15 + e * 2 ^ 10 + c"
      using dec16_fields [OF u b(1) e b(3)] by blast
    have "unat (f32bitsToF16bits (Float32 w)) = enc16 s E C"
    proof (rule enc16_arith)
      have "unat (Float32 w) = (s * 2 ^ 8 + E) * 2 ^ 23 + C" using EC(3) by simp
      then show "unat (Float32 w) div 2 ^ 23 mod 2 ^ 8 = E" and "unat (Float32 w) mod 2 ^ 23 = C"
        using EC(1,2) by (simp_all only: div_mult_self3 mod_mult_self3) simp_all
      have "E * 2 ^ 23 + C < 2 ^ 31" using EC(1,2) by simp
      then show "unat (Float32 w) div 2 ^ 31 = s"
        using div_mult_self3 [of "2 ^ 31 :: nat" s "E * 2 ^ 23 + C"] by (simp add: EC(3) add.assoc)
    qed (use b EC in simp_all)
    with enc n show ?thesis by (metis unsigned_word_eqI)
  next
    case True
    then have "s = 0 \<and> Float32 w = 0x7f800000 \<and> w = 0x7c00 \<or> s = 1 \<and> Float32 w = 0xff800000 \<and> w = 0xfc00"
      using nan u n b(1) by (auto simp: dec16_def word_eq_iff_unsigned [where ?'a = nat])
    then show ?thesis by (auto simp: f32bitsToF16bits_def)
  qed
qed

lemma or_absorb_and: "k AND m = m \<Longrightarrow> (a OR k OR b) AND m = m" for a k b m :: "'a::len word"
  by (metis or.commute or.left_commute word_ao_absorbs(2) word_bw_assocs(1) word_ao_dist and.commute word_oa_dist2)

lemma f32_nanI: "u AND 0x7fc00000 = 0x7fc00000 \<Longrightarrow> f32_nan u"
proof -
  assume "u AND 0x7fc00000 = 0x7fc00000"
  moreover have "(mask 31 :: u32) AND 0x7fc00000 = 0x7fc00000"
    by (simp add: mask_eq_exp_minus_1)
  ultimately have "(u AND mask 31) AND 0x7fc00000 = 0x7fc00000" by (simp only: and.assoc)
  then have "0x7fc00000 \<le> u AND mask 31" by (metis word_and_le1 word_bw_comms(1))
  then have "unat (0x7fc00000 :: u32) \<le> unat (u AND mask 31)" by (simp only: word_le_nat_alt)
  moreover have "unat (u AND mask 31) = f32_mag u"
    unfolding f32_mag_def take_bit_eq_mask [symmetric] unsigned_take_bit_eq by (rule take_bit_eq_mod)
  ultimately show ?thesis unfolding f32_nan_def by (simp only:) simp
qed

lemma f16_decode_nan: "f16_IsNaN w \<Longrightarrow> f32_nan (Float32 w)"
proof -
  assume a: "f16_IsNaN w"
  obtain s e c where f: "unat w div 2 ^ 10 mod 2 ^ 5 = e" "unat w mod 2 ^ 10 = c" by simp
  have ec: "e = 31" "c \<noteq> 0" using a f16_IsNaN_fields [OF f] by auto
  have e: "drop_bit 10 (ucast (w AND 0x7c00) :: u32) = 0x1f"
    using f(1) ec(1) by (intro unsigned_word_eqI [where ?'a = nat])
      (simp only: unat_drop_bit_eq, simp add: unat_ucast32 unsigned_and_eq and_fields drop_bit_eq_div)
  have "unat (push_bit 13 (ucast (w AND 0x03ff) :: u32)) = c * 2 ^ 13"
    unfolding unsigned_push_bit_eq using f(2)
    by (simp add: unat_ucast32 unsigned_and_eq and_fields push_bit_eq_mult take_bit_nat_eq_self)
  then have c: "push_bit 13 (ucast (w AND 0x03ff) :: u32) \<noteq> 0"
    using ec(2) by (metis mult_is_0 power_not_zero unsigned_0 zero_neq_numeral)
  have "f16bitsToF32bits w = Some (push_bit 16 (ucast (w AND 0x8000)) OR 0x7fc00000 OR
      push_bit 13 (ucast (w AND 0x03ff)))"
    using c e by (simp only: f16bitsToF32bits_def Let_def simp_thms if_False if_True)
  then have "Float32 w = push_bit 16 (ucast (w AND 0x8000)) OR 0x7fc00000 OR
      push_bit 13 (ucast (w AND 0x03ff))" by (simp only: Float32_def option.sel)
  moreover have "\<dots> AND 0x7fc00000 = 0x7fc00000"
    by (rule or_absorb_and) simp
  ultimately show ?thesis by (metis f32_nanI)
qed

lemma f16_encode_nan: "f32_nan u \<Longrightarrow> f16_IsNaN (f32bitsToF16bits u)"
proof -
  assume a: "f32_nan u"
  obtain E C where f: "unat u div 2 ^ 23 mod 2 ^ 8 = E" "unat u mod 2 ^ 23 = C" by simp
  have EC: "E = 255" "C \<noteq> 0" using a f32_nan_fields [OF f] by auto
  have e: "u AND 0x7f800000 = 0x7f800000"
    using f(1) EC(1) by (intro unsigned_word_eqI [where ?'a = nat]) (simp add: unsigned_and_eq and_fields)
  have c: "u AND 0x7fffff \<noteq> 0"
    using f(2) EC(2) unfolding unat_eq_0 [symmetric] by (simp add: unsigned_and_eq and_fields)
  define A where "A = (ucast (drop_bit 16 (u AND 0x80000000)) :: u16)"
  define B where "B = (ucast (drop_bit 13 (u AND 0x7fffff)) :: u16)"
  have "f32bitsToF16bits u = A OR 0x7c00 OR 0x0200 OR B"
    using e c by (simp add: f32bitsToF16bits_def unsigned_or_eq A_def B_def)
  moreover have "(A OR 0x7c00 OR 0x0200 OR B) AND 0x7c00 = 0x7c00"
    using or_absorb_and [of "0x7c00" "0x7c00" A "0x200 OR B"] by simp
  moreover have "(A OR 0x7c00 OR 0x0200 OR B) AND 0x200 = 0x200"
    using or_absorb_and [of "0x200" "0x200" "A OR 0x7c00" B] by (simp add: or.assoc)
  moreover have "x AND 0x200 = 0x200 \<Longrightarrow> x AND 0x3ff \<noteq> 0" for x :: u16
  proof
    assume "x AND 0x200 = 0x200" "x AND 0x3ff = 0"
    moreover have "(x AND 0x3ff) AND 0x200 = x AND 0x200" by (simp add: and.assoc)
    ultimately show False by (simp only:) simp
  qed
  ultimately show ?thesis by (metis f16_IsNaN_def)
qed

subsection \<open>\<open>bf16.go\<close>\<close>

definition BF16PrecisionFromfloat32 :: "f32 \<Rightarrow> Precision" where
  "BF16PrecisionFromfloat32 u =
     (if u = 0 \<or> u = 0x80000000 then PrecisionExact
      else
        let e = drop_bit 23 (u AND 0x7f800000) - 127; coef = u AND 0x7fffff in
        if e = 128 then PrecisionExact
        else if e <s - 24 then PrecisionUnderflow
        else if 15 <s e then PrecisionOverflow
        else if coef AND drop_bit 10 0x7fffff \<noteq> 0 then PrecisionInexact
        else if e <s - 14 then PrecisionUnknown
        else PrecisionExact)"

definition BF16bitsToF32bits :: "u16 \<Rightarrow> u32 option" where
  "BF16bitsToF32bits w =
     (let sgn = push_bit 16 (ucast (w AND 0x8000) :: u32);
          e = drop_bit 10 (ucast (w AND 0x7c00) :: u32);
          coef = push_bit 13 (ucast (w AND 0x03ff) :: u32) in
      if e = 0x1f then
        (if coef = 0 then Some (sgn OR 0x7f800000 OR coef) else Some (sgn OR 0x7fc00000 OR coef))
      else if e = 0 then
        (if coef = 0 then Some sgn
         else case normalise coef (e + 1) of
             None \<Rightarrow> None
           | Some (coef', e') \<Rightarrow>
               Some (sgn OR push_bit 23 (e' + (0x7f - 0xf)) OR (coef' AND 0x007fffff)))
      else Some (sgn OR push_bit 23 (e + (0x7f - 0xf)) OR coef))"

definition f32bitsToBF16bits :: "u32 \<Rightarrow> u16" where
  "f32bitsToBF16bits u =
     (let sgn = u AND 0x80000000; e = u AND 0x7f800000; coef = u AND 0x007fffff in
      if e = 0x7f800000 then
        (let nanBit = (if coef \<noteq> 0 then 0x0200 else 0) in
         ucast (drop_bit 16 sgn OR 0x7c00 OR nanBit OR drop_bit 13 coef))
      else
        let halfSign = drop_bit 16 sgn; unbiasedExp = drop_bit 23 e - 127;
            halfExp = unbiasedExp + 15 in
        if 0x1f \<le>s halfExp then ucast (halfSign OR 0x7c00)
        else if halfExp \<le>s 0 then
          (if 24 <s 14 - halfExp then ucast halfSign
           else
             let c = coef OR 0x00800000;
                 halfCoef = drop_bit (unat (14 - halfExp)) c;
                 roundBit = push_bit (unat (13 - halfExp)) 1 in
             if c AND roundBit \<noteq> 0 \<and> c AND (3 * roundBit - 1) \<noteq> 0
             then ucast (halfSign OR (halfCoef + 1)) else ucast (halfSign OR halfCoef))
        else
          let uHalfExp = push_bit 10 halfExp; halfCoef = drop_bit 13 coef; roundBit = 0x1000 in
          if coef AND roundBit \<noteq> 0 \<and> coef AND (3 * roundBit - 1) \<noteq> 0
          then ucast ((halfSign OR uHalfExp OR halfCoef) + 1)
          else ucast (halfSign OR uHalfExp OR halfCoef))"

definition BF16FromNaN32ps :: "f32 \<Rightarrow> u16 \<times> bool" where
  "BF16FromNaN32ps u =
     (let sgn = u AND 0x80000000; e = u AND 0x7f800000; coef = u AND 0x007fffff in
      if e \<noteq> 0x7f800000 \<or> coef = 0 then (0x7c01, False)
      else
        let h = ucast (drop_bit 16 sgn OR 0x7c00 OR drop_bit 13 coef) :: u16 in
        if h AND 0x03ff = 0 then (h OR 1, True) else (h, True))"

definition bf16_Inf :: "int \<Rightarrow> u16" where
  "bf16_Inf s = (if 0 \<le> s then 0x7c00 else 0x8000 OR 0x7c00)"

definition bf16_IsNaN :: "u16 \<Rightarrow> bool" where
  "bf16_IsNaN f \<longleftrightarrow> f AND 0x7c00 = 0x7c00 \<and> f AND 0x03ff \<noteq> 0"

definition bf16_IsQuietNaN :: "u16 \<Rightarrow> bool" where
  "bf16_IsQuietNaN f \<longleftrightarrow> f AND 0x7c00 = 0x7c00 \<and> f AND 0x03ff \<noteq> 0 \<and> f AND 0x0200 \<noteq> 0"

definition bf16_IsInf :: "u16 \<Rightarrow> int \<Rightarrow> bool" where
  "bf16_IsInf f s \<longleftrightarrow> f = 0x7c00 \<and> 0 \<le> s \<or> f = 0xfc00 \<and> s \<le> 0"

definition bf16_IsFinite :: "u16 \<Rightarrow> bool" where
  "bf16_IsFinite f \<longleftrightarrow> f AND 0x7c00 \<noteq> 0x7c00"

definition bf16_IsNormal :: "u16 \<Rightarrow> bool" where
  "bf16_IsNormal f \<longleftrightarrow> (let e = f AND 0x7c00 in e \<noteq> 0x7c00 \<and> e \<noteq> 0)"

definition bf16_Signbit :: "u16 \<Rightarrow> bool" where
  "bf16_Signbit f \<longleftrightarrow> f AND 0x8000 \<noteq> 0"

subsection \<open>\<open>float8.go\<close>\<close>

definition F8PrecisionFromfloat32 :: "f32 \<Rightarrow> Precision" where
  "F8PrecisionFromfloat32 u =
     (if u = 0 \<or> u = 0x800000 then PrecisionExact
      else
        let e = drop_bit 23 (u AND 0x7f800000) - 127; coef = u AND 0x7fffff in
        if e = 128 then PrecisionExact
        else if e <s - 24 then PrecisionUnderflow
        else if 15 <s e then PrecisionOverflow
        else if coef AND drop_bit 10 0x7fffff \<noteq> 0 then PrecisionInexact
        else if e <s - 14 then PrecisionUnknown
        else PrecisionExact)"

definition F8bitsToF32bits :: "u8 \<Rightarrow> u32 option" where
  "F8bitsToF32bits w =
     (let sgn = push_bit 8 (ucast (w AND 0x80) :: u32);
          e = drop_bit 10 (ucast (w AND 0x7c) :: u32);
          coef = push_bit 13 (ucast (w AND 0x03) :: u32) in
      if e = 0x1f then
        (if coef = 0 then Some (sgn OR 0x7f800000 OR coef) else Some (sgn OR 0x7fc00000 OR coef))
      else if e = 0 then
        (if coef = 0 then Some sgn
         else case normalise coef (e + 1) of
             None \<Rightarrow> None
           | Some (coef', e') \<Rightarrow>
               Some (sgn OR push_bit 23 (e' + (0x7f - 0xf)) OR (coef' AND 0x007fffff)))
      else Some (sgn OR push_bit 23 (e + (0x7f - 0xf)) OR coef))"

definition f32bitsToF8bits :: "u32 \<Rightarrow> u8" where
  "f32bitsToF8bits u =
     (let sgn = u AND 0x800000; e = u AND 0x7f800000; coef = u AND 0x007fffff in
      if e = 0x7f800000 then
        (let nanBit = (if coef \<noteq> 0 then 0x0200 else 0) in
         ucast (drop_bit 8 sgn OR 0x7c OR nanBit OR drop_bit 13 coef))
      else
        let halfSign = drop_bit 8 sgn; unbiasedExp = drop_bit 23 e - 127;
            halfExp = unbiasedExp + 15 in
        if 0x1f \<le>s halfExp then ucast (halfSign OR 0x7c)
        else if halfExp \<le>s 0 then
          (if 24 <s 14 - halfExp then ucast halfSign
           else
             let c = coef OR 0x00800000;
                 halfCoef = drop_bit (unat (14 - halfExp)) c;
                 roundBit = push_bit (unat (13 - halfExp)) 1 in
             if c AND roundBit \<noteq> 0 \<and> c AND (3 * roundBit - 1) \<noteq> 0
             then ucast (halfSign OR (halfCoef + 1)) else ucast (halfSign OR halfCoef))
        else
          let uHalfExp = push_bit 10 halfExp; halfCoef = drop_bit 13 coef; roundBit = 0x1000 in
          if coef AND roundBit \<noteq> 0 \<and> coef AND (3 * roundBit - 1) \<noteq> 0
          then ucast ((halfSign OR uHalfExp OR halfCoef) + 1)
          else ucast (halfSign OR uHalfExp OR halfCoef))"

definition F8FromNaN32ps :: "f32 \<Rightarrow> u8 \<times> bool" where
  "F8FromNaN32ps u =
     (let sgn = u AND 0x800000; e = u AND 0x7f800000; coef = u AND 0x007fffff in
      if e \<noteq> 0x7f800000 \<or> coef = 0 then (0x7c, False)
      else
        let h = ucast (drop_bit 8 sgn OR 0x7c OR drop_bit 13 coef) :: u8 in
        if h AND 0x03 = 0 then (h OR 1, True) else (h, True))"

definition f8_Inf :: "int \<Rightarrow> u8" where
  "f8_Inf s = (if 0 \<le> s then 0x7c else 0x80 OR 0x7c)"

definition f8_IsNaN :: "u8 \<Rightarrow> bool" where
  "f8_IsNaN f \<longleftrightarrow> f AND 0x7c = 0x7c \<and> f AND 0x03 \<noteq> 0"

definition f8_IsQuietNaN :: "u8 \<Rightarrow> bool" where
  "f8_IsQuietNaN f \<longleftrightarrow> f AND 0x7c = 0x7c \<and> f AND 0x03 \<noteq> 0 \<and> f AND 0x02 \<noteq> 0"

definition f8_IsInf :: "u8 \<Rightarrow> int \<Rightarrow> bool" where
  "f8_IsInf f s \<longleftrightarrow> f = 0x7c \<and> 0 \<le> s \<or> f = 0xfc \<and> s \<le> 0"

definition f8_IsFinite :: "u8 \<Rightarrow> bool" where
  "f8_IsFinite f \<longleftrightarrow> f AND 0x7c \<noteq> 0x7c"

definition f8_IsNormal :: "u8 \<Rightarrow> bool" where
  "f8_IsNormal f \<longleftrightarrow> (let e = f AND 0x7c in e \<noteq> 0x7c \<and> e \<noteq> 0)"

definition f8_Signbit :: "u8 \<Rightarrow> bool" where
  "f8_Signbit f \<longleftrightarrow> f AND 0x80 \<noteq> 0"

definition BF16Float32 :: "u16 \<Rightarrow> f32" where
  "BF16Float32 f = the (BF16bitsToF32bits f)"

definition BF16Fromfloat32 :: "f32 \<Rightarrow> u16" where
  "BF16Fromfloat32 u = f32bitsToBF16bits u"

definition F8Float32 :: "u8 \<Rightarrow> f32" where
  "F8Float32 f = the (F8bitsToF32bits f)"

definition F8Fromfloat32 :: "f32 \<Rightarrow> u8" where
  "F8Fromfloat32 u = f32bitsToF8bits u"

lemma bf16_is_f16: "BF16Float32 = Float32" "BF16Fromfloat32 = Fromfloat32"
  by (rule ext, simp add: BF16Float32_def Float32_def BF16bitsToF32bits_def f16bitsToF32bits_def
      del: f16_decode)
    (rule ext, simp add: BF16Fromfloat32_def Fromfloat32_def f32bitsToBF16bits_def f32bitsToF16bits_def)

lemma normalise_f8: "normalise 8192 1 = Some (0x800000, - 9)" "normalise 16384 1 = Some (0x800000, - 8)"
  "normalise 24576 1 = Some (0xc00000, - 8)"
  by (simp_all add: normalise.simps)

lemma unat_numeral_23: "unat (2 :: u8) = 2" "unat (3 :: u8) = 3"
  by simp_all

lemma f8_decode:
  "F8bitsToF32bits w = Some (F8Float32 w) \<and>
   F8Float32 w \<in> {0, 0x8000, 0x33800000, 0x33808000, 0x34000000, 0x34008000, 0x34400000, 0x34408000}"
proof -
  have e: "drop_bit 10 (ucast (w AND 0x7c) :: u32) = 0"
  proof (rule unsigned_word_eqI [where ?'a = nat])
    have "unat (w AND 0x7c) \<le> unat (0x7c :: u8)" by (simp only: word_le_nat_alt [symmetric] word_and_le1)
    then have "unat (w AND 0x7c) < 2 ^ 10" by simp
    then show "unat (drop_bit 10 (ucast (w AND 0x7c) :: u32)) = unat (0 :: u32)"
      unfolding unat_drop_bit_eq by (simp add: unsigned_ucast_eq drop_bit_eq_div take_bit_nat_eq_self)
  qed
  have s: "w AND 0x80 = 0 \<or> w AND 0x80 = 0x80"
  proof -
    have "unat (w AND 0x80) = 0 \<or> unat (w AND 0x80) = unat (0x80 :: u8)"
      using and_field_mult [of "unat w" 1 7] mod_less_divisor [of 2 "unat w div 2 ^ 7"]
      by (simp add: unsigned_and_eq) linarith
    then show ?thesis by (metis unsigned_word_eqI unat_eq_0)
  qed
  have c: "w AND 3 = 0 \<or> w AND 3 = 1 \<or> w AND 3 = 2 \<or> w AND 3 = 3"
  proof -
    have "w AND 3 \<le> 3" by (rule word_and_le1)
    then have "unat (w AND 3) = 0 \<or> unat (w AND 3) = 1 \<or> unat (w AND 3) = 2 \<or> unat (w AND 3) = 3"
      by (auto simp: word_le_nat_alt)
    then show ?thesis by (metis unsigned_word_eqI unsigned_0 unsigned_1 unat_numeral_23)
  qed
  show ?thesis
    using s c by (auto simp: F8Float32_def F8bitsToF32bits_def e normalise_f8)
qed


subsection \<open>Statements\<close>

text \<open>
  C15: Decoding a binary16 always terminates, yields a NaN exactly for a NaN, and otherwise
  the \<open>float32\<close> of the same value, which encodes back to the same 16 bits.
\<close>

theorem f16_lossless:
  "\<exists>u. f16bitsToF32bits w = Some u \<and>
     (if f16_IsNaN w then f32_nan u
      else unat u = fp_convert 5 10 8 23 (unat w) \<and> f32bitsToF16bits u = w)"
  by (simp add: f16_decode_nan f16_decode_exact f16_roundtrip)

text \<open>
  C12: The word program \<open>f32bitsToF16bits\<close> is the rounding of the reference: to nearest, ties to
  even, gradual underflow to subnormals and zero, overflow to infinity; NaN stays NaN.
\<close>

theorem f16_rounds:
  "if f32_nan u then f16_IsNaN (f32bitsToF16bits u)
   else unat (f32bitsToF16bits u) = fp_convert 8 23 5 10 (unat u)"
  by (simp add: f16_encode_nan f32bitsToF16bits_convert)

text \<open>
  C18: The 8 bit format loses the vectors it stores: whatever is encoded, what is decoded is not
  negative and below \<open>2 powi -22\<close>; \<open>1.0\<close> comes back as \<open>0.0\<close>.
\<close>

theorem f8_collapses:
  "F8bitsToF32bits (F8Fromfloat32 u) = Some (F8Float32 (F8Fromfloat32 u)) \<and>
   \<not> f32_neg (F8Float32 (F8Fromfloat32 u)) \<and> f32_lt (F8Float32 (F8Fromfloat32 u)) 0x34800000 \<and>
   F8Float32 (F8Fromfloat32 0x3f800000) = 0"
proof -
  have "F8Fromfloat32 0x3f800000 = 0"
    by (simp add: F8Fromfloat32_def f32bitsToF8bits_def word_sle_eq)
  moreover have "F8Float32 0 = 0" by (simp add: F8Float32_def F8bitsToF32bits_def)
  ultimately show ?thesis
    using f8_decode [of "F8Fromfloat32 u"]
    by (auto simp: f32_neg_def f32_lt_def f32_nan_def f32_key_def f32_mag_def)
qed

text \<open>
  C21: The type called \<open>BFloat16\<close> is binary16 under another name: it encodes and decodes like
  \<open>Float16\<close>, so \<open>65536.0\<close>, which a bfloat16 holds exactly, becomes an infinity.
\<close>

theorem bf16_is_binary16:
  "BF16Float32 w = Float32 w \<and> BF16Fromfloat32 u = Fromfloat32 u \<and>
   bf16_IsInf (BF16Fromfloat32 0x47800000) 1"
  by (simp add: bf16_is_f16 Fromfloat32_def f32bitsToF16bits_def bf16_IsInf_def word_sle_eq)

end
