(* ===== verification/GoBytes.thy ===== *)
theory GoBytes
  imports Prelude "HOL-Library.Sublist"
begin

text \<open>
  The byte order routines of \<open>encoding/binary\<close>, strings as byte sequences, and a reader over
  the bytes that are left (\<open>bytes.Reader\<close>, \<open>bufio.Reader\<close> with \<open>io.ReadFull\<close>).
\<close>

fun le_bytes :: "nat \<Rightarrow> nat \<Rightarrow> bytes" where
  "le_bytes 0 x = []"
| "le_bytes (Suc n) x = word_of_nat x # le_bytes n (x div 256)"

fun le_val :: "bytes \<Rightarrow> nat" where
  "le_val [] = 0"
| "le_val (b # bs) = unat b + 256 * le_val bs"

definition be_bytes :: "nat \<Rightarrow> nat \<Rightarrow> bytes" where
  "be_bytes n x = rev (le_bytes n x)"

definition be_val :: "bytes \<Rightarrow> nat" where
  "be_val bs = le_val (rev bs)"

lemma length_le_bytes [simp]: "length (le_bytes n x) = n"
  by (induction n arbitrary: x) auto

lemma length_be_bytes [simp]: "length (be_bytes n x) = n"
  by (simp add: be_bytes_def)

lemma le_val_le_bytes [simp]: "le_val (le_bytes n x) = x mod 256 ^ n"
proof (induction n arbitrary: x)
  case 0
  then show ?case by simp
next
  case (Suc n)
  then show ?case using mod_mult2_eq [of x 256 "256 ^ n"] by (simp add: unat_of_nat)
qed

lemma be_val_be_bytes [simp]: "be_val (be_bytes n x) = x mod 256 ^ n"
  by (simp add: be_val_def be_bytes_def)

definition str_bytes :: "string \<Rightarrow> bytes" where
  "str_bytes s = map of_char s"

definition bytes_str :: "bytes \<Rightarrow> string" where
  "bytes_str bs = map (\<lambda>b. char_of (unat b)) bs"

lemma bytes_str_bytes [simp]: "bytes_str (str_bytes s) = s"
proof -
  have "char_of (unat (of_char c :: u8)) = c" for c
  proof -
    have "(of_char c :: nat) < 256" by (rule nat_of_char_less_256)
    then have "unat (word_of_nat (of_char c) :: u8) = of_char c" by (simp add: unat_of_nat)
    then have "unat (of_char c :: u8) = of_char c" by (simp only: of_nat_of_char)
    then show ?thesis by simp
  qed
  then show ?thesis by (simp add: str_bytes_def bytes_str_def o_def)
qed

lemma length_str_bytes [simp]: "length (str_bytes s) = length s"
  by (simp add: str_bytes_def)

subsection \<open>Readers\<close>

definition read_full :: "nat \<Rightarrow> bytes \<Rightarrow> (bytes \<times> bytes) gores" where
  "read_full n bs =
     (if n \<le> length bs then Ok (take n bs, drop n bs)
      else if bs = [] then Err ''EOF'' else Err ''unexpected EOF'')"

lemma read_full_append [simp]: "length xs = n \<Longrightarrow> read_full n (xs @ ys) = Ok (xs, ys)"
  by (simp add: read_full_def)

definition read_le :: "nat \<Rightarrow> bytes \<Rightarrow> (nat \<times> bytes) gores" where
  "read_le n bs = go_bind (read_full n bs) (\<lambda>(xs, r). Ok (le_val xs, r))"

definition read_be :: "nat \<Rightarrow> bytes \<Rightarrow> (nat \<times> bytes) gores" where
  "read_be n bs = go_bind (read_full n bs) (\<lambda>(xs, r). Ok (be_val xs, r))"

lemma read_le_bytes [simp]: "read_le n (le_bytes n x @ r) = Ok (x mod 256 ^ n, r)"
  by (simp add: read_le_def)

lemma read_be_bytes [simp]: "read_be n (be_bytes n x @ r) = Ok (x mod 256 ^ n, r)"
  by (simp add: read_be_def)

text \<open>A word written with all its bytes comes back as it was.\<close>

lemma word_bytes [simp]:
  "(word_of_nat (unat (w :: u64) mod 18446744073709551616) :: u64) = w"
  "(word_of_nat (unat (v :: u32) mod 4294967296) :: u32) = v"
proof -
  have "unat w < 18446744073709551616" "unat v < 4294967296"
    using unsigned_less [of w, where ?'a = nat] unsigned_less [of v, where ?'a = nat] by simp_all
  then show "(word_of_nat (unat w mod 18446744073709551616) :: u64) = w"
    "(word_of_nat (unat v mod 4294967296) :: u32) = v" by simp_all
qed

text \<open>A counted run of records, each read by the same reader.\<close>

fun read_n :: "nat \<Rightarrow> (bytes \<Rightarrow> ('a \<times> bytes) gores) \<Rightarrow> bytes \<Rightarrow> ('a list \<times> bytes) gores" where
  "read_n 0 rd bs = Ok ([], bs)"
| "read_n (Suc n) rd bs =
     go_bind (rd bs) (\<lambda>(x, r). go_bind (read_n n rd r) (\<lambda>(xs, r'). Ok (x # xs, r')))"

lemma read_n_concat:
  "(\<And>x r. x \<in> set xs \<Longrightarrow> rd (enc x @ r) = Ok (dec x, r)) \<Longrightarrow>
   read_n (length xs) rd (concat (map enc xs) @ r) = Ok (map dec xs, r)"
  by (induction xs) auto

text \<open>
  \<open>decodes rd bs x\<close>: at the front of any input the reader takes exactly the bytes \<open>bs\<close> and
  gives \<open>x\<close>, and it fails when the input ends inside them.
\<close>

definition decodes :: "(bytes \<Rightarrow> ('a \<times> bytes) gores) \<Rightarrow> bytes \<Rightarrow> 'a \<Rightarrow> bool" where
  "decodes rd bs x \<longleftrightarrow> (\<forall>r. rd (bs @ r) = Ok (x, r)) \<and> (\<forall>p. strict_prefix p bs \<longrightarrow> (\<exists>e. rd p = Err e))"

lemma decodesD: "decodes rd bs x \<Longrightarrow> rd (bs @ r) = Ok (x, r)" "decodes rd bs x \<Longrightarrow> rd bs = Ok (x, [])"
  "decodes rd bs x \<Longrightarrow> strict_prefix p bs \<Longrightarrow> \<exists>e. rd p = Err e"
  unfolding decodes_def by (blast, metis append_Nil2, blast)

lemma decodes_Ok [intro]: "decodes (\<lambda>r. Ok (x, r)) [] x"
  by (simp add: decodes_def)

lemma decodes_bind:
  assumes 1: "decodes rd bs y" and 2: "decodes (rd' y) bs' y'"
  shows "decodes (\<lambda>inp. go_bind (rd inp) (\<lambda>(x, r). rd' x r)) (bs @ bs') y'"
  unfolding decodes_def
proof (intro conjI allI impI)
  show "go_bind (rd ((bs @ bs') @ r)) (\<lambda>(x, r). rd' x r) = Ok (y', r)" for r
    by (simp add: decodesD(1) [OF 1] decodesD(1) [OF 2])
next
  fix p
  assume p: "strict_prefix p (bs @ bs')"
  then obtain q where q: "bs @ bs' = p @ q" "q \<noteq> []" by (auto simp: strict_prefix_def prefix_def)
  then consider us where "bs = p @ us" "us \<noteq> []" | us where "p = bs @ us" "strict_prefix us bs'"
  proof -
    from q(1) obtain us where "bs = p @ us \<and> us @ bs' = q \<or> bs @ us = p \<and> bs' = us @ q"
      by (auto simp: append_eq_append_conv2)
    then show ?thesis using q(2) that by (cases "us = []") (auto simp: strict_prefix_def prefix_def)
  qed
  then show "\<exists>e. go_bind (rd p) (\<lambda>(x, r). rd' x r) = Err e"
  proof cases
    case 1
    then have "strict_prefix p bs" by (auto simp: strict_prefix_def)
    then show ?thesis using decodesD(3) [OF assms(1)] by fastforce
  next
    case 2
    then show ?thesis using decodesD(3) [OF assms(2)] by (simp add: decodesD(1) [OF assms(1)])
  qed
qed

lemma decodes_bind_Ok:
  "decodes rd bs x \<Longrightarrow> f x = y \<Longrightarrow> decodes (\<lambda>bs. go_bind (rd bs) (\<lambda>(x, r). Ok (f x, r))) bs y"
  using decodes_bind [of rd bs x "\<lambda>x r. Ok (f x, r)" "[]" y] decodes_Ok by auto

lemma decodes_byte:
  "decodes (rd b) bs x \<Longrightarrow> decodes (\<lambda>bs. case bs of [] \<Rightarrow> Err e | b # r \<Rightarrow> rd b r) (b # bs) x"
  by (auto simp: decodes_def strict_prefix_def prefix_Cons split: list.split)

lemma decodes_full [intro]: "n = length xs \<Longrightarrow> decodes (read_full n) xs xs"
  by (auto simp: decodes_def read_full_def dest: prefix_length_less)

lemma decodes_be [intro]: "x < 256 ^ n \<Longrightarrow> decodes (read_be n) (be_bytes n x) x"
  by (auto simp: decodes_def read_be_def read_full_def dest: prefix_length_less)

lemma decodes_le [intro]: "x < 256 ^ n \<Longrightarrow> decodes (read_le n) (le_bytes n x) x"
  by (auto simp: decodes_def read_le_def read_full_def dest: prefix_length_less)

lemma decodes_words:
  "decodes (read_be 8) (be_bytes 8 (unat (w :: u64))) (unat w)"
  "decodes (read_le 8) (le_bytes 8 (unat (w :: u64))) (unat w)"
  "decodes (read_be 4) (be_bytes 4 (unat (v :: u32))) (unat v)"
  "decodes (read_le 4) (le_bytes 4 (unat (v :: u32))) (unat v)"
  using unsigned_less [of w, where ?'a = nat] unsigned_less [of v, where ?'a = nat]
  by (auto intro!: decodes_be decodes_le)

lemma decodes_n:
  assumes "\<And>x. x \<in> set xs \<Longrightarrow> decodes rd (enc x) (dec x)"
  shows "decodes (read_n (length xs) rd) (concat (map enc xs)) (map dec xs)"
  using assms
proof (induction xs)
  case Nil
  then show ?case by (simp add: decodes_def)
next
  case (Cons x xs)
  have n: "decodes (\<lambda>r. go_bind (read_n (length xs) rd r) (\<lambda>(ys, r'). Ok (dec x # ys, r')))
      (concat (map enc xs)) (map dec (x # xs))"
    by (rule decodes_bind_Ok [OF Cons.IH]) (use Cons.prems in auto)
  have "decodes rd (enc x) (dec x)" by (rule Cons.prems) simp
  then show ?case
    using decodes_bind [of rd "enc x" "dec x"
        "\<lambda>x r. go_bind (read_n (length xs) rd r) (\<lambda>(ys, r'). Ok (x # ys, r'))"] n by simp
qed

end
