(* ===== verification/GoValue.thy ===== *)
theory GoValue
  imports GoFloat GoBytes
begin

text \<open>
  Go's \<open>interface{}\<close> values with the dynamic types that metadata can have, their equality as
  map keys, and the conversions of \<open>strconv\<close>. A string is its sequence of bytes.
\<close>

datatype gval = GNil | GBool bool | GInt i64 | GInt8 u8 | GInt16 u16 | GInt32 u32 | GInt64 i64
  | GFloat32 f32 | GFloat64 f64 | GString string | GList "gval list" | GMap "(string \<times> gval) list"

type_synonym gmeta = "(string \<times> gval) list"

subsection \<open>Values as map keys\<close>

text \<open>
  Hashing a slice or a map panics. Two keys are the same when they have the same dynamic type
  and compare equal with \<open>==\<close>, so a NaN is never found again and the two zeros are one key.
\<close>

definition hashable :: "gval \<Rightarrow> bool" where
  "hashable v = (case v of GList _ \<Rightarrow> False | GMap _ \<Rightarrow> False | _ \<Rightarrow> True)"

definition key_eq :: "gval \<Rightarrow> gval \<Rightarrow> bool" where
  "key_eq a b = (case (a, b) of
     (GFloat32 x, GFloat32 y) \<Rightarrow> f32_eq x y
   | (GFloat64 x, GFloat64 y) \<Rightarrow> f64_eq x y
   | _ \<Rightarrow> a = b)"

fun gm_lookup :: "gval \<Rightarrow> (gval \<times> 'b) list \<Rightarrow> 'b option" where
  "gm_lookup k [] = None"
| "gm_lookup k ((k', v) # m) = (if key_eq k k' then Some v else gm_lookup k m)"

fun gm_update :: "gval \<Rightarrow> 'b \<Rightarrow> (gval \<times> 'b) list \<Rightarrow> (gval \<times> 'b) list" where
  "gm_update k v [] = [(k, v)]"
| "gm_update k v ((k', v') # m) = (if key_eq k k' then (k, v) # m else (k', v') # gm_update k v m)"

text \<open>A write through the pointer stored under a key leaves the key as it is.\<close>

fun gm_set :: "gval \<Rightarrow> 'b \<Rightarrow> (gval \<times> 'b) list \<Rightarrow> (gval \<times> 'b) list" where
  "gm_set k v [] = []"
| "gm_set k v ((k', v') # m) = (if key_eq k k' then (k', v) # m else (k', v') # gm_set k v m)"

fun gm_delete :: "gval \<Rightarrow> (gval \<times> 'b) list \<Rightarrow> (gval \<times> 'b) list" where
  "gm_delete k [] = []"
| "gm_delete k ((k', v') # m) = (if key_eq k k' then m else (k', v') # gm_delete k m)"

lemma f32_eq_sym: "f32_eq a b = f32_eq b a"
  by (auto simp: f32_eq_def)

lemma f64_eq_sym: "f64_eq c d = f64_eq d c"
  by (auto simp: f64_eq_def)

lemma key_eq_sym: "key_eq a b = key_eq b a"
  by (cases a; cases b) (auto simp: key_eq_def f32_eq_sym f64_eq_sym)

lemma key_eq_trans: "key_eq a b \<Longrightarrow> key_eq b c \<Longrightarrow> key_eq a c"
  by (cases a; cases b; cases c) (auto simp: key_eq_def f32_eq_def f64_eq_def)

lemma key_eq_cong: "key_eq a b \<Longrightarrow> key_eq a c = key_eq b c" "key_eq a b \<Longrightarrow> key_eq c a = key_eq c b"
  by (metis key_eq_sym key_eq_trans)+

lemma key_eq_hashable: "key_eq a b \<Longrightarrow> hashable a = hashable b"
  by (cases a; cases b) (auto simp: key_eq_def hashable_def)

text \<open>
  A value can be stored under a key and found again when it can be hashed and is no NaN. A map
  built by the code holds only such keys, no two of them equal.
\<close>

definition storable :: "gval \<Rightarrow> bool" where
  "storable v \<longleftrightarrow> hashable v \<and> key_eq v v"

fun gm_ok :: "(gval \<times> 'b) list \<Rightarrow> bool" where
  "gm_ok [] = True"
| "gm_ok ((k, v) # m) = (storable k \<and> (\<forall>(k', v') \<in> set m. \<not> key_eq k k') \<and> gm_ok m)"

lemma gm_lookup_None_iff: "gm_lookup k m = None \<longleftrightarrow> (\<forall>(k', v') \<in> set m. \<not> key_eq k k')"
  by (induction k m rule: gm_lookup.induct) auto

lemma gm_lookup_cong: "key_eq k k' \<Longrightarrow> gm_lookup k m = gm_lookup k' m"
  by (induction m) (auto simp: key_eq_cong(1))

lemma gm_lookup_update:
  "gm_lookup k' (gm_update k v m) = (if key_eq k' k then Some v else gm_lookup k' m)"
  by (induction m) (auto simp: key_eq_cong(2), (metis key_eq_sym key_eq_trans)+)

lemma gm_update_keys: "(a, b) \<in> set (gm_update k v m) \<Longrightarrow> a = k \<or> (a, b) \<in> set m"
  by (induction m) (auto split: if_splits)

lemma gm_ok_update: "gm_ok m \<Longrightarrow> storable k \<Longrightarrow> gm_ok (gm_update k v m)"
proof (induction m)
  case Nil
  then show ?case by simp
next
  case (Cons p m)
  obtain k' v' where p: "p = (k', v')" by (cases p)
  show ?case
  proof (cases "key_eq k k'")
    case True
    then show ?thesis using Cons.prems p by (auto simp: key_eq_cong(1) [OF True])
  next
    case False
    have "\<not> key_eq k' a" if "(a, b) \<in> set (gm_update k v m)" for a b
      using gm_update_keys [OF that] Cons.prems(1) False p by (auto simp: key_eq_sym)
    then show ?thesis using Cons p False by auto
  qed
qed

lemma gm_lookup_delete:
  "gm_ok m \<Longrightarrow> gm_lookup k' (gm_delete k m) = (if key_eq k' k then None else gm_lookup k' m)"
proof (induction m)
  case Nil
  then show ?case by simp
next
  case (Cons p m)
  obtain a b where p: "p = (a, b)" by (cases p)
  have n: "gm_lookup k' m = None" if "key_eq k' a"
    unfolding gm_lookup_None_iff using Cons.prems by (auto simp: p key_eq_cong(1) [OF that])
  show ?case
    using Cons n by (auto simp: p key_eq_cong(2)) (metis key_eq_sym key_eq_trans)+
qed

lemma gm_delete_subset: "set (gm_delete k m) \<subseteq> set m"
  by (induction m) (auto split: if_splits)

lemma gm_ok_delete: "gm_ok m \<Longrightarrow> gm_ok (gm_delete k m)"
proof (induction m)
  case (Cons p m)
  then show ?case using gm_delete_subset [of k m] by (cases p) auto
qed simp

lemma gm_lookup_in: "gm_ok m \<Longrightarrow> (k, v) \<in> set m \<Longrightarrow> gm_lookup k m = Some v"
  by (induction m) (auto simp: storable_def key_eq_sym)

lemma gm_lookup_Some: "gm_lookup k m = Some v \<Longrightarrow> \<exists>k'. (k', v) \<in> set m \<and> key_eq k k'"
  by (induction m) (auto split: if_splits)

lemma gm_ok_storable: "gm_ok m \<Longrightarrow> (k, v) \<in> set m \<Longrightarrow> storable k"
  by (induction m) auto

lemma gm_set_keys [simp]: "map fst (gm_set k v m) = map fst m"
  by (induction m) (auto split: if_splits)

lemma gm_ok_keys: "gm_ok m \<longleftrightarrow> (\<forall>k \<in> set (map fst m). storable k) \<and>
    sorted_wrt (\<lambda>a b. \<not> key_eq a b) (map fst m)"
  by (induction m rule: gm_ok.induct) (auto simp: case_prod_beta)

lemma gm_ok_set [simp]: "gm_ok (gm_set k v m) = gm_ok m"
  by (simp add: gm_ok_keys)

lemma gm_lookup_set:
  "gm_lookup k m = Some w \<Longrightarrow> gm_lookup k' (gm_set k v m) = (if key_eq k' k then Some v else gm_lookup k' m)"
  by (induction m) (auto simp: key_eq_cong(2), (metis key_eq_sym key_eq_trans)+)

lemma gm_set_Nil [simp]: "gm_set k v m = [] \<longleftrightarrow> m = []"
  by (cases m) (auto split: if_splits)

end
