(* ===== verification/GoStrconv.thy ===== *)
theory GoStrconv
  imports GoFloat
begin

text \<open>
  The string conversions of \<open>strconv\<close> that the inverted index calls: \<open>ParseInt(s, 10, 64)\<close>
  (\<open>Atoi\<close> is the same function on a 64 bit platform) and \<open>ParseFloat(s, 32 or 64)\<close>. \<open>None\<close> is
  the non-nil error, of syntax or of range. The scanning follows the library's \<open>readFloat\<close>;
  the rounding is \<open>fp_round\<close> on the exact value of the digits.
\<close>

definition digit_val :: "char \<Rightarrow> nat option" where
  "digit_val c = (let n = of_char c in if 48 \<le> n \<and> n \<le> 57 then Some (n - 48) else None)"

definition lower_code :: "char \<Rightarrow> nat" where
  "lower_code c = (let n = of_char c in if n div 32 mod 2 = 0 then n + 32 else n)"

definition hex_val :: "char \<Rightarrow> nat option" where
  "hex_val c = (case digit_val c of Some d \<Rightarrow> Some d
     | None \<Rightarrow> (let n = lower_code c in if 97 \<le> n \<and> n \<le> 102 then Some (n - 87) else None))"

subsection \<open>Integers\<close>

fun dec_val :: "nat \<Rightarrow> string \<Rightarrow> nat option" where
  "dec_val acc [] = Some acc"
| "dec_val acc (c # cs) =
     (case digit_val c of None \<Rightarrow> None | Some d \<Rightarrow> dec_val (acc * 10 + d) cs)"

definition split_sign :: "string \<Rightarrow> bool \<times> string" where
  "split_sign s = (case s of [] \<Rightarrow> (False, [])
     | c # cs \<Rightarrow> if c = CHR ''+'' then (False, cs) else if c = CHR ''-'' then (True, cs) else (False, s))"

definition ParseInt :: "string \<Rightarrow> int option" where
  "ParseInt s =
     (let (neg, ds) = split_sign s in
      if ds = [] then None
      else case dec_val 0 ds of None \<Rightarrow> None
        | Some n \<Rightarrow>
            if neg then (if n \<le> 2 ^ 63 then Some (- int n) else None)
            else (if n < 2 ^ 63 then Some (int n) else None))"

lemma ParseInt_range: "ParseInt s = Some i \<Longrightarrow> - (2 ^ 63) \<le> i \<and> i < 2 ^ 63"
  by (auto simp: ParseInt_def split: prod.splits option.splits if_splits)

subsection \<open>Floats\<close>

record scan =
  mant :: nat
  frac :: nat
  sawdot :: bool
  sawdigits :: bool
  underscores :: bool

fun scan_mant :: "nat \<Rightarrow> scan \<Rightarrow> string \<Rightarrow> scan \<times> string" where
  "scan_mant b st [] = (st, [])"
| "scan_mant b st (c # cs) =
     (if c = CHR ''_'' then scan_mant b (st\<lparr>underscores := True\<rparr>) cs
      else if c = CHR ''.'' then
        (if sawdot st then (st, c # cs) else scan_mant b (st\<lparr>sawdot := True\<rparr>) cs)
      else case (if b = 16 then hex_val c else digit_val c) of
          None \<Rightarrow> (st, c # cs)
        | Some d \<Rightarrow> scan_mant b (st\<lparr>mant := mant st * b + d, sawdigits := True,
              frac := (if sawdot st then frac st + 1 else frac st)\<rparr>) cs)"

fun scan_exp :: "nat \<Rightarrow> bool \<Rightarrow> string \<Rightarrow> nat \<times> bool \<times> string" where
  "scan_exp e us [] = (e, us, [])"
| "scan_exp e us (c # cs) =
     (if c = CHR ''_'' then scan_exp e True cs
      else case digit_val c of None \<Rightarrow> (e, us, c # cs)
        | Some d \<Rightarrow> scan_exp (if e < 10000 then e * 10 + d else e) us cs)"

fun underscore_run :: "bool \<Rightarrow> char \<Rightarrow> string \<Rightarrow> bool" where
  "underscore_run hx saw [] = (saw \<noteq> CHR ''_'')"
| "underscore_run hx saw (c # cs) =
     (if (if hx then hex_val c else digit_val c) \<noteq> None then underscore_run hx CHR ''0'' cs
      else if c = CHR ''_'' then saw = CHR ''0'' \<and> underscore_run hx CHR ''_'' cs
      else saw \<noteq> CHR ''_'' \<and> underscore_run hx CHR ''!'' cs)"

definition underscoreOK :: "string \<Rightarrow> bool" where
  "underscoreOK s =
     (let s' = snd (split_sign s) in
      case s' of c # x # cs \<Rightarrow>
          if c = CHR ''0'' \<and> lower_code x \<in> {98, 111, 120}
          then underscore_run (lower_code x = 120) CHR ''0'' cs
          else underscore_run False CHR ''!'' s'
        | _ \<Rightarrow> underscore_run False CHR ''!'' s')"

text \<open>The value \<open>m * 10 powi x\<close> in a binary format; a quotient keeps two bits more than the
  significand and a sticky bit.\<close>

definition round_decimal :: "nat \<Rightarrow> nat \<Rightarrow> bool \<Rightarrow> nat \<Rightarrow> int \<Rightarrow> nat" where
  "round_decimal eb mb s m x =
     (if 0 \<le> x then fp_round eb mb s (m * 10 ^ nat x) 0 False
      else
        let d = 10 ^ nat (- x); k = (mb + 3 + bitlen d) - bitlen m in
        fp_round eb mb s (m * 2 ^ k div d) (- int k) (m * 2 ^ k mod d \<noteq> 0))"

definition finite_or_error :: "nat \<Rightarrow> nat \<Rightarrow> nat \<Rightarrow> nat option" where
  "finite_or_error eb mb n = (if n mod 2 ^ (eb + mb) = (2 ^ eb - 1) * 2 ^ mb then None else Some n)"

definition parse_number :: "nat \<Rightarrow> nat \<Rightarrow> string \<Rightarrow> nat option" where
  "parse_number eb mb s =
     (let (neg, r) = split_sign s;
          hx = (case r of c # x # _ \<Rightarrow> c = CHR ''0'' \<and> lower_code x = 120 | _ \<Rightarrow> False);
          (st, r1) = scan_mant (if hx then 16 else 10)
             \<lparr>mant = 0, frac = 0, sawdot = False, sawdigits = False, underscores = False\<rparr>
             (if hx then drop 2 r else r) in
      if \<not> sawdigits st then None
      else
        let fin = (\<lambda>e us.
          if us \<and> \<not> underscoreOK s then None
          else finite_or_error eb mb
            (if hx then fp_round eb mb neg (mant st) (e - 4 * int (frac st)) False
             else round_decimal eb mb neg (mant st) (e - int (frac st)))) in
        case r1 of
          [] \<Rightarrow> if hx then None else fin 0 (underscores st)
        | c # r2 \<Rightarrow>
            if lower_code c \<noteq> (if hx then 112 else 101) then None
            else
              let (eneg, r3) = split_sign r2 in
              if r3 = [] \<or> digit_val (hd r3) = None then None
              else
                let (e, us, r4) = scan_exp 0 (underscores st) r3 in
                if r4 \<noteq> [] then None else fin (if eneg then - int e else int e) us)"

definition special :: "nat \<Rightarrow> nat \<Rightarrow> string \<Rightarrow> nat option" where
  "special eb mb s =
     (let (neg, r) = split_sign s; low = map lower_code r in
      if low = map of_char ''inf'' \<or> low = map of_char ''infinity''
      then Some (fp_sign_bit eb mb neg + (2 ^ eb - 1) * 2 ^ mb)
      else if map lower_code s = map of_char ''nan''
      then Some ((2 ^ eb - 1) * 2 ^ mb + 2 ^ (mb - 1))
      else None)"

definition ParseFloat64 :: "string \<Rightarrow> f64 option" where
  "ParseFloat64 s = map_option word_of_nat
     (case special 11 52 s of Some n \<Rightarrow> Some n | None \<Rightarrow> parse_number 11 52 s)"

text \<open>With \<open>bitSize\<close> 32 the result is a \<open>float32\<close>, returned as a \<open>float64\<close>.\<close>

definition ParseFloat32 :: "string \<Rightarrow> f64 option" where
  "ParseFloat32 s = map_option (\<lambda>n. f32_to_f64 (word_of_nat n))
     (case special 8 23 s of Some n \<Rightarrow> Some n | None \<Rightarrow> parse_number 8 23 s)"

end
