(* ===== verification/GoLock.thy ===== *)
theory GoLock
  imports Prelude
begin

text \<open>
  A \<open>sync.RWMutex\<close> between two requests. Requests run one after the other, so a request finds a lock
  as the goroutines before it left it. One that returns leaves it \<open>Free\<close>. One that panics between
  locking and unlocking, where the unlocking is not deferred, leaves it held; so does one that waits for
  ever for another lock. \<open>Readers\<close> is a lock that only such readers hold: readers still get it, a writer
  waits for ever. \<open>Writer\<close> is one that such a writer holds or waits for: \<open>RWMutex\<close> lets no reader past a
  waiting writer, so nobody gets it any more. A call that never returns has the result
  \<open>Crash deadlock\<close>; the state beside it is what it leaves for the other requests.
\<close>

datatype mutex = Free | Readers | Writer

definition deadlock :: string where
  "deadlock = ''deadlock''"

text \<open>Many locks by a key; one that is not listed is free.\<close>

type_synonym 'k locks = "('k \<times> mutex) list"

definition lock_at :: "'k locks \<Rightarrow> 'k \<Rightarrow> mutex" where
  "lock_at ls k = (case map_of ls k of None \<Rightarrow> Free | Some m \<Rightarrow> m)"

lemma lock_at_Nil [simp]: "lock_at [] k = Free"
  by (simp add: lock_at_def)

lemma lock_at_update [simp]: "lock_at (AList.update k m ls) k' = (if k' = k then m else lock_at ls k')"
  by (simp add: lock_at_def)

text \<open>A goroutine that panics or waits while it holds a read lock of its own: a writer stays a writer.\<close>

definition left_reading :: "mutex \<Rightarrow> mutex" where
  "left_reading m = (if m = Free then Readers else m)"

lemma left_reading_simps [simp]:
  "left_reading Free = Readers" "left_reading Readers = Readers" "left_reading Writer = Writer"
  by (simp_all add: left_reading_def)

end
