(* ===== verification/Inverted.thy ===== *)
theory Inverted
  imports GoValue GoStrconv GoLock
begin

text \<open>
  The inverted index of \<open>pkg/inverted\<close> (\<open>bitmap_index.go\<close>, \<open>filter.go\<close>, \<open>search.go\<close>): for
  every metadata field a shard, which maps each value seen to the bitmap of the ids that have
  it. The 64 bit roaring bitmap is a library: its operations are the record \<open>R\<close> that every
  operation takes, and what the code relies on is \<open>roaring_ok\<close>, with the set of a bitmap given
  by an abstraction \<open>alpha\<close>. Filters are the source's: a single comparison or an AND/OR of
  expressions.
\<close>

subsection \<open>The bitmap library\<close>

record 'b roaring =
  rb_New :: 'b
  rb_Add :: "u64 \<Rightarrow> 'b \<Rightarrow> 'b"
  rb_Remove :: "u64 \<Rightarrow> 'b \<Rightarrow> 'b"
  rb_IsEmpty :: "'b \<Rightarrow> bool"
  rb_Or :: "'b \<Rightarrow> 'b \<Rightarrow> 'b"
  rb_And :: "'b \<Rightarrow> 'b \<Rightarrow> 'b"
  rb_ToArray :: "'b \<Rightarrow> u64 list"
  rb_ToBytes :: "'b \<Rightarrow> bytes"
  rb_UnmarshalBinary :: "bytes \<Rightarrow> 'b option"

definition roaring_ok :: "'b roaring \<Rightarrow> ('b \<Rightarrow> u64 set) \<Rightarrow> bool" where
  "roaring_ok R alpha \<longleftrightarrow>
     alpha (rb_New R) = {} \<and>
     (\<forall>i b. alpha (rb_Add R i b) = insert i (alpha b)) \<and>
     (\<forall>i b. alpha (rb_Remove R i b) = alpha b - {i}) \<and>
     (\<forall>b. rb_IsEmpty R b \<longleftrightarrow> alpha b = {}) \<and>
     (\<forall>a b. alpha (rb_Or R a b) = alpha a \<union> alpha b) \<and>
     (\<forall>a b. alpha (rb_And R a b) = alpha a \<inter> alpha b) \<and>
     (\<forall>b. rb_ToArray R b = sorted_list_of_set (alpha b)) \<and>
     (\<forall>b. \<exists>b'. rb_UnmarshalBinary R (rb_ToBytes R b) = Some b' \<and> alpha b' = alpha b)"

text \<open>Bitmaps as sorted lists of distinct ids, eight bytes each: one library that has the laws.\<close>

fun ids_of_bytes :: "nat \<Rightarrow> bytes \<Rightarrow> u64 list option" where
  "ids_of_bytes 0 bs = (if bs = [] then Some [] else None)"
| "ids_of_bytes (Suc n) bs = (if length bs < 8 then None
     else map_option ((#) (word_of_nat (le_val (take 8 bs)))) (ids_of_bytes n (drop 8 bs)))"

definition list_roaring :: "u64 list roaring" where
  "list_roaring = \<lparr>rb_New = [], rb_Add = insort_insert,
     rb_Remove = (\<lambda>i b. filter (\<lambda>j. j \<noteq> i) b), rb_IsEmpty = (\<lambda>b. b = []),
     rb_Or = (\<lambda>a b. sort (remdups (a @ b))), rb_And = (\<lambda>a b. filter (\<lambda>j. j \<in> set b) a),
     rb_ToArray = (\<lambda>b. sort (remdups b)), rb_ToBytes = (\<lambda>b. concat (map (\<lambda>i. le_bytes 8 (unat i)) b)),
     rb_UnmarshalBinary = (\<lambda>bs. ids_of_bytes (length bs div 8) bs)\<rparr>"

lemma ids_of_bytes_list: "ids_of_bytes (length b) (concat (map (\<lambda>i. le_bytes 8 (unat i)) b)) = Some b"
proof (induction b)
  case Nil
  then show ?case by simp
next
  case (Cons i b)
  have "unat i < 256 ^ 8" using unsigned_less [of i, where ?'a = nat] by simp
  then have "(word_of_nat (unat i mod 256 ^ 8) :: u64) = i" by simp
  with Cons show ?case by simp
qed

lemma list_roaring_ok: "roaring_ok list_roaring set"
proof -
  have "length (concat (map (\<lambda>i. le_bytes 8 (unat i)) b)) div 8 = length b" for b :: "u64 list"
    by (induction b) auto
  then show ?thesis
    by (auto simp: roaring_ok_def list_roaring_def ids_of_bytes_list set_insort_insert
        sorted_list_of_set_sort_remdups)
qed

subsection \<open>Filters\<close>

datatype FilterOp = OpEqual | OpNotEqual | OpGreaterThan | OpGreaterThanEqual | OpLessThan
  | OpLessThanEqual | OpOther int

datatype LogicalOp = LogicalAnd | LogicalOr | LogicalOther int

record Filter =
  IndexName :: string
  fop :: FilterOp
  fvalue :: gval

text \<open>\<open>NilExpression\<close> is a nil \<open>*FilterExpression\<close> among the operands of a composite.\<close>

datatype FilterExpression =
    FilterExpression (Single: "Filter option") (Composite: "CompositeFilter option")
  | NilExpression
  and CompositeFilter = CompositeFilter (cop: LogicalOp) (Expressions: "FilterExpression list")

definition NewFilter :: "string \<Rightarrow> FilterOp \<Rightarrow> gval \<Rightarrow> Filter" where
  "NewFilter n oper v = \<lparr>IndexName = n, fop = oper, fvalue = v\<rparr>"

definition NewSingleExpression :: "Filter \<Rightarrow> FilterExpression" where
  "NewSingleExpression f = FilterExpression (Some f) None"

definition NewCompositeExpression :: "LogicalOp \<Rightarrow> FilterExpression list \<Rightarrow> FilterExpression" where
  "NewCompositeExpression oper exprs = FilterExpression None (Some (CompositeFilter oper exprs))"

subsection \<open>\<open>compareValues\<close>\<close>

definition cmp_int :: "int \<Rightarrow> int \<Rightarrow> int" where
  "cmp_int x y = (if x < y then - 1 else if y < x then 1 else 0)"

definition cmp_f64 :: "f64 \<Rightarrow> f64 \<Rightarrow> int" where
  "cmp_f64 x y = (if f64_lt x y then - 1 else if f64_lt y x then 1 else 0)"

fun str_lt :: "string \<Rightarrow> string \<Rightarrow> bool" where
  "str_lt _ [] = False"
| "str_lt [] (_ # _) = True"
| "str_lt (a # s) (b # t) =
     ((of_char a :: nat) < of_char b \<or> a = b \<and> str_lt s t)"

definition cmp_str :: "string \<Rightarrow> string \<Rightarrow> int" where
  "cmp_str x y = (if str_lt x y then - 1 else if str_lt y x then 1 else 0)"

definition parsed :: "'a option \<Rightarrow> ('a \<Rightarrow> int) \<Rightarrow> int gores" where
  "parsed r f = (case r of None \<Rightarrow> Err ''cannot convert string'' | Some n \<Rightarrow> Ok (f n))"

definition compare_int :: "int \<Rightarrow> gval \<Rightarrow> int gores" where
  "compare_int va b =
     (case b of
        GInt64 vb \<Rightarrow> Ok (cmp_int va (sint vb))
      | GInt vb \<Rightarrow> Ok (cmp_int va (sint vb))
      | GFloat64 vb \<Rightarrow> Ok (cmp_f64 (int_to_f64 va) vb)
      | GFloat32 vb \<Rightarrow> Ok (cmp_f64 (int_to_f64 va) (f32_to_f64 vb))
      | GString vb \<Rightarrow> parsed (ParseInt vb) (cmp_int va)
      | _ \<Rightarrow> Err ''type mismatch'')"

definition compare_float :: "f64 \<Rightarrow> gval \<Rightarrow> int gores" where
  "compare_float va b =
     (case b of
        GFloat64 vb \<Rightarrow> Ok (cmp_f64 va vb)
      | GFloat32 vb \<Rightarrow> Ok (cmp_f64 va (f32_to_f64 vb))
      | GInt vb \<Rightarrow> Ok (cmp_f64 va (int_to_f64 (sint vb)))
      | GInt64 vb \<Rightarrow> Ok (cmp_f64 va (int_to_f64 (sint vb)))
      | GString vb \<Rightarrow> parsed (ParseFloat64 vb) (cmp_f64 va)
      | _ \<Rightarrow> Err ''type mismatch'')"

definition compare_string :: "string \<Rightarrow> gval \<Rightarrow> int gores" where
  "compare_string va b =
     (case b of
        GString vb \<Rightarrow> Ok (cmp_str va vb)
      | GInt vb \<Rightarrow> parsed (ParseInt va) (\<lambda>n. cmp_int n (sint vb))
      | GInt64 vb \<Rightarrow> parsed (ParseInt va) (\<lambda>n. cmp_int n (sint vb))
      | GFloat64 vb \<Rightarrow> parsed (ParseFloat64 va) (\<lambda>n. cmp_f64 n vb)
      | GFloat32 vb \<Rightarrow> parsed (ParseFloat32 va) (\<lambda>n. cmp_f64 n (f32_to_f64 vb))
      | _ \<Rightarrow> Err ''type mismatch'')"

definition compareValues :: "gval \<Rightarrow> gval \<Rightarrow> int gores" where
  "compareValues a b =
     (case a of
        GInt64 va \<Rightarrow> compare_int (sint va) b
      | GInt va \<Rightarrow> compare_int (sint va) b
      | GFloat64 va \<Rightarrow> compare_float va b
      | GFloat32 va \<Rightarrow> compare_float (f32_to_f64 va) b
      | GString va \<Rightarrow> compare_string va b
      | GBool va \<Rightarrow> (case b of
            GBool vb \<Rightarrow> Ok (if \<not> va \<and> vb then - 1 else if va \<and> \<not> vb then 1 else 0)
          | _ \<Rightarrow> Err ''type mismatch'')
      | _ \<Rightarrow> Err ''unsupported type'')"

definition op_holds :: "FilterOp \<Rightarrow> int \<Rightarrow> bool gores" where
  "op_holds oper cmp =
     (case oper of
        OpEqual \<Rightarrow> Ok (cmp = 0)
      | OpNotEqual \<Rightarrow> Ok (cmp \<noteq> 0)
      | OpGreaterThan \<Rightarrow> Ok (0 < cmp)
      | OpGreaterThanEqual \<Rightarrow> Ok (0 \<le> cmp)
      | OpLessThan \<Rightarrow> Ok (cmp < 0)
      | OpLessThanEqual \<Rightarrow> Ok (cmp \<le> 0)
      | OpOther _ \<Rightarrow> Err ''unsupported op'')"

definition satisfiesOp :: "Filter \<Rightarrow> gval \<Rightarrow> bool gores" where
  "satisfiesOp f key = go_bind (compareValues key (fvalue f)) (op_holds (fop f))"

subsection \<open>The index\<close>

type_synonym 'b shard = "(gval \<times> 'b) list"

text \<open>\<open>rmu\<close> are the locks of the shards by the key of the shard; a shard that is deleted has a free one.\<close>

record 'b BitmapIndex =
  Shards :: "(string \<times> 'b shard) list"
  shardLock :: mutex
  rmu :: "string locks"

definition NewBitmapIndex :: "'b BitmapIndex" where
  "NewBitmapIndex = \<lparr>Shards = [], shardLock = Free, rmu = []\<rparr>"

text \<open>Locking for writing: the index, and one shard. Where the code unlocks, the lock is free again;
  \<open>hold_shard\<close> is a shard whose lock is not given back.\<close>

definition lock_index :: "'b BitmapIndex \<Rightarrow> 'b BitmapIndex \<times> unit gores" where
  "lock_index idx =
     (if shardLock idx = Free then (idx, Ok ()) else (idx\<lparr>shardLock := Writer\<rparr>, Crash deadlock))"

definition hold_shard :: "string \<Rightarrow> 'b BitmapIndex \<Rightarrow> 'b BitmapIndex" where
  "hold_shard key idx = idx\<lparr>rmu := AList.update key Writer (rmu idx)\<rparr>"

definition lock_shard :: "string \<Rightarrow> 'b BitmapIndex \<Rightarrow> 'b BitmapIndex \<times> unit gores" where
  "lock_shard key idx =
     (if lock_at (rmu idx) key = Free then (idx, Ok ()) else (hold_shard key idx, Crash deadlock))"

text \<open>A missing shard is created on demand, by searches too. Shards are shared by pointer, so
  a write to the shard of a field is a write to the index.\<close>

definition getShard :: "string \<Rightarrow> 'b BitmapIndex \<Rightarrow> 'b BitmapIndex \<times> 'b shard gores" where
  "getShard key idx =
     (if shardLock idx = Writer then (idx, Crash deadlock)
      else case map_of (Shards idx) key of
        Some sh \<Rightarrow> (idx, Ok sh)
      | None \<Rightarrow> st_bind (lock_index idx) (\<lambda>idx _. (idx\<lparr>Shards := Shards idx @ [(key, [])]\<rparr>, Ok [])))"

definition putShard :: "string \<Rightarrow> 'b shard \<Rightarrow> 'b BitmapIndex \<Rightarrow> 'b BitmapIndex" where
  "putShard key sh idx = idx\<lparr>Shards := AList.update key sh (Shards idx)\<rparr>"

fun Add :: "'b roaring \<Rightarrow> u64 \<Rightarrow> gmeta \<Rightarrow> 'b BitmapIndex \<Rightarrow> 'b BitmapIndex \<times> unit gores" where
  "Add R nodeId [] idx = (idx, Ok ())"
| "Add R nodeId ((key, val) # md) idx =
     st_bind (getShard key idx) (\<lambda>idx sh.
     st_bind (lock_shard key idx) (\<lambda>idx _.
      if \<not> hashable val then (hold_shard key idx, Panic ''hash of unhashable type'')
      else
        let sh1 = (if gm_lookup val sh = None then gm_update val (rb_New R) sh else sh) in
        case gm_lookup val sh1 of
          None \<Rightarrow> (hold_shard key (putShard key sh1 idx), Panic ''nil pointer dereference'')
        | Some bm \<Rightarrow> Add R nodeId md (putShard key (gm_set val (rb_Add R nodeId bm) sh1) idx)))"

fun Remove :: "'b roaring \<Rightarrow> u64 \<Rightarrow> gmeta \<Rightarrow> 'b BitmapIndex \<Rightarrow> 'b BitmapIndex \<times> unit gores" where
  "Remove R nodeId [] idx = (idx, Ok ())"
| "Remove R nodeId ((key, val) # md) idx =
     st_bind (getShard key idx) (\<lambda>idx sh.
     st_bind (lock_shard key idx) (\<lambda>idx _.
      if \<not> hashable val then (hold_shard key idx, Panic ''hash of unhashable type'')
      else
        let sh1 = (case gm_lookup val sh of
              None \<Rightarrow> sh
            | Some bm \<Rightarrow>
                let bm' = rb_Remove R nodeId bm in
                if rb_IsEmpty R bm' then gm_delete val sh else gm_set val bm' sh);
            idx1 = putShard key sh1 idx in
        if sh1 = [] then st_bind (lock_index idx1) (\<lambda>idx _.
          Remove R nodeId md (idx\<lparr>Shards := AList.delete key (Shards idx)\<rparr>))
        else Remove R nodeId md idx1))"

subsection \<open>Searching\<close>

fun scan_shard :: "'b roaring \<Rightarrow> Filter \<Rightarrow> 'b \<Rightarrow> 'b shard \<Rightarrow> 'b gores" where
  "scan_shard R f result [] = Ok result"
| "scan_shard R f result ((key, bm) # sh) =
     go_bind (satisfiesOp f key) (\<lambda>match.
       scan_shard R f (if match then rb_Or R result bm else result) sh)"

definition evaluateSingleFilter ::
    "'b roaring \<Rightarrow> Filter \<Rightarrow> 'b BitmapIndex \<Rightarrow> 'b BitmapIndex \<times> 'b gores" where
  "evaluateSingleFilter R f idx =
     st_bind (getShard (IndexName f) idx) (\<lambda>idx sh.
      if lock_at (rmu idx) (IndexName f) = Writer then (idx, Crash deadlock)
      else (idx,
       if fop f = OpEqual then
         if \<not> hashable (fvalue f) then Panic ''hash of unhashable type''
         else (case gm_lookup (fvalue f) sh of
             Some bm \<Rightarrow> Ok (rb_Or R (rb_New R) bm)
           | None \<Rightarrow> Ok (rb_New R))
       else scan_shard R f (rb_New R) sh))"

text \<open>A nil bitmap is \<open>None\<close>; using it is a nil dereference.\<close>

definition deref :: "'b option \<Rightarrow> 'b gores" where
  "deref b = (case b of None \<Rightarrow> Panic ''nil pointer dereference'' | Some x \<Rightarrow> Ok x)"

fun evaluateFilterExpression ::
    "'b roaring \<Rightarrow> FilterExpression \<Rightarrow> 'b BitmapIndex \<Rightarrow> 'b BitmapIndex \<times> 'b option gores"
and evaluateCompositeFilter ::
    "'b roaring \<Rightarrow> CompositeFilter \<Rightarrow> 'b BitmapIndex \<Rightarrow> 'b BitmapIndex \<times> 'b option gores"
and eval_and :: "'b roaring \<Rightarrow> FilterExpression list \<Rightarrow> 'b option \<Rightarrow> 'b BitmapIndex \<Rightarrow>
    'b BitmapIndex \<times> 'b option gores"
and eval_or :: "'b roaring \<Rightarrow> FilterExpression list \<Rightarrow> 'b \<Rightarrow> 'b BitmapIndex \<Rightarrow>
    'b BitmapIndex \<times> 'b option gores"
where
  "evaluateFilterExpression R (FilterExpression (Some f) c) idx =
     st_bind (evaluateSingleFilter R f idx) (\<lambda>idx' bm. (idx', Ok (Some bm)))"
| "evaluateFilterExpression R (FilterExpression None (Some cf)) idx =
     evaluateCompositeFilter R cf idx"
| "evaluateFilterExpression R (FilterExpression None None) idx =
     (idx, Err ''empty filter expression'')"
| "evaluateFilterExpression R NilExpression idx = (idx, Panic ''nil pointer dereference'')"
| "evaluateCompositeFilter R (CompositeFilter oper es) idx =
     (case oper of
        LogicalAnd \<Rightarrow> eval_and R es None idx
      | LogicalOr \<Rightarrow> eval_or R es (rb_New R) idx
      | LogicalOther _ \<Rightarrow> (idx, Err ''unsupported composite op''))"
| "eval_and R [] result idx = (idx, Ok result)"
| "eval_and R (e # es) result idx =
     st_bind (evaluateFilterExpression R e idx) (\<lambda>idx' bm.
     st_bind (idx', deref bm) (\<lambda>idx' b.
       eval_and R es (Some (case result of None \<Rightarrow> b | Some r \<Rightarrow> rb_And R r b)) idx'))"
| "eval_or R [] result idx = (idx, Ok (Some result))"
| "eval_or R (e # es) result idx =
     st_bind (evaluateFilterExpression R e idx) (\<lambda>idx' bm.
     st_bind (idx', deref bm) (\<lambda>idx' b. eval_or R es (rb_Or R result b) idx'))"

definition SearchSingleFilter ::
    "'b roaring \<Rightarrow> Filter \<Rightarrow> 'b BitmapIndex \<Rightarrow> 'b BitmapIndex \<times> u64 list gores" where
  "SearchSingleFilter R f idx =
     st_bind (evaluateSingleFilter R f idx) (\<lambda>idx' bm. (idx', Ok (rb_ToArray R bm)))"

fun multi_filter :: "'b roaring \<Rightarrow> Filter list \<Rightarrow> 'b option \<Rightarrow> 'b BitmapIndex \<Rightarrow>
    'b BitmapIndex \<times> 'b option gores" where
  "multi_filter R [] result idx = (idx, Ok result)"
| "multi_filter R (f # fs) result idx =
     st_bind (evaluateSingleFilter R f idx) (\<lambda>idx' bm.
       multi_filter R fs (Some (case result of None \<Rightarrow> bm | Some r \<Rightarrow> rb_And R r bm)) idx')"

definition SearchMultiFilter ::
    "'b roaring \<Rightarrow> Filter list \<Rightarrow> 'b BitmapIndex \<Rightarrow> 'b BitmapIndex \<times> u64 list gores" where
  "SearchMultiFilter R filters idx =
     st_bind (multi_filter R filters None idx) (\<lambda>idx' result.
     st_bind (idx', deref result) (\<lambda>idx' bm. (idx', Ok (rb_ToArray R bm))))"

definition SearchWithExpression ::
    "'b roaring \<Rightarrow> FilterExpression \<Rightarrow> 'b BitmapIndex \<Rightarrow> 'b BitmapIndex \<times> u64 list gores" where
  "SearchWithExpression R expr idx =
     st_bind (evaluateFilterExpression R expr idx) (\<lambda>idx' result.
     st_bind (idx', deref result) (\<lambda>idx' bm. (idx', Ok (rb_ToArray R bm))))"

subsection \<open>What the index holds\<close>

definition shard_of :: "'b BitmapIndex \<Rightarrow> string \<Rightarrow> 'b shard" where
  "shard_of idx f = (case map_of (Shards idx) f of None \<Rightarrow> [] | Some sh \<Rightarrow> sh)"

text \<open>No goroutine is lost in the index.\<close>

definition index_idle :: "'b BitmapIndex \<Rightarrow> bool" where
  "index_idle idx \<longleftrightarrow> shardLock idx = Free \<and> rmu idx = []"

definition idx_ok :: "'b BitmapIndex \<Rightarrow> bool" where
  "idx_ok idx \<longleftrightarrow> index_idle idx \<and> distinct (map fst (Shards idx)) \<and> (\<forall>f. gm_ok (shard_of idx f))"

text \<open>\<open>has alpha idx f k i\<close>: for field \<open>f\<close> the index holds id \<open>i\<close> under the value \<open>k\<close>.\<close>

definition has :: "('b \<Rightarrow> u64 set) \<Rightarrow> 'b BitmapIndex \<Rightarrow> string \<Rightarrow> gval \<Rightarrow> u64 \<Rightarrow> bool" where
  "has alpha idx f k i \<longleftrightarrow> (\<exists>bm. (k, bm) \<in> set (shard_of idx f) \<and> i \<in> alpha bm)"

text \<open>\<open>ids alpha idx f v\<close>: the ids that a lookup of value \<open>v\<close> finds for field \<open>f\<close>.\<close>

definition ids :: "('b \<Rightarrow> u64 set) \<Rightarrow> 'b BitmapIndex \<Rightarrow> string \<Rightarrow> gval \<Rightarrow> u64 set" where
  "ids alpha idx f v =
     (case gm_lookup v (shard_of idx f) of None \<Rightarrow> {} | Some bm \<Rightarrow> alpha bm)"

lemma idx_ok_shard: "idx_ok idx \<Longrightarrow> gm_ok (shard_of idx f)"
  by (simp add: idx_ok_def)

lemma idle_simps [simp]:
  "index_idle (idx\<lparr>Shards := s\<rparr>) = index_idle idx" "index_idle (putShard f sh idx) = index_idle idx"
  "index_idle NewBitmapIndex" "\<not> index_idle (hold_shard f idx)"
  by (simp_all add: index_idle_def putShard_def NewBitmapIndex_def hold_shard_def)

lemma idle_locks:
  "index_idle idx \<Longrightarrow> lock_index idx = (idx, Ok ())" "index_idle idx \<Longrightarrow> lock_shard f idx = (idx, Ok ())"
  "index_idle idx \<Longrightarrow> lock_at (rmu idx) f = Free"
  by (simp_all add: index_idle_def lock_index_def lock_shard_def)

lemma getShard_idle:
  assumes "index_idle idx"
  obtains idx1 where "getShard f idx = (idx1, Ok (shard_of idx f))" "shard_of idx1 = shard_of idx" "index_idle idx1"
    "distinct (map fst (Shards idx)) \<Longrightarrow> distinct (map fst (Shards idx1))"
proof -
  define idx1 where "idx1 = (if map_of (Shards idx) f = None then idx\<lparr>Shards := Shards idx @ [(f, [])]\<rparr> else idx)"
  have "getShard f idx = (idx1, Ok (shard_of idx f))"
    using assms idle_locks(1) [OF assms]
    by (auto simp: getShard_def idx1_def shard_of_def index_idle_def split: option.split)
  moreover have "shard_of idx1 = shard_of idx" by (auto simp: idx1_def shard_of_def map_add_def fun_eq_iff split: option.splits)
  moreover have "distinct (map fst (Shards idx)) \<Longrightarrow> distinct (map fst (Shards idx1))"
    by (auto simp: idx1_def map_of_eq_None_iff)
  ultimately show ?thesis using assms that by (simp add: idx1_def)
qed

lemma getShard_ok:
  assumes "idx_ok idx"
  obtains idx1 where "getShard f idx = (idx1, Ok (shard_of idx f))" "shard_of idx1 = shard_of idx" "idx_ok idx1"
  using getShard_idle [of idx f] assms by (auto simp: idx_ok_def)

lemma idx_ok_locks:
  "idx_ok idx \<Longrightarrow> lock_index idx = (idx, Ok ())" "idx_ok idx \<Longrightarrow> lock_shard f idx = (idx, Ok ())"
  "idx_ok idx \<Longrightarrow> lock_at (rmu idx) f = Free"
  by (simp_all add: idx_ok_def idle_locks)

lemma putShard_simps [simp]: "shard_of (putShard f sh idx) g = (if g = f then sh else shard_of idx g)"
  by (simp add: shard_of_def putShard_def)

lemma putShard_ok: "idx_ok idx \<Longrightarrow> gm_ok sh \<Longrightarrow> idx_ok (putShard f sh idx)"
  by (simp add: idx_ok_def) (simp add: putShard_def distinct_keys_update)

lemma ids_has: "idx_ok idx \<Longrightarrow> i \<in> ids alpha idx f v \<longleftrightarrow> (\<exists>k. has alpha idx f k i \<and> key_eq v k)"
proof -
  assume "idx_ok idx"
  then have g: "gm_ok (shard_of idx f)" by (rule idx_ok_shard)
  show ?thesis
  proof
    assume "i \<in> ids alpha idx f v"
    then show "\<exists>k. has alpha idx f k i \<and> key_eq v k"
      by (auto simp: ids_def has_def split: option.splits dest!: gm_lookup_Some)
  next
    assume "\<exists>k. has alpha idx f k i \<and> key_eq v k"
    then obtain k bm where k: "(k, bm) \<in> set (shard_of idx f)" "i \<in> alpha bm" "key_eq v k"
      by (auto simp: has_def)
    then have "gm_lookup v (shard_of idx f) = Some bm"
      using gm_lookup_in [OF g k(1)] gm_lookup_cong [OF k(3)] by metis
    then show "i \<in> ids alpha idx f v" using k(2) by (simp add: ids_def)
  qed
qed

subsection \<open>Adding and removing\<close>

lemma Add_step:
  assumes R: "roaring_ok R alpha" and ok: "idx_ok idx" and v: "storable val"
  shows "\<exists>idx1. Add R i ((key, val) # md) idx = Add R i md idx1 \<and> idx_ok idx1 \<and>
    (\<forall>f k. ids alpha idx1 f k =
       (if f = key \<and> key_eq k val then insert i (ids alpha idx f k) else ids alpha idx f k))"
proof -
  obtain idx0 where g: "getShard key idx = (idx0, Ok (shard_of idx key))"
    and s0: "shard_of idx0 = shard_of idx" and ok0: "idx_ok idx0" by (rule getShard_ok [OF ok])
  define sh where "sh = shard_of idx key"
  note sh = sh_def
  define sh1 where "sh1 = (if gm_lookup val sh = None then gm_update val (rb_New R) sh else sh)"
  have ok1: "gm_ok sh1" using ok v by (simp add: sh1_def sh idx_ok_shard gm_ok_update)
  have self: "key_eq val val" using v by (simp add: storable_def)
  have "gm_lookup val sh1 \<noteq> None" by (simp add: sh1_def gm_lookup_update self)
  then obtain bm where bm: "gm_lookup val sh1 = Some bm" by auto
  have new: "alpha (rb_New R) = {}" and add: "alpha (rb_Add R i b) = insert i (alpha b)" for b
    using R by (auto simp: roaring_ok_def)
  have l1: "(case gm_lookup k sh1 of None \<Rightarrow> {} | Some b \<Rightarrow> alpha b) = ids alpha idx key k" for k
    by (auto simp: sh1_def ids_def sh gm_lookup_update new split: option.splits)
       (metis gm_lookup_cong option.distinct(1))+
  define idx1 where "idx1 = putShard key (gm_set val (rb_Add R i bm) sh1) idx0"
  have "Add R i ((key, val) # md) idx = Add R i md idx1"
    using v bm by (simp add: g idx_ok_locks(2) [OF ok0] storable_def sh_def [symmetric] sh1_def [symmetric] idx1_def)
  moreover have so: "shard_of idx1 f =
      (if f = key then gm_set val (rb_Add R i bm) sh1 else shard_of idx f)" for f
    by (simp add: idx1_def s0)
  moreover have "idx_ok idx1" using ok0 ok1 by (simp add: idx1_def putShard_ok)
  moreover have "ids alpha idx1 f k =
       (if f = key \<and> key_eq k val then insert i (ids alpha idx f k) else ids alpha idx f k)" for f k
  proof (cases "f = key")
    case False
    then show ?thesis by (simp add: ids_def so)
  next
    case True
    have "key_eq k val \<Longrightarrow> ids alpha idx key k = alpha bm"
      using l1 [of k] gm_lookup_cong [of k val sh1] bm by simp
    then show ?thesis
      using True l1 [of k] by (simp add: ids_def [of alpha idx1] so gm_lookup_set [OF bm] add)
  qed
  ultimately show ?thesis by blast
qed

lemma Add_ids:
  assumes "roaring_ok R alpha" and "idx_ok idx" and "\<forall>(k, v) \<in> set md. storable v"
  shows "\<exists>idx'. Add R i md idx = (idx', Ok ()) \<and> idx_ok idx' \<and>
    (\<forall>f k. ids alpha idx' f k =
       ids alpha idx f k \<union> (if \<exists>v. (f, v) \<in> set md \<and> key_eq k v then {i} else {}))"
  using assms(2,3)
proof (induction md arbitrary: idx)
  case Nil
  then show ?case by simp
next
  case (Cons p md)
  obtain key val where p: "p = (key, val)" by (cases p)
  have "storable val" using Cons.prems(2) p by simp
  then obtain idx1 where s: "Add R i (p # md) idx = Add R i md idx1" "idx_ok idx1"
      "\<forall>f k. ids alpha idx1 f k =
       (if f = key \<and> key_eq k val then insert i (ids alpha idx f k) else ids alpha idx f k)"
    using Add_step [OF assms(1) Cons.prems(1), of val i key md] by (auto simp only: p)
  obtain idx' where n: "Add R i md idx1 = (idx', Ok ())" "idx_ok idx'"
    "\<forall>f k. ids alpha idx' f k =
       ids alpha idx1 f k \<union> (if \<exists>v. (f, v) \<in> set md \<and> key_eq k v then {i} else {})"
    using Cons.IH [OF s(2)] Cons.prems(2) by auto
  have "ids alpha idx' f k =
     ids alpha idx f k \<union> (if \<exists>v. (f, v) \<in> set (p # md) \<and> key_eq k v then {i} else {})" for f k
    using s(3) n(3) by (auto simp: p)
  then show ?case using s(1) n by auto
qed

lemma Remove_step:
  assumes R: "roaring_ok R alpha" and ok: "idx_ok idx" and v: "hashable val"
  shows "\<exists>idx1. Remove R i ((key, val) # md) idx = Remove R i md idx1 \<and> idx_ok idx1 \<and>
    (\<forall>f k. ids alpha idx1 f k =
       (if f = key \<and> key_eq k val then ids alpha idx f k - {i} else ids alpha idx f k))"
proof -
  obtain idx0 where g: "getShard key idx = (idx0, Ok (shard_of idx key))"
    and s0: "shard_of idx0 = shard_of idx" and ok0: "idx_ok idx0" by (rule getShard_ok [OF ok])
  define sh where "sh = shard_of idx key"
  note sh = sh_def
  have oks: "gm_ok sh" using ok by (simp add: sh idx_ok_shard)
  have rem: "alpha (rb_Remove R i b) = alpha b - {i}" and emp: "rb_IsEmpty R b \<longleftrightarrow> alpha b = {}" for b
    using R by (auto simp: roaring_ok_def)
  define sh1 where "sh1 = (case gm_lookup val sh of None \<Rightarrow> sh
            | Some bm \<Rightarrow>
                let bm' = rb_Remove R i bm in
                if rb_IsEmpty R bm' then gm_delete val sh else gm_set val bm' sh)"
  have ok1: "gm_ok sh1" using oks by (simp add: sh1_def gm_ok_delete Let_def split: option.splits)
  have l1: "(case gm_lookup k sh1 of None \<Rightarrow> {} | Some b \<Rightarrow> alpha b) =
      (if key_eq k val then ids alpha idx key k - {i} else ids alpha idx key k)" for k
  proof (cases "gm_lookup val sh")
    case None
    then show ?thesis using gm_lookup_cong [of k val sh] by (auto simp: sh1_def ids_def sh)
  next
    case (Some bm)
    then show ?thesis
      using gm_lookup_cong [of k val sh] rem [of bm] emp [of "rb_Remove R i bm"]
      by (auto simp: sh1_def ids_def sh [symmetric] Let_def gm_lookup_delete [OF oks] gm_lookup_set [OF Some])
  qed
  define idx1 where "idx1 = (if sh1 = [] then idx0\<lparr>Shards := AList.delete key (Shards idx0)\<rparr>
                    else putShard key sh1 idx0)"
  have "idx_ok (putShard key sh1 idx0)" using ok0 ok1 by (rule putShard_ok)
  then have "sh1 = [] \<Longrightarrow> lock_index (putShard key [] idx0) = (putShard key [] idx0, Ok ())"
    using idx_ok_locks(1) by blast
  note l = idx_ok_locks(2) [OF ok0] this
  have "AList.delete key (Shards (putShard key sh1 idx0)) = AList.delete key (Shards idx0)"
    "putShard key sh1 idx0\<lparr>Shards := s\<rparr> = idx0\<lparr>Shards := s\<rparr>" for s
    by (simp_all add: putShard_def delete_update_same)
  then have "Remove R i ((key, val) # md) idx = Remove R i md idx1"
    using v by (cases "sh1 = []") (simp_all add: g l Let_def sh_def [symmetric] sh1_def [symmetric] idx1_def)
  moreover have so: "shard_of idx1 f = (if f = key then sh1 else shard_of idx f)" for f
    by (simp add: idx1_def s0) (simp add: shard_of_def s0 [unfolded shard_of_def, symmetric] s0 [THEN fun_cong, unfolded shard_of_def])
  moreover have "idx_ok idx1"
    using ok ok0 ok1 by (auto simp: idx_ok_def so) (auto simp: idx1_def putShard_def)
  moreover have "ids alpha idx1 f k =
       (if f = key \<and> key_eq k val then ids alpha idx f k - {i} else ids alpha idx f k)" for f k
    using l1 [of k] by (auto simp: ids_def [of alpha idx1] so) (auto simp: ids_def)
  ultimately show ?thesis by blast
qed


lemma Remove_ids:
  assumes "roaring_ok R alpha" and "idx_ok idx" and "\<forall>(k, v) \<in> set md. hashable v"
  shows "\<exists>idx'. Remove R i md idx = (idx', Ok ()) \<and> idx_ok idx' \<and>
    (\<forall>f k. ids alpha idx' f k =
       ids alpha idx f k - (if \<exists>v. (f, v) \<in> set md \<and> key_eq k v then {i} else {}))"
  using assms(2,3)
proof (induction md arbitrary: idx)
  case Nil
  then show ?case by simp
next
  case (Cons p md)
  obtain key val where p: "p = (key, val)" by (cases p)
  have "hashable val" using Cons.prems(2) p by simp
  then obtain idx1 where s: "Remove R i (p # md) idx = Remove R i md idx1" "idx_ok idx1"
      "\<forall>f k. ids alpha idx1 f k =
       (if f = key \<and> key_eq k val then ids alpha idx f k - {i} else ids alpha idx f k)"
    using Remove_step [OF assms(1) Cons.prems(1), of val i key md] by (auto simp only: p)
  obtain idx' where n: "Remove R i md idx1 = (idx', Ok ())" "idx_ok idx'"
    "\<forall>f k. ids alpha idx' f k =
       ids alpha idx1 f k - (if \<exists>v. (f, v) \<in> set md \<and> key_eq k v then {i} else {})"
    using Cons.IH [OF s(2)] Cons.prems(2) by auto
  have "ids alpha idx' f k =
     ids alpha idx f k - (if \<exists>v. (f, v) \<in> set (p # md) \<and> key_eq k v then {i} else {})" for f k
    using s(3) n(3) by (auto simp: p)
  then show ?case using s(1) n by auto
qed

subsection \<open>What a search finds\<close>

definition filter_sem :: "('b \<Rightarrow> u64 set) \<Rightarrow> 'b BitmapIndex \<Rightarrow> Filter \<Rightarrow> u64 set" where
  "filter_sem alpha idx f =
     (if fop f = OpEqual then ids alpha idx (IndexName f) (fvalue f)
      else {i. \<exists>k. has alpha idx (IndexName f) k i \<and> satisfiesOp f k = Ok True})"

fun expr_sem :: "('b \<Rightarrow> u64 set) \<Rightarrow> 'b BitmapIndex \<Rightarrow> FilterExpression \<Rightarrow> u64 set"
and comp_sem :: "('b \<Rightarrow> u64 set) \<Rightarrow> 'b BitmapIndex \<Rightarrow> CompositeFilter \<Rightarrow> u64 set" where
  "expr_sem alpha idx (FilterExpression (Some f) c) = filter_sem alpha idx f"
| "expr_sem alpha idx (FilterExpression None (Some cf)) = comp_sem alpha idx cf"
| "expr_sem alpha idx (FilterExpression None None) = {}"
| "expr_sem alpha idx NilExpression = {}"
| "comp_sem alpha idx (CompositeFilter oper es) =
     (case oper of LogicalAnd \<Rightarrow> (\<Inter>e \<in> set es. expr_sem alpha idx e)
      | LogicalOr \<Rightarrow> (\<Union>e \<in> set es. expr_sem alpha idx e)
      | LogicalOther _ \<Rightarrow> {})"

text \<open>The searches that return: every comparison is between comparable values, a looked-up
  value can be hashed, and no AND is empty.\<close>

definition filter_fine :: "'b BitmapIndex \<Rightarrow> Filter \<Rightarrow> bool" where
  "filter_fine idx f \<longleftrightarrow>
     (if fop f = OpEqual then hashable (fvalue f)
      else \<forall>(k, bm) \<in> set (shard_of idx (IndexName f)). is_Ok (satisfiesOp f k))"

fun expr_fine :: "'b BitmapIndex \<Rightarrow> FilterExpression \<Rightarrow> bool"
and comp_fine :: "'b BitmapIndex \<Rightarrow> CompositeFilter \<Rightarrow> bool" where
  "expr_fine idx (FilterExpression (Some f) c) = filter_fine idx f"
| "expr_fine idx (FilterExpression None (Some cf)) = comp_fine idx cf"
| "expr_fine idx (FilterExpression None None) = False"
| "expr_fine idx NilExpression = False"
| "comp_fine idx (CompositeFilter oper es) =
     ((case oper of LogicalAnd \<Rightarrow> es \<noteq> [] | LogicalOr \<Rightarrow> True | LogicalOther _ \<Rightarrow> False) \<and>
      (\<forall>e \<in> set es. expr_fine idx e))"

text \<open>A search may add empty shards; what the index holds stays.\<close>

definition same_index :: "'b BitmapIndex \<Rightarrow> 'b BitmapIndex \<Rightarrow> bool" where
  "same_index idx idx' \<longleftrightarrow> idx_ok idx' \<and> shard_of idx' = shard_of idx"

lemma shard_of_sem:
  "shard_of idx' = shard_of idx \<Longrightarrow> expr_sem alpha idx' e = expr_sem alpha idx e"
  "shard_of idx' = shard_of idx \<Longrightarrow> comp_sem alpha idx' c = comp_sem alpha idx c"
  by (induction alpha idx e and alpha idx c rule: expr_sem_comp_sem.induct)
    (auto simp: filter_sem_def ids_def has_def split: LogicalOp.splits)

lemma shard_of_fine:
  "shard_of idx' = shard_of idx \<Longrightarrow> expr_fine idx' e = expr_fine idx e"
  "shard_of idx' = shard_of idx \<Longrightarrow> comp_fine idx' c = comp_fine idx c"
  by (induction idx e and idx c rule: expr_fine_comp_fine.induct)
    (auto simp: filter_fine_def split: LogicalOp.splits)

lemma same_index_sem:
  assumes "same_index idx idx'"
  shows "filter_sem alpha idx' f = filter_sem alpha idx f" "filter_fine idx' f = filter_fine idx f"
    "expr_sem alpha idx' e = expr_sem alpha idx e" "expr_fine idx' e = expr_fine idx e"
  using assms shard_of_sem(1) [of idx' idx] shard_of_fine(1) [of idx' idx]
  by (simp_all add: same_index_def filter_sem_def ids_def has_def filter_fine_def)

definition matching :: "('b \<Rightarrow> u64 set) \<Rightarrow> Filter \<Rightarrow> 'b shard \<Rightarrow> u64 set" where
  "matching alpha f sh = {i. \<exists>k bm. (k, bm) \<in> set sh \<and> i \<in> alpha bm \<and> satisfiesOp f k = Ok True}"

lemma matching_simps [simp]:
  "matching alpha f [] = {}"
  "matching alpha f ((k, bm) # sh) =
     (if satisfiesOp f k = Ok True then alpha bm else {}) \<union> matching alpha f sh"
  by (auto simp: matching_def)

lemma filter_sem_matching:
  "fop f \<noteq> OpEqual \<Longrightarrow> filter_sem alpha idx f = matching alpha f (shard_of idx (IndexName f))"
  unfolding filter_sem_def has_def matching_def by auto

lemma scan_shard_Ok:
  assumes "roaring_ok R alpha" and "\<forall>(k, bm) \<in> set sh. is_Ok (satisfiesOp f k)"
  shows "\<exists>b. scan_shard R f r sh = Ok b \<and> alpha b = alpha r \<union> matching alpha f sh"
  using assms(2)
proof (induction sh arbitrary: r)
  case Nil
  then show ?case by simp
next
  case (Cons p sh)
  obtain k bm where p: "p = (k, bm)" by (cases p)
  obtain m where m: "satisfiesOp f k = Ok m" using Cons.prems by (auto simp: p is_Ok_iff)
  have "alpha (rb_Or R r bm) = alpha r \<union> alpha bm" using assms(1) by (simp add: roaring_ok_def)
  then show ?case
    using Cons.IH [of "if m then rb_Or R r bm else r"] Cons.prems m
    by (auto simp: p)
qed

lemma evaluateSingleFilter_Ok:
  assumes R: "roaring_ok R alpha" and ok: "idx_ok idx" and fine: "filter_fine idx f"
  shows "\<exists>idx' b. evaluateSingleFilter R f idx = (idx', Ok b) \<and> same_index idx idx' \<and>
    alpha b = filter_sem alpha idx f"
proof -
  obtain idx1 where g: "getShard (IndexName f) idx = (idx1, Ok (shard_of idx (IndexName f)))"
    and s1: "shard_of idx1 = shard_of idx" "idx_ok idx1" by (rule getShard_ok [OF ok])
  define sh where "sh = shard_of idx (IndexName f)"
  note sh = sh_def
  note g = g [folded sh_def]
  have s: "same_index idx idx1" using s1 by (simp add: same_index_def)
  note l = idx_ok_locks(3) [OF s1(2), of "IndexName f"]
  have new: "alpha (rb_New R) = {}" and o: "alpha (rb_Or R a b) = alpha a \<union> alpha b" for a b
    using R by (auto simp: roaring_ok_def)
  show ?thesis
  proof (cases "fop f = OpEqual")
    case True
    then show ?thesis
      using fine s by (auto simp: evaluateSingleFilter_def g l filter_fine_def filter_sem_def ids_def
          sh new o split: option.splits)
  next
    case False
    then have "\<forall>(k, bm) \<in> set sh. is_Ok (satisfiesOp f k)" using fine by (simp add: filter_fine_def sh)
    from scan_shard_Ok [OF R this, of "rb_New R"] False s show ?thesis
      by (auto simp: evaluateSingleFilter_def g l filter_sem_matching sh new)
  qed
qed

definition evaluates :: "'b roaring \<Rightarrow> ('b \<Rightarrow> u64 set) \<Rightarrow> FilterExpression \<Rightarrow> bool" where
  "evaluates R alpha e \<longleftrightarrow> (\<forall>idx. idx_ok idx \<longrightarrow> expr_fine idx e \<longrightarrow>
     (\<exists>idx' b. evaluateFilterExpression R e idx = (idx', Ok (Some b)) \<and> same_index idx idx' \<and>
       alpha b = expr_sem alpha idx e))"

lemma evaluatesD:
  assumes "evaluates R alpha e" and "idx_ok idx" and "expr_fine idx e"
  obtains idx' b where "evaluateFilterExpression R e idx = (idx', Ok (Some b))" "same_index idx idx'"
    "alpha b = expr_sem alpha idx e"
  using assms by (auto simp: evaluates_def)

lemma same_index_trans: "same_index idx idx1 \<Longrightarrow> same_index idx1 idx2 \<Longrightarrow> same_index idx idx2"
  by (simp add: same_index_def)

lemma eval_and_Ok:
  assumes "roaring_ok R alpha" and "\<forall>e \<in> set es. evaluates R alpha e"
    and "idx_ok idx" and "\<forall>e \<in> set es. expr_fine idx e"
  shows "\<exists>idx' b. eval_and R es (Some r) idx = (idx', Ok (Some b)) \<and> same_index idx idx' \<and>
    alpha b = alpha r \<inter> (\<Inter>e \<in> set es. expr_sem alpha idx e)"
  using assms(2-)
proof (induction es arbitrary: r idx)
  case Nil
  then show ?case by (simp add: same_index_def)
next
  case (Cons e es)
  obtain idx1 b where b: "evaluateFilterExpression R e idx = (idx1, Ok (Some b))" "same_index idx idx1"
    "alpha b = expr_sem alpha idx e"
    using Cons.prems by (auto elim: evaluatesD)
  have "alpha (rb_And R r b) = alpha r \<inter> alpha b" using assms(1) by (simp add: roaring_ok_def)
  moreover have "\<exists>idx' b'. eval_and R es (Some (rb_And R r b)) idx1 = (idx', Ok (Some b')) \<and>
      same_index idx1 idx' \<and> alpha b' = alpha (rb_And R r b) \<inter> (\<Inter>e \<in> set es. expr_sem alpha idx1 e)"
    using Cons.prems b(2) by (intro Cons.IH) (auto simp: same_index_def same_index_sem [OF b(2)])
  ultimately show ?case
    using b same_index_sem(3) [OF b(2)] by (auto simp: deref_def dest: same_index_trans [OF b(2)])
qed

lemma eval_or_Ok:
  assumes "roaring_ok R alpha" and "\<forall>e \<in> set es. evaluates R alpha e"
    and "idx_ok idx" and "\<forall>e \<in> set es. expr_fine idx e"
  shows "\<exists>idx' b. eval_or R es r idx = (idx', Ok (Some b)) \<and> same_index idx idx' \<and>
    alpha b = alpha r \<union> (\<Union>e \<in> set es. expr_sem alpha idx e)"
  using assms(2-)
proof (induction es arbitrary: r idx)
  case Nil
  then show ?case by (simp add: same_index_def)
next
  case (Cons e es)
  obtain idx1 b where b: "evaluateFilterExpression R e idx = (idx1, Ok (Some b))" "same_index idx idx1"
    "alpha b = expr_sem alpha idx e"
    using Cons.prems by (auto elim: evaluatesD)
  have "alpha (rb_Or R r b) = alpha r \<union> alpha b" using assms(1) by (simp add: roaring_ok_def)
  moreover have "\<exists>idx' b'. eval_or R es (rb_Or R r b) idx1 = (idx', Ok (Some b')) \<and>
      same_index idx1 idx' \<and> alpha b' = alpha (rb_Or R r b) \<union> (\<Union>e \<in> set es. expr_sem alpha idx1 e)"
    using Cons.prems b(2) by (intro Cons.IH) (auto simp: same_index_def same_index_sem [OF b(2)])
  ultimately show ?case
    using b same_index_sem(3) [OF b(2)] by (auto simp: deref_def dest: same_index_trans [OF b(2)])
qed

definition comp_evaluates :: "'b roaring \<Rightarrow> ('b \<Rightarrow> u64 set) \<Rightarrow> CompositeFilter \<Rightarrow> bool" where
  "comp_evaluates R alpha c \<longleftrightarrow> (\<forall>idx. idx_ok idx \<longrightarrow> comp_fine idx c \<longrightarrow>
     (\<exists>idx' b. evaluateCompositeFilter R c idx = (idx', Ok (Some b)) \<and> same_index idx idx' \<and>
       alpha b = comp_sem alpha idx c))"

lemma comp_evaluatesI:
  fixes R :: "'b roaring"
  assumes R: "roaring_ok R alpha" and es: "\<forall>e \<in> set es. evaluates R alpha e"
  shows "comp_evaluates R alpha (CompositeFilter oper es)"
  unfolding comp_evaluates_def
proof (intro allI impI)
  fix idx :: "'b BitmapIndex"
  assume ok: "idx_ok idx" and fine: "comp_fine idx (CompositeFilter oper es)"
  then have fe: "\<forall>e \<in> set es. expr_fine idx e" by simp
  show "\<exists>idx' b. evaluateCompositeFilter R (CompositeFilter oper es) idx = (idx', Ok (Some b)) \<and>
      same_index idx idx' \<and> alpha b = comp_sem alpha idx (CompositeFilter oper es)"
  proof (cases oper)
    case LogicalAnd
    with fine obtain e es' where e: "es = e # es'" by (cases es) auto
    obtain idx1 b where b: "evaluateFilterExpression R e idx = (idx1, Ok (Some b))" "same_index idx idx1"
      "alpha b = expr_sem alpha idx e"
      using es fe ok e by (auto elim: evaluatesD)
    have "\<exists>idx' b'. eval_and R es' (Some b) idx1 = (idx', Ok (Some b')) \<and> same_index idx1 idx' \<and>
        alpha b' = alpha b \<inter> (\<Inter>e \<in> set es'. expr_sem alpha idx1 e)"
      using es fe e b(2) by (intro eval_and_Ok [OF R]) (auto simp: same_index_def same_index_sem [OF b(2)])
    then show ?thesis
      using LogicalAnd e b same_index_sem(3) [OF b(2)]
      by (auto simp: deref_def dest: same_index_trans [OF b(2)])
  next
    case LogicalOr
    then show ?thesis using eval_or_Ok [OF R es ok fe, of "rb_New R"] R by (auto simp: roaring_ok_def)
  next
    case (LogicalOther x)
    then show ?thesis using fine by simp
  qed
qed

lemma evaluates_all:
  fixes R :: "'b roaring"
  assumes R: "roaring_ok R alpha"
  shows "evaluates R alpha e" and "comp_evaluates R alpha c"
proof (induction "NewBitmapIndex :: 'b BitmapIndex" e and "NewBitmapIndex :: 'b BitmapIndex" c rule: expr_fine_comp_fine.induct)
  case (1 f c)
  show ?case unfolding evaluates_def
    using evaluateSingleFilter_Ok [OF R] by fastforce
next
  case (2 cf)
  then show ?case by (simp add: evaluates_def comp_evaluates_def)
next
  case 3
  then show ?case by (simp add: evaluates_def)
next
  case 4
  then show ?case by (simp add: evaluates_def)
next
  case (5 oper es)
  then show ?case by (intro comp_evaluatesI [OF R]) blast
qed

lemma SearchWithExpression_Ok:
  assumes R: "roaring_ok R alpha" and "idx_ok idx" and "expr_fine idx e"
  shows "\<exists>idx'. SearchWithExpression R e idx = (idx', Ok (sorted_list_of_set (expr_sem alpha idx e))) \<and>
    same_index idx idx'"
proof -
  have a: "rb_ToArray R b = sorted_list_of_set (alpha b)" for b using R by (simp add: roaring_ok_def)
  obtain idx' b where "evaluateFilterExpression R e idx = (idx', Ok (Some b))" "same_index idx idx'"
    "alpha b = expr_sem alpha idx e"
    by (rule evaluatesD [OF evaluates_all(1) [OF R] assms(2,3)])
  then show ?thesis by (simp add: SearchWithExpression_def deref_def a)
qed

lemma multi_filter_Ok:
  assumes R: "roaring_ok R alpha" and "idx_ok idx" and "\<forall>f \<in> set fs. filter_fine idx f"
  shows "\<exists>idx' b. multi_filter R fs (Some r) idx = (idx', Ok (Some b)) \<and> same_index idx idx' \<and>
    alpha b = alpha r \<inter> (\<Inter>f \<in> set fs. filter_sem alpha idx f)"
  using assms(2-)
proof (induction fs arbitrary: r idx)
  case Nil
  then show ?case by (simp add: same_index_def)
next
  case (Cons f fs)
  obtain idx1 b where b: "evaluateSingleFilter R f idx = (idx1, Ok b)" "same_index idx idx1"
    "alpha b = filter_sem alpha idx f"
    using Cons.prems evaluateSingleFilter_Ok [OF R, of idx f] by auto
  have "alpha (rb_And R r b) = alpha r \<inter> alpha b" using R by (simp add: roaring_ok_def)
  moreover have "\<exists>idx' b'. multi_filter R fs (Some (rb_And R r b)) idx1 = (idx', Ok (Some b')) \<and>
      same_index idx1 idx' \<and> alpha b' = alpha (rb_And R r b) \<inter> (\<Inter>f \<in> set fs. filter_sem alpha idx1 f)"
    using Cons.prems b(2) by (intro Cons.IH) (auto simp: same_index_def same_index_sem [OF b(2)])
  ultimately show ?case
    using b same_index_sem(1) [OF b(2)] by (auto dest: same_index_trans [OF b(2)])
qed

lemma SearchMultiFilter_Ok:
  assumes R: "roaring_ok R alpha" and ok: "idx_ok idx" and fine: "\<forall>f \<in> set fs. filter_fine idx f"
    and ne: "fs \<noteq> []"
  shows "\<exists>idx'. SearchMultiFilter R fs idx =
      (idx', Ok (sorted_list_of_set (\<Inter>f \<in> set fs. filter_sem alpha idx f))) \<and> same_index idx idx'"
proof -
  obtain f fs' where f: "fs = f # fs'" using ne by (cases fs) auto
  have a: "rb_ToArray R b = sorted_list_of_set (alpha b)" for b using R by (simp add: roaring_ok_def)
  obtain idx1 b where b: "evaluateSingleFilter R f idx = (idx1, Ok b)" "same_index idx idx1"
    "alpha b = filter_sem alpha idx f"
    using fine evaluateSingleFilter_Ok [OF R ok, of f] by (auto simp: f)
  have "\<exists>idx' b'. multi_filter R fs' (Some b) idx1 = (idx', Ok (Some b')) \<and>
      same_index idx1 idx' \<and> alpha b' = alpha b \<inter> (\<Inter>f \<in> set fs'. filter_sem alpha idx1 f)"
    using fine b(2) by (intro multi_filter_Ok [OF R]) (auto simp: f same_index_def same_index_sem [OF b(2)])
  then show ?thesis
    using b same_index_sem(1) [OF b(2)]
    by (auto simp: SearchMultiFilter_def f deref_def a dest: same_index_trans [OF b(2)])
qed

subsection \<open>The order on values\<close>

lemma str_lt_asym: "str_lt s t \<Longrightarrow> \<not> str_lt t s"
  by (induction s t rule: str_lt.induct) auto

lemma cmp_flip:
  "cmp_int y x = - cmp_int x y" "cmp_f64 v u = - cmp_f64 u v" "cmp_str t s = - cmp_str s t"
  using str_lt_asym [of s t] by (auto simp: cmp_int_def cmp_f64_def cmp_str_def f64_lt_def)

definition mixed_string_float32 :: "gval \<Rightarrow> gval \<Rightarrow> bool" where
  "mixed_string_float32 a b = (case (a, b) of
     (GString _, GFloat32 _) \<Rightarrow> True | (GFloat32 _, GString _) \<Rightarrow> True | _ \<Rightarrow> False)"

text \<open>
  C19: Comparing two metadata values the other way round gives the opposite sign, for every
  pair of dynamic types that can be compared except a string with a \<open>float32\<close>.
\<close>

theorem compareValues_antisym:
  "compareValues a b = Ok c \<Longrightarrow> \<not> mixed_string_float32 a b \<Longrightarrow> compareValues b a = Ok (- c)"
proof (cases a)
  case (GFloat32 x)
  assume "compareValues a b = Ok c" "\<not> mixed_string_float32 a b"
  with GFloat32 show ?thesis
    by (cases b) (auto simp: compareValues_def compare_int_def compare_float_def compare_string_def
      parsed_def mixed_string_float32_def split: option.splits intro: cmp_flip)
qed (cases b; auto simp: compareValues_def compare_int_def compare_float_def compare_string_def
      parsed_def mixed_string_float32_def split: option.splits intro: cmp_flip)+

lemma compareValues_antisym_witness:
  "compareValues (GString ''7'') (GInt 9) = Ok (- 1) \<and> compareValues (GInt 9) (GString ''7'') = Ok 1"
proof -
  have c: "compareValues (GString ''7'') (GInt 9) = Ok (- 1)"
    by (simp add: compareValues_def compare_string_def parsed_def ParseInt_def split_sign_def
        digit_val_def cmp_int_def)
  moreover have "\<not> mixed_string_float32 (GString ''7'') (GInt 9)"
    by (simp add: mixed_string_float32_def)
  ultimately show ?thesis using compareValues_antisym [OF c] by simp
qed

text \<open>A string against a \<open>float32\<close> is parsed to 32 bits, a \<open>float32\<close> against the same string to
  64 bits: \<open>''0.1''\<close> equals the \<open>float32\<close> \<open>0.1\<close>, which is greater than \<open>''0.1''\<close>.\<close>

lemmas parse_eval = special_def parse_number_def split_sign_def lower_code_def digit_val_def
  hex_val_def round_decimal_def finite_or_error_def fp_eval

lemma compare_string_float32:
  "compareValues (GString ''0.1'') (GFloat32 0x3dcccccd) = Ok 0"
  "compareValues (GFloat32 0x3dcccccd) (GString ''0.1'') = Ok 1"
proof -
  have "ParseFloat64 ''0.1'' = Some 0x3fb999999999999a"
    by (simp add: ParseFloat64_def parse_eval)
  moreover have "ParseFloat32 ''0.1'' = Some 0x3fb99999a0000000"
    by (simp add: ParseFloat32_def parse_eval)
  moreover have "f32_to_f64 0x3dcccccd = 0x3fb99999a0000000" by (simp add: fp_eval)
  ultimately show "compareValues (GString ''0.1'') (GFloat32 0x3dcccccd) = Ok 0"
    "compareValues (GFloat32 0x3dcccccd) (GString ''0.1'') = Ok 1"
    by (simp_all add: compareValues_def compare_string_def compare_float_def parsed_def cmp_f64_def
        f64_lt_def f64_nan_def f64_mag_def f64_key_def)
qed

subsection \<open>Statements\<close>

text \<open>
  C13: \<open>Add\<close> of an id under metadata whose values can be stored never fails, keeps the index well
  formed, and adds exactly that id to exactly the lookups of those values.
\<close>

theorem Add_correct:
  "roaring_ok R alpha \<Longrightarrow> idx_ok idx \<Longrightarrow> \<forall>(k, v) \<in> set md. storable v \<Longrightarrow>
   \<exists>idx'. Add R i md idx = (idx', Ok ()) \<and> idx_ok idx' \<and>
     (\<forall>f k. ids alpha idx' f k =
        ids alpha idx f k \<union> (if \<exists>v. (f, v) \<in> set md \<and> key_eq k v then {i} else {}))"
  by (rule Add_ids)

definition example_idx :: "u64 list BitmapIndex" where
  "example_idx = \<lparr>Shards = [(''age'', [(GInt64 5, [7, 9]), (GInt64 12, [8])])], shardLock = Free, rmu = []\<rparr>"

lemma example_idx_ok: "idx_ok example_idx"
  by (auto simp: idx_ok_def index_idle_def shard_of_def example_idx_def storable_def hashable_def key_eq_def)

lemma example_ids:
  "ids set example_idx ''age'' (GInt64 5) = {7, 9}" "ids set example_idx ''age'' (GInt64 12) = {8}"
  "key_eq (GInt64 5) (GInt64 5)" "\<not> key_eq (GInt64 12) (GInt64 5)"
  by (auto simp: ids_def shard_of_def example_idx_def key_eq_def)

lemma Add_correct_witness:
  "\<exists>idx'. Add list_roaring 3 [(''age'', GInt64 5)] example_idx = (idx', Ok ()) \<and>
     ids set idx' ''age'' (GInt64 5) = {3, 7, 9} \<and> ids set idx' ''age'' (GInt64 12) = {8}"
proof -
  have "\<forall>(k, v) \<in> set [(''age'', GInt64 5)]. storable v"
    by (simp add: storable_def hashable_def key_eq_def)
  from Add_correct [OF list_roaring_ok example_idx_ok this, of 3]
  obtain idx' where i: "Add list_roaring 3 [(''age'', GInt64 5)] example_idx = (idx', Ok ())"
    and l: "\<forall>f k. ids set idx' f k = ids set example_idx f k \<union>
      (if \<exists>v. (f, v) \<in> set [(''age'', GInt64 5)] \<and> key_eq k v then {3} else {})"
    by blast
  show ?thesis
    by (intro exI [of _ idx'] conjI i) (auto simp: l [rule_format] example_ids)
qed

text \<open>
  C14: \<open>Remove\<close> of an id takes exactly that id out of exactly the lookups of the values given, so
  it undoes \<open>Add\<close> for a fresh id.
\<close>

theorem Remove_correct:
  "roaring_ok R alpha \<Longrightarrow> idx_ok idx \<Longrightarrow> \<forall>(k, v) \<in> set md. hashable v \<Longrightarrow>
   \<exists>idx'. Remove R i md idx = (idx', Ok ()) \<and> idx_ok idx' \<and>
     (\<forall>f k. ids alpha idx' f k =
        ids alpha idx f k - (if \<exists>v. (f, v) \<in> set md \<and> key_eq k v then {i} else {}))"
  by (rule Remove_ids)

lemma Remove_correct_witness:
  "\<exists>idx'. Remove list_roaring 7 [(''age'', GInt64 5)] example_idx = (idx', Ok ()) \<and>
     ids set idx' ''age'' (GInt64 5) = {9} \<and> ids set idx' ''age'' (GInt64 12) = {8}"
proof -
  have "\<forall>(k, v) \<in> set [(''age'', GInt64 5)]. hashable v" by (simp add: hashable_def)
  from Remove_correct [OF list_roaring_ok example_idx_ok this, of 7]
  obtain idx' where i: "Remove list_roaring 7 [(''age'', GInt64 5)] example_idx = (idx', Ok ())"
    and l: "\<forall>f k. ids set idx' f k = ids set example_idx f k -
      (if \<exists>v. (f, v) \<in> set [(''age'', GInt64 5)] \<and> key_eq k v then {7} else {})"
    by blast
  show ?thesis
    by (intro exI [of _ idx'] conjI i) (auto simp: l [rule_format] example_ids)
qed

text \<open>
  C1: A filter expression whose comparisons are all defined evaluates to the ids it denotes
  (intersection for AND, union for OR, the ids whose stored value satisfies the comparison for a
  single filter), in ascending order, and leaves what the index holds as it was.
\<close>

theorem SearchWithExpression_correct:
  "roaring_ok R alpha \<Longrightarrow> idx_ok idx \<Longrightarrow> expr_fine idx e \<Longrightarrow>
   \<exists>idx'. SearchWithExpression R e idx = (idx', Ok (sorted_list_of_set (expr_sem alpha idx e))) \<and>
     same_index idx idx'"
  by (rule SearchWithExpression_Ok)

definition example_expr :: FilterExpression where
  "example_expr = NewCompositeExpression LogicalAnd
     [NewSingleExpression (NewFilter ''age'' OpLessThan (GInt 10)),
      NewSingleExpression (NewFilter ''age'' OpNotEqual (GString ''6''))]"

lemma SearchWithExpression_correct_witness:
  "\<exists>idx'. SearchWithExpression list_roaring example_expr example_idx =
     (idx', Ok (sorted_list_of_set (expr_sem set example_idx example_expr)))"
proof -
  have "expr_fine example_idx example_expr"
    by (simp add: example_expr_def example_idx_def NewCompositeExpression_def NewSingleExpression_def
        NewFilter_def filter_fine_def shard_of_def satisfiesOp_def compareValues_def compare_int_def
        op_holds_def parsed_def ParseInt_def split_sign_def digit_val_def)
  from SearchWithExpression_correct [OF list_roaring_ok example_idx_ok this] show ?thesis by auto
qed

text \<open>
  C17: \<open>SearchMultiFilter\<close> of a non-empty list of defined filters is the intersection; of the
  empty list it dereferences a nil bitmap.
\<close>

theorem SearchMultiFilter_correct:
  "roaring_ok R alpha \<Longrightarrow> idx_ok idx \<Longrightarrow> \<forall>f \<in> set fs. filter_fine idx f \<Longrightarrow>
   if fs = [] then SearchMultiFilter R fs idx = (idx, Panic ''nil pointer dereference'')
   else \<exists>idx'. SearchMultiFilter R fs idx =
      (idx', Ok (sorted_list_of_set (\<Inter>f \<in> set fs. filter_sem alpha idx f))) \<and> same_index idx idx'"
  using SearchMultiFilter_Ok [of R alpha idx fs] by (auto simp: SearchMultiFilter_def deref_def)

lemma SearchMultiFilter_correct_witness:
  "\<exists>idx'. SearchMultiFilter list_roaring [NewFilter ''age'' OpEqual (GInt64 5)] example_idx =
     (idx', Ok [7, 9])"
proof -
  have "\<forall>f \<in> set [NewFilter ''age'' OpEqual (GInt64 5)]. filter_fine example_idx f"
    by (simp add: filter_fine_def NewFilter_def hashable_def)
  from SearchMultiFilter_correct [OF list_roaring_ok example_idx_ok this] show ?thesis
    by (simp add: filter_sem_def NewFilter_def ids_def shard_of_def example_idx_def key_eq_def) auto
qed

end
