(* ===== verification/InvertedSave.thy ===== *)
theory InvertedSave
  imports Inverted
begin

text \<open>
  The binary form of the inverted index (\<open>pkg/inverted/save.go\<close>): tagged values in big
  endian, counts and lengths in little endian, one record per shard. Reading a saved index
  back gives the index again, up to the integers and floats the format widens.
\<close>

subsection \<open>Values\<close>

definition writeValue :: "gval \<Rightarrow> bytes gores" where
  "writeValue v =
     (case v of
        GInt n \<Rightarrow> Ok (0 # be_bytes 8 (unat n))
      | GInt8 n \<Rightarrow> Ok (0 # be_bytes 8 (unat (word_of_int (sint n) :: i64)))
      | GInt16 n \<Rightarrow> Ok (0 # be_bytes 8 (unat (word_of_int (sint n) :: i64)))
      | GInt32 n \<Rightarrow> Ok (0 # be_bytes 8 (unat (word_of_int (sint n) :: i64)))
      | GInt64 n \<Rightarrow> Ok (0 # be_bytes 8 (unat n))
      | GFloat32 x \<Rightarrow> Ok (1 # be_bytes 8 (unat (f32_to_f64 x)))
      | GFloat64 x \<Rightarrow> Ok (1 # be_bytes 8 (unat x))
      | GString s \<Rightarrow>
          if 65535 < length (str_bytes s) then Err ''string too long''
          else Ok (2 # be_bytes 2 (length (str_bytes s)) @ str_bytes s)
      | GBool b \<Rightarrow> Ok [3, if b then 1 else 0]
      | _ \<Rightarrow> Err ''unsupported metadata type'')"

definition readValue :: "bytes \<Rightarrow> (gval \<times> bytes) gores" where
  "readValue buf =
     (case buf of
        [] \<Rightarrow> Err ''EOF''
      | tag # r \<Rightarrow>
          if tag = 0 then go_bind (read_be 8 r) (\<lambda>(n, r'). Ok (GInt64 (word_of_nat n), r'))
          else if tag = 1 then go_bind (read_be 8 r) (\<lambda>(n, r'). Ok (GFloat64 (word_of_nat n), r'))
          else if tag = 2 then
            go_bind (read_be 2 r) (\<lambda>(n, r').
            go_bind (read_full n r') (\<lambda>(s, r''). Ok (GString (bytes_str s), r'')))
          else if tag = 3 then
            (case r of [] \<Rightarrow> Err ''EOF'' | b # r' \<Rightarrow> Ok (GBool (b \<noteq> 0), r'))
          else Err ''unsupported metadata type tag'')"

text \<open>The value that comes back: integers as \<open>int64\<close>, floats as \<open>float64\<close>.\<close>

definition widen :: "gval \<Rightarrow> gval" where
  "widen v =
     (case v of
        GInt n \<Rightarrow> GInt64 n
      | GInt8 n \<Rightarrow> GInt64 (word_of_int (sint n))
      | GInt16 n \<Rightarrow> GInt64 (word_of_int (sint n))
      | GInt32 n \<Rightarrow> GInt64 (word_of_int (sint n))
      | GFloat32 x \<Rightarrow> GFloat64 (f32_to_f64 x)
      | _ \<Rightarrow> v)"

lemma readValue_writeValue:
  "writeValue v = Ok bs \<Longrightarrow> readValue (bs @ r) = Ok (widen v, r)"
  by (cases v) (auto simp: writeValue_def readValue_def widen_def split: if_splits)

lemma writeValue_Ok_iff:
  "is_Ok (writeValue v) \<longleftrightarrow>
    (case v of GNil \<Rightarrow> False | GList _ \<Rightarrow> False | GMap _ \<Rightarrow> False | GString s \<Rightarrow> length s \<le> 65535 | _ \<Rightarrow> True)"
  by (cases v) (auto simp: writeValue_def)

lemma widen_idem [simp]: "widen (widen v) = widen v"
  by (cases v) (auto simp: widen_def)

subsection \<open>The index\<close>

fun serialize_values :: "'b roaring \<Rightarrow> 'b shard \<Rightarrow> bytes gores" where
  "serialize_values R [] = Ok []"
| "serialize_values R ((v, bm) # sh) =
     go_bind (writeValue v) (\<lambda>vb.
       let bb = rb_ToBytes R bm in
       go_bind (serialize_values R sh) (\<lambda>r. Ok (vb @ le_bytes 4 (length bb) @ bb @ r)))"

fun serialize_shards :: "'b roaring \<Rightarrow> string locks \<Rightarrow> (string \<times> 'b shard) list \<Rightarrow> bytes gores" where
  "serialize_shards R ls [] = Ok []"
| "serialize_shards R ls ((key, sh) # shs) =
     (if lock_at ls key = Writer then Crash deadlock
      else go_bind (serialize_values R sh) (\<lambda>vs.
           go_bind (serialize_shards R ls shs) (\<lambda>r.
             Ok (le_bytes 4 (length (str_bytes key)) @ str_bytes key @ le_bytes 4 (length sh) @ vs @ r))))"

text \<open>The index is locked for reading all the time; whoever waits for the lock of a shard keeps it.\<close>

definition SerializeBinary :: "'b roaring \<Rightarrow> 'b BitmapIndex \<Rightarrow> 'b BitmapIndex \<times> bytes gores" where
  "SerializeBinary R idx =
     (if shardLock idx = Writer then (idx, Crash deadlock)
      else case serialize_shards R (rmu idx) (Shards idx) of
        Ok r \<Rightarrow> (idx, Ok (le_bytes 4 (length (Shards idx)) @ r))
      | Err e \<Rightarrow> (idx, Err e)
      | Panic p \<Rightarrow> (idx\<lparr>shardLock := left_reading (shardLock idx)\<rparr>, Panic p)
      | Crash p \<Rightarrow> (idx\<lparr>shardLock := left_reading (shardLock idx)\<rparr>, Crash p))"

fun deserialize_values :: "'b roaring \<Rightarrow> string \<Rightarrow> nat \<Rightarrow> bytes \<Rightarrow> 'b BitmapIndex \<Rightarrow>
    'b BitmapIndex \<times> bytes gores" where
  "deserialize_values R key 0 buf idx = (idx, Ok buf)"
| "deserialize_values R key (Suc n) buf idx =
     st_bind (idx, readValue buf) (\<lambda>idx (val, r).
     st_bind (idx, read_le 4 r) (\<lambda>idx (len, r).
     st_bind (idx, read_full len r) (\<lambda>idx (bb, r).
       case rb_UnmarshalBinary R bb of
         None \<Rightarrow> (idx, Err ''failed to unmarshal bitmap'')
       | Some bm \<Rightarrow>
           st_bind (lock_shard key idx) (\<lambda>idx _.
             deserialize_values R key n r (putShard key (gm_update val bm (shard_of idx key)) idx)))))"

fun deserialize_shards :: "'b roaring \<Rightarrow> nat \<Rightarrow> bytes \<Rightarrow> 'b BitmapIndex \<Rightarrow>
    'b BitmapIndex \<times> unit gores" where
  "deserialize_shards R 0 buf idx = (idx, Ok ())"
| "deserialize_shards R (Suc n) buf idx =
     st_bind (idx, read_le 4 buf) (\<lambda>idx (klen, r).
     st_bind (idx, read_full klen r) (\<lambda>idx (kb, r).
     st_bind (idx, read_le 4 r) (\<lambda>idx (cnt, r).
       let key = bytes_str kb in
       st_bind (getShard key idx) (\<lambda>idx _.
       st_bind (deserialize_values R key cnt r idx) (\<lambda>idx r. deserialize_shards R n r idx)))))"

definition DeserializeBinary :: "'b roaring \<Rightarrow> bytes \<Rightarrow> 'b BitmapIndex \<Rightarrow> 'b BitmapIndex \<times> unit gores" where
  "DeserializeBinary R data idx =
     st_bind (idx, read_le 4 data) (\<lambda>idx (cnt, r). deserialize_shards R cnt r idx)"

subsection \<open>Round trip\<close>

definition shard_saveable :: "'b roaring \<Rightarrow> 'b shard \<Rightarrow> bool" where
  "shard_saveable R sh \<longleftrightarrow> length sh < 256 ^ 4 \<and>
     gm_ok (map (\<lambda>(v, bm). (widen v, bm)) sh) \<and>
     (\<forall>(v, bm) \<in> set sh. is_Ok (writeValue v) \<and> length (rb_ToBytes R bm) < 256 ^ 4)"

text \<open>An index that can be saved: no goroutine is lost in it, counts and lengths fit 32 bits, every value
  can be written, and no two values of a shard become equal when they are widened.\<close>

definition saveable :: "'b roaring \<Rightarrow> 'b BitmapIndex \<Rightarrow> bool" where
  "saveable R idx \<longleftrightarrow> index_idle idx \<and> length (Shards idx) < 256 ^ 4 \<and> distinct (map fst (Shards idx)) \<and>
     (\<forall>(key, sh) \<in> set (Shards idx). length key < 256 ^ 4 \<and> shard_saveable R sh)"

definition reload :: "'b roaring \<Rightarrow> 'b shard \<Rightarrow> 'b shard" where
  "reload R sh = map (\<lambda>(v, bm). (widen v, the (rb_UnmarshalBinary R (rb_ToBytes R bm)))) sh"

lemma reload_keys: "map fst (reload R sh) = map fst (map (\<lambda>(v, bm). (widen v, bm)) sh)"
  by (simp add: reload_def o_def case_prod_beta)

lemma gm_update_fresh: "(\<forall>(k', v') \<in> set m. \<not> key_eq k k') \<Longrightarrow> gm_update k v m = m @ [(k, v)]"
  by (induction m) auto

lemma gm_ok_snoc: "gm_ok (m @ (k, v) # m') \<Longrightarrow> gm_update k v m = m @ [(k, v)]"
  by (rule gm_update_fresh) (auto simp: gm_ok_keys sorted_wrt_append key_eq_sym)

lemma roaring_reload:
  assumes "roaring_ok R alpha"
  shows "\<exists>b'. rb_UnmarshalBinary R (rb_ToBytes R b) = Some b'"
    and "alpha (the (rb_UnmarshalBinary R (rb_ToBytes R b))) = alpha b"
proof -
  have "\<forall>b. \<exists>b'. rb_UnmarshalBinary R (rb_ToBytes R b) = Some b' \<and> alpha b' = alpha b"
    using assms by (simp add: roaring_ok_def)
  then obtain b' where "rb_UnmarshalBinary R (rb_ToBytes R b) = Some b'" "alpha b' = alpha b" by blast
  then show "\<exists>b'. rb_UnmarshalBinary R (rb_ToBytes R b) = Some b'"
    and "alpha (the (rb_UnmarshalBinary R (rb_ToBytes R b))) = alpha b" by simp_all
qed

lemma deserialize_values_Ok:
  assumes R: "roaring_ok R alpha"
  shows "serialize_values R sh = Ok bs \<Longrightarrow> gm_ok (m @ reload R sh) \<Longrightarrow>
    \<forall>(v, bm) \<in> set sh. length (rb_ToBytes R bm) < 256 ^ 4 \<Longrightarrow> shard_of idx key = m \<Longrightarrow>
    distinct (map fst (Shards idx)) \<Longrightarrow> index_idle idx \<Longrightarrow>
    \<exists>idx'. deserialize_values R key (length sh) (bs @ r) idx = (idx', Ok r) \<and>
      shard_of idx' = (shard_of idx)(key := m @ reload R sh) \<and> distinct (map fst (Shards idx')) \<and> index_idle idx'"
proof (induction sh arbitrary: bs m idx)
  case Nil
  then show ?case by (auto simp: reload_def)
next
  case (Cons p sh)
  obtain v bm where p: "p = (v, bm)" by (cases p)
  obtain vb rest where s: "writeValue v = Ok vb" "serialize_values R sh = Ok rest"
    "bs = vb @ le_bytes 4 (length (rb_ToBytes R bm)) @ rb_ToBytes R bm @ rest"
    using Cons.prems(1) by (auto simp: p go_bind_Ok_iff Let_def)
  obtain bm' where u: "rb_UnmarshalBinary R (rb_ToBytes R bm) = Some bm'"
    using roaring_reload [OF R] by blast
  have re: "reload R (p # sh) = (widen v, bm') # reload R sh" by (simp add: reload_def p u)
  let ?idx = "putShard key (gm_update (widen v) bm' m) idx"
  have up: "gm_update (widen v) bm' m = m @ [(widen v, bm')]"
    using Cons.prems(2) unfolding re by (rule gm_ok_snoc)
  have so: "shard_of ?idx = (shard_of idx)(key := m @ [(widen v, bm')])" by (rule ext) (simp add: up)
  have d: "distinct (map fst (Shards ?idx))"
    using Cons.prems(5) by (simp add: putShard_def distinct_keys_update)
  have il: "index_idle ?idx" using Cons.prems(6) by simp
  have g: "gm_ok ((m @ [(widen v, bm')]) @ reload R sh)" using Cons.prems(2) by (simp add: re)
  have b: "\<forall>(v, bm) \<in> set sh. length (rb_ToBytes R bm) < 256 ^ 4" using Cons.prems(3) by simp
  have k: "shard_of ?idx key = m @ [(widen v, bm')]" by (simp add: so)
  obtain idx' where i: "deserialize_values R key (length sh) (rest @ r) ?idx = (idx', Ok r)"
      "shard_of idx' = (shard_of ?idx)(key := (m @ [(widen v, bm')]) @ reload R sh)"
      "distinct (map fst (Shards idx'))" "index_idle idx'"
    using Cons.IH [OF s(2) g b k d il] by blast
  have "deserialize_values R key (length (p # sh)) (bs @ r) idx = (idx', Ok r)"
    using Cons.prems(3,4) u i(1) readValue_writeValue [OF s(1)] idle_locks(2) [OF Cons.prems(6)] by (simp add: s(3) p)
  then show ?case using i(2-4) so by (auto simp: re)
qed

lemma deserialize_shards_Ok:
  assumes R: "roaring_ok R alpha"
  shows "serialize_shards R ls shs = Ok bs \<Longrightarrow> distinct (map fst shs) \<Longrightarrow>
    \<forall>(key, sh) \<in> set shs. length key < 256 ^ 4 \<and> shard_saveable R sh \<and> shard_of idx key = [] \<Longrightarrow>
    distinct (map fst (Shards idx)) \<Longrightarrow> index_idle idx \<Longrightarrow>
    \<exists>idx'. deserialize_shards R (length shs) (bs @ r) idx = (idx', Ok ()) \<and>
      shard_of idx' = (\<lambda>f. case map_of shs f of None \<Rightarrow> shard_of idx f | Some sh \<Rightarrow> reload R sh) \<and>
      distinct (map fst (Shards idx')) \<and> index_idle idx'"
proof (induction shs arbitrary: bs idx)
  case Nil
  then show ?case by auto
next
  case (Cons p shs)
  obtain key sh where p: "p = (key, sh)" by (cases p)
  obtain vs rest where s: "serialize_values R sh = Ok vs" "serialize_shards R ls shs = Ok rest"
    "bs = le_bytes 4 (length key) @ str_bytes key @ le_bytes 4 (length sh) @ vs @ rest"
    using Cons.prems(1) by (auto simp: p go_bind_Ok_iff split: if_splits)
  have sv: "shard_saveable R sh" "length key < 256 ^ 4" "shard_of idx key = []"
    using Cons.prems(3) by (auto simp: p)
  obtain idx0 where g: "getShard key idx = (idx0, Ok (shard_of idx key))" "shard_of idx0 = shard_of idx"
    "index_idle idx0" "distinct (map fst (Shards idx0))"
    using getShard_idle [OF Cons.prems(5)] Cons.prems(4) by metis
  have "gm_ok ([] @ reload R sh)"
    using sv(1) unfolding shard_saveable_def append_Nil gm_ok_keys reload_keys by blast
  then obtain idx1 where i1: "deserialize_values R key (length sh) (vs @ rest @ r) idx0 = (idx1, Ok (rest @ r))"
    "shard_of idx1 = (shard_of idx0)(key := reload R sh)" "distinct (map fst (Shards idx1))" "index_idle idx1"
    using deserialize_values_Ok [OF R s(1), of "[]" idx0 key "rest @ r"] sv g
    by (auto simp: shard_saveable_def)
  have so: "shard_of idx1 = (shard_of idx)(key := reload R sh)" using i1(2) g(2) by simp
  have "\<forall>(k, s) \<in> set shs. length k < 256 ^ 4 \<and> shard_saveable R s \<and> shard_of idx1 k = []"
    using Cons.prems(2,3) so by (force simp: p)
  then obtain idx' where i: "deserialize_shards R (length shs) (rest @ r) idx1 = (idx', Ok ())"
    "shard_of idx' = (\<lambda>f. case map_of shs f of None \<Rightarrow> shard_of idx1 f | Some sh \<Rightarrow> reload R sh)"
    "distinct (map fst (Shards idx'))" "index_idle idx'"
    using Cons.IH [OF s(2), of idx1] Cons.prems(2) i1(3,4) by auto
  have "length sh < 256 ^ 4" using sv(1) by (simp add: shard_saveable_def)
  then have "deserialize_shards R (length (p # shs)) (bs @ r) idx = (idx', Ok ())"
    using sv i1(1) i(1) g(1) by (simp add: s(3) Let_def p)
  moreover have "map_of shs key = None" using Cons.prems(2) by (simp add: p map_of_eq_None_iff)
  ultimately show ?case using i(2-4) so by (auto simp: p split: option.splits)
qed


lemma serialize_values_Ok: "shard_saveable R sh \<Longrightarrow> \<exists>bs. serialize_values R sh = Ok bs"
proof -
  have "\<forall>(v, bm) \<in> set sh. is_Ok (writeValue v) \<Longrightarrow> \<exists>bs. serialize_values R sh = Ok bs"
    by (induction sh) (auto simp: is_Ok_iff Let_def)
  moreover assume "shard_saveable R sh"
  ultimately show ?thesis by (auto simp: shard_saveable_def)
qed

lemma serialize_shards_Ok:
  "\<forall>(key, sh) \<in> set shs. shard_saveable R sh \<Longrightarrow> \<exists>bs. serialize_shards R [] shs = Ok bs"
proof (induction shs)
  case Nil
  then show ?case by simp
next
  case (Cons p shs)
  obtain key sh where p: "p = (key, sh)" by (cases p)
  obtain vs rest where "serialize_values R sh = Ok vs" "serialize_shards R [] shs = Ok rest"
    using Cons serialize_values_Ok [of R sh] by (auto simp: p)
  then show ?case by (simp add: p)
qed

lemma has_reload:
  assumes "roaring_ok R alpha"
  shows "(\<exists>bm. (k, bm) \<in> set (reload R sh) \<and> i \<in> alpha bm) \<longleftrightarrow>
    (\<exists>k0 bm. (k0, bm) \<in> set sh \<and> i \<in> alpha bm \<and> k = widen k0)"
  using roaring_reload(2) [OF assms] by (force simp: reload_def image_iff)

lemma save_reload:
  fixes R :: "'b roaring"
  assumes R: "roaring_ok R alpha" and sv: "saveable R idx"
  shows "\<exists>bs idx'. SerializeBinary R idx = (idx, Ok bs) \<and>
    DeserializeBinary R bs NewBitmapIndex = (idx', Ok ()) \<and> idx_ok idx' \<and>
    (\<forall>f k i. has alpha idx' f k i \<longleftrightarrow> (\<exists>k0. has alpha idx f k0 i \<and> k = widen k0))"
proof -
  obtain bs where bs: "serialize_shards R (rmu idx) (Shards idx) = Ok bs"
    using sv serialize_shards_Ok [of "Shards idx" R] by (auto simp: saveable_def index_idle_def)
  have e: "shard_of (NewBitmapIndex :: 'b BitmapIndex) f = []"
    "Shards (NewBitmapIndex :: 'b BitmapIndex) = []" for f
    by (simp_all add: shard_of_def NewBitmapIndex_def)
  obtain idx' where i: "deserialize_shards R (length (Shards idx)) (bs @ []) NewBitmapIndex = (idx', Ok ())"
    "shard_of idx' = (\<lambda>f. case map_of (Shards idx) f of
        None \<Rightarrow> shard_of NewBitmapIndex f | Some sh \<Rightarrow> reload R sh)"
    "distinct (map fst (Shards idx'))" "index_idle idx'"
    using deserialize_shards_Ok [OF R bs, of NewBitmapIndex "[]"] sv by (auto simp: saveable_def e)
  have so: "shard_of idx' f = reload R (shard_of idx f)" for f
    by (cases "map_of (Shards idx) f"; simp add: i(2) e; simp add: shard_of_def reload_def)
  have "gm_ok (reload R sh)" if "shard_saveable R sh" for sh
    using that unfolding shard_saveable_def gm_ok_keys reload_keys by blast
  moreover have "shard_saveable R (shard_of idx f)" for f
    using sv by (auto simp: saveable_def shard_of_def shard_saveable_def split: option.splits dest: map_of_SomeD)
  ultimately have "idx_ok idx'" using i(3,4) by (simp add: idx_ok_def so)
  moreover have "has alpha idx' f k i \<longleftrightarrow> (\<exists>k0. has alpha idx f k0 i \<and> k = widen k0)" for f k i
    unfolding has_def so has_reload [OF R] by blast
  moreover have "length (Shards idx) < 256 ^ 4" using sv by (simp add: saveable_def)
  then have "DeserializeBinary R (le_bytes 4 (length (Shards idx)) @ bs) NewBitmapIndex = (idx', Ok ())"
    using i(1) by (simp add: DeserializeBinary_def)
  moreover have "shardLock idx = Free" using sv by (simp add: saveable_def index_idle_def)
  ultimately show ?thesis using bs by (simp add: SerializeBinary_def)
qed

subsection \<open>Statements\<close>

text \<open>
  C10: Saving an index and loading it into a new one gives a well formed index that holds the
  same ids under the same values, with integers widened to \<open>int64\<close> and floats to \<open>float64\<close>.
\<close>

theorem index_save_reload:
  "roaring_ok R alpha \<Longrightarrow> saveable R idx \<Longrightarrow>
   \<exists>bs idx'. SerializeBinary R idx = (idx, Ok bs) \<and>
     DeserializeBinary R bs NewBitmapIndex = (idx', Ok ()) \<and> idx_ok idx' \<and>
     (\<forall>f k i. has alpha idx' f k i \<longleftrightarrow> (\<exists>k0. has alpha idx f k0 i \<and> k = widen k0))"
  by (rule save_reload)

lemma index_save_reload_witness:
  "\<exists>bs idx'. SerializeBinary list_roaring example_idx = (example_idx, Ok bs) \<and>
     DeserializeBinary list_roaring bs NewBitmapIndex = (idx', Ok ()) \<and>
     (\<forall>f k i. has set idx' f k i \<longleftrightarrow> (\<exists>k0. has set example_idx f k0 i \<and> k = widen k0))"
proof -
  have "saveable list_roaring example_idx"
    by (simp add: saveable_def index_idle_def example_idx_def shard_saveable_def widen_def storable_def hashable_def
        key_eq_def writeValue_def list_roaring_def)
  from index_save_reload [OF list_roaring_ok this] show ?thesis by blast
qed

end
