(* ===== verification/EdgeMeta.thy ===== *)
theory EdgeMeta
  imports Inverted
begin

text \<open>
  The schema of an edge collection and what is checked against it: \<open>edge_metadata.go\<close>,
  \<open>edge_analyzer.go\<close>, the conversions of \<open>edge_helper.go\<close>. Protobuf enumerations are the
  \<open>int32\<close> they are; the maps of index features are ranged over in list order.
\<close>

subsection \<open>Metadata\<close>

record IndexFeature =
  featureName :: string
  IndexType :: int
  EnableNull :: bool
  PrimaryKey :: bool

type_synonym features = "(string \<times> IndexFeature) list"

record Metadata =
  Dim :: u32
  metaDistance :: int
  metaQuantization :: int
  IndexTypes :: features
  Versioning :: bool

definition Dimensional :: "Metadata \<Rightarrow> u32" where "Dimensional m = Dim m"
definition Distancer :: "Metadata \<Rightarrow> int" where "Distancer m = metaDistance m"
definition Quantizationer :: "Metadata \<Rightarrow> int" where "Quantizationer m = metaQuantization m"
definition Versional :: "Metadata \<Rightarrow> bool" where "Versional m = Versioning m"

definition IndexFeatures :: "Metadata \<Rightarrow> string \<Rightarrow> IndexFeature" where
  "IndexFeatures m index =
     (case map_of (IndexTypes m) index of
        Some f \<Rightarrow> f
      | None \<Rightarrow> \<lparr>featureName = '''', IndexType = 0, EnableNull = False, PrimaryKey = False\<rparr>)"

definition Quantization_None :: int where "Quantization_None = 0"
definition Quantization_F16 :: int where "Quantization_F16 = 1"
definition Quantization_F8 :: int where "Quantization_F8 = 2"
definition Quantization_BF16 :: int where "Quantization_BF16 = 3"
definition Distance_Cosine :: int where "Distance_Cosine = 0"

lemmas enum_defs = Quantization_None_def Quantization_F16_def Quantization_F8_def
  Quantization_BF16_def Distance_Cosine_def

subsection \<open>Analyzers\<close>

definition defaultType :: "int \<Rightarrow> gval" where
  "defaultType t =
     (if t = 0 then GString '''' else if t = 1 then GInt 0 else if t = 2 then GFloat64 0
      else if t = 3 then GBool False else GNil)"

definition is_string :: "gval \<Rightarrow> bool" where
  "is_string v = (case v of GString _ \<Rightarrow> True | _ \<Rightarrow> False)"

definition is_bool :: "gval \<Rightarrow> bool" where
  "is_bool v = (case v of GBool _ \<Rightarrow> True | _ \<Rightarrow> False)"

definition is_int_type :: "gval \<Rightarrow> bool" where
  "is_int_type v = (case v of GInt _ \<Rightarrow> True | GInt8 _ \<Rightarrow> True | GInt16 _ \<Rightarrow> True | GInt32 _ \<Rightarrow> True
     | GInt64 _ \<Rightarrow> True | _ \<Rightarrow> False)"

definition is_float_type :: "gval \<Rightarrow> bool" where
  "is_float_type v = (case v of GFloat32 _ \<Rightarrow> True | GFloat64 _ \<Rightarrow> True | _ \<Rightarrow> False)"

text \<open>\<open>v == float64(int64(v))\<close>: a float without fraction that an \<open>int64\<close> can hold.\<close>

definition integral_f64 :: "f64 \<Rightarrow> bool" where
  "integral_f64 x \<longleftrightarrow> f64_eq x (int_to_f64 (sint (f64_to_i64 x)))"

text \<open>One column of \<open>standardAnalyzer\<close>; the metadata map is changed in place.\<close>

definition analyze_column :: "IndexFeature \<Rightarrow> gmeta \<Rightarrow> gmeta gores" where
  "analyze_column c md =
     go_bind
       (case map_of md (featureName c) of
          Some v \<Rightarrow> Ok v
        | None \<Rightarrow>
            if EnableNull c then
              (if PrimaryKey c then Err ''primaryKey must not be empty''
               else if defaultType (IndexType c) = GNil then Err ''index design error''
               else Ok (defaultType (IndexType c)))
            else Err ''index is null, but index design not allowed null value'')
       (\<lambda>value.
          if PrimaryKey c then
            (if is_string value then Ok md else Err ''primaryKey must be string'')
          else if IndexType c = 0 then
            (if is_string value then Ok md else Err ''type error'')
          else if IndexType c = 1 then
            (if is_int_type value then Ok md
             else case value of
                 GFloat64 x \<Rightarrow>
                   if \<not> integral_f64 x then Err ''type error''
                   else Ok (AList.update (featureName c) (GInt64 (f64_to_i64 x)) md)
               | _ \<Rightarrow> Err ''type error'')
          else if IndexType c = 2 then
            (if is_float_type value then Ok md else Err ''type error'')
          else if IndexType c = 3 then
            (if is_bool value then Ok md else Err ''type error'')
          else Ok md)"

fun standardAnalyzer :: "gmeta \<Rightarrow> features \<Rightarrow> gmeta gores" where
  "standardAnalyzer md [] = Ok md"
| "standardAnalyzer md ((_, c) # cs) = go_bind (analyze_column c md) (\<lambda>md'. standardAnalyzer md' cs)"

text \<open>
  \<open>dropKeyAnalyzer\<close> switches on the value, not on the type of the index: the cases are the
  values 0 to 3 of type \<open>int\<close>, so the type checks below them fail or pass only for these.
\<close>

fun dropKeyAnalyzer :: "gmeta \<Rightarrow> features \<Rightarrow> unit gores" where
  "dropKeyAnalyzer [] an = Ok ()"
| "dropKeyAnalyzer ((n, v) # dk) an =
     (case map_of an n of
        None \<Rightarrow> Err ''ErrNotDefinedIndex''
      | Some _ \<Rightarrow>
          if v = GInt 0 then (if is_string v then dropKeyAnalyzer dk an else Err ''type error'')
          else if v = GInt 1 then
            (if is_int_type v then dropKeyAnalyzer dk an
             else case v of
                 GFloat64 x \<Rightarrow> if integral_f64 x then dropKeyAnalyzer dk an else Err ''type error''
               | _ \<Rightarrow> Err ''type error'')
          else if v = GInt 2 then (if is_float_type v then dropKeyAnalyzer dk an else Err ''type error'')
          else if v = GInt 3 then (if is_bool v then dropKeyAnalyzer dk an else Err ''type error'')
          else dropKeyAnalyzer dk an)"

subsection \<open>Requests\<close>

datatype SearchValue = StringVal string | IntVal i64 | FloatVal f64 | BoolVal bool | NoValue

record SearchFilter =
  sfIndexName :: string
  sfOp :: int
  sfValue :: SearchValue

datatype ProtoExpr = ProtoFilter SearchFilter | ProtoComposite int "ProtoExpr list" | ProtoEmpty

record ProtoIndex =
  piIndexName :: string
  piIndexType :: int
  piEnableNull :: bool
  piPrimaryKey :: bool

definition convertProtoOp :: "int \<Rightarrow> FilterOp" where
  "convertProtoOp oper =
     (if oper = 0 then OpEqual else if oper = 1 then OpNotEqual else if oper = 2 then OpGreaterThan
      else if oper = 3 then OpGreaterThanEqual else if oper = 4 then OpLessThan
      else if oper = 5 then OpLessThanEqual else OpEqual)"

definition convertProtoLogicalOperator :: "int \<Rightarrow> LogicalOp" where
  "convertProtoLogicalOperator oper = (if oper = 1 then LogicalOr else LogicalAnd)"

fun queryExprAnalyzer :: "ProtoExpr \<Rightarrow> FilterExpression gores"
and queryExprs :: "ProtoExpr list \<Rightarrow> FilterExpression list gores" where
  "queryExprAnalyzer (ProtoFilter f) =
     go_bind
       (case sfValue f of
          StringVal v \<Rightarrow> Ok (GString v)
        | IntVal v \<Rightarrow> Ok (GInt64 v)
        | FloatVal v \<Rightarrow> Ok (GFloat64 v)
        | BoolVal v \<Rightarrow> Ok (GBool v)
        | NoValue \<Rightarrow> Err ''unsupported filter value type'')
       (\<lambda>value. Ok (FilterExpression
          (Some \<lparr>IndexName = sfIndexName f, fop = convertProtoOp (sfOp f), fvalue = value\<rparr>) None))"
| "queryExprAnalyzer (ProtoComposite oper es) =
     go_bind (queryExprs es) (\<lambda>exprs.
       Ok (FilterExpression None (Some (CompositeFilter (convertProtoLogicalOperator oper) exprs))))"
| "queryExprAnalyzer ProtoEmpty = Ok NilExpression"
| "queryExprs [] = Ok []"
| "queryExprs (e # es) =
     go_bind (queryExprAnalyzer e) (\<lambda>fe. go_bind (queryExprs es) (\<lambda>fes. Ok (fe # fes)))"

fun indexDesignAnalyze :: "ProtoIndex list \<Rightarrow> features \<Rightarrow> features" where
  "indexDesignAnalyze [] fs = fs"
| "indexDesignAnalyze (c # cs) fs =
     indexDesignAnalyze cs (AList.update (piIndexName c)
       \<lparr>featureName = piIndexName c, IndexType = piIndexType c, EnableNull = piEnableNull c,
        PrimaryKey = False\<rparr> fs)"

definition reverseIndexDesign :: "features \<Rightarrow> ProtoIndex list" where
  "reverseIndexDesign fs = map (\<lambda>(_, c). \<lparr>piIndexName = featureName c, piIndexType = IndexType c,
     piEnableNull = EnableNull c, piPrimaryKey = False\<rparr>) fs"

end
