(* ===== verification/GoArith.thy ===== *)
theory GoArith
  imports GoFloat
begin

text \<open>
  Arithmetic on \<open>float32\<close> and \<open>float64\<close>: the exact result of the operands' values, rounded
  once to nearest even. Every NaN result is the default quiet NaN.
\<close>

definition fp_nan :: "nat \<Rightarrow> nat \<Rightarrow> nat" where
  "fp_nan eb mb = (2 ^ eb - 1) * 2 ^ mb + 2 ^ (mb - 1)"

definition fp_inf :: "nat \<Rightarrow> nat \<Rightarrow> bool \<Rightarrow> nat" where
  "fp_inf eb mb s = fp_sign_bit eb mb s + (2 ^ eb - 1) * 2 ^ mb"

definition fp_int :: "bool \<Rightarrow> nat \<Rightarrow> int" where
  "fp_int s m = (if s then - int m else int m)"

definition fp_add :: "nat \<Rightarrow> nat \<Rightarrow> fpval \<Rightarrow> fpval \<Rightarrow> nat" where
  "fp_add eb mb a b =
     (case (a, b) of
        (FNaN, _) \<Rightarrow> fp_nan eb mb
      | (_, FNaN) \<Rightarrow> fp_nan eb mb
      | (FInf s, FInf t) \<Rightarrow> if s = t then fp_inf eb mb s else fp_nan eb mb
      | (FInf s, FFin _ _ _) \<Rightarrow> fp_inf eb mb s
      | (FFin _ _ _, FInf t) \<Rightarrow> fp_inf eb mb t
      | (FFin s m e, FFin t n f) \<Rightarrow>
          let q = min e f; x = fp_int s (m * 2 ^ nat (e - q)) + fp_int t (n * 2 ^ nat (f - q)) in
          if x = 0 then fp_sign_bit eb mb (s \<and> t) else fp_round eb mb (x < 0) (nat \<bar>x\<bar>) q False)"

definition fp_neg :: "fpval \<Rightarrow> fpval" where
  "fp_neg a = (case a of FNaN \<Rightarrow> FNaN | FInf s \<Rightarrow> FInf (\<not> s) | FFin s m e \<Rightarrow> FFin (\<not> s) m e)"

definition fp_mul :: "nat \<Rightarrow> nat \<Rightarrow> fpval \<Rightarrow> fpval \<Rightarrow> nat" where
  "fp_mul eb mb a b =
     (case (a, b) of
        (FNaN, _) \<Rightarrow> fp_nan eb mb
      | (_, FNaN) \<Rightarrow> fp_nan eb mb
      | (FInf s, FInf t) \<Rightarrow> fp_inf eb mb (s \<noteq> t)
      | (FInf s, FFin t n f) \<Rightarrow> if n = 0 then fp_nan eb mb else fp_inf eb mb (s \<noteq> t)
      | (FFin s m e, FInf t) \<Rightarrow> if m = 0 then fp_nan eb mb else fp_inf eb mb (s \<noteq> t)
      | (FFin s m e, FFin t n f) \<Rightarrow> fp_round eb mb (s \<noteq> t) (m * n) (e + f) False)"

definition fp_div :: "nat \<Rightarrow> nat \<Rightarrow> fpval \<Rightarrow> fpval \<Rightarrow> nat" where
  "fp_div eb mb a b =
     (case (a, b) of
        (FNaN, _) \<Rightarrow> fp_nan eb mb
      | (_, FNaN) \<Rightarrow> fp_nan eb mb
      | (FInf s, FInf t) \<Rightarrow> fp_nan eb mb
      | (FInf s, FFin t n f) \<Rightarrow> fp_inf eb mb (s \<noteq> t)
      | (FFin s m e, FInf t) \<Rightarrow> fp_sign_bit eb mb (s \<noteq> t)
      | (FFin s m e, FFin t n f) \<Rightarrow>
          if n = 0 then (if m = 0 then fp_nan eb mb else fp_inf eb mb (s \<noteq> t))
          else let k = (mb + 3 + bitlen n) - bitlen m in
               fp_round eb mb (s \<noteq> t) (m * 2 ^ k div n) (e - f - int k) (m * 2 ^ k mod n \<noteq> 0))"

fun isqrt :: "nat \<Rightarrow> nat" where
  "isqrt n = (if n = 0 then 0 else
     let r = 2 * isqrt (n div 4) in if (r + 1) * (r + 1) \<le> n then r + 1 else r)"

declare isqrt.simps [simp del]

lemma isqrt_bounds: "isqrt n * isqrt n \<le> n \<and> n < (isqrt n + 1) * (isqrt n + 1)"
proof (induction n rule: isqrt.induct)
  case (1 n)
  show ?case
  proof (cases "n = 0")
    case True
    then show ?thesis by (simp add: isqrt.simps)
  next
    case False
    let ?r = "isqrt (n div 4)"
    have ih: "?r * ?r \<le> n div 4" "n div 4 < (?r + 1) * (?r + 1)" using "1.IH" False by auto
    have d: "4 * (n div 4) \<le> n" "n < 4 * (n div 4) + 4" by auto
    have "4 * (?r * ?r) \<le> n" "n < 4 * ((?r + 1) * (?r + 1))" using ih d by linarith+
    then have lo: "(2 * ?r) * (2 * ?r) \<le> n" and hi: "n < (2 * ?r + 2) * (2 * ?r + 2)"
      by (simp_all add: algebra_simps)
    then show ?thesis using False by (subst (1 2 3 4) isqrt.simps) (simp add: Let_def)
  qed
qed

lemma isqrt_unique:
  assumes "r * r \<le> n" "n < (r + 1) * (r + 1)" shows "isqrt n = r"
proof (rule ccontr)
  assume "isqrt n \<noteq> r"
  then consider "isqrt n + 1 \<le> r" | "r + 1 \<le> isqrt n" by linarith
  then show False
  proof cases
    case 1
    from mult_le_mono [OF 1 1] show ?thesis using assms isqrt_bounds [of n] by linarith
  next
    case 2
    from mult_le_mono [OF 2 2] show ?thesis using assms isqrt_bounds [of n] by linarith
  qed
qed

definition fp_sqrt :: "nat \<Rightarrow> nat \<Rightarrow> fpval \<Rightarrow> nat" where
  "fp_sqrt eb mb a =
     (case a of
        FNaN \<Rightarrow> fp_nan eb mb
      | FInf s \<Rightarrow> if s then fp_nan eb mb else fp_inf eb mb False
      | FFin s m e \<Rightarrow>
          if m = 0 then fp_sign_bit eb mb s
          else if s then fp_nan eb mb
          else let k0 = 2 * (mb + 3); k = (if even (e - int k0) then k0 else k0 + 1);
                   n = m * 2 ^ k; r = isqrt n in
               fp_round eb mb False r ((e - int k) div 2) (r * r \<noteq> n))"

subsection \<open>\<open>float32\<close> and \<open>float64\<close>\<close>

definition f32_dec :: "f32 \<Rightarrow> fpval" where "f32_dec x = fp_decode 8 23 (unat x)"
definition f64_dec :: "f64 \<Rightarrow> fpval" where "f64_dec x = fp_decode 11 52 (unat x)"

definition f32_add :: "f32 \<Rightarrow> f32 \<Rightarrow> f32" where
  "f32_add x y = word_of_nat (fp_add 8 23 (f32_dec x) (f32_dec y))"

definition f32_sub :: "f32 \<Rightarrow> f32 \<Rightarrow> f32" where
  "f32_sub x y = word_of_nat (fp_add 8 23 (f32_dec x) (fp_neg (f32_dec y)))"

definition f32_mul :: "f32 \<Rightarrow> f32 \<Rightarrow> f32" where
  "f32_mul x y = word_of_nat (fp_mul 8 23 (f32_dec x) (f32_dec y))"

definition f32_div :: "f32 \<Rightarrow> f32 \<Rightarrow> f32" where
  "f32_div x y = word_of_nat (fp_div 8 23 (f32_dec x) (f32_dec y))"

definition f64_sqrt :: "f64 \<Rightarrow> f64" where
  "f64_sqrt x = word_of_nat (fp_sqrt 11 52 (f64_dec x))"

definition f32_sqrt :: "f32 \<Rightarrow> f32" where
  "f32_sqrt x = f64_to_f32 (f64_sqrt (f32_to_f64 x))"

definition f32_abs :: "f32 \<Rightarrow> f32" where
  "f32_abs x = f64_to_f32 (word_of_nat (unat (f32_to_f64 x) mod 2 ^ 63))"

lemmas fp_arith = fp_eval fp_nan_def fp_inf_def fp_int_def fp_add_def fp_neg_def fp_mul_def fp_div_def
  fp_sqrt_def f32_dec_def f64_dec_def f32_add_def f32_sub_def f32_mul_def f32_div_def f64_sqrt_def
  f32_sqrt_def f32_abs_def

end
