(* ===== verification/Distance.thy ===== *)
theory Distance
  imports GoArith GoBytes
begin

text \<open>
  Vectors and distances: \<open>pkg/distance\<close> (\<open>space.go\<close>, \<open>native_impl.go\<close>), \<open>pkg/gomath\<close>,
  \<open>Normalize\<close> of \<open>edge/vectorstore.go\<close> and the shard function of \<open>pkg/sharding\<close>. The kernel that
  \<open>newSpace\<close> picks for the processor is the record \<open>spaceImpl\<close>; the native Go kernel is one,
  the assembler kernels for AVX and SSE are others that are not under the source tree as Go.
\<close>

unbundle bit_operations_syntax

type_synonym vec = "f32 list"

record spaceImpl =
  EuclideanDistance :: "vec \<Rightarrow> vec \<Rightarrow> f32 gores"
  ManhattanDistance :: "vec \<Rightarrow> vec \<Rightarrow> f32 gores"
  CosineDistance :: "vec \<Rightarrow> vec \<Rightarrow> f32 gores"

datatype Space = Euclidean | Manhattan | Cosine

definition space_Type :: "Space \<Rightarrow> string" where
  "space_Type sp = (case sp of Euclidean \<Rightarrow> ''l2-squared'' | Manhattan \<Rightarrow> ''manhattan'' | Cosine \<Rightarrow> ''cosine-dot'')"

fun space_Distance :: "spaceImpl \<Rightarrow> Space \<Rightarrow> vec \<Rightarrow> vec \<Rightarrow> f32 gores" where
  "space_Distance impl Euclidean a b = EuclideanDistance impl a b"
| "space_Distance impl Manhattan a b = ManhattanDistance impl a b"
| "space_Distance impl Cosine a b = go_bind (CosineDistance impl a b) (\<lambda>d. Ok (f32_abs d))"

subsection \<open>The native kernel\<close>

definition Square :: "f32 \<Rightarrow> f32" where
  "Square x = f32_mul x x"

fun euclid_loop :: "f32 \<Rightarrow> vec \<Rightarrow> vec \<Rightarrow> f32 gores" where
  "euclid_loop d [] _ = Ok d"
| "euclid_loop d (_ # _) [] = Panic ''index out of range''"
| "euclid_loop d (a # as) (b # bs) = euclid_loop (f32_add d (Square (f32_sub a b))) as bs"

definition native_Euclidean :: "vec \<Rightarrow> vec \<Rightarrow> f32 gores" where
  "native_Euclidean a b = go_bind (euclid_loop 0 a b) (\<lambda>d. Ok (f32_sqrt d))"

fun native_manhattan_loop :: "f32 \<Rightarrow> vec \<Rightarrow> vec \<Rightarrow> f32 gores" where
  "native_manhattan_loop d [] _ = Ok d"
| "native_manhattan_loop d (_ # _) [] = Panic ''index out of range''"
| "native_manhattan_loop d (a # as) (b # bs) =
     native_manhattan_loop (f32_add d (f32_abs (f32_sub a b))) as bs"

definition native_Manhattan :: "vec \<Rightarrow> vec \<Rightarrow> f32 gores" where
  "native_Manhattan a b = native_manhattan_loop 0 a b"

fun cosine_loop :: "f32 \<Rightarrow> f32 \<Rightarrow> f32 \<Rightarrow> vec \<Rightarrow> vec \<Rightarrow> (f32 \<times> f32 \<times> f32) gores" where
  "cosine_loop dot na nb [] _ = Ok (dot, na, nb)"
| "cosine_loop dot na nb (_ # _) [] = Panic ''index out of range''"
| "cosine_loop dot na nb (a # as) (b # bs) =
     cosine_loop (f32_add dot (f32_mul a b)) (f32_add na (Square a)) (f32_add nb (Square b)) as bs"

definition native_Cosine :: "vec \<Rightarrow> vec \<Rightarrow> f32 gores" where
  "native_Cosine a b =
     go_bind (cosine_loop 0 0 0 a b) (\<lambda>(dot, na, nb).
       Ok (f32_sub 0x3f800000 (f32_div dot (f32_mul (f32_sqrt na) (f32_sqrt nb)))))"

definition nativeSpaceImpl :: spaceImpl where
  "nativeSpaceImpl = \<lparr>EuclideanDistance = native_Euclidean, ManhattanDistance = native_Manhattan,
     CosineDistance = native_Cosine\<rparr>"

subsection \<open>Normalisation and shards\<close>

definition Normalize :: "vec \<Rightarrow> vec" where
  "Normalize v =
     (let norm = fold (\<lambda>x n. f32_add n (f32_mul x x)) v 0 in
      if f32_eq norm 0 then map (\<lambda>_. 0) v
      else let r = f32_sqrt norm in map (\<lambda>x. f32_div x r) v)"

lemma length_Normalize [simp]: "length (Normalize v) = length v"
  by (simp add: Normalize_def Let_def)

definition fnv64a :: "bytes \<Rightarrow> u64" where
  "fnv64a bs = fold (\<lambda>b h. (h XOR ucast b) * 1099511628211) bs 14695981039346656037"

definition ShardVertex :: "u64 \<Rightarrow> u64 \<Rightarrow> u64" where
  "ShardVertex x c = fnv64a (le_bytes 8 (unat x)) mod c"

definition ShardVertexV2 :: "string \<Rightarrow> u64 \<Rightarrow> u64" where
  "ShardVertexV2 s c = fnv64a (str_bytes s) mod c"

definition EDGE_MAP_SHARD_COUNT :: nat where
  "EDGE_MAP_SHARD_COUNT = 16"

definition shard_idx :: "u64 \<Rightarrow> nat" where
  "shard_idx i = unat (ShardVertex i (word_of_nat EDGE_MAP_SHARD_COUNT))"

lemma shard_idx_less: "shard_idx i < EDGE_MAP_SHARD_COUNT"
  by (simp add: shard_idx_def ShardVertex_def EDGE_MAP_SHARD_COUNT_def unat_mod)

subsection \<open>Symmetry\<close>

lemma neq_commute_bool: "(s = (\<not> t)) = (t = (\<not> s))" for s t :: bool
  by blast

lemma f32_mul_commute: "f32_mul x y = f32_mul y x"
  unfolding f32_mul_def fp_mul_def
  by (cases "f32_dec x"; cases "f32_dec y"; simp add: mult.commute add.commute neq_commute_bool)

lemma fp_mul_neg: "fp_mul eb mb (fp_neg x) (fp_neg x) = fp_mul eb mb x x"
  by (auto simp: fp_mul_def fp_neg_def split: fpval.splits)

lemma fp_round_neg: "fp_round eb mb s m e t = fp_sign_bit eb mb s + fp_round eb mb False m e t"
  by (simp add: fp_round_def fp_sign_bit_def Let_def)

lemma fp_round_le: "fp_round eb mb False m e t \<le> (2 ^ eb - 1) * 2 ^ mb"
  by (simp add: fp_round_def Let_def fp_sign_bit_def)

lemma f32_dec_sign:
  assumes "n < 2 ^ 31"
  shows "f32_dec (word_of_nat (2 ^ 31 + n)) = fp_neg (f32_dec (word_of_nat n))"
proof -
  have u: "unat (word_of_nat (2 ^ 31 + n) :: u32) = 2 ^ 31 + n" "unat (word_of_nat n :: u32) = n"
    using assms by (simp_all only: unat_of_nat) simp_all
  have "(2 ^ 31 + n) div 2 ^ 23 = n div 2 ^ 23 + 2 ^ 8"
    using div_mult_self3 [of "2 ^ 23" "2 ^ 8" n] by simp
  then have e: "(2 ^ 31 + n) div 2 ^ 23 mod 2 ^ 8 = n div 2 ^ 23 mod 2 ^ 8" by simp
  have m: "(2 ^ 31 + n) mod 2 ^ 23 = n mod 2 ^ 23"
    using mod_mult_self3 [of "2 ^ 8" "2 ^ 23" n] by simp
  have s: "(2 ^ 31 + n) div 2 ^ 31 = 1" "n div 2 ^ 31 = 0" using assms by simp_all
  show ?thesis
    unfolding f32_dec_def u fp_decode_def Let_def using e m s by (simp add: fp_neg_def)
qed

definition same_square :: "f32 \<Rightarrow> f32 \<Rightarrow> bool" where
  "same_square x y \<longleftrightarrow> f32_dec x = f32_dec y \<or> f32_dec x = fp_neg (f32_dec y)"

lemma fp_neg_neg [simp]: "fp_neg (fp_neg a) = a"
  by (cases a) (auto simp: fp_neg_def)

lemma same_square_bits:
  assumes "n < 2 ^ 31"
  shows "same_square (word_of_nat (fp_sign_bit 8 23 s + n)) (word_of_nat (fp_sign_bit 8 23 t + n))"
  using f32_dec_sign [OF assms]
  by (cases s; cases t) (simp_all add: same_square_def fp_sign_bit_def)

lemma same_square_sub: "same_square (f32_sub x y) (f32_sub y x)"
proof -
  obtain a b where ab: "f32_dec x = a" "f32_dec y = b" by simp
  have r: "fp_round 8 23 False m e t < 2 ^ 31" for m e t
    using fp_round_le [of 8 23 m e t] by simp
  have same: "same_square w w" for w by (simp add: same_square_def)
  have inf: "same_square (word_of_nat (fp_inf 8 23 s)) (word_of_nat (fp_inf 8 23 t))" for s t
    unfolding fp_inf_def by (rule same_square_bits) simp
  have zero: "same_square (word_of_nat (fp_sign_bit 8 23 s)) (word_of_nat (fp_sign_bit 8 23 t))" for s t
    using same_square_bits [of 0 s t] by simp
  have round: "same_square (word_of_nat (fp_round 8 23 s m e k)) (word_of_nat (fp_round 8 23 t m e k))"
    for s t m e k
    using same_square_bits [OF r, of s m e k t] by (simp only: fp_round_neg [of 8 23 s] fp_round_neg [of 8 23 t])
  show ?thesis
  proof (cases a)
    case FNaN
    then show ?thesis using same by (cases b) (simp_all add: f32_sub_def ab fp_add_def fp_neg_def)
  next
    case (FInf s)
    then show ?thesis using same inf
      by (cases b) (auto simp: f32_sub_def ab fp_add_def fp_neg_def)
  next
    case (FFin s m e)
    show ?thesis
    proof (cases b)
      case (FFin t n f)
      define X where "X = fp_int s (m * 2 ^ nat (e - min e f)) + fp_int (\<not> t) (n * 2 ^ nat (f - min e f))"
      have Y: "fp_int t (n * 2 ^ nat (f - min f e)) + fp_int (\<not> s) (m * 2 ^ nat (e - min f e)) = - X"
        by (simp add: X_def fp_int_def min.commute)
      have "f32_sub x y = word_of_nat (if X = 0 then fp_sign_bit 8 23 (s \<and> \<not> t)
          else fp_round 8 23 (X < 0) (nat \<bar>X\<bar>) (min e f) False)"
        by (simp add: f32_sub_def ab \<open>a = _\<close> FFin fp_add_def fp_neg_def X_def Let_def)
      moreover have "f32_sub y x = word_of_nat (if X = 0 then fp_sign_bit 8 23 (t \<and> \<not> s)
          else fp_round 8 23 (- X < 0) (nat \<bar>X\<bar>) (min e f) False)"
        using Y by (simp add: f32_sub_def ab \<open>a = _\<close> FFin fp_add_def fp_neg_def Let_def min.commute)
      ultimately show ?thesis using zero round by simp
    qed (use FFin same inf in \<open>auto simp: f32_sub_def ab fp_add_def fp_neg_def\<close>)
  qed
qed

lemma Square_sub: "Square (f32_sub x y) = Square (f32_sub y x)"
  using same_square_sub [of x y]
  by (auto simp: same_square_def Square_def f32_mul_def fp_mul_neg)

lemma euclid_loop_sym: "length a = length b \<Longrightarrow> euclid_loop d a b = euclid_loop d b a"
proof (induction a arbitrary: d b)
  case Nil
  then show ?case by simp
next
  case (Cons x a)
  then obtain y b' where "b = y # b'" by (cases b) auto
  with Cons show ?case by (simp add: Square_sub [of x y])
qed

lemma cosine_loop_sym: "length a = length b \<Longrightarrow>
  cosine_loop dot nb na b a = go_bind (cosine_loop dot na nb a b) (\<lambda>(d, p, q). Ok (d, q, p))"
proof (induction a arbitrary: dot na nb b)
  case Nil
  then show ?case by simp
next
  case (Cons x a)
  then obtain y b' where "b = y # b'" by (cases b) auto
  with Cons show ?case by (simp add: f32_mul_commute [of y x])
qed

text \<open>
  The native Euclidean and cosine distances are symmetric, to the last bit, on vectors of one
  length.
\<close>

theorem native_distance_sym:
  "length a = length b \<Longrightarrow>
   space_Distance nativeSpaceImpl Euclidean a b = space_Distance nativeSpaceImpl Euclidean b a \<and>
   space_Distance nativeSpaceImpl Cosine a b = space_Distance nativeSpaceImpl Cosine b a"
proof -
  assume l: "length a = length b"
  have "native_Cosine b a = native_Cosine a b"
    unfolding native_Cosine_def cosine_loop_sym [OF l]
    by (cases "cosine_loop 0 0 0 a b") (auto simp: f32_mul_commute)
  then show ?thesis
    by (simp add: nativeSpaceImpl_def native_Euclidean_def euclid_loop_sym [OF l])
qed

lemma native_distance_sym_witness:
  "space_Distance nativeSpaceImpl Euclidean [0x3f800000] [0x40400000] =
   space_Distance nativeSpaceImpl Euclidean [0x40400000] [0x3f800000]"
  using native_distance_sym [of "[0x3f800000]" "[0x40400000]"] by simp

end
