(* ===== verification/Quantizers.thy ===== *)
theory Quantizers
  imports Distance FloatCodec
begin

text \<open>
  The quantizers of the edge package (\<open>quantization.go\<close>, \<open>f16_quantization.go\<close>,
  \<open>f8_quantization.go\<close>, \<open>bf16_quantization.go\<close>): how a vector is lowered to its stored form, how
  two stored vectors are compared, and the bytes of a stored element. The interface is the
  record \<open>quantizer\<close>; the locale states what the vector stores rely on, and each quantizer of
  the code is an interpretation.
\<close>

type_synonym dist = "vec \<Rightarrow> vec \<Rightarrow> f32 gores"

record 'e quantizer =
  Lower :: "vec \<Rightarrow> 'e list"
  Similarity :: "'e list \<Rightarrow> 'e list \<Rightarrow> dist \<Rightarrow> f32 gores"
  qName :: string
  LowerSize :: "int \<Rightarrow> int"
  elem_width :: nat
  elem_bits :: "'e \<Rightarrow> nat"
  elem_of_bits :: "nat \<Rightarrow> 'e"

text \<open>Both sides are expanded to \<open>float32\<close>; an index beyond the second vector panics.\<close>

definition lifted_similarity :: "('e \<Rightarrow> f32) \<Rightarrow> 'e list \<Rightarrow> 'e list \<Rightarrow> dist \<Rightarrow> f32 gores" where
  "lifted_similarity lift x y dist =
     (if length y < length x then Panic ''index out of range''
      else dist (map lift x) (map lift (take (length x) y)))"

definition NoQuantization :: "f32 quantizer" where
  "NoQuantization = \<lparr>Lower = (\<lambda>v. v), Similarity = (\<lambda>x y dist. dist x y), qName = ''none'',
     LowerSize = (\<lambda>dim. 4 * dim), elem_width = 4, elem_bits = unat, elem_of_bits = word_of_nat\<rparr>"

definition Float16Quantization :: "u16 quantizer" where
  "Float16Quantization = \<lparr>Lower = map Fromfloat32, Similarity = lifted_similarity Float32,
     qName = ''float16'', LowerSize = (\<lambda>dim. 2 * dim), elem_width = 2, elem_bits = unat,
     elem_of_bits = word_of_nat\<rparr>"

definition BFloat16Quantization :: "u16 quantizer" where
  "BFloat16Quantization = \<lparr>Lower = map BF16Fromfloat32, Similarity = lifted_similarity BF16Float32,
     qName = ''float8'', LowerSize = (\<lambda>dim. 2 * dim), elem_width = 2, elem_bits = unat,
     elem_of_bits = word_of_nat\<rparr>"

definition Float8Quantization :: "u8 quantizer" where
  "Float8Quantization = \<lparr>Lower = map F8Fromfloat32, Similarity = lifted_similarity F8Float32,
     qName = ''float8'', LowerSize = (\<lambda>dim. 2 * dim), elem_width = 1, elem_bits = unat,
     elem_of_bits = word_of_nat\<rparr>"

subsection \<open>\<open>Marshal\<close> and \<open>Unmarshal\<close>\<close>

text \<open>
  \<open>Marshal\<close> writes little endian elements at the front of a buffer, which must be long enough;
  \<open>Unmarshal\<close> reads them and panics on a trailing fragment.
\<close>

definition marshal_at :: "nat \<Rightarrow> nat list \<Rightarrow> bytes \<Rightarrow> bytes gores" where
  "marshal_at w ns to =
     (let bs = concat (map (le_bytes w) ns) in
      if length to < length bs then Panic ''index out of range''
      else Ok (bs @ drop (length bs) to))"

fun unmarshal_elems :: "nat \<Rightarrow> nat \<Rightarrow> bytes \<Rightarrow> nat list gores" where
  "unmarshal_elems w 0 bs = (if bs = [] then Ok [] else Panic ''index out of range'')"
| "unmarshal_elems w (Suc n) bs =
     (if length bs < w then Panic ''index out of range''
      else go_bind (unmarshal_elems w n (drop w bs)) (\<lambda>r. Ok (le_val (take w bs) # r)))"

definition f16_Marshal :: "u16 list \<Rightarrow> bytes \<Rightarrow> bytes gores" where
  "f16_Marshal lower to = marshal_at 2 (map unat lower) to"

definition f16_Unmarshal :: "bytes \<Rightarrow> u16 list gores" where
  "f16_Unmarshal data =
     go_bind (unmarshal_elems 2 (length data div 2) data) (\<lambda>ns. Ok (map word_of_nat ns))"

definition none_Marshal :: "f32 list \<Rightarrow> bytes \<Rightarrow> bytes gores" where
  "none_Marshal lower to = marshal_at 4 (map unat lower) to"

definition none_Unmarshal :: "bytes \<Rightarrow> f32 list gores" where
  "none_Unmarshal data =
     go_bind (unmarshal_elems 4 (length data div 4) data) (\<lambda>ns. Ok (map word_of_nat ns))"

lemma unmarshal_marshal:
  "unmarshal_elems w (length ns) (concat (map (le_bytes w) ns)) = Ok (map (\<lambda>n. n mod 256 ^ w) ns)"
  by (induction ns) auto

lemma length_concat_le [simp]: "length (concat (map (le_bytes w) ns)) = w * length ns"
  by (induction ns) auto

text \<open>
  A vector marshalled into a buffer of exactly its size is unmarshalled unchanged, in both
  formats that have the pair of operations.
\<close>

theorem quantized_marshal_roundtrip:
  "(length to = 2 * length v \<longrightarrow>
     go_bind (f16_Marshal v to) f16_Unmarshal = Ok v) \<and>
   (length to' = 4 * length u \<longrightarrow>
     go_bind (none_Marshal u to') none_Unmarshal = Ok u)"
proof -
  have w2: "(word_of_nat (unat x mod 65536) :: u16) = x" for x
  proof -
    have "unat x < 65536" using unsigned_less [of x, where ?'a = nat] by simp
    then show ?thesis by simp
  qed
  show ?thesis
    using unmarshal_marshal [of 2 "map unat v"] unmarshal_marshal [of 4 "map unat u"]
    by (auto simp: f16_Marshal_def f16_Unmarshal_def none_Marshal_def none_Unmarshal_def
        marshal_at_def Let_def w2 o_def simp del: map_map)
      (simp_all add: o_def w2)
qed

lemma quantized_marshal_roundtrip_witness:
  "go_bind (f16_Marshal [0x3c00, 0x8001] [0, 0, 0, 0]) f16_Unmarshal = Ok [0x3c00, 0x8001] \<and>
   go_bind (none_Marshal [0x3f800000] [0, 0, 0, 0]) none_Unmarshal = Ok [0x3f800000]"
  using quantized_marshal_roundtrip [of "[0, 0, 0, 0]" "[0x3c00, 0x8001]" "[0, 0, 0, 0]" "[0x3f800000]"]
  by simp

subsection \<open>The interface\<close>

text \<open>What a stored element must do: come back from its bytes, and leave a dimension a dimension.\<close>

locale quantizer_laws =
  fixes Q :: "'e quantizer"
  assumes bits_roundtrip: "elem_of_bits Q (elem_bits Q e mod 256 ^ elem_width Q) = e"
    and Lower_length: "length (Lower Q v) = length v"
begin

lemma elem_bytes_roundtrip:
  "read_be (elem_width Q) (be_bytes (elem_width Q) (elem_bits Q e) @ r) =
     Ok (elem_bits Q e mod 256 ^ elem_width Q, r)"
  by simp

end

lemma word_small_bytes [simp]:
  "(word_of_nat (unat (x :: u16) mod 65536) :: u16) = x"
  "(word_of_nat (unat (y :: u8) mod 256) :: u8) = y"
proof -
  have "unat x < 65536" "unat y < 256"
    using unsigned_less [of x, where ?'a = nat] unsigned_less [of y, where ?'a = nat] by simp_all
  then show "(word_of_nat (unat x mod 65536) :: u16) = x" "(word_of_nat (unat y mod 256) :: u8) = y"
    by simp_all
qed

interpretation none_q: quantizer_laws NoQuantization
  by unfold_locales (simp_all add: NoQuantization_def)

interpretation f16_q: quantizer_laws Float16Quantization
  by unfold_locales (simp_all add: Float16Quantization_def)

interpretation bf16_q: quantizer_laws BFloat16Quantization
  by unfold_locales (simp_all add: BFloat16Quantization_def)

interpretation f8_q: quantizer_laws Float8Quantization
  by unfold_locales (simp_all add: Float8Quantization_def)

end
