(* ===== verification/VecSpace.thy ===== *)
theory VecSpace
  imports PriorityQueue EdgeMeta Quantizers
begin

text \<open>
  The vector stores of the edge package. The four files \<open>none_vectorstore.go\<close>,
  \<open>f8_vectorstore.go\<close>, \<open>f16_vectorstore.go\<close> and \<open>bf16_vectorstore.go\<close> have one text up to the
  quantizer, so the operations are defined once over a \<open>quantizer\<close> and instantiated for each.
  A store is sixteen shards of vertices with a lock each, the inverted index of their metadata, the
  distance and the schema. A pointer or map that a store may be without (\<open>FillEmpty\<close> makes one out of
  zero values) is an option or a flag, and using it is a panic.
\<close>

record 'e node =
  nvec :: "'e list"
  nmeta :: gmeta

record ('e, 'b) vecspace =
  vertexMetadata :: Metadata
  collectionName :: string
  vsize :: u64
  vertices :: "(u64 \<times> 'e node) list list"
  locksReady :: bool
  verticesMu :: "nat locks"
  spaceDist :: "Space option"
  invIndex :: "'b BitmapIndex option"

definition Indexer :: "('e, 'b) vecspace \<Rightarrow> features" where
  "Indexer sp = IndexTypes (vertexMetadata sp)"

definition metaSpace :: "Metadata \<Rightarrow> Space" where
  "metaSpace md = (if Distancer md = Distance_Cosine then Cosine else Euclidean)"

definition newVecspace :: "'b BitmapIndex option \<Rightarrow> string \<Rightarrow> Metadata \<Rightarrow> ('e, 'b) vecspace" where
  "newVecspace idx name md =
     \<lparr>vertexMetadata = md, collectionName = name, vsize = 0,
      vertices = replicate EDGE_MAP_SHARD_COUNT [], locksReady = True, verticesMu = [],
      spaceDist = Some (metaSpace md), invIndex = idx\<rparr>"

definition newNoneVectorstore :: "string \<Rightarrow> Metadata \<Rightarrow> (f32, 'b) vecspace" where
  "newNoneVectorstore = newVecspace (Some NewBitmapIndex)"

definition newF16Vectorstore :: "string \<Rightarrow> Metadata \<Rightarrow> (u16, 'b) vecspace" where
  "newF16Vectorstore = newVecspace (Some NewBitmapIndex)"

definition newF8Vectorstore :: "string \<Rightarrow> Metadata \<Rightarrow> (u8, 'b) vecspace" where
  "newF8Vectorstore = newVecspace (Some NewBitmapIndex)"

text \<open>\<open>newBF16Vectorstore\<close> leaves the inverted index nil.\<close>

definition newBF16Vectorstore :: "string \<Rightarrow> Metadata \<Rightarrow> (u16, 'b) vecspace" where
  "newBF16Vectorstore = newVecspace None"

subsection \<open>The index of a store\<close>

definition nil_deref :: string where
  "nil_deref = ''nil pointer dereference''"

definition with_index :: "('b BitmapIndex \<Rightarrow> 'b BitmapIndex \<times> 'a gores) \<Rightarrow> ('e, 'b) vecspace \<Rightarrow>
    ('e, 'b) vecspace \<times> 'a gores" where
  "with_index f sp =
     (case invIndex sp of
        None \<Rightarrow> (sp, Panic nil_deref)
      | Some idx \<Rightarrow> (case f idx of (idx', r) \<Rightarrow> (sp\<lparr>invIndex := Some idx'\<rparr>, r)))"

text \<open>\<open>Add\<close> and \<open>Remove\<close> touch the index once per metadata entry, so without entries a nil index
  goes unnoticed.\<close>

definition index_Add :: "'b roaring \<Rightarrow> u64 \<Rightarrow> gmeta \<Rightarrow> ('e, 'b) vecspace \<Rightarrow> ('e, 'b) vecspace \<times> unit gores" where
  "index_Add R i md sp = (if md = [] then (sp, Ok ()) else with_index (Add R i md) sp)"

definition index_Remove :: "'b roaring \<Rightarrow> u64 \<Rightarrow> gmeta \<Rightarrow> ('e, 'b) vecspace \<Rightarrow> ('e, 'b) vecspace \<times> unit gores" where
  "index_Remove R i md sp = (if md = [] then (sp, Ok ()) else with_index (Remove R i md) sp)"

fun has_single :: "FilterExpression \<Rightarrow> bool" and comp_has_single :: "CompositeFilter \<Rightarrow> bool" where
  "has_single (FilterExpression (Some f) c) = True"
| "has_single (FilterExpression None (Some cf)) = comp_has_single cf"
| "has_single (FilterExpression None None) = False"
| "has_single NilExpression = False"
| "comp_has_single (CompositeFilter oper es) = (\<exists>e \<in> set es. has_single e)"

definition index_Search :: "'b roaring \<Rightarrow> FilterExpression \<Rightarrow> ('e, 'b) vecspace \<Rightarrow>
    ('e, 'b) vecspace \<times> u64 list gores" where
  "index_Search R e sp =
     (if invIndex sp = None \<and> \<not> has_single e
      then (sp, snd (SearchWithExpression R e NewBitmapIndex))
      else with_index (SearchWithExpression R e) sp)"

subsection \<open>The locks of the shards\<close>

text \<open>\<open>locksReady\<close> is false while the lock pointers are nil. A shard that is locked and unlocked by one
  request is free again; what stays is what a lost goroutine holds.\<close>

definition hold_vertices :: "nat \<Rightarrow> ('e, 'b) vecspace \<Rightarrow> ('e, 'b) vecspace" where
  "hold_vertices s sp = sp\<lparr>verticesMu := AList.update s Writer (verticesMu sp)\<rparr>"

definition lock_vertices :: "nat \<Rightarrow> ('e, 'b) vecspace \<Rightarrow> ('e, 'b) vecspace \<times> unit gores" where
  "lock_vertices s sp =
     (if \<not> locksReady sp then (sp, Panic nil_deref)
      else if lock_at (verticesMu sp) s = Free then (sp, Ok ())
      else (hold_vertices s sp, Crash deadlock))"

definition left_vertices :: "nat \<Rightarrow> ('e, 'b) vecspace \<Rightarrow> ('e, 'b) vecspace" where
  "left_vertices s sp =
     sp\<lparr>verticesMu := AList.update s (left_reading (lock_at (verticesMu sp) s)) (verticesMu sp)\<rparr>"

subsection \<open>Changing and removing vertices\<close>

definition primaryIndex :: "features \<Rightarrow> string" where
  "primaryIndex fs = (case filter (\<lambda>(_, c). PrimaryKey c) fs of [] \<Rightarrow> '''' | (_, c) # _ \<Rightarrow> featureName c)"

definition resolveCommitId :: "'b roaring \<Rightarrow> string \<Rightarrow> u64 \<Rightarrow> ('e, 'b) vecspace \<Rightarrow>
    ('e, 'b) vecspace \<times> u64 gores" where
  "resolveCommitId R updateId commitId sp =
     (if updateId = '''' then (sp, Ok commitId)
      else st_bind (with_index (SearchSingleFilter R
             (NewFilter (primaryIndex (Indexer sp)) OpEqual (GString updateId))) sp)
           (\<lambda>sp ids. (sp, Ok (case ids of [] \<Rightarrow> commitId | i # _ \<Rightarrow> i))))"

definition put_vertex :: "u64 \<Rightarrow> 'e node \<Rightarrow> (u64 \<times> 'e node) list list \<Rightarrow> (u64 \<times> 'e node) list list" where
  "put_vertex i n vs = vs[shard_idx i := AList.update i n (vs ! shard_idx i)]"

definition del_vertex :: "u64 \<Rightarrow> (u64 \<times> 'e node) list list \<Rightarrow> (u64 \<times> 'e node) list list" where
  "del_vertex i vs = vs[shard_idx i := AList.delete i (vs ! shard_idx i)]"

definition vertex :: "('e, 'b) vecspace \<Rightarrow> u64 \<Rightarrow> 'e node option" where
  "vertex sp i = map_of (vertices sp ! shard_idx i) i"

definition ChangedVertex :: "'e quantizer \<Rightarrow> 'b roaring \<Rightarrow> string \<Rightarrow> u64 \<Rightarrow> vec \<Rightarrow> gmeta \<Rightarrow>
    ('e, 'b) vecspace \<Rightarrow> ('e, 'b) vecspace \<times> unit gores" where
  "ChangedVertex Q R updateId commitId v metadata sp =
     st_bind (resolveCommitId R updateId commitId sp) (\<lambda>sp cid.
     if Dimensional (vertexMetadata sp) \<noteq> word_of_nat (length v) then (sp, Err ''Dim Length UnmatchdError'')
     else st_bind (sp, standardAnalyzer metadata (Indexer sp)) (\<lambda>sp md.
     st_bind (index_Add R cid md sp) (\<lambda>sp _.
     case spaceDist sp of
       None \<Rightarrow> (sp, Panic nil_deref)
     | Some d \<Rightarrow>
         let v' = (if space_Type d = ''cosine-dot'' then Normalize v else v); low = Lower Q v' in
         st_bind (lock_vertices (shard_idx cid) sp) (\<lambda>sp _.
           (sp\<lparr>vertices := put_vertex cid \<lparr>nvec = low, nmeta = md\<rparr> (vertices sp)\<rparr>, Ok ())))))"

text \<open>\<open>Remove\<close> runs while the shard is locked, and its error is dropped; what panics or waits in it keeps
  the lock.\<close>

fun drop_ids :: "'b roaring \<Rightarrow> u64 list \<Rightarrow> ('e, 'b) vecspace \<Rightarrow> ('e, 'b) vecspace \<times> unit gores" where
  "drop_ids R [] sp = (sp, Ok ())"
| "drop_ids R (i # is) sp =
     st_bind (lock_vertices (shard_idx i) sp) (\<lambda>sp _.
      case index_Remove R i (case vertex sp i of None \<Rightarrow> [] | Some n \<Rightarrow> nmeta n) sp of
        (sp, Panic p) \<Rightarrow> (hold_vertices (shard_idx i) sp, Panic p)
      | (sp, Crash p) \<Rightarrow> (hold_vertices (shard_idx i) sp, Crash p)
      | (sp, _) \<Rightarrow> drop_ids R is (sp\<lparr>vertices := del_vertex i (vertices sp)\<rparr>))"

definition RemoveVertex :: "'b roaring \<Rightarrow> gmeta \<Rightarrow> ('e, 'b) vecspace \<Rightarrow> ('e, 'b) vecspace \<times> unit gores" where
  "RemoveVertex R dropFilter sp =
     st_bind (sp, dropKeyAnalyzer dropFilter (Indexer sp)) (\<lambda>sp _.
     st_bind (with_index (SearchMultiFilter R (map (\<lambda>(k, v). NewFilter k OpEqual v) dropFilter)) sp)
       (\<lambda>sp ids. drop_ids R ids sp))"

subsection \<open>Searching\<close>

type_synonym item = "gmeta SearchResultItem"

definition score_node :: "'e quantizer \<Rightarrow> dist \<Rightarrow> 'e list \<Rightarrow> u64 \<times> 'e node \<Rightarrow> item gores" where
  "score_node Q dist low = (\<lambda>(uid, n).
     go_bind (Similarity Q low (nvec n) dist) (\<lambda>sim.
       Ok \<lparr>Id = uid, itemMetadata = nmeta n, Score = sim\<rparr>))"

definition lowered_target :: "'e quantizer \<Rightarrow> Space \<Rightarrow> vec \<Rightarrow> 'e list" where
  "lowered_target Q d target =
     Lower Q (if space_Type d = ''cosine-dot'' then Normalize target else target)"

definition collect_all :: "int \<Rightarrow> item list \<Rightarrow> item list" where
  "collect_all topK items = edgeToSlice (fold pqAdd items (NewPriorityQueue topK))"

text \<open>
  The vertices of a shard are scored under its read lock. One shard after the other, a panic leaves its
  lock with a reader. In goroutines a panic ends the process; where none panics, a shard whose lock cannot be
  had keeps the search waiting.
\<close>

fun scan_in_turn :: "('n \<Rightarrow> item gores) \<Rightarrow> (nat \<times> 'n list) list \<Rightarrow> ('e, 'b) vecspace \<Rightarrow>
    ('e, 'b) vecspace \<times> item list list gores" where
  "scan_in_turn f [] sp = (sp, Ok [])"
| "scan_in_turn f ((s, ns) # sns) sp =
     (if lock_at (verticesMu sp) s = Writer then (sp, Crash deadlock)
      else case go_map f ns of
        Ok is \<Rightarrow> st_bind (scan_in_turn f sns sp) (\<lambda>sp iss. (sp, Ok (is # iss)))
      | Err e \<Rightarrow> (sp, Err e)
      | Panic p \<Rightarrow> (left_vertices s sp, Panic p)
      | Crash p \<Rightarrow> (sp, Crash p))"

definition scan_parallel :: "('n \<Rightarrow> item gores) \<Rightarrow> (nat \<times> 'n list) list \<Rightarrow> ('e, 'b) vecspace \<Rightarrow>
    item list list gores" where
  "scan_parallel f sns sp =
     go_bind (spawned True (go_map (\<lambda>(s, ns). if lock_at (verticesMu sp) s = Writer then Ok [] else go_map f ns) sns))
       (\<lambda>iss. if \<exists>(s, ns) \<in> set sns. lock_at (verticesMu sp) s = Writer then Crash deadlock else Ok iss)"

definition scan_shards :: "bool \<Rightarrow> ('n \<Rightarrow> item gores) \<Rightarrow> (nat \<times> 'n list) list \<Rightarrow> ('e, 'b) vecspace \<Rightarrow>
    ('e, 'b) vecspace \<times> item list list gores" where
  "scan_shards highCpu f sns sp =
     (if highCpu then (sp, scan_parallel f sns sp) else scan_in_turn f sns sp)"

text \<open>
  With \<open>highCpu\<close> a goroutine per shard fills a queue of its own and the survivors are added to
  the result queue in the order of the shards.
\<close>

definition VertexSearch :: "'e quantizer \<Rightarrow> spaceImpl \<Rightarrow> vec \<Rightarrow> int \<Rightarrow> bool \<Rightarrow> ('e, 'b) vecspace \<Rightarrow>
    ('e, 'b) vecspace \<times> item list gores" where
  "VertexSearch Q impl target topK highCpu sp =
     (case spaceDist sp of
        None \<Rightarrow> (sp, Panic nil_deref)
      | Some d \<Rightarrow>
          if \<not> locksReady sp then (sp, spawned highCpu (Panic nil_deref))
          else st_bind (scan_shards highCpu (score_node Q (space_Distance impl d) (lowered_target Q d target))
                 (List.enumerate 0 (vertices sp)) sp) (\<lambda>sp shards.
            (sp, Ok (collect_all topK
              (if highCpu then concat (map (collect_all topK) shards) else concat shards)))))"

definition candidate_nodes :: "u64 list \<Rightarrow> ('e, 'b) vecspace \<Rightarrow> (u64 \<times> 'e node) list list" where
  "candidate_nodes cands sp =
     map (\<lambda>s. List.map_filter (\<lambda>i. map_option (\<lambda>n. (i, n)) (map_of (vertices sp ! s) i))
            (filter (\<lambda>i. shard_idx i = s) cands))
       [0..<EDGE_MAP_SHARD_COUNT]"

text \<open>Only the shards that have a candidate are locked.\<close>

definition candidate_shards :: "u64 list \<Rightarrow> ('e, 'b) vecspace \<Rightarrow> (nat \<times> (u64 \<times> 'e node) list) list" where
  "candidate_shards cands sp =
     filter (\<lambda>(s, ns). s \<in> shard_idx ` set cands) (List.enumerate 0 (candidate_nodes cands sp))"

text \<open>
  The filtered search. With \<open>highCpu\<close> the store without quantizer collects per shard as above;
  the quantized stores add from all goroutines to the one result queue, in the order \<open>il\<close> in
  which they get its lock.
\<close>

definition FilterableVertexSearch :: "bool \<Rightarrow> (item list list \<Rightarrow> item list) \<Rightarrow> 'e quantizer \<Rightarrow>
    'b roaring \<Rightarrow> spaceImpl \<Rightarrow> FilterExpression \<Rightarrow> vec \<Rightarrow> int \<Rightarrow> bool \<Rightarrow> ('e, 'b) vecspace \<Rightarrow>
    ('e, 'b) vecspace \<times> item list gores" where
  "FilterableVertexSearch shared il Q R impl expr target topK highCpu sp =
     (case spaceDist sp of
        None \<Rightarrow> (sp, Panic nil_deref)
      | Some d \<Rightarrow>
          st_bind (index_Search R expr sp) (\<lambda>sp cands.
            if \<not> locksReady sp \<and> cands \<noteq> [] then (sp, spawned highCpu (Panic nil_deref))
            else st_bind (scan_shards highCpu (score_node Q (space_Distance impl d) (lowered_target Q d target))
                    (candidate_shards cands sp) sp) (\<lambda>sp shards.
              (sp, Ok (collect_all topK
                (if \<not> highCpu then concat shards
                 else if shared then il shards
                 else concat (map (collect_all topK) shards)))))))"

subsection \<open>The four stores\<close>

definition none_ChangedVertex :: "'b roaring \<Rightarrow> string \<Rightarrow> u64 \<Rightarrow> vec \<Rightarrow> gmeta \<Rightarrow> (f32, 'b) vecspace \<Rightarrow> (f32, 'b) vecspace \<times> unit gores" where
  "none_ChangedVertex = ChangedVertex NoQuantization"
definition f16_ChangedVertex :: "'b roaring \<Rightarrow> string \<Rightarrow> u64 \<Rightarrow> vec \<Rightarrow> gmeta \<Rightarrow> (u16, 'b) vecspace \<Rightarrow> (u16, 'b) vecspace \<times> unit gores" where
  "f16_ChangedVertex = ChangedVertex Float16Quantization"
definition f8_ChangedVertex :: "'b roaring \<Rightarrow> string \<Rightarrow> u64 \<Rightarrow> vec \<Rightarrow> gmeta \<Rightarrow> (u8, 'b) vecspace \<Rightarrow> (u8, 'b) vecspace \<times> unit gores" where
  "f8_ChangedVertex = ChangedVertex Float8Quantization"
definition bf16_ChangedVertex :: "'b roaring \<Rightarrow> string \<Rightarrow> u64 \<Rightarrow> vec \<Rightarrow> gmeta \<Rightarrow> (u16, 'b) vecspace \<Rightarrow> (u16, 'b) vecspace \<times> unit gores" where
  "bf16_ChangedVertex = ChangedVertex BFloat16Quantization"

definition none_RemoveVertex :: "'b roaring \<Rightarrow> gmeta \<Rightarrow> (f32, 'b) vecspace \<Rightarrow> (f32, 'b) vecspace \<times> unit gores" where
  "none_RemoveVertex = RemoveVertex"
definition none_VertexSearch :: "spaceImpl \<Rightarrow> vec \<Rightarrow> int \<Rightarrow> bool \<Rightarrow> (f32, 'b) vecspace \<Rightarrow>
    (f32, 'b) vecspace \<times> item list gores" where
  "none_VertexSearch = VertexSearch NoQuantization"
definition none_FilterableVertexSearch :: "(item list list \<Rightarrow> item list) \<Rightarrow> 'b roaring \<Rightarrow> spaceImpl \<Rightarrow>
    FilterExpression \<Rightarrow> vec \<Rightarrow> int \<Rightarrow> bool \<Rightarrow> (f32, 'b) vecspace \<Rightarrow> (f32, 'b) vecspace \<times> item list gores" where
  "none_FilterableVertexSearch il = FilterableVertexSearch False il NoQuantization"

definition f16_RemoveVertex :: "'b roaring \<Rightarrow> gmeta \<Rightarrow> (u16, 'b) vecspace \<Rightarrow> (u16, 'b) vecspace \<times> unit gores" where
  "f16_RemoveVertex = RemoveVertex"
definition f16_VertexSearch :: "spaceImpl \<Rightarrow> vec \<Rightarrow> int \<Rightarrow> bool \<Rightarrow> (u16, 'b) vecspace \<Rightarrow>
    (u16, 'b) vecspace \<times> item list gores" where
  "f16_VertexSearch = VertexSearch Float16Quantization"
definition f16_FilterableVertexSearch :: "(item list list \<Rightarrow> item list) \<Rightarrow> 'b roaring \<Rightarrow> spaceImpl \<Rightarrow>
    FilterExpression \<Rightarrow> vec \<Rightarrow> int \<Rightarrow> bool \<Rightarrow> (u16, 'b) vecspace \<Rightarrow> (u16, 'b) vecspace \<times> item list gores" where
  "f16_FilterableVertexSearch il = FilterableVertexSearch True il Float16Quantization"

definition f8_RemoveVertex :: "'b roaring \<Rightarrow> gmeta \<Rightarrow> (u8, 'b) vecspace \<Rightarrow> (u8, 'b) vecspace \<times> unit gores" where
  "f8_RemoveVertex = RemoveVertex"
definition f8_VertexSearch :: "spaceImpl \<Rightarrow> vec \<Rightarrow> int \<Rightarrow> bool \<Rightarrow> (u8, 'b) vecspace \<Rightarrow>
    (u8, 'b) vecspace \<times> item list gores" where
  "f8_VertexSearch = VertexSearch Float8Quantization"
definition f8_FilterableVertexSearch :: "(item list list \<Rightarrow> item list) \<Rightarrow> 'b roaring \<Rightarrow> spaceImpl \<Rightarrow>
    FilterExpression \<Rightarrow> vec \<Rightarrow> int \<Rightarrow> bool \<Rightarrow> (u8, 'b) vecspace \<Rightarrow> (u8, 'b) vecspace \<times> item list gores" where
  "f8_FilterableVertexSearch il = FilterableVertexSearch True il Float8Quantization"

definition bf16_RemoveVertex :: "'b roaring \<Rightarrow> gmeta \<Rightarrow> (u16, 'b) vecspace \<Rightarrow> (u16, 'b) vecspace \<times> unit gores" where
  "bf16_RemoveVertex = RemoveVertex"
definition bf16_VertexSearch :: "spaceImpl \<Rightarrow> vec \<Rightarrow> int \<Rightarrow> bool \<Rightarrow> (u16, 'b) vecspace \<Rightarrow>
    (u16, 'b) vecspace \<times> item list gores" where
  "bf16_VertexSearch = VertexSearch BFloat16Quantization"
definition bf16_FilterableVertexSearch :: "(item list list \<Rightarrow> item list) \<Rightarrow> 'b roaring \<Rightarrow> spaceImpl \<Rightarrow>
    FilterExpression \<Rightarrow> vec \<Rightarrow> int \<Rightarrow> bool \<Rightarrow> (u16, 'b) vecspace \<Rightarrow> (u16, 'b) vecspace \<times> item list gores" where
  "bf16_FilterableVertexSearch il = FilterableVertexSearch True il BFloat16Quantization"

end
