(* ===== verification/VecCorrect.thy ===== *)
theory VecCorrect
  imports VecSpace
begin

text \<open>
  What the operations of a vector store do: the invariant of a store in operation, that
  \<open>ChangedVertex\<close> and \<open>RemoveVertex\<close> keep it and the agreement of index and vertices, and what
  the searches return.
\<close>

subsection \<open>Well formed stores\<close>

definition shards_ok :: "(u64 \<times> 'e node) list list \<Rightarrow> bool" where
  "shards_ok vs \<longleftrightarrow> length vs = EDGE_MAP_SHARD_COUNT \<and>
     (\<forall>s < length vs. distinct (map fst (vs ! s)) \<and> (\<forall>(i, n) \<in> set (vs ! s). shard_idx i = s))"

definition idx_of :: "('e, 'b) vecspace \<Rightarrow> 'b BitmapIndex" where
  "idx_of sp = the (invIndex sp)"

text \<open>
  A store in operation: sixteen shards, each id once and in its own shard, free locks, a distance and
  a well formed index; every metadata value of a vertex can be stored.
\<close>

definition space_ok :: "('e, 'b) vecspace \<Rightarrow> bool" where
  "space_ok sp \<longleftrightarrow> shards_ok (vertices sp) \<and> locksReady sp \<and> verticesMu sp = [] \<and> spaceDist sp \<noteq> None \<and>
     invIndex sp \<noteq> None \<and> idx_ok (idx_of sp) \<and>
     (\<forall>i n. vertex sp i = Some n \<longrightarrow> (\<forall>(k, v) \<in> set (nmeta n). storable v))"

lemma lock_vertices_ok: "space_ok sp \<Longrightarrow> lock_vertices s sp = (sp, Ok ())"
  by (simp add: space_ok_def lock_vertices_def)

text \<open>The index and the vertices agree: a lookup finds exactly the vertices with that value.\<close>

definition agree :: "('b \<Rightarrow> u64 set) \<Rightarrow> ('e, 'b) vecspace \<Rightarrow> bool" where
  "agree alpha sp \<longleftrightarrow> (\<forall>f v i. i \<in> ids alpha (idx_of sp) f v \<longleftrightarrow>
     (\<exists>n v'. vertex sp i = Some n \<and> (f, v') \<in> set (nmeta n) \<and> key_eq v v'))"

lemma shard_idx_length: "shards_ok vs \<Longrightarrow> shard_idx i < length vs"
  by (simp add: shards_ok_def shard_idx_less)

lemma nth_update_if: "s < length vs \<Longrightarrow> vs[k := sh] ! s = (if s = k then sh else vs ! s)"
  by auto

lemma shards_ok_update:
  "shards_ok vs \<Longrightarrow> distinct (map fst sh) \<Longrightarrow> \<forall>(j, m) \<in> set sh. shard_idx j = shard_idx i \<Longrightarrow>
   shards_ok (vs[shard_idx i := sh])"
  unfolding shards_ok_def by (auto simp: nth_update_if split: if_splits)

lemma put_vertex_ok: "shards_ok vs \<Longrightarrow> shards_ok (put_vertex i n vs)"
  unfolding put_vertex_def
  by (rule shards_ok_update)
    (use shard_idx_length [of vs i] set_update_subset_insert [of i n "vs ! shard_idx i"] in
      \<open>fastforce simp: shards_ok_def\<close>)+

lemma del_vertex_ok: "shards_ok vs \<Longrightarrow> shards_ok (del_vertex i vs)"
  unfolding del_vertex_def
  by (rule shards_ok_update)
    (use shard_idx_length [of vs i] set_delete_subset [of i "vs ! shard_idx i"] in
      \<open>fastforce simp: shards_ok_def\<close>)+

lemma vertex_put [simp]:
  "shards_ok (vertices sp) \<Longrightarrow>
   vertex (sp\<lparr>vertices := put_vertex i n (vertices sp)\<rparr>) = (vertex sp)(i \<mapsto> n)"
  using shard_idx_length [of "vertices sp" i]
  by (auto simp: vertex_def put_vertex_def nth_list_update fun_eq_iff)

lemma vertex_del [simp]:
  "shards_ok (vertices sp) \<Longrightarrow>
   vertex (sp\<lparr>vertices := del_vertex i (vertices sp)\<rparr>) = (vertex sp)(i := None)"
  using shard_idx_length [of "vertices sp" i]
  by (auto simp: vertex_def del_vertex_def nth_list_update fun_eq_iff)

lemma vertex_simps [simp]:
  "vertex (sp\<lparr>invIndex := x\<rparr>) = vertex sp" "idx_of (sp\<lparr>invIndex := Some idx\<rparr>) = idx"
  "idx_of (sp\<lparr>vertices := vs\<rparr>) = idx_of sp"
  by (simp_all add: vertex_def idx_of_def fun_eq_iff)

text \<open>The vertices of a store as one list.\<close>

lemma shard_entry:
  assumes "shards_ok vs" and "s < length vs"
  shows "(i, n) \<in> set (vs ! s) \<longleftrightarrow> shard_idx i = s \<and> map_of (vs ! shard_idx i) i = Some n"
proof -
  have "distinct (map fst (vs ! s))" and "\<forall>(i, n) \<in> set (vs ! s). shard_idx i = s"
    using assms unfolding shards_ok_def by blast+
  then show ?thesis by auto
qed

lemma set_all_vertices:
  assumes ok: "shards_ok (vertices sp)"
  shows "(i, n) \<in> set (concat (vertices sp)) \<longleftrightarrow> vertex sp i = Some n"
proof -
  have "(i, n) \<in> set (concat (vertices sp)) \<longleftrightarrow>
      (\<exists>s < length (vertices sp). (i, n) \<in> set (vertices sp ! s))"
    by (auto simp: set_conv_nth [of "vertices sp"])
  also have "\<dots> \<longleftrightarrow> vertex sp i = Some n"
    using shard_entry [OF ok, of _ i n] shard_idx_length [OF ok, of i] by (auto simp: vertex_def)
  finally show ?thesis .
qed

subsection \<open>Inserting a vertex\<close>

lemma resolveCommitId_Ok:
  assumes R: "roaring_ok R alpha" and ok: "space_ok sp"
  defines "found \<equiv> (\<lambda>u. ids alpha (idx_of sp) (primaryIndex (Indexer sp)) (GString u))"
  shows "\<exists>idx'. same_index (idx_of sp) idx' \<and>
    resolveCommitId R updateId commitId sp = (sp\<lparr>invIndex := Some idx'\<rparr>,
      Ok (case if updateId = '''' then [] else sorted_list_of_set (found updateId) of [] \<Rightarrow> commitId | i # _ \<Rightarrow> i))"
proof (cases "updateId = ''''")
  case True
  then show ?thesis using ok
    by (intro exI [of _ "idx_of sp"]) (auto simp: resolveCommitId_def space_ok_def idx_of_def same_index_def)
next
  case False
  let ?f = "NewFilter (primaryIndex (Indexer sp)) OpEqual (GString updateId)"
  obtain idx where idx: "invIndex sp = Some idx" "idx_ok idx" "idx_of sp = idx"
    using ok by (auto simp: space_ok_def idx_of_def)
  have "filter_fine idx ?f" by (simp add: filter_fine_def NewFilter_def hashable_def)
  from evaluateSingleFilter_Ok [OF R idx(2) this] obtain idx' b where
    b: "evaluateSingleFilter R ?f idx = (idx', Ok b)" "same_index idx idx'" "alpha b = filter_sem alpha idx ?f"
    by blast
  have "rb_ToArray R b = sorted_list_of_set (alpha b)" using R by (simp add: roaring_ok_def)
  then show ?thesis using False b
    by (auto simp: resolveCommitId_def with_index_def idx SearchSingleFilter_def found_def
        filter_sem_def NewFilter_def)
qed

lemma same_index_ids: "same_index idx idx' \<Longrightarrow> ids alpha idx' = ids alpha idx"
  by (simp add: same_index_def ids_def fun_eq_iff)

text \<open>The vertex that a change stores.\<close>

definition stored_node :: "'e quantizer \<Rightarrow> Space \<Rightarrow> vec \<Rightarrow> gmeta \<Rightarrow> 'e node" where
  "stored_node Q d v md = \<lparr>nvec = Lower Q (if space_Type d = ''cosine-dot'' then Normalize v else v), nmeta = md\<rparr>"

definition dim_fits :: "('e, 'b) vecspace \<Rightarrow> vec \<Rightarrow> bool" where
  "dim_fits sp v \<longleftrightarrow> Dimensional (vertexMetadata sp) = word_of_nat (length v)"

lemma index_Add_Ok:
  assumes R: "roaring_ok R alpha" and ok: "idx_ok idx" and "invIndex sp = Some idx"
    and "\<forall>(k, v) \<in> set md. storable v"
  shows "\<exists>idx'. index_Add R i md sp = (sp\<lparr>invIndex := Some idx'\<rparr>, Ok ()) \<and> idx_ok idx' \<and>
    (\<forall>f k. ids alpha idx' f k =
       ids alpha idx f k \<union> (if \<exists>v. (f, v) \<in> set md \<and> key_eq k v then {i} else {}))"
proof (cases "md = []")
  case True
  then show ?thesis using assms by (intro exI [of _ idx]) (simp add: index_Add_def)
next
  case False
  obtain idx' where "Add R i md idx = (idx', Ok ())" "idx_ok idx' \<and> (\<forall>f k. ids alpha idx' f k =
       ids alpha idx f k \<union> (if \<exists>v. (f, v) \<in> set md \<and> key_eq k v then {i} else {}))"
    using Add_ids [OF R ok assms(4), of i] by blast
  with False assms(3) show ?thesis
    by (intro exI [of _ idx'] conjI) (simp_all add: index_Add_def with_index_def)
qed

lemma ChangedVertex_Ok:
  fixes sp :: "('e, 'b) vecspace"
  assumes R: "roaring_ok R alpha" and ok: "space_ok sp" and d: "spaceDist sp = Some d"
    and dim: "dim_fits sp v" and an: "standardAnalyzer metadata (Indexer sp) = Ok md"
    and st: "\<forall>(k, v) \<in> set md. storable v"
    and cid: "snd (resolveCommitId R updateId commitId sp) = Ok cid"
  shows "\<exists>sp'. ChangedVertex Q R updateId commitId v metadata sp = (sp', Ok ()) \<and> space_ok sp' \<and>
    vertex sp' = (vertex sp)(cid \<mapsto> stored_node Q d v md) \<and>
    vertexMetadata sp' = vertexMetadata sp \<and>
    (\<forall>f k. ids alpha (idx_of sp') f k =
       ids alpha (idx_of sp) f k \<union> (if \<exists>v. (f, v) \<in> set md \<and> key_eq k v then {cid} else {}))"
proof -
  obtain idx1 where r: "resolveCommitId R updateId commitId sp = (sp\<lparr>invIndex := Some idx1\<rparr>, Ok cid)"
    and s1: "same_index (idx_of sp) idx1"
    using resolveCommitId_Ok [OF R ok, of updateId commitId] cid by auto
  define sp1 where "sp1 = sp\<lparr>invIndex := Some idx1\<rparr>"
  have ok1: "idx_ok idx1" using s1 by (simp add: same_index_def)
  obtain idx2 where a: "index_Add R cid md sp1 = (sp1\<lparr>invIndex := Some idx2\<rparr>, Ok ())" "idx_ok idx2"
    "\<forall>f k. ids alpha idx2 f k =
       ids alpha idx1 f k \<union> (if \<exists>v. (f, v) \<in> set md \<and> key_eq k v then {cid} else {})"
    using index_Add_Ok [OF R ok1 _ st, of sp1 cid] by (auto simp: sp1_def)
  define sp2 where "sp2 = sp\<lparr>invIndex := Some idx2\<rparr>"
  define sp' where "sp' = sp2\<lparr>vertices := put_vertex cid (stored_node Q d v md) (vertices sp2)\<rparr>"
  have sh: "shards_ok (vertices sp)" "locksReady sp" "verticesMu sp = []" using ok by (simp_all add: space_ok_def)
  have "ChangedVertex Q R updateId commitId v metadata sp = (sp', Ok ())"
    using dim an sh a(1)
    by (simp add: ChangedVertex_def r dim_fits_def Indexer_def sp1_def d Let_def lock_vertices_def sp'_def sp2_def stored_node_def)
  moreover have v: "vertex sp' = (vertex sp)(cid \<mapsto> stored_node Q d v md)"
  proof -
    have "shards_ok (vertices sp2)" "vertex sp2 = vertex sp" using sh by (simp_all add: sp2_def)
    then show ?thesis by (simp add: sp'_def)
  qed
  moreover have i: "idx_of sp' = idx2" by (simp add: sp'_def sp2_def)
  moreover have "space_ok sp'"
    unfolding space_ok_def i v
  proof (intro conjI allI impI)
    show "shards_ok (vertices sp')" using put_vertex_ok [OF sh(1)] by (simp add: sp'_def sp2_def)
    show "\<forall>(k, v) \<in> set (nmeta n). storable v" if "((vertex sp)(cid \<mapsto> stored_node Q d v md)) j = Some n" for j n
      using that ok st by (auto simp: space_ok_def stored_node_def split: if_splits)
  qed (use sh d a(2) in \<open>simp_all add: sp'_def sp2_def\<close>)
  moreover have "vertexMetadata sp' = vertexMetadata sp" by (simp add: sp'_def sp2_def)
  moreover have "\<forall>f k. ids alpha (idx_of sp') f k =
       ids alpha (idx_of sp) f k \<union> (if \<exists>v. (f, v) \<in> set md \<and> key_eq k v then {cid} else {})"
    using a(3) unfolding i same_index_ids [OF s1] .
  ultimately show ?thesis by blast
qed

subsection \<open>Removing vertices\<close>

lemma index_Remove_Ok:
  assumes R: "roaring_ok R alpha" and ok: "idx_ok idx" and "invIndex sp = Some idx"
    and "\<forall>(k, v) \<in> set md. hashable v"
  shows "\<exists>idx'. index_Remove R i md sp = (sp\<lparr>invIndex := Some idx'\<rparr>, Ok ()) \<and> idx_ok idx' \<and>
    (\<forall>f k. ids alpha idx' f k =
       ids alpha idx f k - (if \<exists>v. (f, v) \<in> set md \<and> key_eq k v then {i} else {}))"
proof (cases "md = []")
  case True
  then show ?thesis using assms by (intro exI [of _ idx]) (simp add: index_Remove_def)
next
  case False
  obtain idx' where "Remove R i md idx = (idx', Ok ())" "idx_ok idx' \<and> (\<forall>f k. ids alpha idx' f k =
       ids alpha idx f k - (if \<exists>v. (f, v) \<in> set md \<and> key_eq k v then {i} else {}))"
    using Remove_ids [OF R ok assms(4), of i] by blast
  with False assms(3) show ?thesis
    by (intro exI [of _ idx'] conjI) (simp_all add: index_Remove_def with_index_def)
qed

lemma space_ok_storable:
  "space_ok sp \<Longrightarrow> vertex sp i = Some n \<Longrightarrow> \<forall>(k, v) \<in> set (nmeta n). storable v"
  by (simp add: space_ok_def)

lemma drop_step:
  assumes R: "roaring_ok R alpha" and ok: "space_ok sp" and ag: "agree alpha sp"
  shows "\<exists>sp'. drop_ids R (i # is) sp = drop_ids R is sp' \<and> space_ok sp' \<and> agree alpha sp' \<and>
    vertex sp' = (vertex sp)(i := None) \<and> vertexMetadata sp' = vertexMetadata sp"
proof -
  obtain idx where idx: "invIndex sp = Some idx" "idx_ok idx" "idx_of sp = idx"
    using ok by (auto simp: space_ok_def idx_of_def)
  have sh: "shards_ok (vertices sp)" "locksReady sp" using ok by (simp_all add: space_ok_def)
  note lk = lock_vertices_ok [OF ok, of "shard_idx i"]
  define md where "md = (case vertex sp i of None \<Rightarrow> [] | Some n \<Rightarrow> nmeta n)"
  have st: "\<forall>(k, v) \<in> set md. hashable v"
    using space_ok_storable [OF ok, of i] by (cases "vertex sp i") (auto simp: md_def storable_def)
  obtain idx1 where r: "index_Remove R i md sp = (sp\<lparr>invIndex := Some idx1\<rparr>, Ok ())" "idx_ok idx1"
    "\<And>f k. ids alpha idx1 f k =
       ids alpha idx f k - (if \<exists>v. (f, v) \<in> set md \<and> key_eq k v then {i} else {})"
    using index_Remove_Ok [OF R idx(2,1) st] by blast
  define sp1 where "sp1 = sp\<lparr>invIndex := Some idx1\<rparr>"
  define sp' where "sp' = sp1\<lparr>vertices := del_vertex i (vertices sp1)\<rparr>"
  have v: "vertex sp' = (vertex sp)(i := None)"
  proof -
    have "shards_ok (vertices sp1)" "vertex sp1 = vertex sp" using sh by (simp_all add: sp1_def)
    then show ?thesis by (simp add: sp'_def)
  qed
  have i1: "idx_of sp' = idx1" by (simp add: sp'_def sp1_def)
  have "drop_ids R (i # is) sp = drop_ids R is sp'"
    using lk r(1) by (simp add: md_def [symmetric] sp'_def sp1_def)
  moreover have "space_ok sp'"
    unfolding space_ok_def i1 v
  proof (intro conjI allI impI)
    show "shards_ok (vertices sp')" using del_vertex_ok [OF sh(1)] by (simp add: sp'_def sp1_def)
    show "\<forall>(k, v) \<in> set (nmeta n). storable v" if "((vertex sp)(i := None)) j = Some n" for j n
      using that ok by (auto simp: space_ok_def split: if_splits)
  qed (use ok sh r(2) in \<open>simp_all add: sp'_def sp1_def space_ok_def\<close>)
  moreover have "agree alpha sp'"
    unfolding agree_def i1 v
  proof (intro allI)
    fix f k j
    have a: "j \<in> ids alpha idx f k \<longleftrightarrow>
        (\<exists>n v'. vertex sp j = Some n \<and> (f, v') \<in> set (nmeta n) \<and> key_eq k v')" for j
      using ag by (simp add: agree_def idx)
    show "j \<in> ids alpha idx1 f k \<longleftrightarrow>
        (\<exists>n v'. ((vertex sp)(i := None)) j = Some n \<and> (f, v') \<in> set (nmeta n) \<and> key_eq k v')"
      by (cases "j = i"; cases "vertex sp i") (auto simp: r(3) a md_def)
  qed
  moreover have "vertexMetadata sp' = vertexMetadata sp" by (simp add: sp'_def sp1_def)
  ultimately show ?thesis using v by blast
qed

lemma drop_ids_Ok:
  assumes R: "roaring_ok R alpha" and "space_ok sp" and "agree alpha sp"
  shows "\<exists>sp'. drop_ids R is sp = (sp', Ok ()) \<and> space_ok sp' \<and> agree alpha sp' \<and>
    vertex sp' = vertex sp |` (- set is) \<and> vertexMetadata sp' = vertexMetadata sp"
  using assms(2,3)
proof (induction "is" arbitrary: sp)
  case Nil
  then show ?case by (simp add: restrict_map_def fun_eq_iff)
next
  case (Cons i "is")
  obtain sp1 where s: "drop_ids R (i # is) sp = drop_ids R is sp1" "space_ok sp1" "agree alpha sp1"
    "vertex sp1 = (vertex sp)(i := None)" "vertexMetadata sp1 = vertexMetadata sp"
    using drop_step [OF R Cons.prems] by blast
  obtain sp' where n: "drop_ids R is sp1 = (sp', Ok ())" "space_ok sp'" "agree alpha sp'"
    "vertex sp' = vertex sp1 |` (- set is)" "vertexMetadata sp' = vertexMetadata sp1"
    using Cons.IH [OF s(2,3)] by blast
  have "vertex sp' = vertex sp |` (- set (i # is))"
    by (auto simp: n(4) s(4) restrict_map_def fun_eq_iff)
  then show ?case using s n by metis
qed

text \<open>The vertices whose metadata have every value of a drop filter.\<close>

definition filter_hits :: "gmeta \<Rightarrow> ('e, 'b) vecspace \<Rightarrow> u64 set" where
  "filter_hits dropFilter sp = {i. \<exists>n. vertex sp i = Some n \<and>
     (\<forall>(f, v) \<in> set dropFilter. \<exists>v'. (f, v') \<in> set (nmeta n) \<and> key_eq v v')}"

lemma multi_hits:
  assumes ag: "agree alpha sp" and ne: "dropFilter \<noteq> []"
  shows "(\<Inter>f \<in> set (map (\<lambda>(k, v). NewFilter k OpEqual v) dropFilter). filter_sem alpha (idx_of sp) f) =
    filter_hits dropFilter sp"
proof -
  obtain f0 v0 where d: "(f0, v0) \<in> set dropFilter" using ne by (cases dropFilter) auto
  have eq: "filter_sem alpha (idx_of sp) (NewFilter k OpEqual v) = ids alpha (idx_of sp) k v" for k v
    by (simp add: filter_sem_def NewFilter_def)
  have "(\<Inter>f \<in> set (map (\<lambda>(k, v). NewFilter k OpEqual v) dropFilter). filter_sem alpha (idx_of sp) f) =
      (\<Inter>(f, v) \<in> set dropFilter. ids alpha (idx_of sp) f v)"
    by (simp add: eq case_prod_beta)
  also have "\<dots> = {i. \<forall>(f, v) \<in> set dropFilter.
      \<exists>n v'. vertex sp i = Some n \<and> (f, v') \<in> set (nmeta n) \<and> key_eq v v'}"
    using ag by (simp add: agree_def set_eq_iff case_prod_beta)
  also have "\<dots> = filter_hits dropFilter sp"
  proof (intro set_eqI)
    fix i
    show "(i \<in> {i. \<forall>(f, v) \<in> set dropFilter.
        \<exists>n v'. vertex sp i = Some n \<and> (f, v') \<in> set (nmeta n) \<and> key_eq v v'}) =
      (i \<in> filter_hits dropFilter sp)"
      using d by (cases "vertex sp i") (auto simp: filter_hits_def)
  qed
  finally show ?thesis .
qed

lemma RemoveVertex_Ok:
  fixes sp :: "('e, 'b) vecspace"
  assumes R: "roaring_ok R alpha" and ok: "space_ok sp" and ag: "agree alpha sp"
    and ne: "dropFilter \<noteq> []" and h: "\<forall>(k, v) \<in> set dropFilter. hashable v"
    and an: "dropKeyAnalyzer dropFilter (Indexer sp) = Ok ()"
  shows "\<exists>sp'. RemoveVertex R dropFilter sp = (sp', Ok ()) \<and> space_ok sp' \<and> agree alpha sp' \<and>
    vertex sp' = vertex sp |` (- filter_hits dropFilter sp) \<and> vertexMetadata sp' = vertexMetadata sp"
proof -
  let ?fs = "map (\<lambda>(k, v). NewFilter k OpEqual v) dropFilter"
  obtain idx where idx: "invIndex sp = Some idx" "idx_ok idx" "idx_of sp = idx"
    using ok by (auto simp: space_ok_def idx_of_def)
  have "\<forall>f \<in> set ?fs. filter_fine idx f" using h by (auto simp: filter_fine_def NewFilter_def)
  from SearchMultiFilter_Ok [OF R idx(2) this] ne obtain idx1 where
    m: "SearchMultiFilter R ?fs idx = (idx1, Ok (sorted_list_of_set (filter_hits dropFilter sp)))"
    "same_index idx idx1"
    using multi_hits [OF ag ne] unfolding idx by auto
  define sp1 where "sp1 = sp\<lparr>invIndex := Some idx1\<rparr>"
  have ok1: "space_ok sp1" and ag1: "agree alpha sp1" and v1: "vertex sp1 = vertex sp"
    "vertexMetadata sp1 = vertexMetadata sp"
    using ok ag m(2) same_index_ids [OF m(2), of alpha]
    by (auto simp: space_ok_def agree_def same_index_def sp1_def idx)
  have "finite (filter_hits dropFilter sp)" by (rule finite_subset [OF subset_UNIV]) simp
  then show ?thesis
    using drop_ids_Ok [OF R ok1 ag1, of "sorted_list_of_set (filter_hits dropFilter sp)"] v1
    by (auto simp: RemoveVertex_def an with_index_def idx m(1) sp1_def [symmetric])
qed

subsection \<open>Searching\<close>

lemma distinct_concat_nth:
  "\<forall>s < length xss. distinct (xss ! s) \<Longrightarrow>
   \<forall>s < length xss. \<forall>t < length xss. s \<noteq> t \<longrightarrow> set (xss ! s) \<inter> set (xss ! t) = {} \<Longrightarrow>
   distinct (concat xss)"
proof (induction xss)
  case (Cons xs xss)
  have "distinct (concat xss)"
  proof (rule Cons.IH)
    show "\<forall>s < length xss. distinct (xss ! s)" using Cons.prems(1) by auto
    show "\<forall>s < length xss. \<forall>t < length xss. s \<noteq> t \<longrightarrow> set (xss ! s) \<inter> set (xss ! t) = {}"
      using Cons.prems(2) by fastforce
  qed
  moreover have "set xs \<inter> set (xss ! t) = {}" if "t < length xss" for t
    using that Cons.prems(2) [rule_format, of 0 "Suc t"] by simp
  moreover have "distinct xs" using Cons.prems(1) by auto
  moreover have "set xs \<inter> set ys = {}" if "ys \<in> set xss" for ys
    using that calculation(2) by (metis in_set_conv_nth)
  ultimately show ?case by auto
qed simp

lemma distinct_all_vertices:
  assumes ok: "shards_ok vs"
  shows "distinct (map fst (concat vs))"
  unfolding map_concat
proof (rule distinct_concat_nth)
  show "\<forall>s < length (map (map fst) vs). distinct (map (map fst) vs ! s)"
    using ok by (simp add: shards_ok_def)
  have "shard_idx i = s" if "i \<in> set (map fst (vs ! s))" "s < length vs" for i s
    using ok that unfolding shards_ok_def by fastforce
  then have "set (map fst (vs ! s)) \<inter> set (map fst (vs ! t)) = {}"
    if "s < length vs" "t < length vs" "s \<noteq> t" for s t
    using that by blast
  then show "\<forall>s < length (map (map fst) vs). \<forall>t < length (map (map fst) vs). s \<noteq> t \<longrightarrow>
      set (map (map fst) vs ! s) \<inter> set (map (map fst) vs ! t) = {}"
    by simp
qed

lemma distinct_sub_mset:
  assumes "distinct ys" and "mset xs \<subseteq># mset ys"
  shows "distinct xs"
proof -
  have "count (mset xs) a \<le> 1" for a
    using mset_subset_eq_count [OF assms(2), of a] assms(1)
    by (metis distinct_count_atmost_1 le_trans le_numeral_extra(4) zero_le_one)
  then show ?thesis
    unfolding distinct_count_atmost_1
    by (metis count_eq_zero_iff le_neq_implies_less less_one set_mset_mset)
qed

lemma collect_all_spec:
  assumes "\<forall>i \<in> set items. \<not> f32_nan (Score i)"
  shows "map score_key (collect_all k items) = largest (nat k) (map score_key items)"
    and "mset (collect_all k items) \<subseteq># mset items"
  using collected [OF assms, of k] by (simp_all add: collect_all_def)

text \<open>One queue per shard and one for the survivors, or one queue for all: the same scores.\<close>

lemma collect_shards_spec:
  assumes "\<forall>i \<in> set (concat shards). \<not> f32_nan (Score i)"
  shows "map score_key (collect_all k (concat (map (collect_all k) shards))) =
      largest (nat k) (map score_key (concat shards))"
    and "mset (collect_all k (concat (map (collect_all k) shards))) \<subseteq># mset (concat shards)"
proof -
  have sub: "mset (concat (map (collect_all k) shards)) \<subseteq># mset (concat shards)"
    using assms by (induction shards) (auto intro!: subset_mset.add_mono collect_all_spec)
  have no_nan: "\<forall>i \<in> set (concat (map (collect_all k) shards)). \<not> f32_nan (Score i)"
    using assms set_mset_mono [OF sub] unfolding set_mset_mset by blast
  have "map score_key (concat (map (collect_all k) shards)) =
      concat (map (largest (nat k)) (map (map score_key) shards))"
    using assms by (induction shards) (simp_all add: collect_all_spec)
  then show "map score_key (collect_all k (concat (map (collect_all k) shards))) =
      largest (nat k) (map score_key (concat shards))"
    unfolding collect_all_spec(1) [OF no_nan] map_concat by (simp only: largest_concat)
  show "mset (collect_all k (concat (map (collect_all k) shards))) \<subseteq># mset (concat shards)"
    by (rule subset_mset.order_trans [OF collect_all_spec(2) [OF no_nan] sub])
qed

text \<open>
  The hit that a vertex gives, and when it gives one: the similarity is defined and no NaN.
\<close>

definition hit :: "'e quantizer \<Rightarrow> dist \<Rightarrow> 'e list \<Rightarrow> u64 \<times> 'e node \<Rightarrow> item" where
  "hit Q dist low = (\<lambda>(i, n). \<lparr>Id = i, itemMetadata = nmeta n,
     Score = (case Similarity Q low (nvec n) dist of Ok s \<Rightarrow> s | _ \<Rightarrow> 0)\<rparr>)"

definition comparable :: "'e quantizer \<Rightarrow> dist \<Rightarrow> 'e list \<Rightarrow> ('e, 'b) vecspace \<Rightarrow> bool" where
  "comparable Q dist low sp \<longleftrightarrow> (\<forall>i n. vertex sp i = Some n \<longrightarrow>
     (\<exists>s. Similarity Q low (nvec n) dist = Ok s \<and> \<not> f32_nan s))"

lemma score_node_hit:
  "comparable Q dist low sp \<Longrightarrow> vertex sp i = Some n \<Longrightarrow>
   score_node Q dist low (i, n) = Ok (hit Q dist low (i, n)) \<and> \<not> f32_nan (Score (hit Q dist low (i, n)))"
  by (fastforce simp: comparable_def score_node_def hit_def)

lemma score_all:
  assumes c: "comparable Q dist low sp" and "\<forall>(i, n) \<in> set (concat nss). vertex sp i = Some n"
  shows "go_map (go_map (score_node Q dist low)) nss = Ok (map (map (hit Q dist low)) nss)"
    and "\<forall>h \<in> set (concat (map (map (hit Q dist low)) nss)). \<not> f32_nan (Score h)"
proof -
  have "score_node Q dist low p = Ok (hit Q dist low p)" "\<not> f32_nan (Score (hit Q dist low p))"
    if "p \<in> set ns" "ns \<in> set nss" for p ns
    using assms(2) that score_node_hit [OF c, of "fst p" "snd p"] by (auto simp: case_prod_beta)
  then show "go_map (go_map (score_node Q dist low)) nss = Ok (map (map (hit Q dist low)) nss)"
    "\<forall>h \<in> set (concat (map (map (hit Q dist low)) nss)). \<not> f32_nan (Score h)"
    by (auto intro!: go_map_Ok)
qed

lemma go_map_locked:
  assumes "verticesMu sp = []" and "go_map (\<lambda>(s, ns). go_map f ns) sns = Ok iss"
  shows "scan_shards highCpu f sns sp = (sp, Ok iss)"
proof -
  have "scan_in_turn f sns sp = (sp, Ok iss)"
    using assms(2) by (induction sns arbitrary: iss) (auto simp: assms(1) go_bind_Ok_iff)
  moreover have "scan_parallel f sns sp = Ok iss" using assms by (simp add: scan_parallel_def)
  ultimately show ?thesis by (simp add: scan_shards_def)
qed

lemma go_map_snd: "go_map (\<lambda>(s, ns). f ns) sns = go_map f (map snd sns)"
  by (induction sns) auto

lemma VertexSearch_Ok:
  fixes sp :: "('e, 'b) vecspace"
  assumes ok: "space_ok sp" and d: "spaceDist sp = Some d"
    and c: "comparable Q (space_Distance impl d) (lowered_target Q d target) sp"
  defines "H \<equiv> hit Q (space_Distance impl d) (lowered_target Q d target)"
  shows "\<exists>items. VertexSearch Q impl target topK highCpu sp = (sp, Ok items) \<and>
    map score_key items = largest (nat topK) (map (\<lambda>p. score_key (H p)) (concat (vertices sp))) \<and>
    distinct (map Id items) \<and>
    (\<forall>h \<in> set items. \<exists>n. vertex sp (Id h) = Some n \<and> h = H (Id h, n))"
proof -
  have sh: "shards_ok (vertices sp)" "locksReady sp" and mu: "verticesMu sp = []" using ok by (simp_all add: space_ok_def)
  let ?hs = "map (map H) (vertices sp)"
  have v: "\<forall>(i, n) \<in> set (concat (vertices sp)). vertex sp i = Some n"
    using set_all_vertices [OF sh(1)] by auto
  note s = score_all [OF c v, folded H_def]
  define items where "items = collect_all topK
      (if highCpu then concat (map (collect_all topK) ?hs) else concat ?hs)"
  have "VertexSearch Q impl target topK highCpu sp = (sp, Ok items)"
    using go_map_locked [OF mu, of _ "List.enumerate 0 (vertices sp)"] s(1)
    by (simp add: VertexSearch_def d sh go_map_snd items_def del: map_map)
  moreover have k: "map score_key items = largest (nat topK) (map score_key (concat ?hs))"
    and sub: "mset items \<subseteq># mset (concat ?hs)"
    using collect_all_spec [OF s(2), of topK] collect_shards_spec [OF s(2), of topK]
    by (auto simp: items_def)
  moreover have conc: "concat ?hs = map H (concat (vertices sp))" by (simp add: map_concat)
  moreover have "distinct (map Id items)"
  proof (rule distinct_sub_mset)
    show "distinct (map fst (concat (vertices sp)))" by (rule distinct_all_vertices [OF sh(1)])
    have "map fst (concat (vertices sp)) = map Id (concat ?hs)"
      unfolding conc by (simp add: H_def hit_def case_prod_beta o_def)
    then show "mset (map Id items) \<subseteq># mset (map fst (concat (vertices sp)))"
      using image_mset_subseteq_mono [OF sub, of Id] by simp
  qed
  moreover have "\<exists>n. vertex sp (Id h) = Some n \<and> h = H (Id h, n)" if "h \<in> set items" for h
  proof -
    have "h \<in> set (map H (concat (vertices sp)))"
      using that set_mset_mono [OF sub] conc by auto
    then obtain i n where "(i, n) \<in> set (concat (vertices sp))" "h = H (i, n)" by auto
    moreover have "Id h = i" using \<open>h = H (i, n)\<close> by (simp add: H_def hit_def)
    ultimately show ?thesis using set_all_vertices [OF sh(1), of i n] by auto
  qed
  ultimately show ?thesis by (auto simp: o_def)
qed

text \<open>The vertices of a list of candidates; the search takes them shard by shard.\<close>

definition cand_vertices :: "u64 list \<Rightarrow> ('e, 'b) vecspace \<Rightarrow> (u64 \<times> 'e node) list" where
  "cand_vertices cands sp = List.map_filter (\<lambda>i. map_option (\<lambda>n. (i, n)) (vertex sp i)) cands"

lemma mset_concat_upt: "mset (concat (map g [0..<n])) = (\<Sum>s \<in> {0..<n}. mset (g s))"
  by (induction n) (simp_all add: union_commute)

lemma candidate_nodes_Cons:
  "mset (concat (candidate_nodes (i # cands) sp)) =
   mset (List.map_filter (\<lambda>i. map_option (\<lambda>n. (i, n)) (vertex sp i)) [i]) +
   mset (concat (candidate_nodes cands sp))"
proof -
  let ?g = "\<lambda>cands s. List.map_filter (\<lambda>i. map_option (\<lambda>n. (i, n)) (map_of (vertices sp ! s) i))
      (filter (\<lambda>i. shard_idx i = s) cands)"
  let ?x = "mset (List.map_filter (\<lambda>i. map_option (\<lambda>n. (i, n)) (vertex sp i)) [i])"
  have "mset (?g (i # cands) s) = (if s = shard_idx i then ?x else {#}) + mset (?g cands s)" for s
    by (auto simp: vertex_def List.map_filter_simps split: option.splits)
  then have "mset (concat (candidate_nodes (i # cands) sp)) =
      (\<Sum>s \<in> {0..<EDGE_MAP_SHARD_COUNT}. (if s = shard_idx i then ?x else {#}) + mset (?g cands s))"
    unfolding candidate_nodes_def mset_concat_upt by (intro sum.cong refl)
  also have "\<dots> = ?x + (\<Sum>s \<in> {0..<EDGE_MAP_SHARD_COUNT}. mset (?g cands s))"
    using shard_idx_less [of i] unfolding sum.distrib by simp
  finally show ?thesis unfolding candidate_nodes_def mset_concat_upt .
qed

lemma candidate_nodes_mset: "mset (concat (candidate_nodes cands sp)) = mset (cand_vertices cands sp)"
proof (induction cands)
  case Nil
  have "candidate_nodes [] sp = map (\<lambda>s. []) [0..<EDGE_MAP_SHARD_COUNT]"
    by (simp add: candidate_nodes_def List.map_filter_simps)
  then show ?case by (simp add: cand_vertices_def List.map_filter_simps)
next
  case (Cons i cands)
  show ?case unfolding candidate_nodes_Cons Cons
    by (simp add: cand_vertices_def List.map_filter_simps split: option.splits)
qed

lemma concat_filter_empty:
  "\<forall>p \<in> set ps. \<not> P p \<longrightarrow> snd p = [] \<Longrightarrow> concat (map snd (filter P ps)) = concat (map snd ps)"
  by (induction ps) auto

lemma candidate_shards_mset: "mset (concat (map snd (candidate_shards cands sp))) = mset (cand_vertices cands sp)"
proof -
  have "snd p = []" if "p \<in> set (List.enumerate 0 (candidate_nodes cands sp))" "fst p \<notin> shard_idx ` set cands" for p
  proof -
    have s: "fst p < EDGE_MAP_SHARD_COUNT" "snd p = candidate_nodes cands sp ! fst p"
      using that(1) by (auto simp: in_set_enumerate_eq candidate_nodes_def)
    have "filter (\<lambda>i. shard_idx i = fst p) cands = []"
      using that(2) by (metis (mono_tags, lifting) filter_False image_eqI)
    then show ?thesis using s by (simp add: candidate_nodes_def List.map_filter_simps)
  qed
  then have "concat (map snd (candidate_shards cands sp)) = concat (map snd (List.enumerate 0 (candidate_nodes cands sp)))"
    unfolding candidate_shards_def by (intro concat_filter_empty) (auto simp: case_prod_beta)
  then show ?thesis using candidate_nodes_mset [of cands sp] by simp
qed

lemma set_cand_vertices: "(i, n) \<in> set (cand_vertices cands sp) \<longleftrightarrow> i \<in> set cands \<and> vertex sp i = Some n"
proof (induction cands)
  case (Cons j cands)
  then show ?case by (cases "vertex sp j") (auto simp: cand_vertices_def List.map_filter_simps)
qed (simp add: cand_vertices_def List.map_filter_simps)

lemma distinct_cand_vertices: "distinct cands \<Longrightarrow> distinct (map fst (cand_vertices cands sp))"
proof (induction cands)
  case (Cons i cands)
  have "i \<notin> fst ` set (cand_vertices cands sp)"
    using Cons.prems set_cand_vertices [of i _ cands sp] by auto
  then show ?case using Cons
    by (cases "vertex sp i") (simp_all add: cand_vertices_def List.map_filter_simps)
qed (simp add: cand_vertices_def List.map_filter_simps)

lemma index_Search_Ok:
  assumes R: "roaring_ok R alpha" and ok: "space_ok sp" and fine: "expr_fine (idx_of sp) e"
  shows "\<exists>idx'. index_Search R e sp =
      (sp\<lparr>invIndex := Some idx'\<rparr>, Ok (sorted_list_of_set (expr_sem alpha (idx_of sp) e))) \<and>
    same_index (idx_of sp) idx'"
proof -
  obtain idx where idx: "invIndex sp = Some idx" "idx_ok idx" "idx_of sp = idx"
    using ok by (auto simp: space_ok_def idx_of_def)
  show ?thesis
    using SearchWithExpression_Ok [OF R idx(2), of e] fine
    by (auto simp: index_Search_def with_index_def idx)
qed

lemma FilterableVertexSearch_Ok:
  fixes sp :: "('e, 'b) vecspace"
  assumes R: "roaring_ok R alpha" and ok: "space_ok sp" and d: "spaceDist sp = Some d"
    and fine: "expr_fine (idx_of sp) e"
    and c: "comparable Q (space_Distance impl d) (lowered_target Q d target) sp"
    and il: "\<And>xss. mset (il xss) = mset (concat xss)"
  defines "H \<equiv> hit Q (space_Distance impl d) (lowered_target Q d target)"
  defines "C \<equiv> cand_vertices (sorted_list_of_set (expr_sem alpha (idx_of sp) e)) sp"
  shows "\<exists>idx' items. FilterableVertexSearch shared il Q R impl e target topK highCpu sp =
      (sp\<lparr>invIndex := Some idx'\<rparr>, Ok items) \<and> same_index (idx_of sp) idx' \<and>
    map score_key items = largest (nat topK) (map (\<lambda>p. score_key (H p)) C) \<and>
    distinct (map Id items) \<and>
    (\<forall>h \<in> set items. Id h \<in> expr_sem alpha (idx_of sp) e \<and>
       (\<exists>n. vertex sp (Id h) = Some n \<and> h = H (Id h, n)))"
proof -
  let ?cs = "sorted_list_of_set (expr_sem alpha (idx_of sp) e)"
  obtain idx' where s: "index_Search R e sp = (sp\<lparr>invIndex := Some idx'\<rparr>, Ok ?cs)" "same_index (idx_of sp) idx'"
    using index_Search_Ok [OF R ok fine] by blast
  define nss where "nss = map snd (candidate_shards ?cs sp)"
  have cn: "candidate_shards ?cs (sp\<lparr>invIndex := Some idx'\<rparr>) = candidate_shards ?cs sp"
    by (simp add: candidate_shards_def candidate_nodes_def)
  have C: "mset (concat nss) = mset C" unfolding C_def nss_def by (rule candidate_shards_mset)
  have setC: "set (concat nss) = set C" using C by (metis set_mset_mset)
  have v: "\<forall>(i, n) \<in> set (concat nss). vertex sp i = Some n"
    unfolding setC C_def using set_cand_vertices by fastforce
  note g = score_all [OF c v, folded H_def]
  let ?hs = "map (map H) nss"
  have nn: "\<forall>h \<in> set (il ?hs). \<not> f32_nan (Score h)"
    using g(2) il [of ?hs] by (metis set_mset_mset)
  define items where "items = collect_all topK (if \<not> highCpu then concat ?hs
      else if shared then il ?hs else concat (map (collect_all topK) ?hs))"
  have "FilterableVertexSearch shared il Q R impl e target topK highCpu sp =
      (sp\<lparr>invIndex := Some idx'\<rparr>, Ok items)"
    using ok go_map_locked [of "sp\<lparr>invIndex := Some idx'\<rparr>" _ "candidate_shards ?cs sp"] g(1)
    by (simp add: FilterableVertexSearch_def d s(1) cn go_map_snd nss_def [symmetric] items_def space_ok_def del: map_map)
  moreover have "map score_key items = largest (nat topK) (map score_key (concat ?hs)) \<and>
      mset items \<subseteq># mset (concat ?hs)"
    using collect_all_spec [OF g(2), of topK] collect_shards_spec [OF g(2), of topK]
      collect_all_spec [OF nn, of topK] il [of ?hs]
      largest_mset_cong [OF mset_eq_mapD [OF il [of ?hs], of score_key], of "nat topK"]
    by (simp add: items_def)
  then have k: "map score_key items = largest (nat topK) (map score_key (concat ?hs))"
    and sub: "mset items \<subseteq># mset (map H C)"
    using C by (simp_all add: map_concat [symmetric])
  have "map score_key items = largest (nat topK) (map (\<lambda>p. score_key (H p)) C)"
    unfolding k
  proof (rule largest_mset_cong)
    have "concat ?hs = map H (concat nss)" by (simp add: map_concat)
    then show "mset (map score_key (concat ?hs)) = mset (map (\<lambda>p. score_key (H p)) C)"
      using mset_eq_mapD [OF C, of "\<lambda>p. score_key (H p)"] by (simp only: map_map o_def)
  qed
  moreover have "distinct (map Id items)"
  proof (rule distinct_sub_mset)
    show "distinct (map fst C)" unfolding C_def by (rule distinct_cand_vertices) simp
    have "map fst C = map Id (map H C)" by (simp add: H_def hit_def case_prod_beta o_def)
    then show "mset (map Id items) \<subseteq># mset (map fst C)"
      using image_mset_subseteq_mono [OF sub, of Id] by (metis mset_map)
  qed
  moreover have "Id h \<in> expr_sem alpha (idx_of sp) e \<and> (\<exists>n. vertex sp (Id h) = Some n \<and> h = H (Id h, n))"
    if "h \<in> set items" for h
  proof -
    have "h \<in> set (map H C)" using that set_mset_mono [OF sub] by auto
    then obtain i n where p: "(i, n) \<in> set C" "h = H (i, n)" by auto
    moreover have "Id h = i" using p(2) by (simp add: H_def hit_def)
    moreover have "finite (expr_sem alpha (idx_of sp) e)" by (rule finite_subset [OF subset_UNIV]) simp
    ultimately show ?thesis by (simp add: C_def set_cand_vertices)
  qed
  ultimately show ?thesis using s(2) by blast
qed

subsection \<open>New stores\<close>

lemma NewBitmapIndex_empty: "idx_ok NewBitmapIndex" "ids alpha NewBitmapIndex f v = {}"
  by (simp_all add: idx_ok_def index_idle_def ids_def shard_of_def NewBitmapIndex_def)

lemma newVecspace_ok:
  "space_ok (newVecspace (Some NewBitmapIndex) name md)"
  "agree alpha (newVecspace (Some NewBitmapIndex) name md)"
  "vertex (newVecspace idx name md) i = None"
  by (auto simp: space_ok_def agree_def newVecspace_def idx_of_def NewBitmapIndex_empty vertex_def
      shards_ok_def shard_idx_less)

subsection \<open>Statements\<close>

text \<open>
  C22: A change of a vertex whose resolved id is not in the store, with a vector of the right
  length and metadata that pass the analyzer and can be stored, succeeds, adds exactly that
  vertex, and keeps the store well formed and its index in agreement with its vertices.
\<close>

theorem ChangedVertex_inserts:
  "roaring_ok R alpha \<Longrightarrow> space_ok sp \<Longrightarrow> agree alpha sp \<Longrightarrow> spaceDist sp = Some d \<Longrightarrow>
   dim_fits sp v \<Longrightarrow> standardAnalyzer metadata (Indexer sp) = Ok md \<Longrightarrow>
   \<forall>(k, v) \<in> set md. storable v \<Longrightarrow>
   snd (resolveCommitId R updateId commitId sp) = Ok cid \<Longrightarrow> vertex sp cid = None \<Longrightarrow>
   \<exists>sp'. ChangedVertex Q R updateId commitId v metadata sp = (sp', Ok ()) \<and> space_ok sp' \<and>
     agree alpha sp' \<and> vertex sp' = (vertex sp)(cid \<mapsto> stored_node Q d v md) \<and>
     vertexMetadata sp' = vertexMetadata sp"
proof -
  assume a: "roaring_ok R alpha" "space_ok sp" "agree alpha sp" "spaceDist sp = Some d"
   "dim_fits sp v" "standardAnalyzer metadata (Indexer sp) = Ok md" "\<forall>(k, v) \<in> set md. storable v"
   "snd (resolveCommitId R updateId commitId sp) = Ok cid" "vertex sp cid = None"
  obtain sp' where s: "ChangedVertex Q R updateId commitId v metadata sp = (sp', Ok ())" "space_ok sp'"
    "vertex sp' = (vertex sp)(cid \<mapsto> stored_node Q d v md)" "vertexMetadata sp' = vertexMetadata sp"
    "\<And>f k. ids alpha (idx_of sp') f k =
       ids alpha (idx_of sp) f k \<union> (if \<exists>v. (f, v) \<in> set md \<and> key_eq k v then {cid} else {})"
    using ChangedVertex_Ok [OF a(1,2,4-8)] by blast
  have "agree alpha sp'"
    unfolding agree_def s(5)
  proof (intro allI)
    fix f k j
    have "\<And>j. j \<in> ids alpha (idx_of sp) f k \<longleftrightarrow>
        (\<exists>n v'. vertex sp j = Some n \<and> (f, v') \<in> set (nmeta n) \<and> key_eq k v')"
      using a(3) by (simp add: agree_def)
    then show "j \<in> ids alpha (idx_of sp) f k \<union> (if \<exists>v. (f, v) \<in> set md \<and> key_eq k v then {cid} else {}) \<longleftrightarrow>
        (\<exists>n v'. vertex sp' j = Some n \<and> (f, v') \<in> set (nmeta n) \<and> key_eq k v')"
      using a(9) by (cases "j = cid") (auto simp: s(3) stored_node_def)
  qed
  with s show ?thesis by blast
qed

definition example_md :: Metadata where
  "example_md = \<lparr>Dim = 1, metaDistance = 1, metaQuantization = Quantization_None,
     IndexTypes = [(''age'', \<lparr>featureName = ''age'', IndexType = 1, EnableNull = False, PrimaryKey = False\<rparr>)],
     Versioning = False\<rparr>"

lemma ChangedVertex_inserts_witness:
  "\<exists>sp'. ChangedVertex NoQuantization list_roaring '''' 7 [0x3f800000] [(''age'', GInt64 5)]
       (newNoneVectorstore ''c'' example_md) = (sp', Ok ()) \<and> space_ok sp' \<and> agree set sp' \<and>
     vertex sp' 7 = Some \<lparr>nvec = [0x3f800000], nmeta = [(''age'', GInt64 5)]\<rparr>"
proof -
  let ?sp = "newNoneVectorstore ''c'' example_md :: (f32, u64 list) vecspace"
  have "spaceDist ?sp = Some Euclidean" "dim_fits ?sp [0x3f800000]"
    "standardAnalyzer [(''age'', GInt64 5)] (Indexer ?sp) = Ok [(''age'', GInt64 5)]"
    "snd (resolveCommitId list_roaring '''' 7 ?sp) = Ok 7"
    by (simp_all add: newNoneVectorstore_def newVecspace_def metaSpace_def example_md_def enum_defs
        dim_fits_def Dimensional_def Distancer_def Indexer_def analyze_column_def is_int_type_def
        resolveCommitId_def)
  moreover have "space_ok ?sp" "agree set ?sp" "vertex ?sp 7 = None"
    unfolding newNoneVectorstore_def by (rule newVecspace_ok)+
  moreover have "\<forall>(k, v) \<in> set [(''age'', GInt64 5)]. storable v"
    by (simp add: storable_def hashable_def key_eq_def)
  ultimately show ?thesis
    using ChangedVertex_inserts [OF list_roaring_ok, of ?sp Euclidean "[0x3f800000]"
        "[(''age'', GInt64 5)]" "[(''age'', GInt64 5)]" "''''" 7 7 NoQuantization]
    by (auto simp: stored_node_def space_Type_def NoQuantization_def)
qed

lemma shards_ok_empty: "shards_ok (replicate EDGE_MAP_SHARD_COUNT [])"
  by (auto simp: shards_ok_def)

text \<open>An example store with two vertices.\<close>

definition example_n7 :: "f32 node" where
  "example_n7 = \<lparr>nvec = [0x3f800000], nmeta = [(''age'', GInt64 5)]\<rparr>"

definition example_n8 :: "f32 node" where
  "example_n8 = \<lparr>nvec = [0x40400000], nmeta = [(''age'', GInt64 12)]\<rparr>"

definition example_space :: "(f32, u64 list) vecspace" where
  "example_space = (newNoneVectorstore ''c'' example_md)
     \<lparr>vertices := put_vertex 8 example_n8 (put_vertex 7 example_n7 (replicate EDGE_MAP_SHARD_COUNT [])),
      invIndex := Some \<lparr>Shards = [(''age'', [(GInt64 5, [7]), (GInt64 12, [8])])], shardLock = Free, rmu = []\<rparr>\<rparr>"

lemma example_vertex: "vertex example_space = [7 \<mapsto> example_n7, 8 \<mapsto> example_n8]"
proof -
  note s = shards_ok_empty
  let ?s0 = "newNoneVectorstore ''c'' example_md :: (f32, u64 list) vecspace"
  let ?s7 = "?s0\<lparr>vertices := put_vertex 7 example_n7 (vertices ?s0)\<rparr>"
  have v0: "vertices ?s0 = replicate EDGE_MAP_SHARD_COUNT []"
    by (simp add: newNoneVectorstore_def newVecspace_def)
  have "vertex example_space = vertex (?s7\<lparr>vertices := put_vertex 8 example_n8 (vertices ?s7)\<rparr>)"
    by (simp add: example_space_def v0 vertex_def fun_eq_iff)
  also have "\<dots> = (vertex ?s7)(8 \<mapsto> example_n8)"
    using put_vertex_ok [OF s, of 7 example_n7] by (intro vertex_put) (simp add: v0)
  also have "vertex ?s7 = (vertex ?s0)(7 \<mapsto> example_n7)" using s by (intro vertex_put) (simp add: v0)
  also have "vertex ?s0 = Map.empty" by (auto simp: newNoneVectorstore_def newVecspace_ok)
  finally show ?thesis .
qed

lemma example_space_ok: "space_ok example_space" "agree set example_space"
proof -
  have s: "shards_ok (vertices example_space)"
    by (simp add: example_space_def put_vertex_ok shards_ok_empty)
  have i: "idx_of example_space = \<lparr>Shards = [(''age'', [(GInt64 5, [7]), (GInt64 12, [8])])], shardLock = Free, rmu = []\<rparr>"
    by (simp add: example_space_def)
  show "space_ok example_space"
    unfolding space_ok_def i example_vertex using s
    by (auto simp: example_n7_def example_n8_def storable_def hashable_def key_eq_def idx_ok_def index_idle_def shard_of_def
        split: if_splits)
      (auto simp: example_space_def newNoneVectorstore_def newVecspace_def)
  show "agree set example_space"
    unfolding agree_def i example_vertex
    by (auto simp: ids_def shard_of_def example_n7_def example_n8_def key_eq_def split: gval.splits)
qed

text \<open>
  C23: A removal with a non-empty filter of hashable values that passes the key analyzer succeeds
  and removes exactly the vertices that have every value of the filter; the index follows.
\<close>

theorem RemoveVertex_correct:
  "roaring_ok R alpha \<Longrightarrow> space_ok sp \<Longrightarrow> agree alpha sp \<Longrightarrow> dropFilter \<noteq> [] \<Longrightarrow>
   \<forall>(k, v) \<in> set dropFilter. hashable v \<Longrightarrow> dropKeyAnalyzer dropFilter (Indexer sp) = Ok () \<Longrightarrow>
   \<exists>sp'. RemoveVertex R dropFilter sp = (sp', Ok ()) \<and> space_ok sp' \<and> agree alpha sp' \<and>
     vertex sp' = vertex sp |` (- filter_hits dropFilter sp) \<and> vertexMetadata sp' = vertexMetadata sp"
  by (rule RemoveVertex_Ok)

lemma RemoveVertex_correct_witness:
  "\<exists>sp'. RemoveVertex list_roaring [(''age'', GInt64 5)] example_space = (sp', Ok ()) \<and>
     vertex sp' = [8 \<mapsto> example_n8]"
proof -
  have "filter_hits [(''age'', GInt64 5)] example_space = {7}"
    by (auto simp: filter_hits_def example_vertex example_n7_def example_n8_def key_eq_def split: if_splits)
  moreover have "[7 \<mapsto> example_n7, 8 \<mapsto> example_n8] |` (- {7 :: u64}) = [8 \<mapsto> example_n8]"
    by (auto simp: restrict_map_def fun_eq_iff)
  moreover have "dropKeyAnalyzer [(''age'', GInt64 5)] (Indexer example_space) = Ok ()"
    by (simp add: example_space_def newNoneVectorstore_def newVecspace_def Indexer_def example_md_def)
  ultimately show ?thesis
    using RemoveVertex_correct [OF list_roaring_ok example_space_ok, of "[(''age'', GInt64 5)]"]
    by (auto simp: hashable_def example_vertex)
qed

lemma Add_no_Err: "snd (Add R i md idx) \<noteq> Err e"
proof (induction md arbitrary: idx)
  case (Cons p md)
  obtain k v where p: "p = (k, v)" by (cases p)
  obtain idx1 r1 where g: "getShard k idx = (idx1, r1)" by fastforce
  then have "r1 \<noteq> Err e" by (auto simp: getShard_def lock_index_def split: option.splits if_splits)
  then show ?case using Cons g by (cases r1) (auto simp: p Let_def lock_shard_def split: option.split)
qed simp

lemma index_Add_no_Err: "snd (index_Add R i md sp) \<noteq> Err e"
  using Add_no_Err [of R i md] by (auto simp: index_Add_def with_index_def split: option.splits prod.splits)
    (metis snd_conv)

lemma index_Add_vertices: "vertices (fst (index_Add R i md sp)) = vertices sp"
  by (auto simp: index_Add_def with_index_def split: option.splits prod.splits)

text \<open>
  C27: A change that does not succeed leaves every vertex as it was; one that ends in an error
  (not a panic) also leaves the index as it was.
\<close>

theorem ChangedVertex_failure:
  "roaring_ok R alpha \<Longrightarrow> space_ok sp \<Longrightarrow> ChangedVertex Q R updateId commitId v metadata sp = (sp', r) \<Longrightarrow>
   r \<noteq> Ok () \<Longrightarrow>
   vertices sp' = vertices sp \<and>
   (\<forall>e. r = Err e \<longrightarrow> space_ok sp' \<and> ids alpha (idx_of sp') = ids alpha (idx_of sp))"
proof -
  assume R: "roaring_ok R alpha" and ok: "space_ok sp"
    and c: "ChangedVertex Q R updateId commitId v metadata sp = (sp', r)" and nok: "r \<noteq> Ok ()"
  obtain idx1 cid where res: "resolveCommitId R updateId commitId sp = (sp\<lparr>invIndex := Some idx1\<rparr>, Ok cid)"
    and s1: "same_index (idx_of sp) idx1"
    using resolveCommitId_Ok [OF R ok, of updateId commitId] by blast
  define sp1 where "sp1 = sp\<lparr>invIndex := Some idx1\<rparr>"
  have sp1: "vertices sp1 = vertices sp" "space_ok sp1" "ids alpha (idx_of sp1) = ids alpha (idx_of sp)"
    "locksReady sp1" "verticesMu sp1 = []" "spaceDist sp1 \<noteq> None"
    using ok s1 same_index_ids [OF s1] by (auto simp: space_ok_def same_index_def sp1_def)
  show ?thesis
  proof (cases "dim_fits sp v")
    case False
    then show ?thesis using c sp1 by (auto simp: ChangedVertex_def res dim_fits_def sp1_def [symmetric])
      (simp_all add: sp1_def)
  next
    case True
    then have dim: "Dimensional (vertexMetadata sp1) = word_of_nat (length v)"
      by (simp add: dim_fits_def sp1_def)
    show ?thesis
    proof (cases "standardAnalyzer metadata (Indexer sp1)")
      case (Ok md)
      obtain sp2 r2 where a: "index_Add R cid md sp1 = (sp2, r2)" by fastforce
      have "vertices sp2 = vertices sp" "locksReady sp2" "verticesMu sp2 = []" "spaceDist sp2 \<noteq> None"
        using index_Add_vertices [of R cid md sp1] sp1 a
        by (auto simp: index_Add_def with_index_def split: if_splits option.splits prod.splits)
      moreover have "r2 \<noteq> Err e" for e using index_Add_no_Err [of R cid md sp1 e] a by simp
      ultimately show ?thesis
        using c nok by (cases r2) (auto simp: ChangedVertex_def res sp1_def [symmetric] dim Ok a Let_def lock_vertices_def)
    qed (use c sp1 in \<open>auto simp: ChangedVertex_def res sp1_def [symmetric] dim\<close>)
  qed
qed

lemma ChangedVertex_failure_witness:
  "\<exists>sp'. ChangedVertex NoQuantization list_roaring '''' 7 [] [] example_space =
     (sp', Err ''Dim Length UnmatchdError'') \<and> vertices sp' = vertices example_space"
proof -
  have "ChangedVertex NoQuantization list_roaring '''' 7 [] [] example_space =
     (example_space, Err ''Dim Length UnmatchdError'')"
    by (simp add: ChangedVertex_def resolveCommitId_def example_space_def newNoneVectorstore_def
        newVecspace_def example_md_def Dimensional_def)
  from ChangedVertex_failure [OF list_roaring_ok example_space_ok(1) this] this show ?thesis by simp
qed

text \<open>
  C25: A search over vertices that can all be compared with the target returns vertices of the
  store, each at most once and with its own score, and their scores are the \<open>topK\<close> largest of
  the store in ascending order; the parallel search returns the same scores.
\<close>

theorem VertexSearch_correct:
  "space_ok sp \<Longrightarrow> spaceDist sp = Some d \<Longrightarrow>
   comparable Q (space_Distance impl d) (lowered_target Q d target) sp \<Longrightarrow>
   \<exists>items. VertexSearch Q impl target topK highCpu sp = (sp, Ok items) \<and>
     map score_key items = largest (nat topK)
       (map (\<lambda>p. score_key (hit Q (space_Distance impl d) (lowered_target Q d target) p))
          (concat (vertices sp))) \<and>
     distinct (map Id items) \<and>
     (\<forall>h \<in> set items. \<exists>n. vertex sp (Id h) = Some n \<and>
        h = hit Q (space_Distance impl d) (lowered_target Q d target) (Id h, n))"
  by (rule VertexSearch_Ok)

lemma example_distances:
  "native_Euclidean [0x3f800000] [0x3f800000] = Ok 0"
  "native_Euclidean [0x3f800000] [0x40400000] = Ok 0x40000000"
proof -
  have "f32_sub 0x3f800000 0x3f800000 = 0" "f32_mul 0 0 = 0" "f32_add 0 0 = 0" "f32_sqrt 0 = 0"
    by (simp_all add: fp_arith)
  then show "native_Euclidean [0x3f800000] [0x3f800000] = Ok 0"
    by (simp add: native_Euclidean_def Square_def)
  have "isqrt 5846006549323611672814739330865132078623730171904 = 2417851639229258349412352"
    by (rule isqrt_unique) simp_all
  then have "f64_sqrt 0x4010000000000000 = 0x4000000000000000" by (simp add: fp_arith)
  moreover have "f32_to_f64 0x40800000 = 0x4010000000000000" "f64_to_f32 0x4000000000000000 = 0x40000000"
    "f32_sub 0x3f800000 0x40400000 = 0xc0000000" "f32_mul 0xc0000000 0xc0000000 = 0x40800000"
    "f32_add 0 0x40800000 = 0x40800000"
    by (simp_all add: fp_arith)
  ultimately show "native_Euclidean [0x3f800000] [0x40400000] = Ok 0x40000000"
    by (simp add: native_Euclidean_def Square_def f32_sqrt_def)
qed

lemma example_comparable:
  "comparable NoQuantization (space_Distance nativeSpaceImpl Euclidean)
     (lowered_target NoQuantization Euclidean [0x3f800000]) example_space"
  by (auto simp: comparable_def example_vertex example_n7_def example_n8_def NoQuantization_def
      lowered_target_def space_Type_def nativeSpaceImpl_def example_distances f32_nan_def f32_mag_def
      split: if_splits)

lemma example_dist: "spaceDist example_space = Some Euclidean"
  by (simp add: example_space_def newNoneVectorstore_def newVecspace_def metaSpace_def example_md_def
      Distancer_def enum_defs)

lemma example_vertices_mset:
  "mset (concat (vertices example_space)) = mset [(7, example_n7), (8, example_n8)]"
proof (subst set_eq_iff_mset_eq_distinct [symmetric])
  have s: "shards_ok (vertices example_space)" using example_space_ok(1) by (simp add: space_ok_def)
  show "distinct (concat (vertices example_space))"
    using distinct_all_vertices [OF s] distinct_map by blast
  show "set (concat (vertices example_space)) = set [(7, example_n7), (8, example_n8)]"
  proof (intro set_eqI, clarify)
    fix i n
    show "(i, n) \<in> set (concat (vertices example_space)) \<longleftrightarrow> (i, n) \<in> set [(7, example_n7), (8, example_n8)]"
      unfolding set_all_vertices [OF s] example_vertex by auto
  qed
qed simp

abbreviation example_hit :: "u64 \<times> f32 node \<Rightarrow> item" where
  "example_hit \<equiv> hit NoQuantization (space_Distance nativeSpaceImpl Euclidean)
     (lowered_target NoQuantization Euclidean [0x3f800000])"

lemma example_hits:
  "example_hit (7, example_n7) = \<lparr>Id = 7, itemMetadata = [(''age'', GInt64 5)], Score = 0\<rparr>"
  "example_hit (8, example_n8) = \<lparr>Id = 8, itemMetadata = [(''age'', GInt64 12)], Score = 0x40000000\<rparr>"
  by (simp_all add: hit_def example_n7_def example_n8_def NoQuantization_def lowered_target_def
      space_Type_def nativeSpaceImpl_def example_distances)

lemma example_keys:
  "score_key (example_hit (7, example_n7)) = 0" "score_key (example_hit (8, example_n8)) = 0x40000000"
  unfolding example_hits by (simp_all add: score_key_def f32_key_def f32_mag_def f32_neg_def)

text \<open>
  The example store asked for the one vertex closest to vertex 7, at the position of vertex 7,
  returns vertex 8, at distance 2: the searches keep the hits with the largest distance.
\<close>

lemma VertexSearch_correct_witness:
  "\<exists>h. VertexSearch NoQuantization nativeSpaceImpl [0x3f800000] 1 True example_space = (example_space, Ok [h]) \<and>
     Id h = 8 \<and> Score h = 0x40000000"
proof -
  obtain items where i: "VertexSearch NoQuantization nativeSpaceImpl [0x3f800000] 1 True example_space = (example_space, Ok items)"
    "map score_key items = largest (nat 1) (map (\<lambda>p. score_key (example_hit p)) (concat (vertices example_space)))"
    "\<forall>h \<in> set items. \<exists>n. vertex example_space (Id h) = Some n \<and> h = example_hit (Id h, n)"
    using VertexSearch_correct [OF example_space_ok(1) example_dist example_comparable, of 1 True] by blast
  have "map score_key items =
      largest (nat 1) (map (\<lambda>p. score_key (example_hit p)) [(7, example_n7), (8, example_n8)])"
    unfolding i(2) by (intro largest_mset_cong mset_eq_mapD example_vertices_mset)
  also have "\<dots> = [0x40000000]" by (simp add: example_keys largest_def)
  finally have "map score_key items = [0x40000000]" .
  then obtain h where h: "items = [h]" "score_key h = 0x40000000" by (cases items) auto
  obtain n where n: "vertex example_space (Id h) = Some n" "h = example_hit (Id h, n)" using i(3) h(1) by auto
  have "Id h \<noteq> 7"
  proof
    assume "Id h = 7"
    with n(1) have "n = example_n7" by (simp add: example_vertex)
    with n(2) \<open>Id h = 7\<close> example_keys(1) h(2) show False by simp
  qed
  with n(1) have e: "Id h = 8" "n = example_n8" by (auto simp: example_vertex split: if_splits)
  then have "Score h = 0x40000000" using n(2) example_hits(2) by simp
  with i(1) h(1) e show ?thesis by blast
qed

text \<open>
  C24: A filtered search whose filter is defined returns only vertices that the filter denotes,
  each at most once, with the \<open>topK\<close> largest scores among them, in whatever order the goroutines
  of a parallel search get the lock of the result queue.
\<close>

theorem FilterableVertexSearch_correct:
  "roaring_ok R alpha \<Longrightarrow> space_ok sp \<Longrightarrow> spaceDist sp = Some d \<Longrightarrow> expr_fine (idx_of sp) e \<Longrightarrow>
   comparable Q (space_Distance impl d) (lowered_target Q d target) sp \<Longrightarrow>
   (\<And>xss. mset (il xss) = mset (concat xss)) \<Longrightarrow>
   \<exists>idx' items. FilterableVertexSearch shared il Q R impl e target topK highCpu sp =
       (sp\<lparr>invIndex := Some idx'\<rparr>, Ok items) \<and> same_index (idx_of sp) idx' \<and>
     map score_key items = largest (nat topK)
       (map (\<lambda>p. score_key (hit Q (space_Distance impl d) (lowered_target Q d target) p))
          (cand_vertices (sorted_list_of_set (expr_sem alpha (idx_of sp) e)) sp)) \<and>
     distinct (map Id items) \<and>
     (\<forall>h \<in> set items. Id h \<in> expr_sem alpha (idx_of sp) e \<and>
        (\<exists>n. vertex sp (Id h) = Some n \<and>
           h = hit Q (space_Distance impl d) (lowered_target Q d target) (Id h, n)))"
  by (rule FilterableVertexSearch_Ok)

lemma FilterableVertexSearch_correct_witness:
  "\<exists>sp' h. FilterableVertexSearch True concat NoQuantization list_roaring nativeSpaceImpl
       (NewSingleExpression (NewFilter ''age'' OpEqual (GInt64 5))) [0x3f800000] 3 True example_space =
     (sp', Ok [h]) \<and> Id h = 7 \<and> Score h = 0"
proof -
  let ?e = "NewSingleExpression (NewFilter ''age'' OpEqual (GInt64 5))"
  have f: "expr_fine (idx_of example_space) ?e"
    by (simp add: NewSingleExpression_def NewFilter_def filter_fine_def hashable_def)
  have s: "expr_sem set (idx_of example_space) ?e = {7}"
    by (simp add: NewSingleExpression_def NewFilter_def filter_sem_def example_space_def ids_def
        shard_of_def key_eq_def)
  obtain idx' items where i: "FilterableVertexSearch True concat NoQuantization list_roaring nativeSpaceImpl
       ?e [0x3f800000] 3 True example_space = (example_space\<lparr>invIndex := Some idx'\<rparr>, Ok items)"
    "map score_key items = largest (nat 3) (map (\<lambda>p. score_key (example_hit p))
        (cand_vertices (sorted_list_of_set {7}) example_space))"
    "\<forall>h \<in> set items. Id h \<in> {7} \<and> (\<exists>n. vertex example_space (Id h) = Some n \<and> h = example_hit (Id h, n))"
    using FilterableVertexSearch_correct [OF list_roaring_ok example_space_ok(1) example_dist f
        example_comparable, of concat True 3 True, unfolded s] by blast
  have "map score_key items = [0]"
    unfolding i(2) by (simp add: cand_vertices_def List.map_filter_simps example_vertex example_keys largest_def)
  then obtain h where h: "items = [h]" by (cases items) auto
  with i(3) have "Id h = 7" "h = example_hit (7, example_n7)" by (auto simp: example_vertex)
  then show ?thesis using i(1) h example_hits(1) by auto
qed

text \<open>
  C29: The BF16 store is created without an inverted index: an update by primary key, an insert
  with metadata and a removal end in a nil dereference and leave the store unchanged.
\<close>

theorem bf16_store_panics:
  fixes name md updateId commitId v metadata md' dropFilter R
  defines "sp \<equiv> newBF16Vectorstore name md"
  shows "(updateId \<noteq> '''' \<longrightarrow>
      bf16_ChangedVertex R updateId commitId v metadata sp = (sp, Panic nil_deref)) \<and>
    (dim_fits sp v \<and> standardAnalyzer metadata (Indexer sp) = Ok md' \<and> md' \<noteq> [] \<longrightarrow>
      bf16_ChangedVertex R '''' commitId v metadata sp = (sp, Panic nil_deref)) \<and>
    (dropKeyAnalyzer dropFilter (Indexer sp) = Ok () \<longrightarrow>
      bf16_RemoveVertex R dropFilter sp = (sp, Panic nil_deref))"
  by (simp add: sp_def bf16_ChangedVertex_def ChangedVertex_def resolveCommitId_def with_index_def
      newBF16Vectorstore_def newVecspace_def index_Add_def dim_fits_def bf16_RemoveVertex_def
      RemoveVertex_def)

lemma bf16_store_panics_witness:
  "bf16_ChangedVertex list_roaring ''pk'' 7 [0] [] (newBF16Vectorstore ''c'' example_md) =
      (newBF16Vectorstore ''c'' example_md, Panic nil_deref) \<and>
    bf16_ChangedVertex list_roaring '''' 7 [0x3f800000] [(''age'', GInt64 5)] (newBF16Vectorstore ''c'' example_md) =
      (newBF16Vectorstore ''c'' example_md, Panic nil_deref) \<and>
    bf16_RemoveVertex list_roaring [(''age'', GInt64 5)] (newBF16Vectorstore ''c'' example_md) =
      (newBF16Vectorstore ''c'' example_md, Panic nil_deref)"
proof -
  let ?sp = "newBF16Vectorstore ''c'' example_md :: (u16, u64 list) vecspace"
  have "dim_fits ?sp [0x3f800000]"
    "standardAnalyzer [(''age'', GInt64 5)] (Indexer ?sp) = Ok [(''age'', GInt64 5)]"
    "dropKeyAnalyzer [(''age'', GInt64 5)] (Indexer ?sp) = Ok ()"
    by (simp_all add: newBF16Vectorstore_def newVecspace_def example_md_def dim_fits_def
        Dimensional_def Indexer_def analyze_column_def is_int_type_def)
  then show ?thesis
    using bf16_store_panics [of "''pk''" list_roaring 7 "[0]" "[]" "''c''" example_md]
      bf16_store_panics [of "''''" list_roaring 7 "[0x3f800000]" "[(''age'', GInt64 5)]" "''c''" example_md
        "[(''age'', GInt64 5)]" "[(''age'', GInt64 5)]"] by simp
qed

text \<open>
  Overwriting a vertex adds the new metadata to the index and leaves the old: a vertex updated to
  other values is still found under the ones it had.
\<close>

lemma update_leaves_stale_entries:
  assumes "roaring_ok R alpha" and "space_ok sp" and ag: "agree alpha sp" and "spaceDist sp = Some d"
    and "dim_fits sp v" and "standardAnalyzer metadata (Indexer sp) = Ok md"
    and "\<forall>(k, v) \<in> set md. storable v"
    and "snd (resolveCommitId R updateId commitId sp) = Ok cid"
    and old: "vertex sp cid = Some n" "(f, x) \<in> set (nmeta n)"
    and new: "\<forall>y. (f, y) \<in> set md \<longrightarrow> \<not> key_eq x y"
  shows "\<exists>sp'. ChangedVertex Q R updateId commitId v metadata sp = (sp', Ok ()) \<and>
    cid \<in> ids alpha (idx_of sp') f x \<and> \<not> agree alpha sp'"
proof -
  obtain sp' where s: "ChangedVertex Q R updateId commitId v metadata sp = (sp', Ok ())"
    "vertex sp' = (vertex sp)(cid \<mapsto> stored_node Q d v md)"
    "\<And>f k. ids alpha (idx_of sp') f k =
       ids alpha (idx_of sp) f k \<union> (if \<exists>v. (f, v) \<in> set md \<and> key_eq k v then {cid} else {})"
    using ChangedVertex_Ok [OF assms(1,2,4-8)] by blast
  have "key_eq x x" using space_ok_storable [OF assms(2) old(1)] old(2) by (auto simp: storable_def)
  then have "cid \<in> ids alpha (idx_of sp) f x" using ag old unfolding agree_def by blast
  then have i: "cid \<in> ids alpha (idx_of sp') f x" unfolding s(3) by blast
  have "\<not> agree alpha sp'"
  proof
    assume "agree alpha sp'"
    with i obtain y where "(f, y) \<in> set md" "key_eq x y"
      unfolding agree_def by (auto simp: s(2) stored_node_def)
    with new show False by blast
  qed
  with s(1) i show ?thesis by blast
qed

text \<open>A schema made from a request has no primary key, so an update by key finds nothing.\<close>

lemma indexDesign_drops_primary:
  "\<forall>(k, c) \<in> set fs. \<not> PrimaryKey c \<Longrightarrow> \<forall>(k, c) \<in> set (indexDesignAnalyze cs fs). \<not> PrimaryKey c"
proof (induction cs fs rule: indexDesignAnalyze.induct)
  case (2 c cs fs)
  show ?case unfolding indexDesignAnalyze.simps
    by (rule "2.IH") (use "2.prems" set_update_subset_insert in \<open>fastforce\<close>)
qed simp

lemma primaryIndex_of_design: "primaryIndex (indexDesignAnalyze cs []) = ''''"
proof -
  have "filter (\<lambda>(_, c). PrimaryKey c) (indexDesignAnalyze cs []) = []"
    using indexDesign_drops_primary [of "[]" cs] by (auto simp: filter_empty_conv)
  then show ?thesis by (simp add: primaryIndex_def)
qed

end
