(* ===== verification/VecSave.thy ===== *)
theory VecSave
  imports VecCorrect InvertedSave
begin

text \<open>
  The binary form of the vertices of a store (\<open>SaveVertex\<close> and \<open>LoadVertex\<close> of the four
  \<open>*_vectorstore.go\<close> files), of its metadata and of its index. The shards follow each other, each a
  count and its vertices; every number is big endian.
\<close>

subsection \<open>Saving vertices\<close>

definition writeMetaValue :: "gval \<Rightarrow> bytes gores" where
  "writeMetaValue v =
     (case v of
        GInt64 n \<Rightarrow> Ok (0 # be_bytes 8 (unat n))
      | GString s \<Rightarrow>
          if 65535 < length (str_bytes s) then Err ''metadata string too long''
          else Ok (1 # be_bytes 2 (length (str_bytes s)) @ str_bytes s)
      | GFloat32 x \<Rightarrow> Ok (2 # be_bytes 8 (unat (f32_to_f64 x)))
      | GFloat64 x \<Rightarrow> Ok (2 # be_bytes 8 (unat x))
      | GBool b \<Rightarrow> Ok [3, if b then 1 else 0]
      | _ \<Rightarrow> Err ''unsupported metadata type'')"

definition writeMetaEntry :: "string \<times> gval \<Rightarrow> bytes gores" where
  "writeMetaEntry = (\<lambda>(k, v).
     if 65535 < length (str_bytes k) then Err ''metadata key too long''
     else go_bind (writeMetaValue v) (\<lambda>vb.
       Ok (be_bytes 2 (length (str_bytes k)) @ str_bytes k @ vb)))"

definition writeVertex :: "'e quantizer \<Rightarrow> u64 \<times> 'e node \<Rightarrow> bytes gores" where
  "writeVertex Q = (\<lambda>(key, n).
     go_bind (go_map writeMetaEntry (nmeta n)) (\<lambda>ms.
       Ok (be_bytes 8 (unat key) @ be_bytes 4 (length (nvec n)) @
           concat (map (\<lambda>e. be_bytes (elem_width Q) (elem_bits Q e)) (nvec n)) @
           be_bytes 4 (length (nmeta n)) @ concat ms)))"

definition writeShard :: "'e quantizer \<Rightarrow> (u64 \<times> 'e node) list \<Rightarrow> bytes gores" where
  "writeShard Q entries =
     go_bind (go_map (writeVertex Q) entries) (\<lambda>vs. Ok (be_bytes 8 (length entries) @ concat vs))"

text \<open>Every shard is written under its read lock, which is given back on every path.\<close>

definition saveShard :: "'e quantizer \<Rightarrow> nat locks \<Rightarrow> nat \<times> (u64 \<times> 'e node) list \<Rightarrow> bytes gores" where
  "saveShard Q ls = (\<lambda>(s, entries). if lock_at ls s = Writer then Crash deadlock else writeShard Q entries)"

definition SaveVertex :: "'e quantizer \<Rightarrow> ('e, 'b) vecspace \<Rightarrow> bytes gores" where
  "SaveVertex Q sp =
     (if \<not> locksReady sp then Panic nil_deref
      else go_bind (go_map (saveShard Q (verticesMu sp)) (List.enumerate 0 (vertices sp))) (\<lambda>ss. Ok (concat ss)))"

subsection \<open>Loading vertices\<close>

definition readMetaPayload :: "string \<Rightarrow> u8 \<Rightarrow> bytes \<Rightarrow> ((string \<times> gval) \<times> bytes) gores" where
  "readMetaPayload metaKey typ r =
     (if typ = 0 then go_bind (read_be 8 r) (\<lambda>(n, r). Ok ((metaKey, GInt64 (word_of_nat n)), r))
      else if typ = 1 then
        go_bind (read_be 2 r) (\<lambda>(n, r).
        go_bind (read_full n r) (\<lambda>(s, r). Ok ((metaKey, GString (bytes_str s)), r)))
      else if typ = 2 then go_bind (read_be 8 r) (\<lambda>(n, r). Ok ((metaKey, GFloat64 (word_of_nat n)), r))
      else if typ = 3 then (case r of [] \<Rightarrow> Err ''EOF'' | b # r \<Rightarrow> Ok ((metaKey, GBool (b \<noteq> 0)), r))
      else Err ''unsupported metadata type tag'')"

definition readMetaEntry :: "bytes \<Rightarrow> ((string \<times> gval) \<times> bytes) gores" where
  "readMetaEntry buf =
     go_bind (read_be 2 buf) (\<lambda>(klen, r).
     go_bind (read_full klen r) (\<lambda>(kb, r).
       case r of [] \<Rightarrow> Err ''EOF'' | typ # r \<Rightarrow> readMetaPayload (bytes_str kb) typ r))"

definition put_all :: "('k \<times> 'v) list \<Rightarrow> ('k \<times> 'v) list" where
  "put_all kvs = fold (\<lambda>(k, v) m. AList.update k v m) kvs []"

definition readVertex :: "'e quantizer \<Rightarrow> bytes \<Rightarrow> ((u64 \<times> 'e node) \<times> bytes) gores" where
  "readVertex Q buf =
     go_bind (read_be 8 buf) (\<lambda>(key, r).
     go_bind (read_be 4 r) (\<lambda>(vecLen, r).
     go_bind (read_n vecLen (read_be (elem_width Q)) r) (\<lambda>(es, r).
     go_bind (read_be 4 r) (\<lambda>(metaCount, r).
     go_bind (read_n metaCount readMetaEntry r) (\<lambda>(ms, r).
       Ok ((word_of_nat key, \<lparr>nvec = map (elem_of_bits Q) es, nmeta = put_all ms\<rparr>), r))))))"

definition readShard :: "'e quantizer \<Rightarrow> bytes \<Rightarrow> ((u64 \<times> 'e node) list \<times> bytes) gores" where
  "readShard Q buf =
     go_bind (read_be 8 buf) (\<lambda>(count, r).
     go_bind (read_n count (readVertex Q) r) (\<lambda>(es, r). Ok (put_all es, r)))"

definition LoadVertex :: "'e quantizer \<Rightarrow> bytes \<Rightarrow> ('e, 'b) vecspace \<Rightarrow> ('e, 'b) vecspace \<times> unit gores" where
  "LoadVertex Q data sp =
     (case read_n EDGE_MAP_SHARD_COUNT (readShard Q) data of
        Ok (shards, _) \<Rightarrow> (sp\<lparr>vertices := shards, locksReady := True, verticesMu := []\<rparr>, Ok ())
      | Err e \<Rightarrow> (sp, Err e)
      | Panic p \<Rightarrow> (sp, Panic p)
      | Crash p \<Rightarrow> (sp, Crash p))"

subsection \<open>Round trip\<close>

definition metaWritable :: "string \<times> gval \<Rightarrow> bool" where
  "metaWritable = (\<lambda>(k, v). length k \<le> 65535 \<and>
     (case v of GInt64 _ \<Rightarrow> True | GString s \<Rightarrow> length s \<le> 65535 | GFloat32 _ \<Rightarrow> True
      | GFloat64 _ \<Rightarrow> True | GBool _ \<Rightarrow> True | _ \<Rightarrow> False))"

lemma writeMetaEntry_Ok: "metaWritable kv \<longleftrightarrow> is_Ok (writeMetaEntry kv)"
  by (cases kv; cases "snd kv") (auto simp: metaWritable_def writeMetaEntry_def writeMetaValue_def)

lemma readMetaPayload_decodes:
  "decodes (readMetaPayload k 0) (be_bytes 8 (unat n)) (k, GInt64 n)"
  "decodes (readMetaPayload k 2) (be_bytes 8 (unat x)) (k, GFloat64 x)"
  "decodes (readMetaPayload k 3) [if b then 1 else 0] (k, GBool b)"
  "length s \<le> 65535 \<Longrightarrow>
   decodes (readMetaPayload k 1) (be_bytes 2 (length (str_bytes s)) @ str_bytes s) (k, GString s)"
proof -
  show "decodes (readMetaPayload k 0) (be_bytes 8 (unat n)) (k, GInt64 n)"
    "decodes (readMetaPayload k 2) (be_bytes 8 (unat x)) (k, GFloat64 x)"
    unfolding readMetaPayload_def [abs_def] by (simp_all add: decodes_bind_Ok [OF decodes_words(1)])
  have "decodes (\<lambda>r. case r of [] \<Rightarrow> Err ''EOF'' | b # r \<Rightarrow> Ok ((k, GBool (b \<noteq> 0)), r))
      [if b then 1 else 0] (k, GBool b)"
    by (rule decodes_byte) (simp add: decodes_def)
  then show "decodes (readMetaPayload k 3) [if b then 1 else 0] (k, GBool b)"
    unfolding readMetaPayload_def [abs_def] by simp
next
  assume s: "length s \<le> 65535"
  have "decodes (\<lambda>r. go_bind (read_be 2 r) (\<lambda>(n, r). go_bind (read_full n r) (\<lambda>(s, r).
      Ok ((k, GString (bytes_str s)), r)))) (be_bytes 2 (length (str_bytes s)) @ str_bytes s) (k, GString s)"
    by (rule decodes_bind [where y = "length (str_bytes s)"], rule decodes_be)
      (use s in \<open>auto intro!: decodes_bind_Ok [OF decodes_full]\<close>)
  then show "decodes (readMetaPayload k 1) (be_bytes 2 (length (str_bytes s)) @ str_bytes s) (k, GString s)"
    unfolding readMetaPayload_def [abs_def] by simp
qed

lemma readMetaEntry_decodes:
  assumes "writeMetaEntry kv = Ok bs"
  shows "decodes readMetaEntry bs (fst kv, widen (snd kv))"
proof -
  obtain k v where kv: "kv = (k, v)" by (cases kv)
  obtain vb where v: "writeMetaValue v = Ok vb" "length k \<le> 65535"
    and bs: "bs = be_bytes 2 (length (str_bytes k)) @ str_bytes k @ vb"
    using assms by (auto simp: kv writeMetaEntry_def go_bind_Ok_iff split: if_splits)
  obtain t pl where vb: "vb = t # pl" and pl: "decodes (readMetaPayload k t) pl (k, widen v)"
  proof (cases v)
    case (GString s)
    then show ?thesis using v(1) that [of 1] readMetaPayload_decodes(4) [of s k]
      by (auto simp: writeMetaValue_def widen_def split: if_splits)
  qed (use v(1) that readMetaPayload_decodes(1-3) [of k] in
      \<open>auto simp: writeMetaValue_def widen_def\<close>)
  have k: "decodes (\<lambda>r. case r of [] \<Rightarrow> Err ''EOF'' | typ # r \<Rightarrow>
      readMetaPayload (bytes_str (str_bytes k)) typ r) vb (k, widen v)"
    unfolding vb by (rule decodes_byte) (simp add: pl)
  show ?thesis
    unfolding bs readMetaEntry_def [abs_def] kv fst_conv snd_conv
    by (rule decodes_bind [where y = "length (str_bytes k)"], rule decodes_be, use v(2) in simp)
      (rule decodes_bind [where y = "str_bytes k"], rule decodes_full, simp, rule k)
qed

lemma go_map_is_Ok: "is_Ok (go_map f xs) \<longleftrightarrow> (\<forall>x \<in> set xs. is_Ok (f x))"
  by (induction xs) (auto simp: is_Ok_iff go_bind_Ok_iff)

definition the_Ok :: "'a gores \<Rightarrow> 'a" where
  "the_Ok r = (case r of Ok a \<Rightarrow> a | _ \<Rightarrow> undefined)"

lemma the_Ok_simps [simp]: "the_Ok (Ok a) = a" "is_Ok r \<Longrightarrow> Ok (the_Ok r) = r"
  by (auto simp: the_Ok_def is_Ok_iff)

lemma go_map_the_Ok: "\<forall>x \<in> set xs. is_Ok (f x) \<Longrightarrow> go_map f xs = Ok (map (\<lambda>x. the_Ok (f x)) xs)"
  by (rule go_map_Ok) simp

lemma put_all_fresh: "distinct (map fst (m @ kvs)) \<Longrightarrow> fold (\<lambda>(k, v) m. AList.update k v m) kvs m = m @ kvs"
proof (induction kvs arbitrary: m)
  case (Cons p kvs)
  obtain k v where p: "p = (k, v)" by (cases p)
  have "k \<notin> fst ` set m" using Cons.prems p by auto
  then have "AList.update k v m = m @ [(k, v)]" by (induction m) auto
  then show ?case using Cons.IH [of "m @ [(k, v)]"] Cons.prems p by simp
qed simp

lemma put_all_distinct [simp]: "distinct (map fst kvs) \<Longrightarrow> put_all kvs = kvs"
  using put_all_fresh [of "[]" kvs] by (simp add: put_all_def)

text \<open>A vertex the format can hold, and the vertex that is read back.\<close>

definition vertexSaveable :: "'e node \<Rightarrow> bool" where
  "vertexSaveable n \<longleftrightarrow> length (nvec n) < 256 ^ 4 \<and> length (nmeta n) < 256 ^ 4 \<and>
     distinct (map fst (nmeta n)) \<and> (\<forall>kv \<in> set (nmeta n). metaWritable kv)"

definition reloadNode :: "'e node \<Rightarrow> 'e node" where
  "reloadNode n = \<lparr>nvec = nvec n, nmeta = map (\<lambda>(k, v). (k, widen v)) (nmeta n)\<rparr>"

context quantizer_laws begin

lemma writeVertex_decodes:
  assumes n: "vertexSaveable n"
  shows "\<exists>bs. writeVertex Q (i, n) = Ok bs \<and> decodes (readVertex Q) bs (i, reloadNode n)"
proof -
  let ?enc = "\<lambda>kv. the_Ok (writeMetaEntry kv)" and ?el = "\<lambda>e. be_bytes (elem_width Q) (elem_bits Q e)"
  have w: "\<forall>kv \<in> set (nmeta n). is_Ok (writeMetaEntry kv)"
    using n by (simp add: vertexSaveable_def writeMetaEntry_Ok)
  have ms: "decodes (read_n (length (nmeta n)) readMetaEntry) (concat (map ?enc (nmeta n)))
      (map (\<lambda>kv. (fst kv, widen (snd kv))) (nmeta n))"
    by (rule decodes_n, rule readMetaEntry_decodes) (use w in simp)
  have es: "decodes (read_n (length (nvec n)) (read_be (elem_width Q))) (concat (map ?el (nvec n)))
      (map (\<lambda>e. elem_bits Q e mod 256 ^ elem_width Q) (nvec n))"
    by (rule decodes_n) (auto simp: decodes_def read_be_def read_full_def dest: prefix_length_less)
  have d: "put_all (map (\<lambda>kv. (fst kv, widen (snd kv))) (nmeta n)) = map (\<lambda>(k, v). (k, widen v)) (nmeta n)"
    using n by (subst put_all_distinct) (simp_all add: vertexSaveable_def o_def case_prod_beta)
  have "decodes (readVertex Q) (be_bytes 8 (unat i) @ be_bytes 4 (length (nvec n)) @
      concat (map ?el (nvec n)) @ be_bytes 4 (length (nmeta n)) @ concat (map ?enc (nmeta n))) (i, reloadNode n)"
    unfolding readVertex_def [abs_def]
    by (rule decodes_bind, rule decodes_words, rule decodes_bind, rule decodes_be)
      (use n in \<open>simp add: vertexSaveable_def\<close>,
       rule decodes_bind, rule es, rule decodes_bind, rule decodes_be,
       use n in \<open>simp add: vertexSaveable_def\<close>, rule decodes_bind_Ok, rule ms,
       simp add: reloadNode_def d o_def bits_roundtrip)
  then show ?thesis using go_map_the_Ok [OF w] by (simp add: writeVertex_def)
qed

lemma writeShard_decodes:
  assumes s: "length es < 256 ^ 8" "distinct (map fst es)" "\<forall>(i, n) \<in> set es. vertexSaveable n"
  shows "\<exists>bs. writeShard Q es = Ok bs \<and> decodes (readShard Q) bs (map (\<lambda>(i, n). (i, reloadNode n)) es)"
proof -
  let ?enc = "\<lambda>p. the_Ok (writeVertex Q p)" and ?dec = "\<lambda>(i, n). (i, reloadNode n)"
  have w: "is_Ok (writeVertex Q p) \<and> decodes (readVertex Q) (?enc p) (?dec p)" if "p \<in> set es" for p
  proof -
    obtain i n where p: "p = (i, n)" by (cases p)
    have "vertexSaveable n" using that s(3) p by auto
    from writeVertex_decodes [OF this, of i] show ?thesis by (auto simp: p is_Ok_iff)
  qed
  have vs: "decodes (read_n (length es) (readVertex Q)) (concat (map ?enc es)) (map ?dec es)"
    by (rule decodes_n) (use w in blast)
  have d: "put_all (map ?dec es) = map ?dec es"
    using s(2) by (intro put_all_distinct) (simp add: o_def case_prod_beta)
  have "decodes (readShard Q) (be_bytes 8 (length es) @ concat (map ?enc es)) (map ?dec es)"
    unfolding readShard_def [abs_def]
    by (rule decodes_bind, rule decodes_be, rule s(1), rule decodes_bind_Ok, rule vs, rule d)
  moreover have "go_map (writeVertex Q) es = Ok (map ?enc es)" by (rule go_map_the_Ok) (use w in blast)
  ultimately show ?thesis by (simp add: writeShard_def)
qed

end

text \<open>The lock of every shard can be had for reading.\<close>

definition readable :: "('e, 'b) vecspace \<Rightarrow> bool" where
  "readable sp \<longleftrightarrow> (\<forall>s < length (vertices sp). lock_at (verticesMu sp) s \<noteq> Writer)"

lemma go_map_enumerate:
  "\<forall>s < length xs. P (n + s) \<Longrightarrow> go_map (\<lambda>(s, x). if P s then f x else g s x) (List.enumerate n xs) = go_map f xs"
proof (induction xs arbitrary: n)
  case (Cons x xs)
  have "P n" using Cons.prems by force
  moreover have "\<forall>s < length xs. P (Suc n + s)" using Cons.prems by force
  ultimately show ?case using Cons.IH [of "Suc n"] by simp
qed simp

lemma saveShards:
  assumes "readable sp"
  shows "go_map (saveShard Q (verticesMu sp)) (List.enumerate 0 (vertices sp)) = go_map (writeShard Q) (vertices sp)"
proof -
  have "go_map (\<lambda>(s, x). if lock_at (verticesMu sp) s \<noteq> Writer then writeShard Q x else Crash deadlock)
      (List.enumerate 0 (vertices sp)) = go_map (writeShard Q) (vertices sp)"
    by (rule go_map_enumerate) (use assms in \<open>simp add: readable_def\<close>)
  moreover have "saveShard Q (verticesMu sp) =
      (\<lambda>(s, x). if lock_at (verticesMu sp) s \<noteq> Writer then writeShard Q x else Crash deadlock)"
    by (auto simp: saveShard_def fun_eq_iff)
  ultimately show ?thesis by simp
qed

text \<open>Every vertex can be saved, and every count fits its field.\<close>

definition spaceSaveable :: "('e, 'b) vecspace \<Rightarrow> bool" where
  "spaceSaveable sp \<longleftrightarrow> locksReady sp \<and> readable sp \<and> length (vertices sp) = EDGE_MAP_SHARD_COUNT \<and>
     (\<forall>es \<in> set (vertices sp). length es < 256 ^ 8 \<and> distinct (map fst es) \<and>
        (\<forall>(i, n) \<in> set es. vertexSaveable n))"

context quantizer_laws begin

lemma SaveVertex_decodes:
  assumes s: "spaceSaveable sp"
  shows "\<exists>data. SaveVertex Q sp = Ok data \<and>
    decodes (read_n EDGE_MAP_SHARD_COUNT (readShard Q)) data
      (map (map (\<lambda>(i, n). (i, reloadNode n))) (vertices sp))"
proof -
  let ?enc = "\<lambda>es. the_Ok (writeShard Q es)"
  have w: "is_Ok (writeShard Q es) \<and> decodes (readShard Q) (?enc es) (map (\<lambda>(i, n). (i, reloadNode n)) es)"
    if "es \<in> set (vertices sp)" for es
    using that s writeShard_decodes [of es] by (fastforce simp: is_Ok_iff spaceSaveable_def)
  have "decodes (read_n (length (vertices sp)) (readShard Q)) (concat (map ?enc (vertices sp)))
      (map (map (\<lambda>(i, n). (i, reloadNode n))) (vertices sp))"
    by (rule decodes_n) (use w in blast)
  moreover have "go_map (writeShard Q) (vertices sp) = Ok (map ?enc (vertices sp))"
    by (rule go_map_the_Ok) (use w in blast)
  ultimately show ?thesis using s by (simp add: SaveVertex_def spaceSaveable_def saveShards)
qed

lemma LoadVertex_SaveVertex:
  assumes "spaceSaveable sp"
  shows "\<exists>data. SaveVertex Q sp = Ok data \<and>
    LoadVertex Q data sp' = (sp'\<lparr>vertices := map (map (\<lambda>(i, n). (i, reloadNode n))) (vertices sp),
      locksReady := True, verticesMu := []\<rparr>, Ok ()) \<and>
    (\<forall>part. strict_prefix part data \<longrightarrow> (\<exists>e. LoadVertex Q part sp' = (sp', Err e)))"
proof -
  obtain data where s: "SaveVertex Q sp = Ok data"
    and d: "decodes (read_n EDGE_MAP_SHARD_COUNT (readShard Q)) data
      (map (map (\<lambda>(i, n). (i, reloadNode n))) (vertices sp))"
    using SaveVertex_decodes [OF assms] by blast
  have "\<exists>e. LoadVertex Q part sp' = (sp', Err e)" if "strict_prefix part data" for part
    using decodesD(3) [OF d that] by (auto simp: LoadVertex_def)
  with s decodesD(2) [OF d] show ?thesis by (auto simp: LoadVertex_def)
qed

end

subsection \<open>Metadata, index and accessors\<close>

text \<open>\<open>encoding/json\<close> on the metadata record, as a pair of functions.\<close>

record json =
  jmarshal :: "Metadata \<Rightarrow> bytes"
  junmarshal :: "bytes \<Rightarrow> Metadata gores"

text \<open>The same metadata, up to the order in which the index features are visited.\<close>

definition same_meta :: "Metadata \<Rightarrow> Metadata \<Rightarrow> bool" where
  "same_meta md md' \<longleftrightarrow> Dim md' = Dim md \<and> metaDistance md' = metaDistance md \<and>
     metaQuantization md' = metaQuantization md \<and> map_of (IndexTypes md') = map_of (IndexTypes md) \<and>
     Versioning md' = Versioning md"

definition json_ok :: "json \<Rightarrow> Metadata \<Rightarrow> bool" where
  "json_ok J md \<longleftrightarrow> (\<exists>md'. junmarshal J (jmarshal J md) = Ok md' \<and> same_meta md md')"

definition SaveVertexMetadata :: "json \<Rightarrow> ('e, 'b) vecspace \<Rightarrow> bytes gores" where
  "SaveVertexMetadata J sp = Ok (jmarshal J (vertexMetadata sp))"

definition LoadVertexMetadata :: "json \<Rightarrow> string \<Rightarrow> bytes \<Rightarrow> ('e, 'b) vecspace \<Rightarrow> ('e, 'b) vecspace \<times> unit gores" where
  "LoadVertexMetadata J name data sp =
     st_bind (sp, junmarshal J data) (\<lambda>sp metadata.
       (sp\<lparr>collectionName := name, vertexMetadata := metadata, spaceDist := Some (metaSpace metadata)\<rparr>, Ok ()))"

definition SaveVertexInverted :: "'b roaring \<Rightarrow> ('e, 'b) vecspace \<Rightarrow> ('e, 'b) vecspace \<times> bytes gores" where
  "SaveVertexInverted R = with_index (SerializeBinary R)"

definition LoadVertexInverted :: "'b roaring \<Rightarrow> bytes \<Rightarrow> ('e, 'b) vecspace \<Rightarrow> ('e, 'b) vecspace \<times> unit gores" where
  "LoadVertexInverted R data sp =
     (case DeserializeBinary R data NewBitmapIndex of (idx, r) \<Rightarrow> (sp\<lparr>invIndex := Some idx\<rparr>, r))"

definition spaceQuantization :: "('e, 'b) vecspace \<Rightarrow> int" where
  "spaceQuantization sp = Quantizationer (vertexMetadata sp)"
definition spaceDistance :: "('e, 'b) vecspace \<Rightarrow> int" where
  "spaceDistance sp = Distancer (vertexMetadata sp)"
definition spaceDim :: "('e, 'b) vecspace \<Rightarrow> u32" where
  "spaceDim sp = Dimensional (vertexMetadata sp)"
definition LoadSize :: "('e, 'b) vecspace \<Rightarrow> i64" where
  "LoadSize sp = vsize sp"
definition spaceVersional :: "('e, 'b) vecspace \<Rightarrow> bool" where
  "spaceVersional sp = Versional (vertexMetadata sp)"

subsection \<open>The four stores\<close>

definition none_SaveVertex :: "(f32, 'b) vecspace \<Rightarrow> bytes gores" where
  "none_SaveVertex = SaveVertex NoQuantization"
definition none_LoadVertex :: "bytes \<Rightarrow> (f32, 'b) vecspace \<Rightarrow> (f32, 'b) vecspace \<times> unit gores" where
  "none_LoadVertex = LoadVertex NoQuantization"

definition f16_SaveVertex :: "(u16, 'b) vecspace \<Rightarrow> bytes gores" where
  "f16_SaveVertex = SaveVertex Float16Quantization"
definition f16_LoadVertex :: "bytes \<Rightarrow> (u16, 'b) vecspace \<Rightarrow> (u16, 'b) vecspace \<times> unit gores" where
  "f16_LoadVertex = LoadVertex Float16Quantization"

definition f8_SaveVertex :: "(u8, 'b) vecspace \<Rightarrow> bytes gores" where
  "f8_SaveVertex = SaveVertex Float8Quantization"
definition f8_LoadVertex :: "bytes \<Rightarrow> (u8, 'b) vecspace \<Rightarrow> (u8, 'b) vecspace \<times> unit gores" where
  "f8_LoadVertex = LoadVertex Float8Quantization"

definition bf16_SaveVertex :: "(u16, 'b) vecspace \<Rightarrow> bytes gores" where
  "bf16_SaveVertex = SaveVertex BFloat16Quantization"
definition bf16_LoadVertex :: "bytes \<Rightarrow> (u16, 'b) vecspace \<Rightarrow> (u16, 'b) vecspace \<times> unit gores" where
  "bf16_LoadVertex = LoadVertex BFloat16Quantization"

subsection \<open>Statements\<close>

text \<open>
  C26: In each of the four formats, a store whose vertices fit the format is saved without error;
  loading the image into any store puts the same vertices in the same shards (\<open>float32\<close> metadata
  come back as \<open>float64\<close>), and every truncated image is rejected with an error that leaves the
  store as it was.
\<close>

theorem vertices_save_reload:
  "(spaceSaveable a1 \<longrightarrow> (\<exists>data. none_SaveVertex a1 = Ok data \<and>
      none_LoadVertex data b1 = (b1\<lparr>vertices := map (map (\<lambda>(i, n). (i, reloadNode n))) (vertices a1),
        locksReady := True, verticesMu := []\<rparr>, Ok ()) \<and>
      (\<forall>part. strict_prefix part data \<longrightarrow> (\<exists>e. none_LoadVertex part b1 = (b1, Err e))))) \<and>
   (spaceSaveable a2 \<longrightarrow> (\<exists>data. f16_SaveVertex a2 = Ok data \<and>
      f16_LoadVertex data b2 = (b2\<lparr>vertices := map (map (\<lambda>(i, n). (i, reloadNode n))) (vertices a2),
        locksReady := True, verticesMu := []\<rparr>, Ok ()) \<and>
      (\<forall>part. strict_prefix part data \<longrightarrow> (\<exists>e. f16_LoadVertex part b2 = (b2, Err e))))) \<and>
   (spaceSaveable a3 \<longrightarrow> (\<exists>data. f8_SaveVertex a3 = Ok data \<and>
      f8_LoadVertex data b3 = (b3\<lparr>vertices := map (map (\<lambda>(i, n). (i, reloadNode n))) (vertices a3),
        locksReady := True, verticesMu := []\<rparr>, Ok ()) \<and>
      (\<forall>part. strict_prefix part data \<longrightarrow> (\<exists>e. f8_LoadVertex part b3 = (b3, Err e))))) \<and>
   (spaceSaveable a4 \<longrightarrow> (\<exists>data. bf16_SaveVertex a4 = Ok data \<and>
      bf16_LoadVertex data b4 = (b4\<lparr>vertices := map (map (\<lambda>(i, n). (i, reloadNode n))) (vertices a4),
        locksReady := True, verticesMu := []\<rparr>, Ok ()) \<and>
      (\<forall>part. strict_prefix part data \<longrightarrow> (\<exists>e. bf16_LoadVertex part b4 = (b4, Err e)))))"
  unfolding none_SaveVertex_def none_LoadVertex_def f16_SaveVertex_def f16_LoadVertex_def
    f8_SaveVertex_def f8_LoadVertex_def bf16_SaveVertex_def bf16_LoadVertex_def
  by (intro conjI impI none_q.LoadVertex_SaveVertex f16_q.LoadVertex_SaveVertex
      f8_q.LoadVertex_SaveVertex bf16_q.LoadVertex_SaveVertex)

lemma example_saveable: "spaceSaveable example_space"
proof -
  have sh: "shards_ok (vertices example_space)" using example_space_ok(1) by (simp add: space_ok_def)
  have c: "length es < 256 ^ 8 \<and> distinct (map fst es) \<and> (\<forall>(i, n) \<in> set es. vertexSaveable n)"
    if "es \<in> set (vertices example_space)" for es
  proof -
    have sub: "(i, n) \<in> set es \<Longrightarrow> vertex example_space i = Some n" for i n
      using that set_all_vertices [OF sh, of i n] by auto
    have d: "distinct (map fst es)" using sh that by (auto simp: shards_ok_def in_set_conv_nth)
    have "set (map fst es) \<subseteq> {7, 8}" using sub by (force simp: example_vertex split: if_splits)
    then have "length (map fst es) \<le> card {7, 8 :: u64}"
      using card_mono [of "{7, 8}" "set (map fst es)"] distinct_card [OF d] by simp
    moreover have "vertexSaveable n" if "(i, n) \<in> set es" for i n
      using sub [OF that]
      by (auto simp: example_vertex example_n7_def example_n8_def vertexSaveable_def metaWritable_def split: if_splits)
    ultimately show ?thesis using d by auto
  qed
  then show ?thesis using example_space_ok(1) sh by (auto simp: spaceSaveable_def space_ok_def shards_ok_def readable_def)
qed

lemma vertices_save_reload_witness:
  "\<exists>data. none_SaveVertex example_space = Ok data \<and>
     vertices (fst (none_LoadVertex data (newNoneVectorstore ''d'' example_md :: (f32, u64 list) vecspace))) =
       map (map (\<lambda>(i, n). (i, reloadNode n))) (vertices example_space)"
proof -
  obtain data where "none_SaveVertex example_space = Ok data"
    "none_LoadVertex data (newNoneVectorstore ''d'' example_md :: (f32, u64 list) vecspace) =
       ((newNoneVectorstore ''d'' example_md)\<lparr>vertices := map (map (\<lambda>(i, n). (i, reloadNode n)))
          (vertices example_space), locksReady := True, verticesMu := []\<rparr>, Ok ())"
    using vertices_save_reload [THEN conjunct1, THEN mp, OF example_saveable] by blast
  then show ?thesis by (intro exI [of _ data]) simp
qed

text \<open>Computations that succeed or return an error, and do not panic.\<close>

definition clean :: "'a gores \<Rightarrow> bool" where
  "clean r \<longleftrightarrow> is_Ok r \<or> (\<exists>e. r = Err e)"

lemma clean_bind_Ok [intro]: "clean r \<Longrightarrow> clean (go_bind r (\<lambda>x. Ok (f x)))"
  by (cases r) (auto simp: clean_def)

lemma clean_go_map: "(\<And>x. x \<in> set xs \<Longrightarrow> clean (f x)) \<Longrightarrow> clean (go_map f xs)"
proof (induction xs)
  case (Cons x xs)
  have "clean (f x)" "clean (go_map f xs)" using Cons by simp_all
  then show ?case by (cases "f x"; cases "go_map f xs") (auto simp: clean_def)
qed (simp add: clean_def)

lemma is_Ok_bind_Ok [simp]: "is_Ok (go_bind r (\<lambda>x. Ok (f x))) = is_Ok r"
  by (cases r) auto

lemma writeMetaEntry_clean: "clean (writeMetaEntry kv)"
  by (cases kv; cases "snd kv") (auto simp: clean_def writeMetaEntry_def writeMetaValue_def)

lemma writeShard_clean: "clean (writeShard Q es)"
proof -
  have "clean (writeVertex Q p)" for p
    unfolding writeVertex_def case_prod_beta by (intro clean_bind_Ok clean_go_map writeMetaEntry_clean)
  then show ?thesis unfolding writeShard_def by (intro clean_bind_Ok clean_go_map)
qed

lemma saveShard_no_panic: "go_map (saveShard Q ls) sns \<noteq> Panic p"
proof (induction sns)
  case (Cons p sns)
  obtain s es where p: "p = (s, es)" by (cases p)
  show ?case using Cons writeShard_clean [of Q es]
    by (cases "go_map (saveShard Q ls) sns") (auto simp: p saveShard_def clean_def is_Ok_iff)
qed simp

lemma SaveVertex_readable:
  assumes "locksReady sp" "readable sp"
  shows "is_Ok (SaveVertex Q sp) \<longleftrightarrow>
      (\<forall>es \<in> set (vertices sp). \<forall>(i, n) \<in> set es. \<forall>kv \<in> set (nmeta n). metaWritable kv)"
    and "clean (SaveVertex Q sp)"
proof -
  have "is_Ok (writeVertex Q p) \<longleftrightarrow> (\<forall>kv \<in> set (nmeta (snd p)). metaWritable kv)" for p
    by (simp add: writeVertex_def go_map_is_Ok writeMetaEntry_Ok case_prod_beta)
  then show "is_Ok (SaveVertex Q sp) \<longleftrightarrow>
      (\<forall>es \<in> set (vertices sp). \<forall>(i, n) \<in> set es. \<forall>kv \<in> set (nmeta n). metaWritable kv)"
    using assms by (simp add: SaveVertex_def saveShards writeShard_def go_map_is_Ok case_prod_beta)
  show "clean (SaveVertex Q sp)"
    using assms by (simp add: SaveVertex_def saveShards clean_bind_Ok clean_go_map writeShard_clean)
qed

lemma SaveVertex_waits:
  assumes "\<not> readable sp"
  shows "\<not> is_Ok (SaveVertex Q sp)"
proof -
  obtain s where "s < length (vertices sp)" "lock_at (verticesMu sp) s = Writer" using assms by (auto simp: readable_def)
  then have "(s, vertices sp ! s) \<in> set (List.enumerate 0 (vertices sp))" "\<not> is_Ok (saveShard Q (verticesMu sp) (s, vertices sp ! s))"
    by (auto simp: saveShard_def in_set_enumerate_eq)
  then show ?thesis by (auto simp: SaveVertex_def go_map_is_Ok)
qed

text \<open>
  C28: A store in operation can be saved exactly when no metadata key or string is longer than
  65535 bytes, no metadata value is of a type other than \<open>int64\<close>, \<open>string\<close>, \<open>float32\<close>, \<open>float64\<close>
  and \<open>bool\<close>, and no lost goroutine holds a shard for writing. When none does, saving that does not
  succeed returns an error; it never panics.
\<close>

theorem SaveVertex_Ok_iff:
  "locksReady sp \<Longrightarrow>
   (is_Ok (SaveVertex Q sp) \<longleftrightarrow> readable sp \<and>
      (\<forall>es \<in> set (vertices sp). \<forall>(i, n) \<in> set es. \<forall>kv \<in> set (nmeta n). metaWritable kv)) \<and>
   (readable sp \<and> \<not> is_Ok (SaveVertex Q sp) \<longrightarrow> (\<exists>e. SaveVertex Q sp = Err e)) \<and>
   (\<forall>p. SaveVertex Q sp \<noteq> Panic p)"
proof -
  assume l: "locksReady sp"
  have "SaveVertex Q sp \<noteq> Panic p" for p
    using l saveShard_no_panic [of Q "verticesMu sp" "List.enumerate 0 (vertices sp)"]
    by (cases "go_map (saveShard Q (verticesMu sp)) (List.enumerate 0 (vertices sp))") (auto simp: SaveVertex_def)
  then show ?thesis
    using SaveVertex_readable [OF l, of Q] SaveVertex_waits [of sp Q] unfolding clean_def by blast
qed

lemma SaveVertex_Ok_iff_witness:
  "\<exists>e. SaveVertex NoQuantization
     (example_space\<lparr>vertices := [[(1, \<lparr>nvec = [], nmeta = [(''n'', GInt 5)]\<rparr>)]]\<rparr>) = Err e"
proof -
  let ?sp = "example_space\<lparr>vertices := [[(1, \<lparr>nvec = [], nmeta = [(''n'', GInt 5)]\<rparr>)]]\<rparr>"
  have "locksReady ?sp" "readable ?sp" using example_space_ok(1) by (simp_all add: space_ok_def readable_def)
  with SaveVertex_Ok_iff [of ?sp NoQuantization] show ?thesis by (simp add: metaWritable_def)
qed

end
