(* ===== verification/EdgeStore.thy ===== *)
theory EdgeStore
  imports VecSave
begin

text \<open>
  The collections of the edge server (\<open>edge/vectorstore.go\<close>): a map from names to stores behind
  the interface \<open>vectorspace\<close>. A method called for a name that is not there is a nil dereference;
  a method that changes its receiver changes the store in the map.
\<close>

datatype 'b anyspace =
    NoneSpace "(f32, 'b) vecspace" | F16Space "(u16, 'b) vecspace"
  | F8Space "(u8, 'b) vecspace" | BF16Space "(u16, 'b) vecspace"

type_synonym 'b spaces = "(string \<times> 'b anyspace) list"

text \<open>What the operations need of their surroundings: bitmaps, JSON, distance kernel, scheduler.\<close>

record 'b edgeEnv =
  envR :: "'b roaring"
  envJ :: json
  envImpl :: spaceImpl
  envIl :: "item list list \<Rightarrow> item list"

fun on_space :: "((f32, 'b) vecspace \<Rightarrow> (f32, 'b) vecspace \<times> 'r) \<Rightarrow>
    ((u16, 'b) vecspace \<Rightarrow> (u16, 'b) vecspace \<times> 'r) \<Rightarrow> ((u8, 'b) vecspace \<Rightarrow> (u8, 'b) vecspace \<times> 'r) \<Rightarrow>
    ((u16, 'b) vecspace \<Rightarrow> (u16, 'b) vecspace \<times> 'r) \<Rightarrow> 'b anyspace \<Rightarrow> 'b anyspace \<times> 'r" where
  "on_space fn f16 f8 fb (NoneSpace sp) = (case fn sp of (sp', r) \<Rightarrow> (NoneSpace sp', r))"
| "on_space fn f16 f8 fb (F16Space sp) = (case f16 sp of (sp', r) \<Rightarrow> (F16Space sp', r))"
| "on_space fn f16 f8 fb (F8Space sp) = (case f8 sp of (sp', r) \<Rightarrow> (F8Space sp', r))"
| "on_space fn f16 f8 fb (BF16Space sp) = (case fb sp of (sp', r) \<Rightarrow> (BF16Space sp', r))"

definition asking :: "('e \<Rightarrow> 'r) \<Rightarrow> 'e \<Rightarrow> 'e \<times> 'r" where
  "asking f e = (e, f e)"

definition call_space :: "string \<Rightarrow> ('b anyspace \<Rightarrow> 'b anyspace \<times> 'a gores) \<Rightarrow> 'b spaces \<Rightarrow>
    'b spaces \<times> 'a gores" where
  "call_space name f sps =
     (case map_of sps name of
        None \<Rightarrow> (sps, Panic nil_deref)
      | Some sp \<Rightarrow> (case f sp of (sp', r) \<Rightarrow> (AList.update name sp' sps, r)))"

subsection \<open>Operations\<close>

definition vsCreateCollection :: "string \<Rightarrow> Metadata \<Rightarrow> 'b spaces \<Rightarrow> 'b spaces \<times> unit gores" where
  "vsCreateCollection name md sps =
     (if map_of sps name \<noteq> None then (sps, Err (''collection: '' @ name @ '' is already exists''))
      else let q = metaQuantization md in
        if q = Quantization_F8 then (AList.update name (F8Space (newF8Vectorstore name md)) sps, Ok ())
        else if q = Quantization_F16 then (AList.update name (F16Space (newF16Vectorstore name md)) sps, Ok ())
        else if q = Quantization_BF16 then (AList.update name (BF16Space (newBF16Vectorstore name md)) sps, Ok ())
        else if q = Quantization_None then (AList.update name (NoneSpace (newNoneVectorstore name md)) sps, Ok ())
        else (sps, Err ''not support quantization type''))"

definition vsQuantization :: "string \<Rightarrow> 'b spaces \<Rightarrow> 'b spaces \<times> int gores" where
  "vsQuantization name = call_space name
     (on_space (asking (\<lambda>sp. Ok (spaceQuantization sp))) (asking (\<lambda>sp. Ok (spaceQuantization sp)))
       (asking (\<lambda>sp. Ok (spaceQuantization sp))) (asking (\<lambda>sp. Ok (spaceQuantization sp))))"

definition vsDistance :: "string \<Rightarrow> 'b spaces \<Rightarrow> 'b spaces \<times> int gores" where
  "vsDistance name = call_space name
     (on_space (asking (\<lambda>sp. Ok (spaceDistance sp))) (asking (\<lambda>sp. Ok (spaceDistance sp)))
       (asking (\<lambda>sp. Ok (spaceDistance sp))) (asking (\<lambda>sp. Ok (spaceDistance sp))))"

definition vsDim :: "string \<Rightarrow> 'b spaces \<Rightarrow> 'b spaces \<times> u32 gores" where
  "vsDim name = call_space name
     (on_space (asking (\<lambda>sp. Ok (spaceDim sp))) (asking (\<lambda>sp. Ok (spaceDim sp)))
       (asking (\<lambda>sp. Ok (spaceDim sp))) (asking (\<lambda>sp. Ok (spaceDim sp))))"

definition vsLoadSize :: "string \<Rightarrow> 'b spaces \<Rightarrow> 'b spaces \<times> i64 gores" where
  "vsLoadSize name = call_space name
     (on_space (asking (\<lambda>sp. Ok (LoadSize sp))) (asking (\<lambda>sp. Ok (LoadSize sp)))
       (asking (\<lambda>sp. Ok (LoadSize sp))) (asking (\<lambda>sp. Ok (LoadSize sp))))"

definition vsIndexer :: "string \<Rightarrow> 'b spaces \<Rightarrow> 'b spaces \<times> features gores" where
  "vsIndexer name = call_space name
     (on_space (asking (\<lambda>sp. Ok (Indexer sp))) (asking (\<lambda>sp. Ok (Indexer sp)))
       (asking (\<lambda>sp. Ok (Indexer sp))) (asking (\<lambda>sp. Ok (Indexer sp))))"

definition vsVersional :: "string \<Rightarrow> 'b spaces \<Rightarrow> 'b spaces \<times> bool gores" where
  "vsVersional name = call_space name
     (on_space (asking (\<lambda>sp. Ok (spaceVersional sp))) (asking (\<lambda>sp. Ok (spaceVersional sp)))
       (asking (\<lambda>sp. Ok (spaceVersional sp))) (asking (\<lambda>sp. Ok (spaceVersional sp))))"

definition SavedMetadata :: "'b edgeEnv \<Rightarrow> string \<Rightarrow> 'b spaces \<Rightarrow> 'b spaces \<times> bytes gores" where
  "SavedMetadata E name = call_space name
     (on_space (asking (SaveVertexMetadata (envJ E))) (asking (SaveVertexMetadata (envJ E)))
       (asking (SaveVertexMetadata (envJ E))) (asking (SaveVertexMetadata (envJ E))))"

definition SavedVertex :: "string \<Rightarrow> 'b spaces \<Rightarrow> 'b spaces \<times> bytes gores" where
  "SavedVertex name = call_space name
     (on_space (asking none_SaveVertex) (asking f16_SaveVertex) (asking f8_SaveVertex) (asking bf16_SaveVertex))"

definition SavedInverted :: "'b edgeEnv \<Rightarrow> string \<Rightarrow> 'b spaces \<Rightarrow> 'b spaces \<times> bytes gores" where
  "SavedInverted E name = call_space name
     (on_space (SaveVertexInverted (envR E)) (SaveVertexInverted (envR E))
       (SaveVertexInverted (envR E)) (SaveVertexInverted (envR E)))"

definition LoadedMetadata :: "'b edgeEnv \<Rightarrow> string \<Rightarrow> bytes \<Rightarrow> 'b spaces \<Rightarrow> 'b spaces \<times> unit gores" where
  "LoadedMetadata E name data = call_space name
     (on_space (LoadVertexMetadata (envJ E) name data) (LoadVertexMetadata (envJ E) name data)
       (LoadVertexMetadata (envJ E) name data) (LoadVertexMetadata (envJ E) name data))"

definition LoadedVertex :: "string \<Rightarrow> bytes \<Rightarrow> 'b spaces \<Rightarrow> 'b spaces \<times> unit gores" where
  "LoadedVertex name data = call_space name
     (on_space (none_LoadVertex data) (f16_LoadVertex data) (f8_LoadVertex data) (bf16_LoadVertex data))"

definition LoadedInverted :: "'b edgeEnv \<Rightarrow> string \<Rightarrow> bytes \<Rightarrow> 'b spaces \<Rightarrow> 'b spaces \<times> unit gores" where
  "LoadedInverted E name data = call_space name
     (on_space (LoadVertexInverted (envR E) data) (LoadVertexInverted (envR E) data)
       (LoadVertexInverted (envR E) data) (LoadVertexInverted (envR E) data))"

definition DestroySpace :: "string \<Rightarrow> 'b spaces \<Rightarrow> 'b spaces" where
  "DestroySpace name sps = AList.delete name sps"

definition vsChangedVertex :: "'b edgeEnv \<Rightarrow> string \<Rightarrow> string \<Rightarrow> u64 \<Rightarrow> gmeta \<Rightarrow> vec \<Rightarrow> 'b spaces \<Rightarrow>
    'b spaces \<times> unit gores" where
  "vsChangedVertex E name updateID i metadata v = call_space name
     (on_space (none_ChangedVertex (envR E) updateID i v metadata) (f16_ChangedVertex (envR E) updateID i v metadata)
       (f8_ChangedVertex (envR E) updateID i v metadata) (bf16_ChangedVertex (envR E) updateID i v metadata))"

definition vsRemoveVertex :: "'b edgeEnv \<Rightarrow> string \<Rightarrow> gmeta \<Rightarrow> 'b spaces \<Rightarrow> 'b spaces \<times> unit gores" where
  "vsRemoveVertex E name dropfilter = call_space name
     (on_space (none_RemoveVertex (envR E) dropfilter) (f16_RemoveVertex (envR E) dropfilter)
       (f8_RemoveVertex (envR E) dropfilter) (bf16_RemoveVertex (envR E) dropfilter))"

text \<open>\<open>topK\<close> is an unsigned number read as a signed one.\<close>

definition vsVertexSearch :: "'b edgeEnv \<Rightarrow> string \<Rightarrow> u64 \<Rightarrow> vec \<Rightarrow> bool \<Rightarrow> 'b spaces \<Rightarrow>
    'b spaces \<times> item list gores" where
  "vsVertexSearch E name topK v highCpu = call_space name
     (on_space (none_VertexSearch (envImpl E) v (sint topK) highCpu)
       (f16_VertexSearch (envImpl E) v (sint topK) highCpu)
       (f8_VertexSearch (envImpl E) v (sint topK) highCpu)
       (bf16_VertexSearch (envImpl E) v (sint topK) highCpu))"

definition vsFilterableVertexSearch :: "'b edgeEnv \<Rightarrow> string \<Rightarrow> FilterExpression \<Rightarrow> u64 \<Rightarrow> vec \<Rightarrow> bool \<Rightarrow>
    'b spaces \<Rightarrow> 'b spaces \<times> item list gores" where
  "vsFilterableVertexSearch E name f topK v highCpu = call_space name
     (on_space (none_FilterableVertexSearch (envIl E) (envR E) (envImpl E) f v (sint topK) highCpu)
       (f16_FilterableVertexSearch (envIl E) (envR E) (envImpl E) f v (sint topK) highCpu)
       (f8_FilterableVertexSearch (envIl E) (envR E) (envImpl E) f v (sint topK) highCpu)
       (bf16_FilterableVertexSearch (envIl E) (envR E) (envImpl E) f v (sint topK) highCpu))"

text \<open>\<open>FillEmpty\<close> puts a zero value of the store's type in place, without maps, locks or index.\<close>

definition zeroSpace :: "('e, 'b) vecspace" where
  "zeroSpace = \<lparr>vertexMetadata = \<lparr>Dim = 0, metaDistance = 0, metaQuantization = 0, IndexTypes = [],
       Versioning = False\<rparr>,
     collectionName = '''', vsize = 0, vertices = replicate EDGE_MAP_SHARD_COUNT [], locksReady = False, verticesMu = [],
     spaceDist = None, invIndex = None\<rparr>"

definition FillEmpty :: "string \<Rightarrow> int \<Rightarrow> 'b spaces \<Rightarrow> 'b spaces" where
  "FillEmpty name q sps =
     (if q = Quantization_None then AList.update name (NoneSpace zeroSpace) sps
      else if q = Quantization_F8 then AList.update name (F8Space zeroSpace) sps
      else if q = Quantization_F16 then AList.update name (F16Space zeroSpace) sps
      else if q = Quantization_BF16 then AList.update name (BF16Space zeroSpace) sps
      else sps)"

end
