(* ===== verification/ObjectStore.thy ===== *)
theory ObjectStore
  imports GoBytes
begin

text \<open>
  The object storage of the edge server (\<open>pkg/minio\<close>): thin calls into a MinIO client, and two
  loops over the objects of a bucket. The client is a third-party package: its calls are the
  record \<open>minioClient\<close> over a state \<open>'s\<close> of the server, and \<open>minio_ok\<close> is what is documented of
  them and used here. A channel of objects is the list of what is received from it.
\<close>

record objInfo =
  objErr :: "string option"
  objKey :: string
  objVersionID :: string
  objIsLatest :: bool

record 's minioClient =
  mcMakeBucket :: "string \<Rightarrow> 's \<Rightarrow> 's \<times> unit gores"
  mcSetBucketVersioning :: "string \<Rightarrow> 's \<Rightarrow> 's \<times> unit gores"
  mcGetBucketVersioning :: "string \<Rightarrow> 's \<Rightarrow> bool gores"
  mcBucketExists :: "string \<Rightarrow> 's \<Rightarrow> bool gores"
  mcListBuckets :: "'s \<Rightarrow> string list gores"
  mcListObjects :: "string \<Rightarrow> 's \<Rightarrow> objInfo list"
  mcRemoveObject :: "string \<Rightarrow> string \<Rightarrow> string \<Rightarrow> 's \<Rightarrow> 's \<times> unit gores"
  mcRemoveBucket :: "string \<Rightarrow> 's \<Rightarrow> 's \<times> unit gores"
  mcPutObject :: "string \<Rightarrow> string \<Rightarrow> bytes \<Rightarrow> 's \<Rightarrow> 's \<times> unit gores"
  mcGetObject :: "string \<Rightarrow> string \<Rightarrow> 's \<Rightarrow> bytes gores"

definition LoadBucketList :: "'s minioClient \<Rightarrow> 's \<Rightarrow> string list gores" where
  "LoadBucketList C s = mcListBuckets C s"

definition ExistsBucket :: "'s minioClient \<Rightarrow> string \<Rightarrow> 's \<Rightarrow> bool gores" where
  "ExistsBucket C bucketName s = mcBucketExists C bucketName s"

definition CreateBucket :: "'s minioClient \<Rightarrow> string \<Rightarrow> 's \<Rightarrow> 's \<times> unit gores" where
  "CreateBucket C bucketName s = mcMakeBucket C bucketName s"

definition BucketVersioning :: "'s minioClient \<Rightarrow> string \<Rightarrow> 's \<Rightarrow> 's \<times> unit gores" where
  "BucketVersioning C bucketName s = mcSetBucketVersioning C bucketName s"

fun remove_objects :: "'s minioClient \<Rightarrow> string \<Rightarrow> objInfo list \<Rightarrow> 's \<Rightarrow> 's \<times> unit gores" where
  "remove_objects C bucketName [] s = (s, Ok ())"
| "remove_objects C bucketName (ob # obs) s =
     (case objErr ob of
        Some e \<Rightarrow> (s, Err (''[minio]select list obj: '' @ e))
      | None \<Rightarrow>
          case mcRemoveObject C bucketName (objKey ob) (objVersionID ob) s of
            (s', Err e) \<Rightarrow> (s', Err (''[minio] object delete failed ['' @ objKey ob @ '']: '' @ e))
          | (s', Ok _) \<Rightarrow> remove_objects C bucketName obs s'
          | (s', Panic p) \<Rightarrow> (s', Panic p)
          | (s', Crash p) \<Rightarrow> (s', Crash p))"

definition RemoveBucket :: "'s minioClient \<Rightarrow> string \<Rightarrow> 's \<Rightarrow> 's \<times> unit gores" where
  "RemoveBucket C bucketName s =
     st_bind (remove_objects C bucketName (mcListObjects C bucketName s) s)
       (\<lambda>s _. mcRemoveBucket C bucketName s)"

definition IsVersionBucket :: "'s minioClient \<Rightarrow> string \<Rightarrow> 's \<Rightarrow> bool gores" where
  "IsVersionBucket C bucketName s = mcGetBucketVersioning C bucketName s"

definition removeObjectOldVersion :: "'s minioClient \<Rightarrow> string \<Rightarrow> string \<Rightarrow> string \<Rightarrow> 's \<Rightarrow> 's \<times> unit gores" where
  "removeObjectOldVersion C bucketName objectName version s = mcRemoveObject C bucketName objectName version s"

text \<open>\<open>VersionCleanUp\<close> removes the versions that are not the latest. A listing error is logged; after a removal
  that fails the log line asks the error of the listing, which is nil, for its text.\<close>

fun clean_versions :: "'s minioClient \<Rightarrow> string \<Rightarrow> objInfo list \<Rightarrow> 's \<Rightarrow> 's \<times> unit gores" where
  "clean_versions C bucketName [] s = (s, Ok ())"
| "clean_versions C bucketName (ob # obs) s =
     (if objErr ob \<noteq> None \<or> objIsLatest ob then clean_versions C bucketName obs s
      else case removeObjectOldVersion C bucketName (objKey ob) (objVersionID ob) s of
          (s', Ok _) \<Rightarrow> clean_versions C bucketName obs s'
        | (s', Err e) \<Rightarrow> (s', Panic ''nil pointer dereference'')
        | (s', Panic p) \<Rightarrow> (s', Panic p)
        | (s', Crash p) \<Rightarrow> (s', Crash p))"

definition VersionCleanUp :: "'s minioClient \<Rightarrow> string \<Rightarrow> 's \<Rightarrow> 's \<times> unit gores" where
  "VersionCleanUp C bucketName s = clean_versions C bucketName (mcListObjects C bucketName s) s"

definition PutObject :: "'s minioClient \<Rightarrow> string \<Rightarrow> string \<Rightarrow> bytes \<Rightarrow> 's \<Rightarrow> 's \<times> unit gores" where
  "PutObject C bucketName objectName data s = mcPutObject C bucketName objectName data s"

definition GetObject :: "'s minioClient \<Rightarrow> string \<Rightarrow> string \<Rightarrow> 's \<Rightarrow> bytes gores" where
  "GetObject C bucketName objectName s = mcGetObject C bucketName objectName s"

subsection \<open>What is relied on\<close>

text \<open>
  \<open>view s b k\<close> is the latest version of object \<open>k\<close> of bucket \<open>b\<close>. A successful put makes it
  the data that were put and touches no other object; a get returns it; versioning and the
  removal of an old version leave it alone; every call answers with a value or an error.
\<close>

definition answers :: "'a gores \<Rightarrow> bool" where
  "answers r \<longleftrightarrow> is_Ok r \<or> (\<exists>e. r = Err e)"

definition minio_ok :: "'s minioClient \<Rightarrow> ('s \<Rightarrow> string \<Rightarrow> string \<Rightarrow> bytes option) \<Rightarrow> bool" where
  "minio_ok C view \<longleftrightarrow>
     (\<forall>b k d s s' r. mcPutObject C b k d s = (s', r) \<longrightarrow>
        answers r \<and> (is_Ok r \<longrightarrow> view s' = (view s)(b := (view s b)(k \<mapsto> d)))) \<and>
     (\<forall>b k s. answers (mcGetObject C b k s)) \<and>
     (\<forall>b k s d. view s b k = Some d \<longrightarrow> mcGetObject C b k s = Ok d) \<and>
     (\<forall>b s ob. ob \<in> set (mcListObjects C b s) \<and> \<not> objIsLatest ob \<longrightarrow>
        (\<forall>s2. view (fst (mcRemoveObject C b (objKey ob) (objVersionID ob) s2)) = view s2)) \<and>
     (\<forall>b k v s. answers (snd (mcRemoveObject C b k v s))) \<and>
     (\<forall>b s. answers (snd (mcMakeBucket C b s))) \<and>
     (\<forall>b s. answers (snd (mcSetBucketVersioning C b s))) \<and>
     (\<forall>b s. answers (mcGetBucketVersioning C b s)) \<and>
     (\<forall>b s. answers (snd (mcRemoveBucket C b s)))"

text \<open>A server in memory that has these laws: objects by bucket and name, one version each.\<close>

type_synonym memStore = "((string \<times> string) \<times> bytes) list"

definition memClient :: "memStore minioClient" where
  "memClient = \<lparr>
     mcMakeBucket = (\<lambda>b s. (s, Ok ())),
     mcSetBucketVersioning = (\<lambda>b s. (s, Ok ())),
     mcGetBucketVersioning = (\<lambda>b s. Ok False),
     mcBucketExists = (\<lambda>b s. Ok (b \<in> set (map (fst \<circ> fst) s))),
     mcListBuckets = (\<lambda>s. Ok (remdups (map (fst \<circ> fst) s))),
     mcListObjects = (\<lambda>b s. map (\<lambda>((b, k), d).
        \<lparr>objErr = None, objKey = k, objVersionID = '''', objIsLatest = True\<rparr>) (filter (\<lambda>((b', k), d). b' = b) s)),
     mcRemoveObject = (\<lambda>b k v s. (AList.delete (b, k) s, Ok ())),
     mcRemoveBucket = (\<lambda>b s. (s, Ok ())),
     mcPutObject = (\<lambda>b k d s. (AList.update (b, k) d s, Ok ())),
     mcGetObject = (\<lambda>b k s. case map_of s (b, k) of None \<Rightarrow> Err ''NoSuchKey'' | Some d \<Rightarrow> Ok d)\<rparr>"

definition mem_view :: "memStore \<Rightarrow> string \<Rightarrow> string \<Rightarrow> bytes option" where
  "mem_view s b k = map_of s (b, k)"

lemma memClient_ok: "minio_ok memClient mem_view"
  by (auto simp: minio_ok_def memClient_def mem_view_def answers_def fun_eq_iff split: option.splits)

lemma minio_okD:
  assumes "minio_ok C view"
  shows "PutObject C b k d s = (s', r) \<Longrightarrow> answers r"
    and "PutObject C b k d s = (s', Ok u) \<Longrightarrow> view s' = (view s)(b := (view s b)(k \<mapsto> d))"
    and "answers (GetObject C b k s)"
    and "view s b k = Some d \<Longrightarrow> GetObject C b k s = Ok d"
  using assms unfolding minio_ok_def PutObject_def GetObject_def by (elim conjE, fastforce)+

text \<open>The clean-up leaves the latest versions alone. It answers, or it panics after a removal that failed.\<close>

definition removal_fails :: "'s minioClient \<Rightarrow> bool" where
  "removal_fails C \<longleftrightarrow> (\<exists>b k v s e. snd (mcRemoveObject C b k v s) = Err e)"

lemma clean_versions_ok:
  assumes C: "minio_ok C view" and "set obs \<subseteq> set (mcListObjects C b s0)"
  shows "view (fst (clean_versions C b obs s)) = view s"
    and "snd (clean_versions C b obs s) = Ok () \<or>
      snd (clean_versions C b obs s) = Panic ''nil pointer dereference'' \<and> removal_fails C"
proof -
  have "view (fst (clean_versions C b obs s)) = view s \<and> (snd (clean_versions C b obs s) = Ok () \<or>
      snd (clean_versions C b obs s) = Panic ''nil pointer dereference'' \<and> removal_fails C)"
    using assms(2)
  proof (induction obs arbitrary: s)
    case (Cons ob obs)
    show ?case
    proof (cases "objErr ob \<noteq> None \<or> objIsLatest ob")
      case False
      obtain s' r where m: "mcRemoveObject C b (objKey ob) (objVersionID ob) s = (s', r)" by fastforce
      have "answers r" using C m unfolding minio_ok_def by (metis snd_conv)
      moreover have "view s' = view s"
        using C Cons.prems False m unfolding minio_ok_def by (metis fst_conv list.set_intros(1) subsetD)
      moreover have "removal_fails C" if "r = Err e" for e using m that unfolding removal_fails_def by (metis snd_conv)
      ultimately show ?thesis using False Cons
        by (cases r) (auto simp: removeObjectOldVersion_def m answers_def)
    qed (use Cons in simp)
  qed simp
  then show "view (fst (clean_versions C b obs s)) = view s"
    "snd (clean_versions C b obs s) = Ok () \<or>
      snd (clean_versions C b obs s) = Panic ''nil pointer dereference'' \<and> removal_fails C" by blast+
qed

lemma VersionCleanUp_ok:
  assumes "minio_ok C view"
  shows "view (fst (VersionCleanUp C b s)) = view s"
    and "snd (VersionCleanUp C b s) = Ok () \<or>
      snd (VersionCleanUp C b s) = Panic ''nil pointer dereference'' \<and> removal_fails C"
  using clean_versions_ok [OF assms subset_refl] by (simp_all add: VersionCleanUp_def)

lemma refused_removal_panics:
  assumes "mcListObjects C b s = kept @ ob # obs" and "\<forall>x \<in> set kept. objErr x \<noteq> None \<or> objIsLatest x"
    and "objErr ob = None" "\<not> objIsLatest ob" and "mcRemoveObject C b (objKey ob) (objVersionID ob) s = (s', Err e)"
  shows "VersionCleanUp C b s = (s', Panic ''nil pointer dereference'')"
proof -
  have "clean_versions C b (kept @ ob # obs) s = (s', Panic ''nil pointer dereference'')"
    using assms(2-5) by (induction kept) (auto simp: removeObjectOldVersion_def)
  then show ?thesis by (simp add: VersionCleanUp_def assms(1))
qed

end
