(* ===== verification/EdgeApi.thy ===== *)
theory EdgeApi
  imports EdgeStore ObjectStore
begin

text \<open>
  The handlers of the edge server (\<open>edge/edge.go\<close>) with the state they share: the stores, the two
  sets of collection names of \<open>edge_state_manager.go\<close>, and the object storage. A handler runs in a
  goroutine that turns a panic into an error reply; an error inside becomes a reply with a failed
  status. A handler is one step: it holds no lock across its calls, so the steps of two requests
  on one collection can interleave in the program; that is not modelled.
\<close>

record ('b, 's) edge =
  Space :: "'b spaces"
  Exists :: "(string \<times> bool) list"
  Load :: "(string \<times> bool) list"
  Storage :: 's

definition NewEdge :: "'s \<Rightarrow> ('b, 's) edge" where
  "NewEdge s = \<lparr>Space = [], Exists = [], Load = [], Storage = s\<rparr>"

text \<open>A reply, or one with status false and a message.\<close>

datatype 'r reply = Reply 'r | Failed string

definition recovered :: "'st \<times> 'r gores \<Rightarrow> 'st \<times> 'r reply gores" where
  "recovered sr = (fst sr, case snd sr of Ok r \<Rightarrow> Ok (Reply r) | Err e \<Rightarrow> Ok (Failed e)
     | Panic p \<Rightarrow> Err (''panic '' @ p) | Crash p \<Rightarrow> Crash p)"

subsection \<open>The collections that exist and that are loaded\<close>

definition hasCollection :: "string \<Rightarrow> ('b, 's) edge \<Rightarrow> bool" where
  "hasCollection c st \<longleftrightarrow> map_of (Exists st) c = Some True"

definition alreadyLoadCollection :: "string \<Rightarrow> ('b, 's) edge \<Rightarrow> bool" where
  "alreadyLoadCollection c st \<longleftrightarrow> map_of (Load st) c = Some True"

definition newAuthorizationBucketHelper :: "string \<Rightarrow> ('b, 's) edge \<Rightarrow> ('b, 's) edge" where
  "newAuthorizationBucketHelper c st =
     st\<lparr>Exists := AList.update c True (Exists st), Load := AList.update c True (Load st)\<rparr>"

definition eliminateBucketMemoryHelper :: "string \<Rightarrow> ('b, 's) edge \<Rightarrow> ('b, 's) edge" where
  "eliminateBucketMemoryHelper c st = st\<lparr>Load := AList.delete c (Load st)\<rparr>"

definition destroyBucketHelper :: "string \<Rightarrow> ('b, 's) edge \<Rightarrow> ('b, 's) edge" where
  "destroyBucketHelper c st =
     st\<lparr>Exists := AList.delete c (Exists st), Load := AList.delete c (Load st)\<rparr>"

definition authorization :: "string \<Rightarrow> ('b, 's) edge \<Rightarrow> unit gores" where
  "authorization c st =
     (if \<not> hasCollection c st then Err (''collection: '' @ c @ '' not found'')
      else if \<not> alreadyLoadCollection c st then Err (''collection: '' @ c @ '' is not loaded in memory'')
      else Ok ())"

definition LoadAuthorizationBuckets :: "'s minioClient \<Rightarrow> ('b, 's) edge \<Rightarrow> ('b, 's) edge \<times> unit gores" where
  "LoadAuthorizationBuckets C st =
     st_bind (st, LoadBucketList C (Storage st)) (\<lambda>st buckets.
       (st\<lparr>Exists := fold (\<lambda>b m. AList.update b True m) buckets (Exists st)\<rparr>, Ok ()))"

subsection \<open>Calls on the parts\<close>

definition on_store :: "('b spaces \<Rightarrow> 'b spaces \<times> 'a gores) \<Rightarrow> ('b, 's) edge \<Rightarrow> ('b, 's) edge \<times> 'a gores" where
  "on_store f st = (case f (Space st) of (sps, r) \<Rightarrow> (st\<lparr>Space := sps\<rparr>, r))"

definition on_storage :: "('s \<Rightarrow> 's \<times> 'a gores) \<Rightarrow> ('b, 's) edge \<Rightarrow> ('b, 's) edge \<times> 'a gores" where
  "on_storage f st = (case f (Storage st) of (s, r) \<Rightarrow> (st\<lparr>Storage := s\<rparr>, r))"

definition metaObject :: "string \<Rightarrow> string" where "metaObject c = c @ ''.meta.json''"
definition vertexObject :: "string \<Rightarrow> string" where "vertexObject c = c @ ''.vertex''"
definition invertedObject :: "string \<Rightarrow> string" where "invertedObject c = c @ ''.inverted.raw''"

definition saveMetadataHelper :: "'s minioClient \<Rightarrow> string \<Rightarrow> bytes \<Rightarrow> ('b, 's) edge \<Rightarrow> ('b, 's) edge \<times> unit gores" where
  "saveMetadataHelper C c data = on_storage (PutObject C c (metaObject c) data)"
definition saveVertexHelper :: "'s minioClient \<Rightarrow> string \<Rightarrow> bytes \<Rightarrow> ('b, 's) edge \<Rightarrow> ('b, 's) edge \<times> unit gores" where
  "saveVertexHelper C c data = on_storage (PutObject C c (vertexObject c) data)"
definition saveInvertedIndexHelper :: "'s minioClient \<Rightarrow> string \<Rightarrow> bytes \<Rightarrow> ('b, 's) edge \<Rightarrow> ('b, 's) edge \<times> unit gores" where
  "saveInvertedIndexHelper C c data = on_storage (PutObject C c (invertedObject c) data)"

definition loadMetadataHelper :: "'s minioClient \<Rightarrow> string \<Rightarrow> ('b, 's) edge \<Rightarrow> bytes gores" where
  "loadMetadataHelper C c st = GetObject C c (metaObject c) (Storage st)"
definition loadVertexHelper :: "'s minioClient \<Rightarrow> string \<Rightarrow> ('b, 's) edge \<Rightarrow> bytes gores" where
  "loadVertexHelper C c st = GetObject C c (vertexObject c) (Storage st)"
definition loadInvertedIndexHelper :: "'s minioClient \<Rightarrow> string \<Rightarrow> ('b, 's) edge \<Rightarrow> bytes gores" where
  "loadInvertedIndexHelper C c st = GetObject C c (invertedObject c) (Storage st)"

definition convertBytesMetadata :: "json \<Rightarrow> bytes \<Rightarrow> int gores" where
  "convertBytesMetadata J data = go_bind (junmarshal J data) (\<lambda>md. Ok (metaQuantization md))"

text \<open>An error of the version check is logged and counts as no versioning.\<close>

definition BucketLifeCycleJob :: "'s minioClient \<Rightarrow> string \<Rightarrow> ('b, 's) edge \<Rightarrow> ('b, 's) edge \<times> unit gores" where
  "BucketLifeCycleJob C c st =
     (case IsVersionBucket C c (Storage st) of
        Ok versioning \<Rightarrow> if versioning then on_storage (VersionCleanUp C c) st else (st, Ok ())
      | Err e \<Rightarrow> (st, Ok ())
      | Panic p \<Rightarrow> (st, Panic p)
      | Crash p \<Rightarrow> (st, Crash p))"

text \<open>The save sequence that four handlers share, step by step as in each of them.\<close>

definition save_collection :: "'b edgeEnv \<Rightarrow> 's minioClient \<Rightarrow> string \<Rightarrow> ('b, 's) edge \<Rightarrow>
    ('b, 's) edge \<times> unit gores" where
  "save_collection E C c st =
     st_bind (on_store (SavedMetadata E c) st) (\<lambda>st metaBytes.
     st_bind (saveMetadataHelper C c metaBytes st) (\<lambda>st _.
     st_bind (on_store (SavedVertex c) st) (\<lambda>st vertexBytes.
     st_bind (saveVertexHelper C c vertexBytes st) (\<lambda>st _.
     st_bind (on_store (SavedInverted E c) st) (\<lambda>st indexBytes.
     saveInvertedIndexHelper C c indexBytes st)))))"

subsection \<open>Creating and deleting\<close>

record CollectionReq =
  reqName :: string
  reqIndex :: "ProtoIndex list"
  reqDistance :: int
  reqQuantization :: int
  reqDim :: u32
  reqVersioning :: bool

definition reqMetadata :: "CollectionReq \<Rightarrow> Metadata" where
  "reqMetadata req = \<lparr>Dim = reqDim req, metaDistance = reqDistance req,
     metaQuantization = reqQuantization req, IndexTypes = indexDesignAnalyze (reqIndex req) [],
     Versioning = reqVersioning req\<rparr>"

definition create_body :: "'b edgeEnv \<Rightarrow> 's minioClient \<Rightarrow> CollectionReq \<Rightarrow> ('b, 's) edge \<Rightarrow>
    ('b, 's) edge \<times> unit gores" where
  "create_body E C req st =
     (let c = reqName req in
     st_bind (on_storage (CreateBucket C c) st) (\<lambda>st _.
     st_bind (if reqVersioning req then on_storage (BucketVersioning C c) st else (st, Ok ())) (\<lambda>st _.
     st_bind (on_store (vsCreateCollection c (reqMetadata req)) st) (\<lambda>st _.
     st_bind (save_collection E C c st) (\<lambda>st _.
       (newAuthorizationBucketHelper c st, Ok ()))))))"

text \<open>
  A failure after the first check is cleaned up. A recovered panic leaves a reply without result,
  and the code that looks at the status of the result dereferences nil.
\<close>

definition CreateCollection :: "'b edgeEnv \<Rightarrow> 's minioClient \<Rightarrow> CollectionReq \<Rightarrow> ('b, 's) edge \<Rightarrow>
    ('b, 's) edge \<times> CollectionReq reply gores" where
  "CreateCollection E C req st =
     (let c = reqName req in
      if hasCollection c st then (st, Ok (Failed (''collection: '' @ c @ '' is already exists'')))
      else case create_body E C req st of
        (st', Ok _) \<Rightarrow> (st', Ok (Reply req))
      | (st', Err e) \<Rightarrow>
          let st1 = fst (on_storage (RemoveBucket C c) st');
              st2 = st1\<lparr>Space := DestroySpace c (Space st1)\<rparr> in
          (destroyBucketHelper c st2, Ok (Failed e))
      | (st', Panic p) \<Rightarrow> (st', Panic nil_deref)
      | (st', Crash p) \<Rightarrow> (st', Crash p))"

definition DeleteCollection :: "'s minioClient \<Rightarrow> string \<Rightarrow> ('b, 's) edge \<Rightarrow>
    ('b, 's) edge \<times> unit reply gores" where
  "DeleteCollection C c st = recovered
     (if \<not> hasCollection c st then (st, Ok ())
      else let st1 = destroyBucketHelper c st; st2 = st1\<lparr>Space := DestroySpace c (Space st1)\<rparr> in
           on_storage (RemoveBucket C c) st2)"

subsection \<open>Looking at, loading and releasing\<close>

record CollectionDetail =
  detName :: string
  detIndex :: "ProtoIndex list"
  detDistance :: int
  detQuantization :: int
  detDim :: u32
  detVersioning :: bool
  detSize :: u32
  detMemory :: u64
  detLoad :: bool

definition collection_detail :: "string \<Rightarrow> ('b, 's) edge \<Rightarrow> ('b, 's) edge \<times> CollectionDetail gores" where
  "collection_detail c st =
     st_bind (on_store (vsIndexer c) st) (\<lambda>st ix.
     st_bind (on_store (vsDistance c) st) (\<lambda>st dist.
     st_bind (on_store (vsQuantization c) st) (\<lambda>st q.
     st_bind (on_store (vsDim c) st) (\<lambda>st dim.
     st_bind (on_store (vsVersional c) st) (\<lambda>st ver.
     st_bind (on_store (vsLoadSize c) st) (\<lambda>st size.
       (st, Ok \<lparr>detName = c, detIndex = reverseIndexDesign ix, detDistance = dist, detQuantization = q,
          detDim = dim, detVersioning = ver, detSize = ucast size, detMemory = size, detLoad = True\<rparr>)))))))"

definition GetCollection :: "string \<Rightarrow> ('b, 's) edge \<Rightarrow> ('b, 's) edge \<times> CollectionDetail reply gores" where
  "GetCollection c st = recovered
     (if \<not> hasCollection c st then (st, Err (''collection: '' @ c @ '' not found''))
      else if is_Ok (authorization c st) then collection_detail c st
      else (st, Ok \<lparr>detName = c, detIndex = [], detDistance = 0, detQuantization = 0, detDim = 0,
          detVersioning = False, detSize = 0, detMemory = 0, detLoad = False\<rparr>))"

definition LoadCollection :: "'b edgeEnv \<Rightarrow> 's minioClient \<Rightarrow> string \<Rightarrow> ('b, 's) edge \<Rightarrow>
    ('b, 's) edge \<times> CollectionDetail reply gores" where
  "LoadCollection E C c st = recovered
     (if \<not> hasCollection c st then (st, Err (''collection: '' @ c @ '' not found''))
      else if is_Ok (authorization c st) then collection_detail c st
      else
        st_bind (st, loadMetadataHelper C c st) (\<lambda>st metadata.
        st_bind (st, convertBytesMetadata (envJ E) metadata) (\<lambda>st quantization.
        let st = st\<lparr>Space := FillEmpty c quantization (Space st)\<rparr> in
        st_bind (on_store (LoadedMetadata E c metadata) st) (\<lambda>st _.
        st_bind (st, loadInvertedIndexHelper C c st) (\<lambda>st invertedIndex.
        st_bind (on_store (LoadedInverted E c invertedIndex) st) (\<lambda>st _.
        st_bind (st, loadVertexHelper C c st) (\<lambda>st vertexdata.
        st_bind (on_store (LoadedVertex c vertexdata) st) (\<lambda>st _.
        st_bind (BucketLifeCycleJob C c (newAuthorizationBucketHelper c st)) (\<lambda>st _.
        collection_detail c st)))))))))"

definition ReleaseCollection :: "'b edgeEnv \<Rightarrow> 's minioClient \<Rightarrow> string \<Rightarrow> ('b, 's) edge \<Rightarrow>
    ('b, 's) edge \<times> unit reply gores" where
  "ReleaseCollection E C c st = recovered
     (if \<not> hasCollection c st then (st, Err (''collection: '' @ c @ '' not found''))
      else if \<not> alreadyLoadCollection c st then (st, Ok ())
      else st_bind (save_collection E C c (eliminateBucketMemoryHelper c st)) (\<lambda>st _.
        (st\<lparr>Space := DestroySpace c (Space st)\<rparr>, Ok ())))"

definition Flush :: "'b edgeEnv \<Rightarrow> 's minioClient \<Rightarrow> string \<Rightarrow> ('b, 's) edge \<Rightarrow>
    ('b, 's) edge \<times> unit reply gores" where
  "Flush E C c st = recovered
     (st_bind (st, authorization c st) (\<lambda>st _. save_collection E C c st))"

subsection \<open>Changing and searching\<close>

text \<open>\<open>commitID\<close> is the id that the generator gives for this request.\<close>

definition Index :: "'b edgeEnv \<Rightarrow> u64 \<Rightarrow> string \<Rightarrow> int \<Rightarrow> string \<Rightarrow> gmeta \<Rightarrow> vec \<Rightarrow> ('b, 's) edge \<Rightarrow>
    ('b, 's) edge \<times> unit reply gores" where
  "Index E commitID c changed primaryKey metadata vectors st = recovered
     (st_bind (st, authorization c st) (\<lambda>st _.
        if changed = 0 then on_store (vsChangedVertex E c primaryKey commitID metadata vectors) st
        else if changed = 1 then on_store (vsRemoveVertex E c metadata) st
        else (st, Err ''unsupported changed type'')))"

definition scoreHelper :: "f32 \<Rightarrow> bool \<Rightarrow> f32" where
  "scoreHelper score cosine =
     (if cosine then f32_mul (f32_div (f32_sub 0x40000000 score) 0x40000000) 0x42c80000
      else let d = f32_sub 0x42c80000 score in
        if f32_nan d then 0x7fc00000 else if f32_lt 0 d then d else 0)"

record Candidate =
  candMetadata :: gmeta
  candScore :: f32

text \<open>
  \<open>newStruct\<close> stands for \<open>structpb.NewStruct\<close> of the protobuf library, which refuses some values.
\<close>

definition candidates :: "(gmeta \<Rightarrow> gmeta gores) \<Rightarrow> bool \<Rightarrow> item list \<Rightarrow> Candidate list gores" where
  "candidates newStruct cosine items =
     go_map (\<lambda>it. go_bind (newStruct (itemMetadata it)) (\<lambda>m.
       Ok \<lparr>candMetadata = m, candScore = scoreHelper (Score it) cosine\<rparr>)) items"

definition Search :: "'b edgeEnv \<Rightarrow> (gmeta \<Rightarrow> gmeta gores) \<Rightarrow> string \<Rightarrow> ProtoExpr \<Rightarrow> u64 \<Rightarrow> u64 \<Rightarrow> vec \<Rightarrow>
    bool \<Rightarrow> ('b, 's) edge \<Rightarrow> ('b, 's) edge \<times> Candidate list reply gores" where
  "Search E newStruct c filterExpression limit offset v highCpu st = recovered
     (st_bind (st, authorization c st) (\<lambda>st _.
      st_bind (st, queryExprAnalyzer filterExpression) (\<lambda>st expr.
      st_bind (if expr = NilExpression then on_store (vsVertexSearch E c (limit + offset) v highCpu) st
               else on_store (vsFilterableVertexSearch E c expr (limit + offset) v highCpu) st) (\<lambda>st items.
      st_bind (on_store (vsDistance c) st) (\<lambda>st dist.
        (st, candidates newStruct (dist = Distance_Cosine) items))))))"

subsection \<open>Shutting down\<close>

text \<open>
  \<open>Close\<close> logs an error of a save and goes on: what a failed save returns is no bytes, and these
  are put into the storage.
\<close>

definition saved_or_empty :: "('b spaces \<Rightarrow> 'b spaces \<times> bytes gores) \<Rightarrow> ('b, 's) edge \<Rightarrow> ('b, 's) edge \<times> bytes gores" where
  "saved_or_empty f st =
     (case on_store f st of (st', Err e) \<Rightarrow> (st', Ok []) | r \<Rightarrow> r)"

definition logged :: "('b, 's) edge \<times> unit gores \<Rightarrow> ('b, 's) edge \<times> unit gores" where
  "logged sr = (case sr of (st', Err e) \<Rightarrow> (st', Ok ()) | r \<Rightarrow> r)"

definition close_collection :: "'b edgeEnv \<Rightarrow> 's minioClient \<Rightarrow> string \<Rightarrow> ('b, 's) edge \<Rightarrow>
    ('b, 's) edge \<times> unit gores" where
  "close_collection E C c st =
     st_bind (saved_or_empty (SavedMetadata E c) st) (\<lambda>st metaBytes.
     st_bind (logged (saveMetadataHelper C c metaBytes st)) (\<lambda>st _.
     st_bind (saved_or_empty (SavedVertex c) st) (\<lambda>st vertexBytes.
     st_bind (logged (saveVertexHelper C c vertexBytes st)) (\<lambda>st _.
     st_bind (saved_or_empty (SavedInverted E c) st) (\<lambda>st indexBytes.
     logged (saveInvertedIndexHelper C c indexBytes st))))))"

fun close_all :: "'b edgeEnv \<Rightarrow> 's minioClient \<Rightarrow> (string \<times> bool) list \<Rightarrow> ('b, 's) edge \<Rightarrow>
    ('b, 's) edge \<times> unit gores" where
  "close_all E C [] st = (st, Ok ())"
| "close_all E C ((col, status) # cols) st =
     st_bind (if status then close_collection E C col st else (st, Ok ())) (\<lambda>st _. close_all E C cols st)"

definition Close :: "'b edgeEnv \<Rightarrow> 's minioClient \<Rightarrow> ('b, 's) edge \<Rightarrow> ('b, 's) edge \<times> unit gores" where
  "Close E C st = close_all E C (Load st) st"

end
