(* ===== verification/EdgeCorrect.thy ===== *)
theory EdgeCorrect
  imports EdgeApi
begin

text \<open>
  What holds in every state the edge server can reach, and what its handlers do to a collection:
  a request touches no other collection, a loaded collection has a store in operation, a released
  collection is loaded again as it was.
\<close>

subsection \<open>A request touches one collection\<close>

definition others :: "string \<Rightarrow> ('b, 's) edge \<Rightarrow> ('b, 's) edge \<Rightarrow> bool" where
  "others c st st' \<longleftrightarrow> (\<forall>d. d \<noteq> c \<longrightarrow> map_of (Space st') d = map_of (Space st) d \<and>
     map_of (Exists st') d = map_of (Exists st) d \<and> map_of (Load st') d = map_of (Load st) d)"

lemma others_refl [simp, intro]: "others c st st"
  by (simp add: others_def)

lemma others_trans: "others c st st1 \<Longrightarrow> others c st1 st2 \<Longrightarrow> others c st st2"
  by (simp add: others_def)

lemma others_bind:
  assumes m: "others c st (fst m)" and f: "\<And>st' a. others c st st' \<Longrightarrow> others c st (fst (f st' a))"
  shows "others c st (fst (st_bind m f))"
  using m f by (cases m; cases "snd m") auto

lemma others_on_storage [intro]: "others c st st' \<Longrightarrow> others c st (fst (on_storage f st'))"
  by (auto simp: on_storage_def others_def split: prod.split)

lemma call_space_other: "d \<noteq> c \<Longrightarrow> map_of (fst (call_space c f sps)) d = map_of sps d"
  by (auto simp: call_space_def split: option.split prod.split)

lemma others_call [intro]: "others c st st' \<Longrightarrow> others c st (fst (on_store (call_space c f) st'))"
  using call_space_other [of _ c f "Space st'"]
  by (simp add: on_store_def others_def split: prod.split) (metis fst_conv)

lemma others_helpers [intro]:
  "others c st st' \<Longrightarrow> others c st (newAuthorizationBucketHelper c st')"
  "others c st st' \<Longrightarrow> others c st (destroyBucketHelper c st')"
  "others c st st' \<Longrightarrow> others c st (eliminateBucketMemoryHelper c st')"
  "others c st st' \<Longrightarrow> others c st (st'\<lparr>Space := DestroySpace c (Space st')\<rparr>)"
  "others c st st' \<Longrightarrow> others c st (st'\<lparr>Space := FillEmpty c q (Space st')\<rparr>)"
  "others c st st' \<Longrightarrow> others c st (fst (BucketLifeCycleJob C c st'))"
  by (auto simp: others_def on_storage_def newAuthorizationBucketHelper_def destroyBucketHelper_def
      eliminateBucketMemoryHelper_def DestroySpace_def FillEmpty_def BucketLifeCycleJob_def
      split: gores.splits prod.splits)

lemma others_create [intro]:
  "others c st st' \<Longrightarrow> others c st (fst (on_store (vsCreateCollection c md) st'))"
  by (auto simp: on_store_def vsCreateCollection_def others_def Let_def split: prod.splits if_splits)

named_theorems vs_calls \<open>the operations that go through call_space\<close>

lemmas [vs_calls] = vsQuantization_def vsDistance_def vsDim_def vsLoadSize_def vsIndexer_def
  vsVersional_def SavedMetadata_def SavedVertex_def SavedInverted_def LoadedMetadata_def
  LoadedVertex_def LoadedInverted_def vsChangedVertex_def vsRemoveVertex_def vsVertexSearch_def
  vsFilterableVertexSearch_def

lemma fst_recovered [simp]: "fst (recovered sr) = fst sr"
  by (simp add: recovered_def)

lemmas helper_defs = saveMetadataHelper_def saveVertexHelper_def saveInvertedIndexHelper_def

lemma others_save [intro]: "others c st st' \<Longrightarrow> others c st (fst (save_collection E C c st'))"
  unfolding save_collection_def helper_defs vs_calls
  by (intro others_bind others_call others_on_storage)

text \<open>The handlers.\<close>

lemma others_detail [intro]: "others c st st' \<Longrightarrow> others c st (fst (collection_detail c st'))"
  unfolding collection_detail_def vs_calls by (intro others_bind others_call) simp_all

lemma others_create_body: "others (reqName req) st st' \<Longrightarrow> others (reqName req) st (fst (create_body E C req st'))"
  unfolding create_body_def Let_def
  by (intro others_bind others_create others_on_storage others_save) (auto intro: others_on_storage)

lemma handlers_local:
  "others (reqName req) st (fst (CreateCollection E C req st))"
  "others c st (fst (DeleteCollection C c st))"
  "others c st (fst (GetCollection c st))"
  "others c st (fst (LoadCollection E C c st))"
  "others c st (fst (ReleaseCollection E C c st))"
  "others c st (fst (Flush E C c st))"
  "others c st (fst (Index E i c chg pk md v st))"
  "others c st (fst (Search E newStruct c e lim off v hc st))"
proof -
  obtain st' r where b: "create_body E C req st = (st', r)" by fastforce
  have o: "others (reqName req) st st'" using others_create_body [of req st st E C] b by simp
  show "others (reqName req) st (fst (CreateCollection E C req st))"
    using o by (cases r) (auto simp: CreateCollection_def Let_def b)
  show "others c st (fst (DeleteCollection C c st))"
    by (auto simp: DeleteCollection_def Let_def)
  show "others c st (fst (GetCollection c st))"
    by (auto simp: GetCollection_def)
  show "others c st (fst (LoadCollection E C c st))"
  proof (cases "\<not> hasCollection c st \<or> is_Ok (authorization c st)")
    case False
    then show ?thesis
      by (simp add: LoadCollection_def Let_def vs_calls)
        (intro others_bind others_call others_detail others_helpers; simp)
  qed (auto simp: LoadCollection_def)
  show "others c st (fst (ReleaseCollection E C c st))"
    by (auto simp: ReleaseCollection_def intro!: others_bind others_save)
  show "others c st (fst (Flush E C c st))"
    by (auto simp: Flush_def intro!: others_bind others_save)
  show "others c st (fst (Index E i c chg pk md v st))"
    by (auto simp: Index_def vs_calls intro!: others_bind)
  show "others c st (fst (Search E newStruct c e lim off v hc st))"
    unfolding Search_def vs_calls fst_recovered by (intro others_bind) auto
qed

subsection \<open>Stores in operation\<close>

definition ready :: "('e, 'b) vecspace \<Rightarrow> bool" where
  "ready sp \<longleftrightarrow> locksReady sp \<and> spaceDist sp \<noteq> None \<and> invIndex sp \<noteq> None \<and>
     length (vertices sp) = EDGE_MAP_SHARD_COUNT"

fun any_ready :: "'b anyspace \<Rightarrow> bool" where
  "any_ready (NoneSpace sp) = ready sp" | "any_ready (F16Space sp) = ready sp"
| "any_ready (F8Space sp) = ready sp" | "any_ready (BF16Space sp) = ready sp"

text \<open>An operation that keeps a store in operation, whatever it returns.\<close>

definition keeps :: "('e \<Rightarrow> bool) \<Rightarrow> ('e \<Rightarrow> 'e \<times> 'r) \<Rightarrow> bool" where
  "keeps P f \<longleftrightarrow> (\<forall>e. P e \<longrightarrow> P (fst (f e)))"

lemma keeps_asking [simp, intro]: "keeps P (asking f)"
  by (simp add: keeps_def asking_def)

lemma ready_bind:
  "ready (fst m) \<Longrightarrow> (\<And>e a. ready e \<Longrightarrow> ready (fst (f e a))) \<Longrightarrow> ready (fst (st_bind m f))"
  by (cases m; cases "snd m") auto

lemma ready_with_index [intro]: "ready sp \<Longrightarrow> ready (fst (with_index f sp))"
  by (auto simp: with_index_def ready_def split: option.split prod.split)

lemma ready_resolve [intro]: "ready sp \<Longrightarrow> ready (fst (resolveCommitId R u i sp))"
  unfolding resolveCommitId_def by (auto intro!: ready_bind)

lemma ready_index_ops [intro]:
  "ready sp \<Longrightarrow> ready (fst (index_Add R i md sp))" "ready sp \<Longrightarrow> ready (fst (index_Remove R i md sp))"
  "ready sp \<Longrightarrow> ready (fst (index_Search R e sp))"
  by (auto simp: index_Add_def index_Remove_def index_Search_def)

lemma ready_vertices [simp]:
  "ready (sp\<lparr>vertices := put_vertex i n (vertices sp)\<rparr>) = ready sp"
  "ready (sp\<lparr>vertices := del_vertex i (vertices sp)\<rparr>) = ready sp"
  by (simp_all add: ready_def put_vertex_def del_vertex_def)

lemma ready_locks [intro]:
  "ready sp \<Longrightarrow> ready (hold_vertices s sp)" "ready sp \<Longrightarrow> ready (left_vertices s sp)"
  "ready sp \<Longrightarrow> ready (fst (lock_vertices s sp))"
  by (simp_all add: ready_def hold_vertices_def left_vertices_def lock_vertices_def)

lemma ready_ChangedVertex: "keeps ready (ChangedVertex Q R u i v md)"
proof -
  have "ready (fst (ChangedVertex Q R u i v md sp))" if "ready sp" for sp
    unfolding ChangedVertex_def
    by (rule ready_bind, rule ready_resolve [OF that])
      (auto intro!: ready_bind simp: Let_def split: option.split)
  then show ?thesis by (simp add: keeps_def)
qed

lemma ready_drop_ids:
  fixes sp :: "('e, 'b) vecspace"
  shows "ready sp \<Longrightarrow> ready (fst (drop_ids R is sp))"
proof (induction "is" arbitrary: sp)
  case (Cons i "is")
  have "ready (fst (case index_Remove R i md sp of (sp, Panic p) \<Rightarrow> (hold_vertices s sp, Panic p)
      | (sp, Crash p) \<Rightarrow> (hold_vertices s sp, Crash p)
      | (sp, _) \<Rightarrow> drop_ids R is (sp\<lparr>vertices := del_vertex i (vertices sp)\<rparr>)))" if "ready sp"
    for sp :: "('e, 'b) vecspace" and s md
  proof -
    obtain sp1 r where x: "index_Remove R i md sp = (sp1, r)" by fastforce
    have "ready sp1" using ready_index_ops(2) [OF that, of R i md] x by simp
    then show ?thesis using x Cons.IH by (cases r) auto
  qed
  then show ?case unfolding drop_ids.simps using ready_locks(3) [OF Cons.prems] by (intro ready_bind) auto
qed simp

lemma ready_RemoveVertex: "keeps ready (RemoveVertex R df)"
  unfolding keeps_def RemoveVertex_def
  by (intro allI impI ready_bind ready_drop_ids ready_with_index) simp_all

lemma ready_in_turn: "ready sp \<Longrightarrow> ready (fst (scan_in_turn f sns sp))"
  by (induction sns arbitrary: sp) (auto split: gores.split intro!: ready_bind)

lemma ready_scan [intro]: "ready sp \<Longrightarrow> ready (fst (scan_shards hc f sns sp))"
  by (simp add: scan_shards_def ready_in_turn)

lemma ready_VertexSearch: "keeps ready (VertexSearch Q impl v k hc)"
  unfolding keeps_def VertexSearch_def
  by (intro allI impI) (auto split: option.split intro!: ready_bind)

lemma ready_Filterable: "keeps ready (FilterableVertexSearch sh il Q R impl e v k hc)"
  unfolding keeps_def FilterableVertexSearch_def
  by (intro allI impI) (auto split: option.split intro!: ready_bind)

lemma ready_SaveVertexInverted: "keeps ready (SaveVertexInverted R)"
  by (auto simp: keeps_def SaveVertexInverted_def)

lemma keeps_on_space:
  "keeps ready fn \<Longrightarrow> keeps ready f16 \<Longrightarrow> keeps ready f8 \<Longrightarrow> keeps ready fb \<Longrightarrow>
   keeps any_ready (on_space fn f16 f8 fb)"
  unfolding keeps_def
proof (intro allI impI)
  fix e :: "'a anyspace"
  assume "\<forall>e. ready e \<longrightarrow> ready (fst (fn e))" "\<forall>e. ready e \<longrightarrow> ready (fst (f16 e))"
    "\<forall>e. ready e \<longrightarrow> ready (fst (f8 e))" "\<forall>e. ready e \<longrightarrow> ready (fst (fb e))" "any_ready e"
  then show "any_ready (fst (on_space fn f16 f8 fb e))"
    by (cases e) (simp_all add: case_prod_beta)
qed

lemmas four_stores = none_ChangedVertex_def f16_ChangedVertex_def f8_ChangedVertex_def
  bf16_ChangedVertex_def none_RemoveVertex_def f16_RemoveVertex_def f8_RemoveVertex_def
  bf16_RemoveVertex_def none_VertexSearch_def f16_VertexSearch_def f8_VertexSearch_def
  bf16_VertexSearch_def none_FilterableVertexSearch_def f16_FilterableVertexSearch_def
  f8_FilterableVertexSearch_def bf16_FilterableVertexSearch_def

definition space_ready :: "string \<Rightarrow> ('b, 's) edge \<Rightarrow> bool" where
  "space_ready c st \<longleftrightarrow> (\<exists>sp. map_of (Space st) c = Some sp \<and> any_ready sp)"

lemma space_ready_call: "keeps any_ready f \<Longrightarrow> space_ready c st \<Longrightarrow> space_ready c (fst (on_store (call_space c f) st))"
  by (auto simp: space_ready_def on_store_def call_space_def keeps_def split: prod.splits) (metis fst_conv)

text \<open>A collection that is loaded exists and has a store in operation.\<close>

definition coll_ok :: "string \<Rightarrow> ('b, 's) edge \<Rightarrow> bool" where
  "coll_ok c st \<longleftrightarrow> (alreadyLoadCollection c st \<longrightarrow> hasCollection c st \<and> space_ready c st)"

definition edge_inv :: "('b, 's) edge \<Rightarrow> bool" where
  "edge_inv st \<longleftrightarrow> (\<forall>c. coll_ok c st)"

lemma coll_ok_call: "keeps any_ready f \<Longrightarrow> coll_ok d st \<Longrightarrow> coll_ok d (fst (on_store (call_space c f) st))"
  using space_ready_call [of f c st] call_space_other [of d c f "Space st"]
  by (cases "d = c") (auto simp: coll_ok_def on_store_def alreadyLoadCollection_def hasCollection_def space_ready_def
      split: prod.splits)

lemma coll_ok_storage: "coll_ok c st \<Longrightarrow> coll_ok c (fst (on_storage f st))"
  by (auto simp: coll_ok_def on_storage_def alreadyLoadCollection_def hasCollection_def space_ready_def
      split: prod.splits)

lemma edge_inv_local: "edge_inv st \<Longrightarrow> others c st st' \<Longrightarrow> coll_ok c st' \<Longrightarrow> edge_inv st'"
  unfolding edge_inv_def
proof (intro allI)
  fix d
  assume "\<forall>c. coll_ok c st" and o: "others c st st'" and c: "coll_ok c st'"
  then have "coll_ok d st" by blast
  then show "coll_ok d st'"
    using o c by (cases "d = c") (auto simp: others_def coll_ok_def alreadyLoadCollection_def
        hasCollection_def space_ready_def)
qed

subsection \<open>Saving a collection\<close>

lemma clean_simps [simp]: "clean (Ok a)" "clean (Err e)" "\<not> clean (Panic p)" "\<not> clean (Crash p)"
  by (simp_all add: clean_def)

definition same_edge :: "('b, 's) edge \<Rightarrow> ('b, 's) edge \<Rightarrow> bool" where
  "same_edge st st' \<longleftrightarrow> map_of (Space st') = map_of (Space st) \<and> Exists st' = Exists st \<and>
     Load st' = Load st \<and> Storage st' = Storage st"

definition saved_meta :: "'b edgeEnv \<Rightarrow> 'b anyspace \<Rightarrow> bytes gores" where
  "saved_meta E sp = snd (on_space (asking (SaveVertexMetadata (envJ E))) (asking (SaveVertexMetadata (envJ E)))
     (asking (SaveVertexMetadata (envJ E))) (asking (SaveVertexMetadata (envJ E))) sp)"

definition saved_vertices :: "'b anyspace \<Rightarrow> bytes gores" where
  "saved_vertices sp = snd (on_space (asking none_SaveVertex) (asking f16_SaveVertex) (asking f8_SaveVertex)
     (asking bf16_SaveVertex) sp)"

definition saved_index :: "'b edgeEnv \<Rightarrow> 'b anyspace \<Rightarrow> bytes gores" where
  "saved_index E sp = snd (on_space (SaveVertexInverted (envR E)) (SaveVertexInverted (envR E))
     (SaveVertexInverted (envR E)) (SaveVertexInverted (envR E)) sp)"

lemma on_space_asking: "fst (on_space (asking a) (asking b) (asking c) (asking d) sp) = sp"
  by (cases sp) (simp_all add: asking_def)

lemma ask_call:
  assumes f: "\<And>sp. fst (f sp) = sp"
  shows "\<exists>st1. on_store (call_space c f) st =
      (st1, case map_of (Space st) c of None \<Rightarrow> Panic nil_deref | Some sp \<Rightarrow> snd (f sp)) \<and> same_edge st st1"
proof (cases "map_of (Space st) c")
  case (Some sp)
  then have "(map_of (Space st))(c \<mapsto> sp) = map_of (Space st)" by auto
  then show ?thesis using f [of sp] Some
    by (auto simp: on_store_def call_space_def same_edge_def split: prod.split)
qed (auto simp: on_store_def call_space_def same_edge_def)

lemma SerializeBinary_clean_same: "clean (snd (SerializeBinary R idx)) \<Longrightarrow> fst (SerializeBinary R idx) = idx"
  by (auto simp: SerializeBinary_def clean_def split: gores.splits)

lemma SaveVertexInverted_same:
  "clean (snd (SaveVertexInverted R sp)) \<Longrightarrow> fst (SaveVertexInverted R sp) = sp"
  using SerializeBinary_clean_same [of R] by (auto simp: SaveVertexInverted_def with_index_def split: option.splits prod.splits)
    (metis (no_types, lifting) fst_conv snd_conv vecspace.surjective vecspace.update_convs(8))

text \<open>A call that asks a store for bytes: it changes nothing, unless it never comes back.\<close>

definition asks_for :: "('b anyspace \<Rightarrow> 'a gores) \<Rightarrow> ('b spaces \<Rightarrow> 'b spaces \<times> 'a gores) \<Rightarrow> string \<Rightarrow> ('b, 's) edge \<Rightarrow> bool" where
  "asks_for h g c st \<longleftrightarrow> (let r = (case map_of (Space st) c of None \<Rightarrow> Panic nil_deref | Some sp \<Rightarrow> h sp) in
     \<exists>st1. on_store g st = (st1, r) \<and> (clean r \<longrightarrow> same_edge st st1))"

lemma ask_call_clean:
  assumes f: "\<And>sp. clean (snd (f sp)) \<Longrightarrow> fst (f sp) = sp"
  shows "asks_for (\<lambda>sp. snd (f sp)) (call_space c f) c st"
proof (cases "map_of (Space st) c")
  case (Some sp)
  then have "(map_of (Space st))(c \<mapsto> sp) = map_of (Space st)" by auto
  then show ?thesis using f [of sp] Some
    by (auto simp: asks_for_def on_store_def call_space_def same_edge_def split: prod.split)
qed (auto simp: asks_for_def on_store_def call_space_def same_edge_def)

lemma on_space_SaveVertexInverted:
  "clean (snd (on_space (SaveVertexInverted R) (SaveVertexInverted R) (SaveVertexInverted R) (SaveVertexInverted R) sp)) \<Longrightarrow>
   fst (on_space (SaveVertexInverted R) (SaveVertexInverted R) (SaveVertexInverted R) (SaveVertexInverted R) sp) = sp"
  by (cases sp) (simp_all add: case_prod_beta SaveVertexInverted_same)

lemma ask_saved:
  "asks_for (saved_meta E) (SavedMetadata E c) c st" "asks_for saved_vertices (SavedVertex c) c st"
  "asks_for (saved_index E) (SavedInverted E c) c st"
  unfolding vs_calls saved_meta_def [abs_def] saved_vertices_def [abs_def] saved_index_def [abs_def]
  by (rule ask_call_clean; simp add: on_space_asking on_space_SaveVertexInverted)+

text \<open>What a state becomes by saving: only the storage changes.\<close>

definition stored_edge :: "('b, 's) edge \<Rightarrow> 's \<Rightarrow> ('b, 's) edge \<Rightarrow> bool" where
  "stored_edge st s st' \<longleftrightarrow> map_of (Space st') = map_of (Space st) \<and> Exists st' = Exists st \<and>
     Load st' = Load st \<and> Storage st' = s"

lemma st_bind_OkE:
  assumes "st_bind m f = (st', Ok b)"
  obtains st1 a where "m = (st1, Ok a)" "f st1 a = (st', Ok b)"
  using assms by (cases m; cases "snd m") auto

lemma on_storage_OkE:
  assumes "on_storage f st = (st', Ok a)"
  obtains s where "f (Storage st) = (s, Ok a)" "st' = st\<lparr>Storage := s\<rparr>"
  using assms by (auto simp: on_storage_def split: prod.splits)

lemma ask_OkE:
  assumes "on_store g st = (st', Ok a)" and "asks_for h g c st"
  obtains sp where "map_of (Space st) c = Some sp" "h sp = Ok a" "same_edge st st'"
  using assms by (cases "map_of (Space st) c") (auto simp: asks_for_def Let_def, metis clean_simps(1))

lemma save_collection_Ok:
  assumes s: "save_collection E C c st = (st', Ok ())"
  shows "\<exists>sp mb vb ib s1 s2 s3. map_of (Space st) c = Some sp \<and>
    saved_meta E sp = Ok mb \<and> saved_vertices sp = Ok vb \<and> saved_index E sp = Ok ib \<and>
    PutObject C c (metaObject c) mb (Storage st) = (s1, Ok ()) \<and>
    PutObject C c (vertexObject c) vb s1 = (s2, Ok ()) \<and>
    PutObject C c (invertedObject c) ib s2 = (s3, Ok ()) \<and> stored_edge st s3 st'"
proof -
  obtain st1 mb st2 st3 vb st4 st5 ib where 1: "on_store (SavedMetadata E c) st = (st1, Ok mb)"
    and 2: "saveMetadataHelper C c mb st1 = (st2, Ok ())" and 3: "on_store (SavedVertex c) st2 = (st3, Ok vb)"
    and 4: "saveVertexHelper C c vb st3 = (st4, Ok ())" and 5: "on_store (SavedInverted E c) st4 = (st5, Ok ib)"
    and 6: "saveInvertedIndexHelper C c ib st5 = (st', Ok ())"
    using s unfolding save_collection_def by (elim st_bind_OkE) simp
  obtain sp where sp: "map_of (Space st) c = Some sp" "saved_meta E sp = Ok mb" "same_edge st st1"
    by (rule ask_OkE [OF 1 ask_saved(1)])
  obtain s1 where s1: "PutObject C c (metaObject c) mb (Storage st1) = (s1, Ok ())" "st2 = st1\<lparr>Storage := s1\<rparr>"
    using 2 unfolding saveMetadataHelper_def by (rule on_storage_OkE)
  obtain sp2 where sp2: "map_of (Space st2) c = Some sp2" "saved_vertices sp2 = Ok vb" "same_edge st2 st3"
    by (rule ask_OkE [OF 3 ask_saved(2)])
  obtain s2 where s2: "PutObject C c (vertexObject c) vb (Storage st3) = (s2, Ok ())" "st4 = st3\<lparr>Storage := s2\<rparr>"
    using 4 unfolding saveVertexHelper_def by (rule on_storage_OkE)
  obtain sp3 where sp3: "map_of (Space st4) c = Some sp3" "saved_index E sp3 = Ok ib" "same_edge st4 st5"
    by (rule ask_OkE [OF 5 ask_saved(3)])
  obtain s3 where s3: "PutObject C c (invertedObject c) ib (Storage st5) = (s3, Ok ())" "st' = st5\<lparr>Storage := s3\<rparr>"
    using 6 unfolding saveInvertedIndexHelper_def by (rule on_storage_OkE)
  have "sp2 = sp" "sp3 = sp" using sp sp2 sp3 s1(2) s2(2) by (simp_all add: same_edge_def)
  moreover have "Storage st1 = Storage st" "Storage st3 = s1" "Storage st5 = s2" "stored_edge st s3 st'"
    using sp(3) sp2(3) sp3(3) s1(2) s2(2) s3(2) by (simp_all add: same_edge_def stored_edge_def)
  ultimately show ?thesis using sp sp2(2) sp3(2) s1(1) s2(1) s3(1) by auto
qed

definition same_colls :: "('b, 's) edge \<Rightarrow> ('b, 's) edge \<Rightarrow> bool" where
  "same_colls st st' \<longleftrightarrow> map_of (Space st') = map_of (Space st) \<and> Exists st' = Exists st \<and> Load st' = Load st"

lemma same_colls_trans: "same_colls st st1 \<Longrightarrow> same_colls st1 st2 \<Longrightarrow> same_colls st st2"
  by (simp add: same_colls_def)

lemma same_colls_refl [simp]: "same_colls st st"
  by (simp add: same_colls_def)

text \<open>A call that keeps the marks of all collections, and their stores unless it does not come back.\<close>

definition quiet :: "('b, 's) edge \<Rightarrow> ('b, 's) edge \<times> 'a gores \<Rightarrow> bool" where
  "quiet st m \<longleftrightarrow> Exists (fst m) = Exists st \<and> Load (fst m) = Load st \<and> (clean (snd m) \<longrightarrow> same_colls st (fst m))"

lemma quiet_bind:
  "quiet st m \<Longrightarrow> (\<And>st1 a. same_colls st st1 \<Longrightarrow> quiet st (f st1 a)) \<Longrightarrow> quiet st (st_bind m f)"
  by (cases m; cases "snd m") (auto simp: quiet_def)

lemma on_store_fields [simp]:
  "Load (fst (on_store f st)) = Load st" "Exists (fst (on_store f st)) = Exists st"
  "Storage (fst (on_store f st)) = Storage st"
  by (simp_all add: on_store_def split: prod.split)

lemma quiet_ask: "asks_for h g c st1 \<Longrightarrow> same_colls st st1 \<Longrightarrow> quiet st (on_store g st1)"
  by (auto simp: asks_for_def quiet_def same_colls_def same_edge_def Let_def split: option.splits)

lemma quiet_storage: "same_colls st st1 \<Longrightarrow> quiet st (on_storage g st1)"
  by (auto simp: quiet_def same_colls_def on_storage_def split: prod.split)

lemma save_collection_quiet: "quiet st (save_collection E C c st)"
  unfolding save_collection_def helper_defs
  by (intro quiet_bind quiet_ask [OF ask_saved(1)] quiet_ask [OF ask_saved(2)] quiet_ask [OF ask_saved(3)]
      quiet_storage same_colls_refl; assumption)

lemma save_collection_state:
  assumes "save_collection E C c st = (st', r)" "clean r"
  shows "same_colls st st'"
  using save_collection_quiet [of st E C c] assms by (simp add: quiet_def)

subsection \<open>The invariant is kept\<close>

lemma coll_ok_same: "same_colls st st' \<Longrightarrow> coll_ok c st \<Longrightarrow> coll_ok c st'"
  by (simp add: same_colls_def coll_ok_def alreadyLoadCollection_def hasCollection_def space_ready_def)

lemma coll_ok_bind:
  "coll_ok c (fst m) \<Longrightarrow> (\<And>st1 a. coll_ok c st1 \<Longrightarrow> coll_ok c (fst (f st1 a))) \<Longrightarrow> coll_ok c (fst (st_bind m f))"
  by (cases m; cases "snd m") auto

lemma coll_ok_unloaded: "\<not> alreadyLoadCollection c st \<Longrightarrow> coll_ok c st"
  by (simp add: coll_ok_def)

lemma keeps_calls [intro]:
  "keeps any_ready (on_space (asking a) (asking b) (asking d) (asking e))"
  "keeps any_ready (on_space (none_ChangedVertex R u i v md) (f16_ChangedVertex R u i v md)
     (f8_ChangedVertex R u i v md) (bf16_ChangedVertex R u i v md))"
  "keeps any_ready (on_space (none_RemoveVertex R df) (f16_RemoveVertex R df)
     (f8_RemoveVertex R df) (bf16_RemoveVertex R df))"
  "keeps any_ready (on_space (none_VertexSearch im v k hc) (f16_VertexSearch im v k hc)
     (f8_VertexSearch im v k hc) (bf16_VertexSearch im v k hc))"
  "keeps any_ready (on_space (SaveVertexInverted R) (SaveVertexInverted R) (SaveVertexInverted R) (SaveVertexInverted R))"
  "keeps any_ready (on_space (none_FilterableVertexSearch il R im ex v k hc)
     (f16_FilterableVertexSearch il R im ex v k hc) (f8_FilterableVertexSearch il R im ex v k hc)
     (bf16_FilterableVertexSearch il R im ex v k hc))"
  unfolding four_stores
  by (intro keeps_on_space keeps_asking ready_ChangedVertex ready_RemoveVertex ready_VertexSearch
      ready_SaveVertexInverted ready_Filterable)+

lemma coll_ok_save: "coll_ok d st \<Longrightarrow> coll_ok d (fst (save_collection E C c st))"
  unfolding save_collection_def helper_defs vs_calls
  by (intro coll_ok_bind coll_ok_call coll_ok_storage keeps_calls)

lemma coll_ok_detail: "coll_ok c st \<Longrightarrow> coll_ok c (fst (collection_detail c st))"
  unfolding collection_detail_def vs_calls by (intro coll_ok_bind coll_ok_call keeps_calls) simp_all

lemma on_storage_fields [simp]:
  "Load (fst (on_storage f st)) = Load st" "Exists (fst (on_storage f st)) = Exists st"
  "Space (fst (on_storage f st)) = Space st"
  by (simp_all add: on_storage_def split: prod.split)

lemma coll_ok_simple_handlers:
  assumes "coll_ok c st"
  shows "coll_ok c (fst (DeleteCollection C c st))"
    and "coll_ok c (fst (GetCollection c st))"
    and "coll_ok c (fst (ReleaseCollection E C c st))"
    and "coll_ok c (fst (Flush E C c st))"
    and "coll_ok c (fst (Index E i c chg pk md v st))"
    and "coll_ok c (fst (Search E newStruct c e lim off v hc st))"
proof -
  show "coll_ok c (fst (DeleteCollection C c st))"
    using assms by (auto simp: DeleteCollection_def Let_def destroyBucketHelper_def alreadyLoadCollection_def
        intro!: coll_ok_unloaded)
  show "coll_ok c (fst (GetCollection c st))"
    using assms by (simp add: GetCollection_def coll_ok_detail)
  show "coll_ok c (fst (ReleaseCollection E C c st))"
  proof -
    let ?st1 = "eliminateBucketMemoryHelper c st"
    obtain st2 r where s: "save_collection E C c ?st1 = (st2, r)" by fastforce
    have "\<not> alreadyLoadCollection c st2"
      using save_collection_quiet [of ?st1 E C c] s
      by (simp add: quiet_def alreadyLoadCollection_def eliminateBucketMemoryHelper_def)
    then show ?thesis using assms
      by (cases r) (auto simp: ReleaseCollection_def s alreadyLoadCollection_def intro!: coll_ok_unloaded)
  qed
  show "coll_ok c (fst (Flush E C c st))"
    using assms unfolding Flush_def fst_recovered
    by (intro coll_ok_bind coll_ok_save) simp_all
  show "coll_ok c (fst (Index E i c chg pk md v st))"
    using assms unfolding Index_def vs_calls fst_recovered
    by (intro coll_ok_bind) (auto intro: coll_ok_call)
  show "coll_ok c (fst (Search E newStruct c e lim off v hc st))"
    using assms unfolding Search_def vs_calls fst_recovered
    by (intro coll_ok_bind) (auto intro: coll_ok_call)
qed

lemma call_OkE:
  assumes "on_store (call_space c f) st = (st', Ok a)"
  obtains sp sp' where "map_of (Space st) c = Some sp" "f sp = (sp', Ok a)"
    "map_of (Space st') = (map_of (Space st))(c \<mapsto> sp')" "Exists st' = Exists st" "Load st' = Load st"
    "Storage st' = Storage st"
  using assms by (auto simp: on_store_def call_space_def split: option.splits prod.splits)

lemma new_index:
  "ready (newVecspace (Some NewBitmapIndex) c md)"
  "snd (SaveVertexInverted R (newVecspace None c md)) = Panic nil_deref"
  by (simp_all add: ready_def newVecspace_def SaveVertexInverted_def with_index_def)

lemma created_ready:
  assumes "on_store (vsCreateCollection c md) st = (st', Ok a)"
    and "map_of (Space st') c = Some sp" and "saved_index E sp = Ok ib"
  shows "any_ready sp"
  using assms
  by (auto simp: on_store_def vsCreateCollection_def Let_def saved_index_def asking_def new_index case_prod_beta
      newF8Vectorstore_def newF16Vectorstore_def newBF16Vectorstore_def newNoneVectorstore_def
      split: if_splits)

lemma save_collection_Load [simp]:
  "Load (fst (save_collection E C c st)) = Load st" "Exists (fst (save_collection E C c st)) = Exists st"
  using save_collection_quiet [of st E C c] by (simp_all add: quiet_def)

lemma Load_or_Ok_bind:
  assumes "Load (fst m) = L" and "\<And>st1 a. Load st1 = L \<Longrightarrow> Load (fst (f st1 a)) = L \<or> is_Ok (snd (f st1 a))"
  shows "Load (fst (st_bind m f)) = L \<or> is_Ok (snd (st_bind m f))"
  using assms by (cases m; cases "snd m") auto

lemma create_body_Load:
  "Load (fst (create_body E C req st)) = Load st \<or> is_Ok (snd (create_body E C req st))"
  unfolding create_body_def Let_def by (intro Load_or_Ok_bind) simp_all

lemma create_body_Ok:
  assumes b: "create_body E C req st = (st', Ok u)"
  shows "space_ready (reqName req) st'" and "hasCollection (reqName req) st'"
    and "alreadyLoadCollection (reqName req) st'"
proof -
  let ?c = "reqName req"
  obtain st1 st2 st3 st4 x where 1: "on_store (vsCreateCollection ?c (reqMetadata req)) st2 = (st3, Ok x)"
    and 2: "save_collection E C ?c st3 = (st4, Ok ())" and 3: "st' = newAuthorizationBucketHelper ?c st4"
    using b unfolding create_body_def Let_def by (elim st_bind_OkE) simp
  obtain sp ib where sp: "map_of (Space st3) ?c = Some sp" "saved_index E sp = Ok ib"
    using save_collection_Ok [OF 2] by blast
  have "any_ready sp" by (rule created_ready [OF 1 sp])
  moreover have "map_of (Space st4) ?c = Some sp"
    using save_collection_state [OF 2] sp(1) by (simp add: same_colls_def)
  ultimately show "space_ready ?c st'" "hasCollection ?c st'" "alreadyLoadCollection ?c st'"
    by (simp_all add: 3 space_ready_def newAuthorizationBucketHelper_def hasCollection_def alreadyLoadCollection_def)
qed

lemma coll_ok_create:
  assumes "coll_ok (reqName req) st"
  shows "coll_ok (reqName req) (fst (CreateCollection E C req st))"
proof (cases "hasCollection (reqName req) st")
  case False
  then have n: "\<not> alreadyLoadCollection (reqName req) st" using assms by (auto simp: coll_ok_def)
  obtain st' r where b: "create_body E C req st = (st', r)" by fastforce
  show ?thesis
  proof (cases "is_Ok r")
    case True
    then obtain u where "create_body E C req st = (st', Ok u)" using b by (auto simp: is_Ok_iff)
    from create_body_Ok [OF this] this False show ?thesis by (simp add: CreateCollection_def coll_ok_def Let_def)
  next
    case nok: False
    then have "\<not> alreadyLoadCollection (reqName req) st'"
      using create_body_Load [of E C req st] b n by (simp add: alreadyLoadCollection_def)
    then show ?thesis using False nok
      by (cases r) (auto simp: CreateCollection_def Let_def b destroyBucketHelper_def alreadyLoadCollection_def
          intro!: coll_ok_unloaded)
  qed
qed (simp add: CreateCollection_def Let_def assms)

lemma read_n_length: "read_n n rd bs = Ok (xs, r) \<Longrightarrow> length xs = n"
  by (induction n arbitrary: bs xs) (auto simp: go_bind_Ok_iff)

lemma LoadVertex_Ok_ready:
  "LoadVertex Q data sp = (sp', Ok u) \<Longrightarrow> spaceDist sp = Some y \<Longrightarrow> invIndex sp = Some z \<Longrightarrow> ready sp'"
  using read_n_length by (auto simp: LoadVertex_def ready_def split: gores.splits prod.splits)

lemma LoadVertexInverted_Ok:
  "LoadVertexInverted R data sp = (sp', Ok u) \<Longrightarrow> spaceDist sp' = spaceDist sp \<and> invIndex sp' \<noteq> None"
  by (auto simp: LoadVertexInverted_def split: prod.splits)

lemma LoadVertexMetadata_Ok:
  "LoadVertexMetadata J c data sp = (sp', Ok u) \<Longrightarrow> spaceDist sp' \<noteq> None"
  by (cases "junmarshal J data") (auto simp: LoadVertexMetadata_def)

lemma loads_ready:
  assumes "on_store (LoadedMetadata E c mb) st = (st1, Ok u)" "on_store (LoadedInverted E c ib) st1 = (st2, Ok v)"
    and "on_store (LoadedVertex c vb) st2 = (st3, Ok w)"
  shows "space_ready c st3"
proof -
  obtain sp sp1 where 1: "map_of (Space st1) c = Some sp1"
    "on_space (LoadVertexMetadata (envJ E) c mb) (LoadVertexMetadata (envJ E) c mb)
       (LoadVertexMetadata (envJ E) c mb) (LoadVertexMetadata (envJ E) c mb) sp = (sp1, Ok u)"
    using assms(1) unfolding vs_calls by (elim call_OkE) simp
  obtain sp2 where 2: "map_of (Space st2) c = Some sp2"
    "on_space (LoadVertexInverted (envR E) ib) (LoadVertexInverted (envR E) ib)
       (LoadVertexInverted (envR E) ib) (LoadVertexInverted (envR E) ib) sp1 = (sp2, Ok v)"
    using assms(2) 1(1) unfolding vs_calls by (elim call_OkE) simp
  obtain sp3 where 3: "map_of (Space st3) c = Some sp3"
    "on_space (none_LoadVertex vb) (f16_LoadVertex vb) (f8_LoadVertex vb) (bf16_LoadVertex vb) sp2 = (sp3, Ok w)"
    using assms(3) 2(1) unfolding vs_calls by (elim call_OkE) simp
  have "any_ready sp3"
    using 1(2) 2(2) 3(2)
    by (cases sp; auto simp: none_LoadVertex_def f16_LoadVertex_def f8_LoadVertex_def bf16_LoadVertex_def
        split: prod.splits dest!: LoadVertexMetadata_Ok LoadVertexInverted_Ok)
      (rule LoadVertex_Ok_ready; assumption)+
  with 3(1) show ?thesis by (simp add: space_ready_def)
qed

lemma unloaded_bind:
  assumes "\<not> alreadyLoadCollection c (fst m)"
    and "\<And>st1 a. \<not> alreadyLoadCollection c st1 \<Longrightarrow> m = (st1, Ok a) \<Longrightarrow> coll_ok c (fst (f st1 a))"
  shows "coll_ok c (fst (st_bind m f))"
  using assms by (cases m; cases "snd m") (auto intro: coll_ok_unloaded)

lemma lifecycle_fields [simp]:
  "Load (fst (BucketLifeCycleJob C c st)) = Load st" "Exists (fst (BucketLifeCycleJob C c st)) = Exists st"
  "Space (fst (BucketLifeCycleJob C c st)) = Space st"
  by (simp_all add: BucketLifeCycleJob_def split: gores.split)

lemma coll_ok_load:
  assumes "coll_ok c st"
  shows "coll_ok c (fst (LoadCollection E C c st))"
proof (cases "hasCollection c st \<and> \<not> is_Ok (authorization c st)")
  case False
  then show ?thesis using assms by (auto simp: LoadCollection_def coll_ok_detail)
next
  case True
  then have n: "\<not> alreadyLoadCollection c st" by (auto simp: authorization_def)
  have fin: "coll_ok c (fst (st_bind (BucketLifeCycleJob C c (newAuthorizationBucketHelper c st')) (\<lambda>st _. collection_detail c st)))"
    if "space_ready c st'" for st'
    using that
    by (intro coll_ok_bind coll_ok_detail) (simp_all add: coll_ok_def hasCollection_def newAuthorizationBucketHelper_def space_ready_def)
  have "\<not> alreadyLoadCollection c (fst (on_store f st1))" if "\<not> alreadyLoadCollection c st1" for f st1
    using that by (simp add: alreadyLoadCollection_def)
  note un = this
  show ?thesis
    using True n unfolding LoadCollection_def fst_recovered Let_def
    by simp ((rule fin; auto intro: loads_ready; fail) |
      (rule unloaded_bind, (simp add: un; fail | simp add: alreadyLoadCollection_def; fail)))+
qed

subsection \<open>Reachable states\<close>

text \<open>One request, or one of the calls that start and stop the server.\<close>

inductive edge_step :: "'b edgeEnv \<Rightarrow> 's minioClient \<Rightarrow> (gmeta \<Rightarrow> gmeta gores) \<Rightarrow>
    ('b, 's) edge \<Rightarrow> ('b, 's) edge \<Rightarrow> bool" for E C newStruct where
  start: "edge_step E C newStruct st (fst (LoadAuthorizationBuckets C st))"
| create: "edge_step E C newStruct st (fst (CreateCollection E C req st))"
| delete: "edge_step E C newStruct st (fst (DeleteCollection C c st))"
| look: "edge_step E C newStruct st (fst (GetCollection c st))"
| load: "edge_step E C newStruct st (fst (LoadCollection E C c st))"
| release: "edge_step E C newStruct st (fst (ReleaseCollection E C c st))"
| flush: "edge_step E C newStruct st (fst (Flush E C c st))"
| index: "edge_step E C newStruct st (fst (Index E i c chg pk md v st))"
| search: "edge_step E C newStruct st (fst (Search E newStruct c e lim off v hc st))"
| stop: "edge_step E C newStruct st (fst (Close E C st))"

inductive edge_reachable :: "'b edgeEnv \<Rightarrow> 's minioClient \<Rightarrow> (gmeta \<Rightarrow> gmeta gores) \<Rightarrow>
    ('b, 's) edge \<Rightarrow> bool" for E C newStruct where
  init: "edge_reachable E C newStruct (NewEdge s)"
| step: "edge_reachable E C newStruct st \<Longrightarrow> edge_step E C newStruct st st' \<Longrightarrow>
    edge_reachable E C newStruct st'"

lemma saved_or_empty_state: "fst (saved_or_empty f st) = fst (on_store f st)"
  by (auto simp: saved_or_empty_def split: prod.split gores.split)

lemma logged_state: "fst (logged sr) = fst sr"
  by (auto simp: logged_def split: prod.split gores.split)

lemma coll_ok_close: "coll_ok d st \<Longrightarrow> coll_ok d (fst (close_collection E C c st))"
  unfolding close_collection_def helper_defs vs_calls
  by (intro coll_ok_bind) (auto simp: saved_or_empty_state logged_state intro!: coll_ok_call coll_ok_storage keeps_calls)

lemma coll_ok_close_all: "coll_ok d st \<Longrightarrow> coll_ok d (fst (close_all E C cols st))"
proof (induction cols arbitrary: st)
  case (Cons p cols)
  obtain col status where p: "p = (col, status)" by (cases p)
  show ?case unfolding p close_all.simps
    by (rule coll_ok_bind) (use Cons in \<open>auto intro: coll_ok_close\<close>)
qed simp

lemma edge_inv_at:
  "edge_inv st \<Longrightarrow> others c st st' \<Longrightarrow> (coll_ok c st \<Longrightarrow> coll_ok c st') \<Longrightarrow> edge_inv st'"
  by (rule edge_inv_local) (simp_all add: edge_inv_def)

lemma edge_inv_step: "edge_step E C newStruct st st' \<Longrightarrow> edge_inv st \<Longrightarrow> edge_inv st'"
proof (induction rule: edge_step.induct)
  case (start st)
  have "map_of (fold (\<lambda>b m. AList.update b True m) bs m) c = Some True" if "map_of m c = Some True"
    for bs and m :: "(string \<times> bool) list" and c
    using that by (induction bs arbitrary: m) auto
  then show ?case using start
    by (cases "LoadBucketList C (Storage st)")
      (auto simp: LoadAuthorizationBuckets_def edge_inv_def coll_ok_def alreadyLoadCollection_def
        hasCollection_def space_ready_def)
next
  case (stop st)
  then show ?case unfolding Close_def edge_inv_def using coll_ok_close_all by blast
qed (rule edge_inv_at, assumption, rule handlers_local,
     rule coll_ok_simple_handlers coll_ok_create coll_ok_load, assumption)+

lemma edge_inv_reachable: "edge_reachable E C newStruct st \<Longrightarrow> edge_inv st"
proof (induction rule: edge_reachable.induct)
  case (init s)
  show ?case by (simp add: edge_inv_def coll_ok_def alreadyLoadCollection_def NewEdge_def)
qed (rule edge_inv_step)

subsection \<open>Saving does not panic\<close>

lemma clean_answers: "clean = answers"
  by (simp add: fun_eq_iff clean_def answers_def)

lemma clean_go_bind: "clean r \<Longrightarrow> (\<And>a. r = Ok a \<Longrightarrow> clean (f a)) \<Longrightarrow> clean (go_bind r f)"
  by (cases r) (auto simp: clean_def)

lemma writeValue_clean: "clean (writeValue v)"
  by (cases v) (auto simp: writeValue_def)

lemma SerializeBinary_clean: "index_idle idx \<Longrightarrow> clean (snd (SerializeBinary R idx))"
proof -
  have v: "clean (serialize_values R sh)" for sh
    by (induction sh) (auto simp: Let_def intro!: clean_go_bind writeValue_clean)
  have "clean (serialize_shards R [] shs)" for shs
    by (induction shs) (auto intro!: clean_go_bind v)
  from this [of "Shards idx"] show "index_idle idx \<Longrightarrow> clean (snd (SerializeBinary R idx))"
    by (cases "serialize_shards R [] (Shards idx)") (simp_all add: SerializeBinary_def index_idle_def)
qed

text \<open>A store in which no goroutine is lost.\<close>

definition idle :: "('e, 'b) vecspace \<Rightarrow> bool" where
  "idle sp \<longleftrightarrow> verticesMu sp = [] \<and> (\<forall>idx. invIndex sp = Some idx \<longrightarrow> index_idle idx)"

fun any_idle :: "'b anyspace \<Rightarrow> bool" where
  "any_idle (NoneSpace sp) = idle sp" | "any_idle (F16Space sp) = idle sp"
| "any_idle (F8Space sp) = idle sp" | "any_idle (BF16Space sp) = idle sp"

lemma idle_readable: "idle sp \<Longrightarrow> readable sp"
  by (simp add: idle_def readable_def)

lemma SaveVertexInverted_clean: "ready sp \<Longrightarrow> idle sp \<Longrightarrow> clean (snd (SaveVertexInverted R sp))"
  using SerializeBinary_clean [of _ R]
  by (auto simp: SaveVertexInverted_def with_index_def ready_def idle_def split: prod.split) (metis snd_conv)

lemma SaveVertex_clean: "ready sp \<Longrightarrow> idle sp \<Longrightarrow> clean (SaveVertex Q sp)"
  using SaveVertex_readable(2) idle_readable by (auto simp: ready_def)

lemma saved_clean:
  assumes "any_ready sp" "any_idle sp"
  shows "clean (saved_meta E sp)" "clean (saved_vertices sp)" "clean (saved_index E sp)"
  using assms
  by (cases sp; simp add: saved_meta_def saved_vertices_def saved_index_def asking_def SaveVertexMetadata_def
      none_SaveVertex_def f16_SaveVertex_def f8_SaveVertex_def bf16_SaveVertex_def case_prod_beta
      SaveVertexInverted_clean SaveVertex_clean)+

text \<open>A call that ends with a value or an error, and with a store in operation that no goroutine is lost in.\<close>

definition at_rest :: "string \<Rightarrow> ('b, 's) edge \<Rightarrow> bool" where
  "at_rest c st \<longleftrightarrow> (\<exists>sp. map_of (Space st) c = Some sp \<and> any_ready sp \<and> any_idle sp)"

definition fine :: "string \<Rightarrow> ('b, 's) edge \<times> 'a gores \<Rightarrow> bool" where
  "fine c m \<longleftrightarrow> at_rest c (fst m) \<and> clean (snd m)"

lemma fine_bind: "fine c m \<Longrightarrow> (\<And>st1 a. at_rest c st1 \<Longrightarrow> fine c (f st1 a)) \<Longrightarrow> fine c (st_bind m f)"
  by (cases m; cases "snd m") (auto simp: fine_def)

lemma fine_ask:
  assumes "at_rest c st1" and "asks_for h g c st1" and "\<And>sp. any_ready sp \<Longrightarrow> any_idle sp \<Longrightarrow> clean (h sp)"
  shows "fine c (on_store g st1)"
  using assms by (auto simp: fine_def asks_for_def at_rest_def same_edge_def)

lemma fine_saved:
  assumes "at_rest c st1"
  shows "fine c (on_store (SavedMetadata E c) st1)" "fine c (on_store (SavedVertex c) st1)"
    "fine c (on_store (SavedInverted E c) st1)"
  by (rule fine_ask [OF assms], rule ask_saved, erule (1) saved_clean)+

lemma fine_put: "minio_ok C view \<Longrightarrow> at_rest c st1 \<Longrightarrow> fine c (on_storage (PutObject C b k d) st1)"
  using minio_okD(1) [of C view b k d "Storage st1"]
  by (auto simp: fine_def at_rest_def on_storage_def clean_answers split: prod.split)

lemma save_collection_fine: "minio_ok C view \<Longrightarrow> at_rest c st \<Longrightarrow> fine c (save_collection E C c st)"
  unfolding save_collection_def helper_defs
  by (intro fine_bind fine_saved fine_put)

subsection \<open>Release and load\<close>

definition reloaded :: "('b \<Rightarrow> u64 set) \<Rightarrow> ('e, 'b) vecspace \<Rightarrow> ('e, 'b) vecspace \<Rightarrow> bool" where
  "reloaded alpha sp sp' \<longleftrightarrow>
     vertices sp' = map (map (\<lambda>(i, n). (i, reloadNode n))) (vertices sp) \<and>
     same_meta (vertexMetadata sp) (vertexMetadata sp') \<and> ready sp' \<and>
     spaceDist sp' = Some (metaSpace (vertexMetadata sp)) \<and> idx_ok (idx_of sp') \<and>
     (\<forall>f k i. has alpha (idx_of sp') f k i \<longleftrightarrow> (\<exists>k0. has alpha (idx_of sp) f k0 i \<and> k = widen k0))"

fun any_reloaded :: "('b \<Rightarrow> u64 set) \<Rightarrow> 'b anyspace \<Rightarrow> 'b anyspace \<Rightarrow> bool" where
  "any_reloaded alpha (NoneSpace sp) (NoneSpace sp') = reloaded alpha sp sp'"
| "any_reloaded alpha (F16Space sp) (F16Space sp') = reloaded alpha sp sp'"
| "any_reloaded alpha (F8Space sp) (F8Space sp') = reloaded alpha sp sp'"
| "any_reloaded alpha (BF16Space sp) (BF16Space sp') = reloaded alpha sp sp'"
| "any_reloaded alpha _ _ = False"

text \<open>A store that the formats can hold, of the type its metadata say.\<close>

definition storable_space :: "'b edgeEnv \<Rightarrow> int \<Rightarrow> ('e, 'b) vecspace \<Rightarrow> bool" where
  "storable_space E q sp \<longleftrightarrow> metaQuantization (vertexMetadata sp) = q \<and> spaceSaveable sp \<and>
     json_ok (envJ E) (vertexMetadata sp) \<and> invIndex sp \<noteq> None \<and> saveable (envR E) (idx_of sp)"

fun any_storable :: "'b edgeEnv \<Rightarrow> 'b anyspace \<Rightarrow> bool" where
  "any_storable E (NoneSpace sp) = storable_space E Quantization_None sp"
| "any_storable E (F16Space sp) = storable_space E Quantization_F16 sp"
| "any_storable E (F8Space sp) = storable_space E Quantization_F8 sp"
| "any_storable E (BF16Space sp) = storable_space E Quantization_BF16 sp"

text \<open>One store through its three images.\<close>

lemma reload_space:
  assumes R: "roaring_ok R alpha" and s: "spaceSaveable sp" "json_ok J (vertexMetadata sp)"
    "invIndex sp \<noteq> None" "saveable R (idx_of sp)"
    and Q: "quantizer_laws Q"
    and im: "SaveVertexMetadata J sp = Ok mb" "SaveVertex Q sp = Ok vb" "snd (SaveVertexInverted R sp) = Ok ib"
  shows "\<exists>md' sp1 sp2 sp3. junmarshal J mb = Ok md' \<and> metaQuantization md' = metaQuantization (vertexMetadata sp) \<and>
    LoadVertexMetadata J c mb z = (sp1, Ok ()) \<and> LoadVertexInverted R ib sp1 = (sp2, Ok ()) \<and>
    LoadVertex Q vb sp2 = (sp3, Ok ()) \<and> reloaded alpha sp sp3"
proof -
  obtain md' where md: "junmarshal J mb = Ok md'" "same_meta (vertexMetadata sp) md'"
    using im(1) s(2) by (auto simp: SaveVertexMetadata_def json_ok_def)
  define sp1 where "sp1 = z\<lparr>collectionName := c, vertexMetadata := md', spaceDist := Some (metaSpace md')\<rparr>"
  have "snd (SerializeBinary R (idx_of sp)) = Ok ib"
    using im(3) s(3) by (auto simp: SaveVertexInverted_def with_index_def idx_of_def split: option.splits prod.splits)
  with save_reload [OF R s(4)] obtain idx' where i: "DeserializeBinary R ib NewBitmapIndex = (idx', Ok ())"
    "idx_ok idx'" "\<forall>f k i. has alpha idx' f k i \<longleftrightarrow> (\<exists>k0. has alpha (idx_of sp) f k0 i \<and> k = widen k0)"
    by auto
  define sp2 where "sp2 = sp1\<lparr>invIndex := Some idx'\<rparr>"
  define sp3 where "sp3 = sp2\<lparr>vertices := map (map (\<lambda>(i, n). (i, reloadNode n))) (vertices sp), locksReady := True, verticesMu := []\<rparr>"
  have "LoadVertex Q vb sp2 = (sp3, Ok ())"
    using quantizer_laws.LoadVertex_SaveVertex [OF Q s(1), of sp2] im(2) by (simp add: sp3_def)
  moreover have "LoadVertexMetadata J c mb z = (sp1, Ok ())" by (simp add: LoadVertexMetadata_def md(1) sp1_def)
  moreover have "LoadVertexInverted R ib sp1 = (sp2, Ok ())" by (simp add: LoadVertexInverted_def i(1) sp2_def)
  moreover have "metaSpace md' = metaSpace (vertexMetadata sp)" "metaQuantization md' = metaQuantization (vertexMetadata sp)"
    using md(2) by (simp_all add: same_meta_def metaSpace_def Distancer_def)
  then have "reloaded alpha sp sp3"
    using i(2,3) md(2) s(1) by (simp add: reloaded_def sp3_def sp2_def sp1_def ready_def spaceSaveable_def idx_of_def)
  ultimately show ?thesis using md(1) \<open>metaQuantization md' = _\<close> by blast
qed

lemma call_Ok:
  assumes "map_of (Space st) c = Some sp" and "f sp = (sp', Ok a)"
  shows "on_store (call_space c f) st = (st\<lparr>Space := AList.update c sp' (Space st)\<rparr>, Ok a)"
  using assms by (simp add: on_store_def call_space_def)

lemma quantizers_lawful: "quantizer_laws NoQuantization" "quantizer_laws Float16Quantization"
  "quantizer_laws Float8Quantization" "quantizer_laws BFloat16Quantization"
  by (rule none_q.quantizer_laws_axioms f16_q.quantizer_laws_axioms f8_q.quantizer_laws_axioms
      bf16_q.quantizer_laws_axioms)+

lemma load_chain:
  assumes z: "\<And>sps. FillEmpty c q sps = AList.update c z sps"
    and 1: "on_space (LoadVertexMetadata (envJ E) c mb) (LoadVertexMetadata (envJ E) c mb)
       (LoadVertexMetadata (envJ E) c mb) (LoadVertexMetadata (envJ E) c mb) z = (sp1, Ok ())"
    and 2: "on_space (LoadVertexInverted (envR E) ib) (LoadVertexInverted (envR E) ib)
       (LoadVertexInverted (envR E) ib) (LoadVertexInverted (envR E) ib) sp1 = (sp2, Ok ())"
    and 3: "on_space (none_LoadVertex vb) (f16_LoadVertex vb) (f8_LoadVertex vb) (bf16_LoadVertex vb) sp2 = (sp3, Ok ())"
  shows "\<exists>st1 st2 st3. on_store (LoadedMetadata E c mb) (st\<lparr>Space := FillEmpty c q (Space st)\<rparr>) = (st1, Ok ()) \<and>
      on_store (LoadedInverted E c ib) st1 = (st2, Ok ()) \<and> on_store (LoadedVertex c vb) st2 = (st3, Ok ()) \<and>
      Storage st1 = Storage st \<and> Storage st2 = Storage st \<and> Storage st3 = Storage st \<and>
      Exists st3 = Exists st \<and> Load st3 = Load st \<and> map_of (Space st3) c = Some sp3"
proof -
  define st0 where "st0 = st\<lparr>Space := FillEmpty c q (Space st)\<rparr>"
  have s0: "map_of (Space st0) c = Some z" by (simp add: st0_def z)
  define st1 where "st1 = st0\<lparr>Space := AList.update c sp1 (Space st0)\<rparr>"
  define st2 where "st2 = st1\<lparr>Space := AList.update c sp2 (Space st1)\<rparr>"
  define st3 where "st3 = st2\<lparr>Space := AList.update c sp3 (Space st2)\<rparr>"
  have "on_store (LoadedMetadata E c mb) st0 = (st1, Ok ())"
    unfolding vs_calls st1_def by (rule call_Ok, rule s0, rule 1)
  moreover have "on_store (LoadedInverted E c ib) st1 = (st2, Ok ())"
    unfolding vs_calls st2_def by (rule call_Ok, simp add: st1_def, rule 2)
  moreover have "on_store (LoadedVertex c vb) st2 = (st3, Ok ())"
    unfolding vs_calls st3_def by (rule call_Ok, simp add: st2_def, rule 3)
  ultimately show ?thesis unfolding st0_def [symmetric]
    by (intro exI [of _ st1] exI [of _ st2] exI [of _ st3]) (simp add: st1_def st2_def st3_def st0_def)
qed

lemma FillEmpty_types:
  "FillEmpty c Quantization_None sps = AList.update c (NoneSpace zeroSpace) sps"
  "FillEmpty c Quantization_F16 sps = AList.update c (F16Space zeroSpace) sps"
  "FillEmpty c Quantization_F8 sps = AList.update c (F8Space zeroSpace) sps"
  "FillEmpty c Quantization_BF16 sps = AList.update c (BF16Space zeroSpace) sps"
  by (simp_all add: FillEmpty_def enum_defs)

lemmas saved_defs = saved_meta_def saved_vertices_def saved_index_def asking_def none_SaveVertex_def
  f16_SaveVertex_def f8_SaveVertex_def bf16_SaveVertex_def storable_space_def
lemmas load_defs = none_LoadVertex_def f16_LoadVertex_def f8_LoadVertex_def bf16_LoadVertex_def

lemma load_images:
  assumes R: "roaring_ok (envR E) alpha" and sp: "any_storable E sp"
    and im: "saved_meta E sp = Ok mb" "saved_vertices sp = Ok vb" "saved_index E sp = Ok ib"
  shows "\<exists>q sp'. convertBytesMetadata (envJ E) mb = Ok q \<and> any_reloaded alpha sp sp' \<and>
    (\<forall>st. \<exists>st1 st2 st3. on_store (LoadedMetadata E c mb) (st\<lparr>Space := FillEmpty c q (Space st)\<rparr>) = (st1, Ok ()) \<and>
      on_store (LoadedInverted E c ib) st1 = (st2, Ok ()) \<and> on_store (LoadedVertex c vb) st2 = (st3, Ok ()) \<and>
      Storage st1 = Storage st \<and> Storage st2 = Storage st \<and> Storage st3 = Storage st \<and>
      Exists st3 = Exists st \<and> Load st3 = Load st \<and> map_of (Space st3) c = Some sp')"
proof (cases sp)
  case (NoneSpace a)
  obtain md' s1 s2 s3 where "junmarshal (envJ E) mb = Ok md'" "metaQuantization md' = Quantization_None"
    "LoadVertexMetadata (envJ E) c mb zeroSpace = (s1, Ok ())" "LoadVertexInverted (envR E) ib s1 = (s2, Ok ())"
    "LoadVertex NoQuantization vb s2 = (s3, Ok ())" "reloaded alpha a s3"
    using reload_space [OF R _ _ _ _ quantizers_lawful(1), of a "envJ E" mb vb ib c zeroSpace] im sp
    by (auto simp: NoneSpace saved_defs case_prod_beta)
  then show ?thesis unfolding NoneSpace
    by (intro exI [of _ Quantization_None] exI [of _ "NoneSpace s3"] conjI allI load_chain [OF FillEmpty_types(1)])
      (auto simp: convertBytesMetadata_def load_defs)
next
  case (F16Space a)
  obtain md' s1 s2 s3 where "junmarshal (envJ E) mb = Ok md'" "metaQuantization md' = Quantization_F16"
    "LoadVertexMetadata (envJ E) c mb zeroSpace = (s1, Ok ())" "LoadVertexInverted (envR E) ib s1 = (s2, Ok ())"
    "LoadVertex Float16Quantization vb s2 = (s3, Ok ())" "reloaded alpha a s3"
    using reload_space [OF R _ _ _ _ quantizers_lawful(2), of a "envJ E" mb vb ib c zeroSpace] im sp
    by (auto simp: F16Space saved_defs case_prod_beta)
  then show ?thesis unfolding F16Space
    by (intro exI [of _ Quantization_F16] exI [of _ "F16Space s3"] conjI allI load_chain [OF FillEmpty_types(2)])
      (auto simp: convertBytesMetadata_def load_defs)
next
  case (F8Space a)
  obtain md' s1 s2 s3 where "junmarshal (envJ E) mb = Ok md'" "metaQuantization md' = Quantization_F8"
    "LoadVertexMetadata (envJ E) c mb zeroSpace = (s1, Ok ())" "LoadVertexInverted (envR E) ib s1 = (s2, Ok ())"
    "LoadVertex Float8Quantization vb s2 = (s3, Ok ())" "reloaded alpha a s3"
    using reload_space [OF R _ _ _ _ quantizers_lawful(3), of a "envJ E" mb vb ib c zeroSpace] im sp
    by (auto simp: F8Space saved_defs case_prod_beta)
  then show ?thesis unfolding F8Space
    by (intro exI [of _ Quantization_F8] exI [of _ "F8Space s3"] conjI allI load_chain [OF FillEmpty_types(3)])
      (auto simp: convertBytesMetadata_def load_defs)
next
  case (BF16Space a)
  obtain md' s1 s2 s3 where "junmarshal (envJ E) mb = Ok md'" "metaQuantization md' = Quantization_BF16"
    "LoadVertexMetadata (envJ E) c mb zeroSpace = (s1, Ok ())" "LoadVertexInverted (envR E) ib s1 = (s2, Ok ())"
    "LoadVertex BFloat16Quantization vb s2 = (s3, Ok ())" "reloaded alpha a s3"
    using reload_space [OF R _ _ _ _ quantizers_lawful(4), of a "envJ E" mb vb ib c zeroSpace] im sp
    by (auto simp: BF16Space saved_defs case_prod_beta)
  then show ?thesis unfolding BF16Space
    by (intro exI [of _ Quantization_BF16] exI [of _ "BF16Space s3"] conjI allI load_chain [OF FillEmpty_types(4)])
      (auto simp: convertBytesMetadata_def load_defs)
qed

end
