(* ===== verification/EdgeIdle.thy ===== *)
theory EdgeIdle
  imports EdgeCorrect
begin

text \<open>
  Which requests give back the locks they take: every operation of the index and of the stores that
  returns a value or an error does, so a server all of whose requests were answered has no goroutine
  lost in a store.
\<close>

subsection \<open>Operations that come back\<close>

definition calmed :: "('s \<Rightarrow> bool) \<Rightarrow> 's \<times> 'a gores \<Rightarrow> bool" where
  "calmed P m \<longleftrightarrow> (clean (snd m) \<longrightarrow> P (fst m))"

lemma calmed_bind: "calmed P m \<Longrightarrow> (\<And>s a. P s \<Longrightarrow> calmed P (f s a)) \<Longrightarrow> calmed P (st_bind m f)"
  by (cases m; cases "snd m") (auto simp: calmed_def)

lemma calmed_simps [simp]: "calmed P (s, Panic p)" "calmed P (s, Crash p)"
  by (simp_all add: calmed_def)

lemma calmed_pure [intro]: "P s \<Longrightarrow> calmed P (s, r)"
  by (simp add: calmed_def)

lemma calmed_if: "(b \<Longrightarrow> calmed P m) \<Longrightarrow> (\<not> b \<Longrightarrow> calmed P n) \<Longrightarrow> calmed P (if b then m else n)"
  by simp

subsection \<open>The index\<close>

lemma calm_getShard [intro]: "index_idle idx \<Longrightarrow> calmed index_idle (getShard key idx)"
  using getShard_idle [of idx key] by (metis calmed_pure)

lemma calm_Add: "index_idle idx \<Longrightarrow> calmed index_idle (Add R i md idx)"
proof (induction md arbitrary: idx)
  case (Cons p md)
  obtain key val where p: "p = (key, val)" by (cases p)
  show ?case unfolding p Add.simps
    by (intro calmed_bind calm_getShard Cons.prems)
      (auto simp: idle_locks Let_def intro!: Cons.IH split: option.split)
qed auto

lemma calm_Remove: "index_idle idx \<Longrightarrow> calmed index_idle (Remove R i md idx)"
proof (induction md arbitrary: idx)
  case (Cons p md)
  obtain key val where p: "p = (key, val)" by (cases p)
  show ?case unfolding p Remove.simps
    by (intro calmed_bind calm_getShard Cons.prems)
      (auto simp: idle_locks Let_def intro!: Cons.IH)
qed auto

lemma calm_evaluateSingleFilter [intro]: "index_idle idx \<Longrightarrow> calmed index_idle (evaluateSingleFilter R f idx)"
  unfolding evaluateSingleFilter_def by (intro calmed_bind) auto

lemma calm_evaluate:
  "index_idle idx \<Longrightarrow> calmed index_idle (evaluateFilterExpression R e idx)"
  "index_idle idx \<Longrightarrow> calmed index_idle (evaluateCompositeFilter R cf idx)"
  "index_idle idx \<Longrightarrow> calmed index_idle (eval_and R es ro idx)"
  "index_idle idx \<Longrightarrow> calmed index_idle (eval_or R es r idx)"
  by (induction R e idx and R cf idx and R es ro idx and R es r idx
      rule: evaluateFilterExpression_evaluateCompositeFilter_eval_and_eval_or.induct)
    (auto intro!: calmed_bind split: LogicalOp.split)

lemma calm_multi_filter: "index_idle idx \<Longrightarrow> calmed index_idle (multi_filter R fs r idx)"
  by (induction fs arbitrary: r idx) (auto intro!: calmed_bind)

lemma calm_searches [intro]:
  "index_idle idx \<Longrightarrow> calmed index_idle (SearchSingleFilter R f idx)"
  "index_idle idx \<Longrightarrow> calmed index_idle (SearchMultiFilter R fs idx)"
  "index_idle idx \<Longrightarrow> calmed index_idle (SearchWithExpression R e idx)"
  unfolding SearchSingleFilter_def SearchMultiFilter_def SearchWithExpression_def
  by (auto intro!: calmed_bind calm_multi_filter calm_evaluate)

lemma calm_Serialize: "index_idle idx \<Longrightarrow> calmed index_idle (SerializeBinary R idx)"
  using SerializeBinary_clean_same [of R idx] by (simp add: calmed_def)

lemma calm_deserialize_values: "index_idle idx \<Longrightarrow> calmed index_idle (deserialize_values R key n bs idx)"
  by (induction n arbitrary: bs idx)
    (auto intro!: calmed_bind simp: idle_locks split: option.split)

lemma calm_deserialize_shards: "index_idle idx \<Longrightarrow> calmed index_idle (deserialize_shards R n bs idx)"
  by (induction n arbitrary: bs idx)
    (auto intro!: calmed_bind calm_deserialize_values simp: Let_def)

lemma calm_Deserialize: "index_idle idx \<Longrightarrow> calmed index_idle (DeserializeBinary R bs idx)"
  unfolding DeserializeBinary_def by (auto intro!: calmed_bind calm_deserialize_shards)

text \<open>
  What gives nothing back: \<open>Add\<close> unlocks the shard of a field after the value has been used as a map
  key, not in a \<open>defer\<close>. A value that panics as a key leaves that lock held, and no save of the index
  succeeds any more: it waits for ever, or fails before it comes to that shard.
\<close>

definition stuck :: "'b BitmapIndex \<Rightarrow> bool" where
  "stuck idx \<longleftrightarrow> (\<exists>key \<in> fst ` set (Shards idx). lock_at (rmu idx) key = Writer)"

lemma stuck_held: "key \<in> fst ` set (Shards idx) \<Longrightarrow> stuck (hold_shard key idx)" "stuck (hold_shard key (putShard key sh idx))"
  by (auto simp: stuck_def hold_shard_def putShard_def dom_update)

lemma Add_Panic_stuck: "Add R i md idx = (idx', Panic p) \<Longrightarrow> stuck idx'"
proof (induction md arbitrary: idx)
  case (Cons q md)
  obtain key val where q: "q = (key, val)" by (cases q)
  obtain idx1 r where g: "getShard key idx = (idx1, r)" by fastforce
  obtain sh where r: "r = Ok sh" using Cons.prems g
    by (cases r) (auto simp: q getShard_def lock_index_def split: if_splits option.splits)
  have k: "key \<in> fst ` set (Shards idx1)"
    using g r by (force simp: getShard_def lock_index_def split: if_splits option.splits dest: map_of_SomeD)
  have l: "lock_shard key idx1 = (idx1, Ok ())"
    using Cons.prems g r by (auto simp: q lock_shard_def split: if_splits)
  show ?case
    using Cons.prems Cons.IH stuck_held(1) [OF k]
    by (auto simp: q g r l Let_def stuck_held(2) split: if_splits option.splits)
qed simp

lemma serialize_shards_locked:
  "lock_at ls key = Writer \<Longrightarrow> key \<in> fst ` set shs \<Longrightarrow> \<not> is_Ok (serialize_shards R ls shs)"
proof (induction shs)
  case (Cons p shs)
  then show ?case by (cases p) (auto simp: is_Ok_iff go_bind_Ok_iff)
qed simp

lemma panicked_Add_never_saved:
  assumes "Add R i md idx = (idx', Panic p)"
  shows "snd (SerializeBinary R idx') \<noteq> Ok bs"
proof -
  obtain key where "lock_at (rmu idx') key = Writer" "key \<in> fst ` set (Shards idx')"
    using Add_Panic_stuck [OF assms] by (auto simp: stuck_def)
  then have "\<not> is_Ok (serialize_shards R (rmu idx') (Shards idx'))" by (rule serialize_shards_locked)
  then show ?thesis by (cases "serialize_shards R (rmu idx') (Shards idx')") (auto simp: SerializeBinary_def)
qed

lemma list_value_blocks_save:
  "snd (SerializeBinary R (fst (Add R i [(''tags'', GList [])] NewBitmapIndex))) = Crash deadlock"
  by (simp add: SerializeBinary_def NewBitmapIndex_def getShard_def lock_index_def lock_shard_def hold_shard_def hashable_def
      lock_at_def)

subsection \<open>The stores\<close>

lemma calm_with_index [intro]:
  assumes "idle sp" and "\<And>idx. index_idle idx \<Longrightarrow> calmed index_idle (f idx)"
  shows "calmed idle (with_index f sp)"
  using assms unfolding with_index_def calmed_def idle_def
  by (auto split: option.split prod.split) (metis fst_conv snd_conv)

lemma calm_index_ops [intro]:
  "idle sp \<Longrightarrow> calmed idle (index_Add R i md sp)" "idle sp \<Longrightarrow> calmed idle (index_Remove R i md sp)"
  "idle sp \<Longrightarrow> calmed idle (index_Search R e sp)"
  by (auto simp: index_Add_def index_Remove_def index_Search_def intro: calm_Add calm_Remove)

lemma calm_resolve [intro]: "idle sp \<Longrightarrow> calmed idle (resolveCommitId R u i sp)"
  unfolding resolveCommitId_def by (auto intro!: calmed_bind)

lemma idle_vertices [simp]: "idle (sp\<lparr>vertices := vs\<rparr>) = idle sp"
  by (simp add: idle_def)

lemma calm_lock_vertices [intro]: "idle sp \<Longrightarrow> calmed idle (lock_vertices s sp)"
  by (auto simp: lock_vertices_def idle_def calmed_def)

lemma calm_ChangedVertex: "idle sp \<Longrightarrow> calmed idle (ChangedVertex Q R u i v md sp)"
  unfolding ChangedVertex_def
  by (rule calmed_bind, rule calm_resolve, assumption)
    (auto intro!: calmed_bind calm_lock_vertices calmed_pure simp: Let_def split: option.split)

lemma calm_drop_ids: "idle sp \<Longrightarrow> calmed idle (drop_ids R is sp)"
proof (induction "is" arbitrary: sp)
  case (Cons i "is")
  have "calmed idle (case index_Remove R i md sp1 of (sp, Panic p) \<Rightarrow> (hold_vertices s sp, Panic p)
      | (sp, Crash p) \<Rightarrow> (hold_vertices s sp, Crash p)
      | (sp, _) \<Rightarrow> drop_ids R is (sp\<lparr>vertices := del_vertex i (vertices sp)\<rparr>))"
    if "idle sp1" for sp1 :: "('a, 'b) vecspace" and md s
  proof -
    obtain sp2 r where x: "index_Remove R i md sp1 = (sp2, r)" by fastforce
    have "clean r \<Longrightarrow> idle sp2" using calm_index_ops(2) [OF that, of R i md] x by (simp add: calmed_def)
    then show ?thesis using x Cons.IH by (cases r) (auto simp: calmed_def)
  qed
  then show ?case unfolding drop_ids.simps using Cons.prems by (intro calmed_bind) auto
qed auto

lemma calm_RemoveVertex: "idle sp \<Longrightarrow> calmed idle (RemoveVertex R df sp)"
  unfolding RemoveVertex_def by (auto intro!: calmed_bind calm_drop_ids)

lemma calm_in_turn: "idle sp \<Longrightarrow> calmed idle (scan_in_turn f sns sp)"
  by (induction sns arbitrary: sp) (auto intro!: calmed_bind split: gores.split)

lemma calm_scan [intro]: "idle sp \<Longrightarrow> calmed idle (scan_shards hc f sns sp)"
  by (auto simp: scan_shards_def calm_in_turn)

lemma calm_VertexSearch: "idle sp \<Longrightarrow> calmed idle (VertexSearch Q impl v k hc sp)"
  unfolding VertexSearch_def by (auto intro!: calmed_bind split: option.split)

lemma calm_Filterable: "idle sp \<Longrightarrow> calmed idle (FilterableVertexSearch sh il Q R impl e v k hc sp)"
  unfolding FilterableVertexSearch_def by (auto intro!: calmed_bind split: option.split)

lemma calm_SaveVertexInverted: "idle sp \<Longrightarrow> calmed idle (SaveVertexInverted R sp)"
  unfolding SaveVertexInverted_def by (auto intro: calm_Serialize)

lemma calm_LoadVertexMetadata: "idle sp \<Longrightarrow> calmed idle (LoadVertexMetadata J c data sp)"
  unfolding LoadVertexMetadata_def by (intro calmed_bind) (auto simp: idle_def)

lemma calm_LoadVertexInverted: "idle sp \<Longrightarrow> calmed idle (LoadVertexInverted R data sp)"
  using calm_Deserialize [of NewBitmapIndex R data]
  by (auto simp: LoadVertexInverted_def idle_def calmed_def split: prod.split)

lemma calm_LoadVertex: "idle sp \<Longrightarrow> calmed idle (LoadVertex Q data sp)"
  by (auto simp: LoadVertex_def idle_def calmed_def split: gores.split prod.split)

subsection \<open>The server\<close>

definition calm :: "('s \<Rightarrow> bool) \<Rightarrow> ('s \<Rightarrow> 's \<times> 'a gores) \<Rightarrow> bool" where
  "calm P f \<longleftrightarrow> (\<forall>s. P s \<longrightarrow> calmed P (f s))"

lemma calm_asking [intro]: "calm P (asking f)"
  by (auto simp: calm_def asking_def)

lemma calm_on_space:
  assumes "calm idle fn" "calm idle f16" "calm idle f8" "calm idle fb"
  shows "calm any_idle (on_space fn f16 f8 fb)"
  unfolding calm_def
proof (intro allI impI)
  fix sp :: "'a anyspace"
  assume "any_idle sp"
  then show "calmed any_idle (on_space fn f16 f8 fb sp)"
    using assms unfolding calm_def calmed_def by (cases sp) (simp_all add: case_prod_beta)
qed

lemma calm_ops:
  "calm idle (ChangedVertex Q R u i v md)" "calm idle (RemoveVertex R df)"
  "calm idle (VertexSearch Q im v k hc)" "calm idle (FilterableVertexSearch sh il Q R im ex v k hc)"
  "calm idle (SaveVertexInverted R)" "calm idle (LoadVertexMetadata J c data)"
  "calm idle (LoadVertexInverted R data)" "calm idle (LoadVertex Q data)"
  unfolding calm_def by (intro allI impI calm_ChangedVertex calm_RemoveVertex calm_VertexSearch calm_Filterable
      calm_SaveVertexInverted calm_LoadVertexMetadata calm_LoadVertexInverted calm_LoadVertex; assumption)+

lemma calm_calls [intro]:
  "calm any_idle (on_space (asking a) (asking b) (asking d) (asking e))"
  "calm any_idle (on_space (none_ChangedVertex R u i v md) (f16_ChangedVertex R u i v md)
     (f8_ChangedVertex R u i v md) (bf16_ChangedVertex R u i v md))"
  "calm any_idle (on_space (none_RemoveVertex R df) (f16_RemoveVertex R df)
     (f8_RemoveVertex R df) (bf16_RemoveVertex R df))"
  "calm any_idle (on_space (none_VertexSearch im v k hc) (f16_VertexSearch im v k hc)
     (f8_VertexSearch im v k hc) (bf16_VertexSearch im v k hc))"
  "calm any_idle (on_space (none_FilterableVertexSearch il R im ex v k hc)
     (f16_FilterableVertexSearch il R im ex v k hc) (f8_FilterableVertexSearch il R im ex v k hc)
     (bf16_FilterableVertexSearch il R im ex v k hc))"
  "calm any_idle (on_space (SaveVertexInverted R) (SaveVertexInverted R) (SaveVertexInverted R) (SaveVertexInverted R))"
  "calm any_idle (on_space (LoadVertexMetadata J c data) (LoadVertexMetadata J c data)
     (LoadVertexMetadata J c data) (LoadVertexMetadata J c data))"
  "calm any_idle (on_space (LoadVertexInverted R data) (LoadVertexInverted R data)
     (LoadVertexInverted R data) (LoadVertexInverted R data))"
  "calm any_idle (on_space (none_LoadVertex data) (f16_LoadVertex data) (f8_LoadVertex data) (bf16_LoadVertex data))"
  unfolding four_stores load_defs
  by (intro calm_on_space calm_ops calm_asking)+

definition all_idle :: "('b, 's) edge \<Rightarrow> bool" where
  "all_idle st \<longleftrightarrow> (\<forall>c sp. map_of (Space st) c = Some sp \<longrightarrow> any_idle sp)"

lemma calm_call: "calm any_idle f \<Longrightarrow> all_idle st \<Longrightarrow> calmed all_idle (on_store (call_space c f) st)"
  by (auto simp: all_idle_def calm_def calmed_def on_store_def call_space_def split: option.splits prod.splits)
    (metis fst_conv snd_conv)

lemma calm_storage [intro]: "all_idle st \<Longrightarrow> calmed all_idle (on_storage f st)"
  by (auto simp: all_idle_def calmed_def on_storage_def split: prod.splits)

lemma all_idle_fields [simp]:
  "all_idle (newAuthorizationBucketHelper c st) = all_idle st" "all_idle (destroyBucketHelper c st) = all_idle st"
  "all_idle (eliminateBucketMemoryHelper c st) = all_idle st" "all_idle (st\<lparr>Exists := x\<rparr>) = all_idle st"
  "all_idle (fst (on_storage f st)) = all_idle st"
  by (simp_all add: all_idle_def newAuthorizationBucketHelper_def destroyBucketHelper_def eliminateBucketMemoryHelper_def)

lemma all_idle_changes [intro]:
  "all_idle st \<Longrightarrow> all_idle (st\<lparr>Space := DestroySpace c (Space st)\<rparr>)"
  "all_idle st \<Longrightarrow> all_idle (st\<lparr>Space := FillEmpty c q (Space st)\<rparr>)"
  by (auto simp: all_idle_def DestroySpace_def FillEmpty_def zeroSpace_def idle_def)

lemma idle_new: "idle (newVecspace (Some NewBitmapIndex) c md)" "idle (newVecspace None c md)"
  by (simp_all add: idle_def newVecspace_def)

lemma calm_create [intro]: "all_idle st \<Longrightarrow> calmed all_idle (on_store (vsCreateCollection c md) st)"
  by (auto simp: all_idle_def calmed_def on_store_def vsCreateCollection_def Let_def newF8Vectorstore_def
      newF16Vectorstore_def newBF16Vectorstore_def newNoneVectorstore_def idle_new)

lemma calm_save: "all_idle st \<Longrightarrow> calmed all_idle (save_collection E C c st)"
  unfolding save_collection_def helper_defs vs_calls
  by (intro calmed_bind calm_call calm_calls calm_storage)

lemma calm_detail: "all_idle st \<Longrightarrow> calmed all_idle (collection_detail c st)"
  unfolding collection_detail_def vs_calls by (intro calmed_bind calm_call calm_calls calmed_pure)

lemma calm_create_body: "all_idle st \<Longrightarrow> calmed all_idle (create_body E C req st)"
  unfolding create_body_def Let_def by (auto intro!: calmed_bind calm_save)

lemma calm_lifecycle [intro]: "all_idle st \<Longrightarrow> calmed all_idle (BucketLifeCycleJob C c st)"
  by (auto simp: BucketLifeCycleJob_def split: gores.split)

lemma calm_load: "all_idle st \<Longrightarrow> calmed all_idle (st_bind (st, loadMetadataHelper C c st) (\<lambda>st metadata.
    st_bind (st, convertBytesMetadata (envJ E) metadata) (\<lambda>st quantization.
    let st = st\<lparr>Space := FillEmpty c quantization (Space st)\<rparr> in
    st_bind (on_store (LoadedMetadata E c metadata) st) (\<lambda>st _.
    st_bind (st, loadInvertedIndexHelper C c st) (\<lambda>st invertedIndex.
    st_bind (on_store (LoadedInverted E c invertedIndex) st) (\<lambda>st _.
    st_bind (st, loadVertexHelper C c st) (\<lambda>st vertexdata.
    st_bind (on_store (LoadedVertex c vertexdata) st) (\<lambda>st _.
    st_bind (BucketLifeCycleJob C c (newAuthorizationBucketHelper c st)) (\<lambda>st _.
    collection_detail c st)))))))))"
  unfolding Let_def vs_calls
  by (intro calmed_bind calm_call calm_calls calmed_pure calm_detail calm_lifecycle) (auto simp: all_idle_changes)

lemma recovered_Ok: "recovered m = (st', Ok rep) \<longleftrightarrow> fst m = st' \<and> (\<exists>r. snd m = Ok r \<and> rep = Reply r \<or> (\<exists>e. snd m = Err e \<and> rep = Failed e))"
  by (cases m; cases "snd m") (auto simp: recovered_def)

lemma calm_recovered: "calmed P m \<Longrightarrow> recovered m = (st', Ok rep) \<Longrightarrow> P st'"
  by (auto simp: recovered_Ok calmed_def)

text \<open>Requests that are answered without a recovered panic.\<close>

inductive edge_answered :: "'b edgeEnv \<Rightarrow> 's minioClient \<Rightarrow> (gmeta \<Rightarrow> gmeta gores) \<Rightarrow>
    ('b, 's) edge \<Rightarrow> ('b, 's) edge \<Rightarrow> bool" for E C newStruct where
  start: "LoadAuthorizationBuckets C st = (st', r) \<Longrightarrow> edge_answered E C newStruct st st'"
| create: "CreateCollection E C req st = (st', Ok rep) \<Longrightarrow> edge_answered E C newStruct st st'"
| delete: "DeleteCollection C c st = (st', Ok rep) \<Longrightarrow> edge_answered E C newStruct st st'"
| look: "GetCollection c st = (st', Ok rep) \<Longrightarrow> edge_answered E C newStruct st st'"
| load: "LoadCollection E C c st = (st', Ok rep) \<Longrightarrow> edge_answered E C newStruct st st'"
| release: "ReleaseCollection E C c st = (st', Ok rep) \<Longrightarrow> edge_answered E C newStruct st st'"
| flush: "Flush E C c st = (st', Ok rep) \<Longrightarrow> edge_answered E C newStruct st st'"
| index: "Index E i c chg pk md v st = (st', Ok rep) \<Longrightarrow> edge_answered E C newStruct st st'"
| search: "Search E newStruct c e lim off v hc st = (st', Ok rep) \<Longrightarrow> edge_answered E C newStruct st st'"
| stop: "Close E C st = (st', Ok u) \<Longrightarrow> edge_answered E C newStruct st st'"

inductive edge_served :: "'b edgeEnv \<Rightarrow> 's minioClient \<Rightarrow> (gmeta \<Rightarrow> gmeta gores) \<Rightarrow>
    ('b, 's) edge \<Rightarrow> bool" for E C newStruct where
  init: "edge_served E C newStruct (NewEdge s)"
| step: "edge_served E C newStruct st \<Longrightarrow> edge_answered E C newStruct st st' \<Longrightarrow> edge_served E C newStruct st'"

lemma answered_step: "edge_answered E C newStruct st st' \<Longrightarrow> edge_step E C newStruct st st'"
  by (induction rule: edge_answered.induct; metis edge_step.intros fst_conv)

lemma served_reachable: "edge_served E C newStruct st \<Longrightarrow> edge_reachable E C newStruct st"
  by (induction rule: edge_served.induct) (auto intro: edge_reachable.intros answered_step)

lemma calm_close: "all_idle st \<Longrightarrow> calmed all_idle (close_collection E C c st)"
proof -
  have s: "calmed all_idle (saved_or_empty g st1)" if "calmed all_idle (on_store g st1)" for g and st1 :: "('a, 'b) edge"
    using that by (cases "on_store g st1"; cases "snd (on_store g st1)") (auto simp: saved_or_empty_def calmed_def)
  have l: "calmed all_idle (logged m)" if "calmed all_idle m" for m :: "('a, 'b) edge \<times> unit gores"
    using that by (cases m; cases "snd m") (auto simp: logged_def calmed_def)
  show "all_idle st \<Longrightarrow> calmed all_idle (close_collection E C c st)"
    unfolding close_collection_def helper_defs vs_calls
    by (intro calmed_bind s l calm_call calm_calls calm_storage)
qed

lemma calm_close_all: "all_idle st \<Longrightarrow> calmed all_idle (close_all E C cols st)"
proof (induction cols arbitrary: st)
  case (Cons p cols)
  obtain col status where p: "p = (col, status)" by (cases p)
  show ?case unfolding p close_all.simps
    by (rule calmed_bind) (use Cons in \<open>auto intro: calm_close\<close>)
qed auto

lemma answered_idle: "edge_answered E C newStruct st st' \<Longrightarrow> all_idle st \<Longrightarrow> all_idle st'"
proof (induction rule: edge_answered.induct)
  case (start st st' r)
  then show ?case by (cases "LoadBucketList C (Storage st)") (auto simp: LoadAuthorizationBuckets_def)
next
  case (create req st st' rep)
  show ?case
  proof (cases "hasCollection (reqName req) st")
    case False
    obtain st1 r where b: "create_body E C req st = (st1, r)" by fastforce
    have "clean r \<Longrightarrow> all_idle st1" using calm_create_body [OF create.prems, of E C req] b by (simp add: calmed_def)
    then show ?thesis using create.hyps False b
      by (cases r) (auto simp: CreateCollection_def Let_def all_idle_def DestroySpace_def destroyBucketHelper_def delete_conv' split: if_splits)
  qed (use create in \<open>simp add: CreateCollection_def Let_def\<close>)
next
  case (delete c st st' rep)
  have "all_idle (destroyBucketHelper c st\<lparr>Space := DestroySpace c (Space (destroyBucketHelper c st))\<rparr>)"
    using delete.prems by (simp add: all_idle_changes)
  then show ?case using delete.prems
    by (intro calm_recovered [where P = all_idle, OF _ delete.hyps [unfolded DeleteCollection_def]])
      (simp add: Let_def calm_storage calmed_pure)
next
  case (look c st st' rep)
  show ?case using look.prems
    by (intro calm_recovered [where P = all_idle, OF _ look.hyps [unfolded GetCollection_def]]) (auto intro: calm_detail)
next
  case (load c st st' rep)
  show ?case using load.prems
    by (intro calm_recovered [where P = all_idle, OF _ load.hyps [unfolded LoadCollection_def]])
      (intro calmed_if calmed_pure calm_detail calm_load)
next
  case (release c st st' rep)
  show ?case using release.prems
    by (intro calm_recovered [where P = all_idle, OF _ release.hyps [unfolded ReleaseCollection_def]])
      (auto intro!: calmed_bind calm_save)
next
  case (flush c st st' rep)
  show ?case using flush.prems
    by (intro calm_recovered [where P = all_idle, OF _ flush.hyps [unfolded Flush_def]]) (auto intro!: calmed_bind calm_save)
next
  case (index i c chg pk md v st st' rep)
  show ?case using index.prems
    by (intro calm_recovered [where P = all_idle, OF _ index.hyps [unfolded Index_def vs_calls]]) (auto intro!: calmed_bind calm_call)
next
  case (search c e lim off v hc st st' rep)
  show ?case using search.prems
    by (intro calm_recovered [where P = all_idle, OF _ search.hyps [unfolded Search_def vs_calls]]) (auto intro!: calmed_bind calm_call)
next
  case (stop st st' u)
  then show ?case using calm_close_all [of st E C "Load st"] by (simp add: Close_def calmed_def)
qed

lemma served_idle: "edge_served E C newStruct st \<Longrightarrow> all_idle st"
proof (induction rule: edge_served.induct)
  case (init s)
  show ?case by (simp add: all_idle_def NewEdge_def)
qed (rule answered_idle)

end
