(* ===== verification/EdgeDurable.thy ===== *)
theory EdgeDurable
  imports EdgeIdle
begin

text \<open>
  Durability of a collection: what \<open>ReleaseCollection\<close> wrote, \<open>LoadCollection\<close> brings back.
\<close>

subsection \<open>Release and load again\<close>

lemma object_names: "metaObject c \<noteq> vertexObject c" "metaObject c \<noteq> invertedObject c"
  "vertexObject c \<noteq> invertedObject c"
  by (simp_all add: metaObject_def vertexObject_def invertedObject_def)

lemma saved_objects:
  assumes C: "minio_ok C view"
    and p: "PutObject C c (metaObject c) mb s = (s1, Ok ())" "PutObject C c (vertexObject c) vb s1 = (s2, Ok ())"
      "PutObject C c (invertedObject c) ib s2 = (s3, Ok ())"
  shows "GetObject C c (metaObject c) s3 = Ok mb" "GetObject C c (vertexObject c) s3 = Ok vb"
    "GetObject C c (invertedObject c) s3 = Ok ib"
  using minio_okD(2) [OF C p(1)] minio_okD(2) [OF C p(2)] minio_okD(2) [OF C p(3)] object_names [of c]
  by (auto intro!: minio_okD(4) [OF C])

text \<open>A call that answers with a value and leaves the collections as they are.\<close>

definition asks :: "('b, 's) edge \<Rightarrow> ('b, 's) edge \<times> 'a gores \<Rightarrow> bool" where
  "asks st m \<longleftrightarrow> is_Ok (snd m) \<and> same_edge st (fst m)"

lemma asks_bind: "asks st m \<Longrightarrow> (\<And>st1 a. same_edge st st1 \<Longrightarrow> asks st (f st1 a)) \<Longrightarrow> asks st (st_bind m f)"
  by (cases m; cases "snd m") (auto simp: asks_def)

lemma asks_call:
  assumes "map_of (Space st) c = Some sp" and "same_edge st st1"
  shows "asks st (on_store (call_space c (on_space (asking (\<lambda>sp. Ok (a sp))) (asking (\<lambda>sp. Ok (b sp)))
      (asking (\<lambda>sp. Ok (d sp))) (asking (\<lambda>sp. Ok (e sp))))) st1)"
proof -
  let ?f = "on_space (asking (\<lambda>sp. Ok (a sp))) (asking (\<lambda>sp. Ok (b sp))) (asking (\<lambda>sp. Ok (d sp))) (asking (\<lambda>sp. Ok (e sp)))"
  have "map_of (Space st1) c = Some sp" using assms by (simp add: same_edge_def)
  moreover have "is_Ok (snd (?f sp))" by (cases sp) (simp_all add: asking_def)
  ultimately show ?thesis using ask_call [of ?f c st1, OF on_space_asking] assms(2)
    by (auto simp: same_edge_def asks_def)
qed

lemma detail_Ok:
  assumes "map_of (Space st) c = Some sp"
  shows "asks st (collection_detail c st)"
proof -
  have r: "same_edge st st" by (simp add: same_edge_def)
  show ?thesis
    unfolding collection_detail_def vsIndexer_def vsDistance_def vsQuantization_def vsDim_def vsVersional_def vsLoadSize_def
    by (intro asks_bind asks_call [OF assms] r; assumption?) (simp add: asks_def)
qed

lemma released:
  assumes C: "minio_ok C view" and h: "hasCollection c st" "alreadyLoadCollection c st"
    and sp: "map_of (Space st) c = Some sp"
    and r: "ReleaseCollection E C c st = (st1, Ok (Reply ()))"
  obtains mb vb ib where "saved_meta E sp = Ok mb" "saved_vertices sp = Ok vb" "saved_index E sp = Ok ib"
    "GetObject C c (metaObject c) (Storage st1) = Ok mb" "GetObject C c (vertexObject c) (Storage st1) = Ok vb"
    "GetObject C c (invertedObject c) (Storage st1) = Ok ib"
    "map_of (Space st1) c = None" "hasCollection c st1" "\<not> alreadyLoadCollection c st1"
proof -
  let ?st0 = "eliminateBucketMemoryHelper c st"
  obtain st' res where s: "save_collection E C c ?st0 = (st', res)" by fastforce
  have res: "res = Ok ()" and st1: "st1 = st'\<lparr>Space := DestroySpace c (Space st')\<rparr>"
    using r h by (cases res; simp add: ReleaseCollection_def recovered_def s)+
  obtain sp' mb vb ib s1 s2 s3 where "map_of (Space ?st0) c = Some sp'"
    and im: "saved_meta E sp' = Ok mb" "saved_vertices sp' = Ok vb" "saved_index E sp' = Ok ib"
    and p: "PutObject C c (metaObject c) mb (Storage ?st0) = (s1, Ok ())" "PutObject C c (vertexObject c) vb s1 = (s2, Ok ())"
      "PutObject C c (invertedObject c) ib s2 = (s3, Ok ())" and se: "stored_edge ?st0 s3 st'"
    using save_collection_Ok [of E C c ?st0 st'] s res by blast
  moreover have "sp' = sp" using sp calculation(1) by (simp add: eliminateBucketMemoryHelper_def)
  moreover have "Storage st1 = s3" "map_of (Space st1) c = None" "hasCollection c st1" "\<not> alreadyLoadCollection c st1"
    using se h by (simp_all add: st1 stored_edge_def DestroySpace_def hasCollection_def alreadyLoadCollection_def
        eliminateBucketMemoryHelper_def)
  ultimately show ?thesis using saved_objects [OF C p] that by simp
qed

text \<open>
  The clean-up of old versions at the end of a load keeps the collections. It answers, or it panics
  after a removal that the storage refused in a bucket with versions.
\<close>

lemma lifecycle_cases:
  assumes "minio_ok C view"
  shows "Space (fst (BucketLifeCycleJob C c st)) = Space st" "Load (fst (BucketLifeCycleJob C c st)) = Load st"
    and "snd (BucketLifeCycleJob C c st) = Ok () \<or>
      snd (BucketLifeCycleJob C c st) = Panic ''nil pointer dereference'' \<and> removal_fails C \<and>
      IsVersionBucket C c (Storage st) = Ok True"
proof -
  have a: "answers (IsVersionBucket C c (Storage st))" using assms by (simp add: minio_ok_def IsVersionBucket_def)
  have v: "snd (on_storage (VersionCleanUp C c) st) = snd (VersionCleanUp C c (Storage st))"
    by (simp add: on_storage_def split: prod.split)
  show "Space (fst (BucketLifeCycleJob C c st)) = Space st" "Load (fst (BucketLifeCycleJob C c st)) = Load st"
    by (simp_all add: BucketLifeCycleJob_def split: gores.split)
  show "snd (BucketLifeCycleJob C c st) = Ok () \<or>
      snd (BucketLifeCycleJob C c st) = Panic ''nil pointer dereference'' \<and> removal_fails C \<and>
      IsVersionBucket C c (Storage st) = Ok True"
    using a VersionCleanUp_ok(2) [OF assms, of c "Storage st"]
    by (cases "IsVersionBucket C c (Storage st)") (auto simp: BucketLifeCycleJob_def answers_def v)
qed



text \<open>A store that can be saved is saved when the storage takes it.\<close>

definition good :: "string \<Rightarrow> 'b anyspace \<Rightarrow> ('b, 's) edge \<times> 'a gores \<Rightarrow> bool" where
  "good c sp m \<longleftrightarrow> is_Ok (snd m) \<and> map_of (Space (fst m)) c = Some sp"

lemma good_bind:
  "good c sp m \<Longrightarrow> (\<And>st1 a. map_of (Space st1) c = Some sp \<Longrightarrow> good c sp (f st1 a)) \<Longrightarrow> good c sp (st_bind m f)"
  by (cases m; cases "snd m") (auto simp: good_def)

lemma saved_Ok:
  assumes R: "roaring_ok (envR E) alpha" and sp: "any_storable E sp"
  shows "is_Ok (saved_meta E sp)" "is_Ok (saved_vertices sp)" "is_Ok (saved_index E sp)"
proof -
  have ix: "is_Ok (snd (SaveVertexInverted (envR E) a))"
    if "invIndex a \<noteq> None" "saveable (envR E) (idx_of a)" for a :: "('e, 'a) vecspace"
    using save_reload [OF R that(2)] that(1)
    by (auto simp: SaveVertexInverted_def with_index_def idx_of_def)
  show "is_Ok (saved_meta E sp)" by (cases sp) (simp_all add: saved_defs SaveVertexMetadata_def)
  show "is_Ok (saved_index E sp)" using sp by (cases sp) (simp_all add: saved_defs ix case_prod_beta)
  note l = quantizer_laws.LoadVertex_SaveVertex
  show "is_Ok (saved_vertices sp)"
    using sp l [OF quantizers_lawful(1)] l [OF quantizers_lawful(2)] l [OF quantizers_lawful(3)]
      l [OF quantizers_lawful(4)]
    by (cases sp) (fastforce simp: saved_defs is_Ok_iff)+
qed

lemma save_collection_succeeds:
  assumes sp: "is_Ok (saved_meta E sp)" "is_Ok (saved_vertices sp)" "is_Ok (saved_index E sp)"
    and st: "map_of (Space st) c = Some sp" and puts: "\<And>b k d s. is_Ok (snd (PutObject C b k d s))"
  shows "good c sp (save_collection E C c st)"
proof -
  have a: "good c sp (on_store g st1)"
    if "map_of (Space st1) c = Some sp" "is_Ok (h sp)" "asks_for h g c st1"
    for g st1 and h :: "'a anyspace \<Rightarrow> 'c gores"
    using that by (auto simp: good_def asks_for_def same_edge_def is_Ok_iff)
  have b: "good c sp (on_storage (PutObject C b k d) st1)" if "map_of (Space st1) c = Some sp" for b k d st1
    using that puts [of b k d "Storage st1"] by (auto simp: good_def on_storage_def split: prod.split)
  show ?thesis unfolding save_collection_def helper_defs
    by (intro good_bind b) ((rule a [OF _ sp(1) ask_saved(1)]
        a [OF _ sp(2) ask_saved(2)] a [OF _ sp(3) ask_saved(3)])?; (assumption | rule st))+
qed

text \<open>A server in memory with the example store.\<close>

definition example_env :: "u64 list edgeEnv" where
  "example_env = \<lparr>envR = list_roaring, envJ = \<lparr>jmarshal = \<lambda>md. [], junmarshal = \<lambda>bs. Ok example_md\<rparr>,
     envImpl = nativeSpaceImpl, envIl = concat\<rparr>"

definition example_edge :: "(u64 list, memStore) edge" where
  "example_edge = \<lparr>Space = [(''c'', NoneSpace example_space)], Exists = [(''c'', True)],
     Load = [(''c'', True)], Storage = []\<rparr>"

lemma memClient_puts: "is_Ok (snd (PutObject memClient b k d s))"
  by (simp add: PutObject_def memClient_def)

lemma example_storable: "any_storable example_env (NoneSpace example_space)"
proof -
  have "saveable list_roaring (idx_of example_space)"
    by (simp add: example_space_def saveable_def index_idle_def shard_saveable_def widen_def storable_def hashable_def
        key_eq_def writeValue_def list_roaring_def)
  then show ?thesis
    using example_saveable
    by (simp add: storable_space_def example_env_def json_ok_def same_meta_def)
      (simp add: example_space_def newNoneVectorstore_def newVecspace_def example_md_def)
qed


end
