(* ===== verification/EdgeSafety.thy ===== *)
theory EdgeSafety
  imports EdgeDurable
begin

text \<open>
  What a client can rely on in every state the server reaches, and what it loses when a save fails.
\<close>

subsection \<open>Create\<close>

lemma newAuth_Space [simp]: "Space (newAuthorizationBucketHelper c st) = Space st"
  by (simp add: newAuthorizationBucketHelper_def)

text \<open>What a request to create a collection leaves when it answers.\<close>

lemma create_cases:
  assumes n: "\<not> hasCollection (reqName req) st" and r: "CreateCollection E C req st = (st', Ok rep)"
  shows "(\<exists>e. rep = Failed e \<and> map_of (Space st') (reqName req) = None \<and> \<not> hasCollection (reqName req) st' \<and>
        \<not> alreadyLoadCollection (reqName req) st') \<or>
     (rep = Reply req \<and> hasCollection (reqName req) st' \<and> alreadyLoadCollection (reqName req) st' \<and>
      space_ready (reqName req) st')"
proof -
  obtain st1 res where b: "create_body E C req st = (st1, res)" by fastforce
  show ?thesis
  proof (cases res)
    case (Ok u)
    with create_body_Ok [of E C req st st1 u] b r n show ?thesis by (simp add: CreateCollection_def Let_def)
  next
    case (Err e)
    with r n b show ?thesis
      by (auto simp: CreateCollection_def Let_def destroyBucketHelper_def DestroySpace_def hasCollection_def
          alreadyLoadCollection_def)
  qed (use r n b in \<open>simp_all add: CreateCollection_def Let_def\<close>)
qed

text \<open>
  C31: creating a collection is all or nothing. A request for a name that does not exist, when it
  answers with the collection, has made it exist, loaded, with a store in operation; when it answers
  with a failure, no store, no name and no load mark are left. It never answers for a name that
  exists with anything but a failure, and then the state is untouched.
\<close>

theorem create_all_or_nothing:
  assumes "CreateCollection E C req st = (st', Ok rep)"
  shows "if hasCollection (reqName req) st then st' = st \<and> (\<exists>e. rep = Failed e)
    else if rep = Reply req then hasCollection (reqName req) st' \<and> alreadyLoadCollection (reqName req) st' \<and>
      space_ready (reqName req) st'
    else (\<exists>e. rep = Failed e) \<and> map_of (Space st') (reqName req) = None \<and> \<not> hasCollection (reqName req) st' \<and>
      \<not> alreadyLoadCollection (reqName req) st'"
proof (cases "hasCollection (reqName req) st")
  case True
  with assms show ?thesis by (auto simp: CreateCollection_def Let_def)
qed (use create_cases [OF _ assms] in auto)

definition example_req :: CollectionReq where
  "example_req = \<lparr>reqName = ''c'', reqIndex = [], reqDistance = 0, reqQuantization = Quantization_F16, reqDim = 2,
     reqVersioning = False\<rparr>"

lemma new_saveable: "spaceSaveable (newVecspace (Some NewBitmapIndex) c md)"
  by (simp add: spaceSaveable_def readable_def newVecspace_def)

lemma new_index_saved: "snd (SaveVertexInverted R (newVecspace (Some NewBitmapIndex) c md)) = Ok (le_bytes 4 0)"
  by (simp add: SaveVertexInverted_def with_index_def newVecspace_def SerializeBinary_def NewBitmapIndex_def)

text \<open>A request for one of the three formats with an index, on a storage that obliges.\<close>

lemma create_Ok:
  fixes E :: "'b edgeEnv" and st :: "('b, 's) edge"
  assumes q: "reqQuantization req \<in> {Quantization_None, Quantization_F16, Quantization_F8}"
    and n: "\<not> hasCollection (reqName req) st" "map_of (Space st) (reqName req) = None"
    and C: "\<And>b k d s. is_Ok (snd (PutObject C b k d s))" "\<And>b s. is_Ok (snd (CreateBucket C b s))"
      "\<And>b s. is_Ok (snd (BucketVersioning C b s))"
  shows "\<exists>st'. CreateCollection E C req st = (st', Ok (Reply req))"
proof -
  let ?c = "reqName req"
  define sp :: "'b anyspace" where "sp = (if reqQuantization req = Quantization_F8 then F8Space (newF8Vectorstore ?c (reqMetadata req))
     else if reqQuantization req = Quantization_F16 then F16Space (newF16Vectorstore ?c (reqMetadata req))
     else NoneSpace (newNoneVectorstore ?c (reqMetadata req)))"
  have v: "vsCreateCollection ?c (reqMetadata req) sps = (AList.update ?c sp sps, Ok ())"
    if "map_of sps ?c = None" for sps
    using q that by (auto simp: vsCreateCollection_def sp_def reqMetadata_def enum_defs)
  note l = quantizer_laws.LoadVertex_SaveVertex [OF _ new_saveable]
  have im: "is_Ok (saved_meta E sp)" "is_Ok (saved_index E sp)" "is_Ok (saved_vertices sp)"
    using l [OF quantizers_lawful(1)] l [OF quantizers_lawful(2)] l [OF quantizers_lawful(3)]
    by (fastforce simp: sp_def saved_defs SaveVertexMetadata_def newNoneVectorstore_def newF16Vectorstore_def
        newF8Vectorstore_def new_index_saved case_prod_beta is_Ok_iff)+
  obtain st1 where 1: "on_storage (CreateBucket C ?c) st = (st1, Ok ())" "Space st1 = Space st"
    using C(2) [of ?c "Storage st"] by (cases "CreateBucket C ?c (Storage st)") (auto simp: on_storage_def is_Ok_iff)
  obtain st2 where 2: "(if reqVersioning req then on_storage (BucketVersioning C ?c) st1 else (st1, Ok ())) = (st2, Ok ())"
    "Space st2 = Space st"
    using C(3) [of ?c "Storage st1"] 1(2)
    by (cases "BucketVersioning C ?c (Storage st1)"; cases "reqVersioning req") (auto simp: on_storage_def is_Ok_iff)
  have 3: "on_store (vsCreateCollection ?c (reqMetadata req)) st2 = (st2\<lparr>Space := AList.update ?c sp (Space st)\<rparr>, Ok ())"
    using v n(2) by (simp add: on_store_def 2(2))
  obtain st4 where 4: "save_collection E C ?c (st2\<lparr>Space := AList.update ?c sp (Space st)\<rparr>) = (st4, Ok ())"
    using save_collection_succeeds [OF im(1,3,2) _ C(1), of "st2\<lparr>Space := AList.update ?c sp (Space st)\<rparr>" ?c]
    by (cases "save_collection E C ?c (st2\<lparr>Space := AList.update ?c sp (Space st)\<rparr>)") (auto simp: good_def is_Ok_iff)
  show ?thesis using n(1) by (simp add: CreateCollection_def create_body_def Let_def 1(1) 2(1) 3 4)
qed

lemma memClient_obliges: "is_Ok (snd (CreateBucket memClient b s))" "is_Ok (snd (BucketVersioning memClient b s))"
  by (simp_all add: memClient_def CreateBucket_def BucketVersioning_def)

lemma example_create:
  "\<exists>st'. CreateCollection example_env memClient example_req (NewEdge []) = (st', Ok (Reply example_req))"
  by (rule create_Ok) (simp_all add: example_req_def NewEdge_def hasCollection_def memClient_puts memClient_obliges)

lemma create_all_or_nothing_witness:
  "\<exists>st'. CreateCollection example_env memClient example_req (NewEdge []) = (st', Ok (Reply example_req)) \<and>
     alreadyLoadCollection ''c'' st' \<and> space_ready ''c'' st'"
proof -
  obtain st' where "CreateCollection example_env memClient example_req (NewEdge []) = (st', Ok (Reply example_req))"
    using example_create by blast
  with create_all_or_nothing [OF this] show ?thesis
    by (simp add: NewEdge_def hasCollection_def example_req_def split: if_splits)
qed

subsection \<open>Reachable states\<close>

text \<open>
  C9: in every state the server can reach, by any sequence of requests with any failures of the
  storage, a collection that is marked as loaded exists and its store is in operation: it has its
  locks, its shards, its metric and its index.
\<close>

theorem loaded_in_operation:
  "edge_reachable E C newStruct st \<Longrightarrow> alreadyLoadCollection c st \<Longrightarrow>
   hasCollection c st \<and> (\<exists>sp. map_of (Space st) c = Some sp \<and> any_ready sp)"
  using edge_inv_reachable [of E C newStruct st] by (auto simp: edge_inv_def coll_ok_def space_ready_def)

lemma example_reachable:
  obtains st where "edge_reachable example_env memClient Ok st" "alreadyLoadCollection ''c'' st"
proof -
  obtain st' where r: "CreateCollection example_env memClient example_req (NewEdge []) = (st', Ok (Reply example_req))"
    using example_create by blast
  then have "alreadyLoadCollection ''c'' st'"
    using create_cases [OF _ r] by (auto simp: NewEdge_def hasCollection_def example_req_def)
  moreover have "edge_reachable example_env memClient Ok st'"
    using edge_reachable.step [OF edge_reachable.init edge_step.create, of example_env memClient Ok example_req "[]"] r
    by simp
  ultimately show ?thesis using that by blast
qed

lemma loaded_in_operation_witness:
  "\<exists>st sp. edge_reachable example_env memClient Ok st \<and> map_of (Space st) ''c'' = Some sp \<and> any_ready sp"
  by (rule example_reachable) (use loaded_in_operation in blast)

lemma recovered_clean: "clean r \<Longrightarrow> \<exists>rep. snd (recovered (st, r)) = Ok rep"
  by (cases r) (auto simp: recovered_def)

lemma save_answers:
  assumes C: "minio_ok C view" and i: "edge_inv st" "all_idle st"
  shows "\<exists>rep. snd (Flush E C c st) = Ok rep" and "\<exists>rep. snd (ReleaseCollection E C c st) = Ok rep"
proof -
  have f: "clean (snd (save_collection E C c st))" "clean (snd (save_collection E C c (eliminateBucketMemoryHelper c st)))"
    if "alreadyLoadCollection c st"
  proof -
    have "at_rest c st" "at_rest c (eliminateBucketMemoryHelper c st)" using i that
      by (auto simp: edge_inv_def coll_ok_def space_ready_def all_idle_def at_rest_def eliminateBucketMemoryHelper_def)
    then show "clean (snd (save_collection E C c st))" "clean (snd (save_collection E C c (eliminateBucketMemoryHelper c st)))"
      by (simp_all add: save_collection_fine [OF C, unfolded fine_def])
  qed
  show "\<exists>rep. snd (Flush E C c st) = Ok rep"
    using f(1) by (cases "save_collection E C c st")
      (auto simp: Flush_def authorization_def recovered_def clean_def split: gores.split)
  show "\<exists>rep. snd (ReleaseCollection E C c st) = Ok rep"
    using f(2) by (cases "save_collection E C c (eliminateBucketMemoryHelper c st)"; cases "snd (save_collection E C c (eliminateBucketMemoryHelper c st))")
      (auto simp: ReleaseCollection_def recovered_def clean_def)
qed

text \<open>
  C30: a server all of whose requests so far were answered, with a reply or a failure and not with a
  recovered panic, answers every save: a flush and a release of any name, loaded or not, neither panic
  nor wait for ever for a lock, whatever the storage answers and whatever the metadata of the vertices
  are. After a request that panicked this can be lost: a list as a metadata value leaves the lock of a
  shard held (\<open>list_value_blocks_save\<close>).
\<close>

theorem saving_answers:
  "edge_served E C newStruct st \<Longrightarrow> minio_ok C view \<Longrightarrow>
   (\<exists>rep. snd (Flush E C c st) = Ok rep) \<and> (\<exists>rep. snd (ReleaseCollection E C c st) = Ok rep)"
  by (meson save_answers edge_inv_reachable served_reachable served_idle)

lemma example_served:
  obtains st where "edge_served example_env memClient Ok st" "alreadyLoadCollection ''c'' st"
proof -
  obtain st' where r: "CreateCollection example_env memClient example_req (NewEdge []) = (st', Ok (Reply example_req))"
    using example_create by blast
  then have "alreadyLoadCollection ''c'' st'"
    using create_cases [OF _ r] by (auto simp: NewEdge_def hasCollection_def example_req_def)
  moreover have "edge_served example_env memClient Ok st'"
    by (rule edge_served.step [OF edge_served.init edge_answered.create [OF r]])
  ultimately show ?thesis using that by blast
qed

lemma saving_answers_witness:
  "\<exists>st rep. alreadyLoadCollection ''c'' st \<and> snd (Flush example_env memClient ''c'' st) = Ok rep"
  by (rule example_served) (use saving_answers [OF _ memClient_ok] in blast)

subsection \<open>Shutting down after a failed save\<close>

lemma PutObject_fact:
  assumes C: "minio_ok C view" and p: "\<And>b k d s. is_Ok (snd (PutObject C b k d s))"
  obtains st1 where "on_storage (PutObject C b k d) st = (st1, Ok ())"
    "view (Storage st1) = (view (Storage st))(b := (view (Storage st) b)(k \<mapsto> d))"
    "Space st1 = Space st" "Load st1 = Load st" "Exists st1 = Exists st"
proof -
  obtain s' where s: "PutObject C b k d (Storage st) = (s', Ok ())"
    using p [of b k d "Storage st"] by (cases "PutObject C b k d (Storage st)") (auto simp: is_Ok_iff)
  show ?thesis
    by (rule that [of "st\<lparr>Storage := s'\<rparr>"]) (simp_all add: on_storage_def s minio_okD(2) [OF C s])
qed

text \<open>A name is marked as loaded once.\<close>

definition marked_once :: "('b, 's) edge \<Rightarrow> bool" where
  "marked_once st \<longleftrightarrow> distinct (map fst (Load st))"

lemma marked_bind [intro]:
  "marked_once (fst m) \<Longrightarrow> (\<And>st1 a. marked_once st1 \<Longrightarrow> marked_once (fst (f st1 a))) \<Longrightarrow> marked_once (fst (st_bind m f))"
  by (cases m; cases "snd m") auto

lemma marked_simps [simp]:
  "marked_once (fst (on_store g st)) = marked_once st" "marked_once (fst (on_storage h st)) = marked_once st"
  "marked_once (fst (save_collection E C c st)) = marked_once st" "marked_once (st\<lparr>Space := x\<rparr>) = marked_once st"
  "marked_once (st\<lparr>Exists := y\<rparr>) = marked_once st"
  by (simp_all add: marked_once_def)

lemma marked_marks [simp]:
  "marked_once st \<Longrightarrow> marked_once (newAuthorizationBucketHelper c st)" "marked_once st \<Longrightarrow> marked_once (destroyBucketHelper c st)"
  "marked_once st \<Longrightarrow> marked_once (eliminateBucketMemoryHelper c st)" "marked_once st \<Longrightarrow> marked_once (fst (BucketLifeCycleJob C c st))"
  by (simp_all add: marked_once_def newAuthorizationBucketHelper_def destroyBucketHelper_def eliminateBucketMemoryHelper_def
      distinct_update distinct_delete BucketLifeCycleJob_def split: gores.split)

lemma marked_detail [simp]: "marked_once st \<Longrightarrow> marked_once (fst (collection_detail c st))"
  unfolding collection_detail_def by (intro marked_bind) simp_all

lemma marked_close: "marked_once st \<Longrightarrow> marked_once (fst (close_all E C cols st))"
proof (induction cols arbitrary: st)
  case (Cons p cols)
  have "marked_once st1 \<Longrightarrow> marked_once (fst (close_collection E C c st1))" for c st1
    unfolding close_collection_def helper_defs by (intro marked_bind) (simp_all add: saved_or_empty_state logged_state)
  then show ?case using Cons by (cases p) auto
qed simp

lemma marked_step: "edge_step E C newStruct st st' \<Longrightarrow> marked_once st \<Longrightarrow> marked_once st'"
proof (induction rule: edge_step.induct)
  case (create st req)
  obtain st1 r where b: "create_body E C req st = (st1, r)" by fastforce
  have "marked_once (fst (create_body E C req st))" unfolding create_body_def Let_def
    using create by (intro marked_bind) simp_all
  then show ?case using create b by (cases r) (auto simp: CreateCollection_def Let_def)
next
  case (load st c)
  then show ?case
    by (auto simp: LoadCollection_def Let_def intro!: marked_bind)
qed (auto simp: DeleteCollection_def GetCollection_def ReleaseCollection_def Flush_def Index_def
    Search_def Close_def marked_close LoadAuthorizationBuckets_def Let_def intro!: marked_bind)

lemma marked_reachable: "edge_reachable E C newStruct st \<Longrightarrow> marked_once st"
  by (induction rule: edge_reachable.induct) (auto simp: marked_once_def NewEdge_def intro: marked_step [unfolded marked_once_def])

text \<open>What \<open>Close\<close> puts for a save: its bytes, or none.\<close>

definition bytes_or_none :: "bytes gores \<Rightarrow> bytes" where
  "bytes_or_none r = (case r of Ok bs \<Rightarrow> bs | _ \<Rightarrow> [])"

lemma saved_or_empty_ask:
  assumes sp: "map_of (Space st) c = Some sp" and cl: "clean (h sp)" and g: "asks_for h g c st"
  obtains st1 where "saved_or_empty g st = (st1, Ok (bytes_or_none (h sp)))" "same_edge st st1"
  using g sp cl by (cases "h sp") (auto simp: asks_for_def saved_or_empty_def bytes_or_none_def)

text \<open>The three objects of a collection after \<open>Close\<close>.\<close>

definition closed_objects :: "'b edgeEnv \<Rightarrow> (string \<Rightarrow> bytes option) \<Rightarrow> string \<Rightarrow> 'b anyspace \<Rightarrow> bool" where
  "closed_objects E objects c sp \<longleftrightarrow> objects (metaObject c) = Some (bytes_or_none (saved_meta E sp)) \<and>
     objects (vertexObject c) = Some (bytes_or_none (saved_vertices sp)) \<and>
     objects (invertedObject c) = Some (bytes_or_none (saved_index E sp))"

lemma close_collection_puts:
  assumes C: "minio_ok C view" and p: "\<And>b k d s. is_Ok (snd (PutObject C b k d s))"
    and sp: "map_of (Space st) c = Some sp" "any_ready sp" "any_idle sp"
  shows "\<exists>st'. close_collection E C c st = (st', Ok ()) \<and> map_of (Space st') = map_of (Space st) \<and>
    (\<forall>d. d \<noteq> c \<longrightarrow> view (Storage st') d = view (Storage st) d) \<and> closed_objects E (view (Storage st') c) c sp"
proof -
  note put = PutObject_fact [OF C p] and cl = saved_clean [OF sp(2,3)]
  obtain st1 where 1: "saved_or_empty (SavedMetadata E c) st = (st1, Ok (bytes_or_none (saved_meta E sp)))" "same_edge st st1"
    by (rule saved_or_empty_ask [OF sp(1) cl(1) ask_saved(1)])
  obtain st2 where 2: "on_storage (PutObject C c (metaObject c) (bytes_or_none (saved_meta E sp))) st1 = (st2, Ok ())"
    "view (Storage st2) = (view (Storage st1))(c := (view (Storage st1) c)(metaObject c \<mapsto> bytes_or_none (saved_meta E sp)))"
    "Space st2 = Space st1" by (rule put)
  have sp2: "map_of (Space st2) c = Some sp" using sp(1) 1(2) 2(3) by (simp add: same_edge_def)
  obtain st3 where 3: "saved_or_empty (SavedVertex c) st2 = (st3, Ok (bytes_or_none (saved_vertices sp)))" "same_edge st2 st3"
    by (rule saved_or_empty_ask [OF sp2 cl(2) ask_saved(2)])
  obtain st4 where 4: "on_storage (PutObject C c (vertexObject c) (bytes_or_none (saved_vertices sp))) st3 = (st4, Ok ())"
    "view (Storage st4) = (view (Storage st3))(c := (view (Storage st3) c)(vertexObject c \<mapsto> bytes_or_none (saved_vertices sp)))"
    "Space st4 = Space st3" by (rule put)
  have sp4: "map_of (Space st4) c = Some sp" using sp2 3(2) 4(3) by (simp add: same_edge_def)
  obtain st5 where 5: "saved_or_empty (SavedInverted E c) st4 = (st5, Ok (bytes_or_none (saved_index E sp)))" "same_edge st4 st5"
    by (rule saved_or_empty_ask [OF sp4 cl(3) ask_saved(3)])
  obtain st6 where 6: "on_storage (PutObject C c (invertedObject c) (bytes_or_none (saved_index E sp))) st5 = (st6, Ok ())"
    "view (Storage st6) = (view (Storage st5))(c := (view (Storage st5) c)(invertedObject c \<mapsto> bytes_or_none (saved_index E sp)))"
    "Space st6 = Space st5" by (rule put)
  have "close_collection E C c st = (st6, Ok ())"
    by (simp add: close_collection_def helper_defs logged_def 1(1) 2(1) 3(1) 4(1) 5(1) 6(1))
  then show ?thesis
    using 1(2) 2(2,3) 3(2) 4(2,3) 5(2) 6(2,3) object_names [of c]
    by (auto simp: same_edge_def closed_objects_def)
qed

lemma close_all_puts:
  assumes C: "minio_ok C view" and p: "\<And>b k d s. is_Ok (snd (PutObject C b k d s))"
  shows "distinct (map fst cols) \<Longrightarrow>
    (\<And>c. (c, True) \<in> set cols \<Longrightarrow> \<exists>sp. map_of (Space st) c = Some sp \<and> any_ready sp \<and> any_idle sp) \<Longrightarrow>
    \<exists>st'. close_all E C cols st = (st', Ok ()) \<and>
      (\<forall>d. d \<notin> fst ` set cols \<longrightarrow> view (Storage st') d = view (Storage st) d) \<and>
      (\<forall>c sp. (c, True) \<in> set cols \<and> map_of (Space st) c = Some sp \<longrightarrow> closed_objects E (view (Storage st') c) c sp)"
proof (induction cols arbitrary: st)
  case (Cons q cols)
  obtain c status where q: "q = (c, status)" by (cases q)
  let ?now = "if status then close_collection E C c st else (st, Ok ())"
  obtain st1 where 1: "?now = (st1, Ok ())" "map_of (Space st1) = map_of (Space st)"
    "\<And>d. d \<noteq> c \<Longrightarrow> view (Storage st1) d = view (Storage st) d"
    "\<And>sp. status \<Longrightarrow> map_of (Space st) c = Some sp \<Longrightarrow> closed_objects E (view (Storage st1) c) c sp"
  proof (cases status)
    case True
    then obtain sp where sp: "map_of (Space st) c = Some sp" "any_ready sp" "any_idle sp"
      using Cons.prems(2) [of c] by (auto simp: q)
    from close_collection_puts [OF C p this, of E] obtain st' where "close_collection E C c st = (st', Ok ())"
      "map_of (Space st') = map_of (Space st)" "\<forall>d. d \<noteq> c \<longrightarrow> view (Storage st') d = view (Storage st) d"
      "closed_objects E (view (Storage st') c) c sp" by blast
    then show ?thesis using True sp(1) by (intro that [of st']) auto
  qed (use that [of st] in simp)
  have "\<exists>sp. map_of (Space st1) d = Some sp \<and> any_ready sp \<and> any_idle sp" if "(d, True) \<in> set cols" for d
    using Cons.prems(2) [of d] that by (simp add: 1(2))
  then obtain st' where 2: "close_all E C cols st1 = (st', Ok ())"
    "\<forall>d. d \<notin> fst ` set cols \<longrightarrow> view (Storage st') d = view (Storage st1) d"
    "\<forall>c sp. (c, True) \<in> set cols \<and> map_of (Space st1) c = Some sp \<longrightarrow> closed_objects E (view (Storage st') c) c sp"
    using Cons.IH [of st1] Cons.prems(1) by (auto simp: q)
  have "view (Storage st') c = view (Storage st1) c" using 2(2) Cons.prems(1) by (simp add: q)
  moreover have "close_all E C (q # cols) st = (st', Ok ())" by (simp add: q 1(1) 2(1))
  ultimately show ?case using 2(2,3) 1(2,3,4) by (intro exI [of _ st']) (auto simp: q)
qed simp

lemma LoadVertex_nil: "LoadVertex Q [] sp = (sp, Err ''EOF'')"
  by (simp add: LoadVertex_def EDGE_MAP_SHARD_COUNT_def readShard_def read_be_def read_full_def numeral_eq_Suc)

text \<open>
  C32: shutting down writes an empty object over the stored vertices of a collection that cannot be
  saved. \<open>Close\<close> only logs the failure of \<open>SavedVertex\<close> and goes on with the nil bytes it returned.
  Of any number of loaded collections, each ends up with its three objects replaced by what its saves
  returned, bytes or nothing; where the vertices could not be saved, the object that held the last good
  image is empty, and no format loads it again. The storage takes every put here, and the state is one
  that answered requests reach: loaded collections are in operation, no goroutine is lost in a store,
  a name is marked once.
\<close>

theorem close_overwrites:
  fixes st :: "('b, 's) edge"
  assumes "minio_ok C view" and "\<And>b k d s. is_Ok (snd (PutObject C b k d s))"
    and "edge_inv st" and "all_idle st" and "marked_once st"
  shows "\<exists>st'. Close E C st = (st', Ok ()) \<and>
    (\<forall>c. alreadyLoadCollection c st \<longrightarrow> (\<exists>sp. map_of (Space st) c = Some sp \<and>
       closed_objects E (view (Storage st') c) c sp \<and>
       (\<forall>e. saved_vertices sp = Err e \<longrightarrow> GetObject C c (vertexObject c) (Storage st') = Ok []))) \<and>
    (\<forall>c. map_of (Load st) c = None \<longrightarrow> view (Storage st') c = view (Storage st) c) \<and>
    (\<forall>sp' :: 'd anyspace. \<exists>e'. snd (on_space (none_LoadVertex []) (f16_LoadVertex []) (f8_LoadVertex []) (bf16_LoadVertex []) sp') = Err e')"
proof -
  have l: "\<exists>sp. map_of (Space st) c = Some sp \<and> any_ready sp \<and> any_idle sp" if "(c, True) \<in> set (Load st)" for c
    using assms(3-5) that
    by (auto simp: marked_once_def edge_inv_def coll_ok_def alreadyLoadCollection_def space_ready_def all_idle_def)
  obtain st' where cl: "Close E C st = (st', Ok ())"
    "\<forall>d. d \<notin> fst ` set (Load st) \<longrightarrow> view (Storage st') d = view (Storage st) d"
    "\<forall>c sp. (c, True) \<in> set (Load st) \<and> map_of (Space st) c = Some sp \<longrightarrow> closed_objects E (view (Storage st') c) c sp"
    using close_all_puts [OF assms(1,2) assms(5) [unfolded marked_once_def] l, of E] by (auto simp: Close_def)
  have "\<exists>e'. snd (on_space (none_LoadVertex []) (f16_LoadVertex []) (f8_LoadVertex []) (bf16_LoadVertex []) sp') = Err e'" for sp' :: "'d anyspace"
    by (cases sp') (simp_all add: load_defs LoadVertex_nil)
  moreover have "\<exists>sp. map_of (Space st) c = Some sp \<and> closed_objects E (view (Storage st') c) c sp \<and>
      (\<forall>e. saved_vertices sp = Err e \<longrightarrow> GetObject C c (vertexObject c) (Storage st') = Ok [])"
    if "alreadyLoadCollection c st" for c
  proof -
    have "(c, True) \<in> set (Load st)" using that by (simp add: alreadyLoadCollection_def map_of_SomeD)
    then obtain sp where "map_of (Space st) c = Some sp" "closed_objects E (view (Storage st') c) c sp"
      using l cl(3) by blast
    then show ?thesis using minio_okD(4) [OF assms(1), of "Storage st'" c "vertexObject c" "[]"]
      by (auto simp: closed_objects_def bytes_or_none_def)
  qed
  moreover have "view (Storage st') c = view (Storage st) c" if "map_of (Load st) c = None" for c
    using cl(2) that by (simp add: map_of_eq_None_iff)
  ultimately show ?thesis using cl(1) by blast
qed

text \<open>One vertex with a null in its metadata is enough: no format can hold it. It is lost beside a
  collection that is saved.\<close>

definition null_space :: "(f32, u64 list) vecspace" where
  "null_space = (newNoneVectorstore ''c'' example_md)\<lparr>vertices := [[(1, \<lparr>nvec = [], nmeta = [(''x'', GNil)]\<rparr>)]] @ replicate 15 []\<rparr>"

definition two_loaded :: "(u64 list, memStore) edge" where
  "two_loaded = \<lparr>Space = [(''d'', NoneSpace example_space), (''c'', NoneSpace null_space)],
     Exists = [(''d'', True), (''c'', True)], Load = [(''d'', True), (''c'', True)], Storage = []\<rparr>"

lemma close_overwrites_witness:
  "\<exists>st'. Close example_env memClient two_loaded = (st', Ok ()) \<and>
     mem_view (Storage st') ''c'' ''c.vertex'' = Some [] \<and>
     closed_objects example_env (mem_view (Storage st') ''d'') ''d'' (NoneSpace example_space)"
proof -
  let ?st = two_loaded
  have r: "ready null_space" "ready example_space" "idle null_space" "idle example_space"
    by (simp_all add: null_space_def example_space_def ready_def idle_def newNoneVectorstore_def newVecspace_def
        EDGE_MAP_SHARD_COUNT_def index_idle_def NewBitmapIndex_def put_vertex_def)
  then have i: "edge_inv ?st" "all_idle ?st" "marked_once ?st"
    by (simp_all add: edge_inv_def coll_ok_def alreadyLoadCollection_def hasCollection_def space_ready_def
        all_idle_def marked_once_def two_loaded_def)
  obtain e where "SaveVertex NoQuantization null_space = Err e"
    by (simp add: SaveVertex_def saveShard_def null_space_def newNoneVectorstore_def newVecspace_def writeShard_def writeVertex_def
        writeMetaEntry_def writeMetaValue_def str_bytes_def)
  then have e: "saved_vertices (NoneSpace null_space) = Err e" by (simp add: saved_defs)
  obtain st' where "Close example_env memClient ?st = (st', Ok ())"
    and "\<forall>c. alreadyLoadCollection c ?st \<longrightarrow> (\<exists>sp. map_of (Space ?st) c = Some sp \<and>
       closed_objects example_env (mem_view (Storage st') c) c sp)"
    using close_overwrites [OF memClient_ok memClient_puts i, of example_env] by blast
  then show ?thesis using e
    by (intro exI [of _ st'])
      (auto simp: two_loaded_def alreadyLoadCollection_def vertexObject_def closed_objects_def bytes_or_none_def
        dest: spec [of _ "''c''"] spec [of _ "''d''"])
qed

text \<open>
  A release whose save fails unloads the collection all the same: its store stays in the map, but
  no request reaches it, and a load puts the last stored image in its place.
\<close>

lemma failed_release_unloads:
  assumes "alreadyLoadCollection c st" and "hasCollection c st"
    and "ReleaseCollection E C c st = (st', Ok (Failed e))"
  shows "map_of (Space st') c = map_of (Space st) c" and "\<not> alreadyLoadCollection c st'"
    and "\<exists>e. authorization c st' = Err e"
proof -
  let ?st0 = "eliminateBucketMemoryHelper c st"
  obtain st1 r where s: "save_collection E C c ?st0 = (st1, r)" by fastforce
  have "st' = st1" "clean r" using assms by (cases r; auto simp: ReleaseCollection_def recovered_def s)+
  moreover from this(2) have "same_colls ?st0 st1" using save_collection_state [OF s] by simp
  ultimately show "map_of (Space st') c = map_of (Space st) c" "\<not> alreadyLoadCollection c st'"
    by (simp_all add: same_colls_def eliminateBucketMemoryHelper_def alreadyLoadCollection_def)
  then show "\<exists>e. authorization c st' = Err e" by (simp add: authorization_def)
qed

text \<open>
  A collection in the BF16 format cannot be created: its store has no index, saving it panics, and
  the handler reads the status of the reply that the recovered goroutine left nil. The bucket and
  the store stay behind, the name does not exist.
\<close>

lemma create_bf16_panics:
  assumes q: "reqQuantization req = Quantization_BF16" and n: "\<not> hasCollection (reqName req) st"
    and r: "CreateCollection E C req st = (st', Ok rep)"
  shows "\<exists>e. rep = Failed e"
proof (rule ccontr)
  assume "\<not> (\<exists>e. rep = Failed e)"
  then obtain x where "create_body E C req st = (st', Ok x)"
    using n r by (auto simp: CreateCollection_def Let_def split: gores.splits prod.splits)
  then obtain st2 st3 st4 y where 1: "on_store (vsCreateCollection (reqName req) (reqMetadata req)) st2 = (st3, Ok y)"
    and 2: "save_collection E C (reqName req) st3 = (st4, Ok ())"
    unfolding create_body_def Let_def by (elim st_bind_OkE) simp
  obtain sp ib where sp: "map_of (Space st3) (reqName req) = Some sp" "saved_index E sp = Ok ib"
    using save_collection_Ok [OF 2] by blast
  have "sp = BF16Space (newBF16Vectorstore (reqName req) (reqMetadata req))"
    using 1 sp(1) q by (auto simp: on_store_def vsCreateCollection_def Let_def reqMetadata_def enum_defs split: if_splits)
  then show False using sp(2) by (simp add: saved_defs newBF16Vectorstore_def new_index case_prod_beta)
qed

text \<open>
  C33: a request for one collection leaves every other collection as it is: its store, whether it
  exists, whether it is loaded.
\<close>

theorem requests_local:
  "others (reqName req) st (fst (CreateCollection E C req st)) \<and>
   others c st (fst (DeleteCollection C c st)) \<and> others c st (fst (LoadCollection E C c st)) \<and>
   others c st (fst (ReleaseCollection E C c st)) \<and> others c st (fst (Flush E C c st)) \<and>
   others c st (fst (Index E i c chg pk md v st)) \<and> others c st (fst (Search E newStruct c e lim off v hc st))"
  by (intro conjI handlers_local)

end
