(* ===== verification/GoEncoding.thy ===== *)
theory GoEncoding
  imports GoBytes
begin

unbundle bit_operations_syntax

text \<open>
  Two more routines of the standard library: the varints of \<open>encoding/binary\<close> and the IEEE
  checksum of \<open>hash/crc32\<close>.
\<close>

subsection \<open>Varints\<close>

function put_uvarint :: "u64 \<Rightarrow> bytes" where
  "put_uvarint x = (if x < 0x80 then [ucast x] else (ucast x OR 0x80) # put_uvarint (drop_bit 7 x))"
  by auto
termination
proof (relation "measure unat")
  fix x :: u64
  assume "\<not> x < 0x80"
  then have "128 \<le> unat x" by (simp add: word_less_nat_alt)
  moreover have "unat (drop_bit 7 x) = unat x div 128" by (simp add: drop_bit_eq_div unat_div)
  ultimately show "(drop_bit 7 x, x) \<in> measure unat" by simp
qed simp

declare put_uvarint.simps [simp del]

text \<open>The value and the number of bytes: 0 when the bytes end too soon, negative on overflow.\<close>

fun uvarint_from :: "nat \<Rightarrow> u64 \<Rightarrow> bytes \<Rightarrow> u64 \<times> int" where
  "uvarint_from i x [] = (0, 0)"
| "uvarint_from i x (b # bs) =
     (if i = 10 then (0, - (int i + 1))
      else if b < 0x80 then
        if i = 9 \<and> 1 < b then (0, - (int i + 1)) else (x OR push_bit (7 * i) (ucast b), int i + 1)
      else uvarint_from (Suc i) (x OR push_bit (7 * i) (ucast (b AND 0x7f))) bs)"

definition uvarint :: "bytes \<Rightarrow> u64 \<times> int" where
  "uvarint bs = uvarint_from 0 0 bs"

definition put_varint :: "i64 \<Rightarrow> bytes" where
  "put_varint x = put_uvarint (let ux = push_bit 1 x in if x <s 0 then NOT ux else ux)"

definition varint :: "bytes \<Rightarrow> i64 \<times> int" where
  "varint bs = (case uvarint bs of (ux, n) \<Rightarrow>
     (if ux AND 1 \<noteq> 0 then NOT (drop_bit 1 ux) else drop_bit 1 ux, n))"

lemma bytes_as_masks: "(0x80 :: u8) = push_bit 7 1" "(0x7f :: u8) = mask 7"
  by (simp_all add: mask_eq_exp_minus_1)

lemma low_byte: "ucast ((ucast x OR (0x80 :: u8)) AND 0x7f) = take_bit 7 (x :: u64)"
  unfolding bytes_as_masks
  by (rule bit_word_eqI) (auto simp: bit_simps simp del: push_bit_of_1 push_bit_numeral)

lemma high_bit: "\<not> (w OR (0x80 :: u8)) < 0x80"
proof
  assume l: "w OR (0x80 :: u8) < 0x80"
  have "bit (w OR push_bit 7 (1 :: u8)) 7" by (simp add: bit_simps)
  then have "bit (unat (w OR 0x80)) 7" unfolding bytes_as_masks by (simp add: bit_unsigned_iff)
  then show False using l by (simp add: bit_iff_odd word_less_nat_alt)
qed

lemma split_seven:
  "push_bit n (take_bit 7 x) OR push_bit (n + 7) (drop_bit 7 x) = push_bit n (x :: u64)"
proof (rule bit_word_eqI)
  fix k
  have "7 + (k - (n + 7)) = k - n" if "n + 7 \<le> k" using that by arith
  then show "bit (push_bit n (take_bit 7 x) OR push_bit (n + 7) (drop_bit 7 x)) k = bit (push_bit n x) k"
    if "k < LENGTH(64)" using that by (cases "n + 7 \<le> k") (auto simp: bit_simps)
qed

lemma unat_drop7: "unat (drop_bit 7 (x :: u64)) = unat x div 128"
  by (simp add: drop_bit_eq_div unat_div)

lemma uvarint_from_put:
  assumes "unat x < 2 ^ (64 - 7 * i)" "i \<le> 9"
  shows "uvarint_from i acc (put_uvarint x @ r) =
    (acc OR push_bit (7 * i) x, int i + int (length (put_uvarint x)))"
  using assms
proof (induction x arbitrary: i acc rule: put_uvarint.induct)
  case (1 x)
  show ?case
  proof (cases "x < 0x80")
    case True
    have "unat x < 2" if "i = 9" using 1(2) that by simp
    then have "i = 9 \<Longrightarrow> \<not> (1 :: u8) < ucast x"
      by (auto simp: word_less_nat_alt unsigned_ucast_eq take_bit_nat_def)
    moreover have "ucast (ucast x :: u8) = x" "(ucast x :: u8) < 0x80"
      using True by (simp_all add: word_less_nat_alt unsigned_ucast_eq word_unat_eq_iff unsigned_take_bit_eq take_bit_nat_def)
    ultimately show ?thesis using True 1(3) by (subst (1 2) put_uvarint.simps) auto
  next
    case False
    then have x: "128 \<le> unat x" by (simp add: word_less_nat_alt)
    have i: "i < 9"
    proof (rule ccontr)
      assume "\<not> i < 9"
      then have "i = 9" using 1(3) by simp
      then show False using 1(2) x by simp
    qed
    have "64 - 7 * i = (64 - 7 * Suc i) + 7" using i by simp
    then have "(2 :: nat) ^ (64 - 7 * i) = 2 ^ (64 - 7 * Suc i) * 2 ^ 7"
      by (simp only: power_add)
    then have d: "unat (drop_bit 7 x) < 2 ^ (64 - 7 * Suc i)"
      using 1(2) by (simp add: unat_drop7 div_less_iff_less_mult del: power_Suc)
    note b = high_bit [of "ucast x"]
    have ih: "uvarint_from (Suc i) acc' (put_uvarint (drop_bit 7 x) @ r) =
      (acc' OR push_bit (7 * Suc i) (drop_bit 7 x), int (Suc i) + int (length (put_uvarint (drop_bit 7 x))))" for acc'
      using 1(1) [OF False d] i by simp
    have "uvarint_from i acc (put_uvarint x @ r) =
       uvarint_from (Suc i) (acc OR push_bit (7 * i) (take_bit 7 x)) (put_uvarint (drop_bit 7 x) @ r)"
      using False i b low_byte [of x] by (subst put_uvarint.simps) simp
    then show ?thesis using ih split_seven [of "7 * i" x] False
      by (subst (2) put_uvarint.simps) (simp add: or.assoc add.commute)
  qed
qed

lemma uvarint_put [simp]: "uvarint (put_uvarint x @ r) = (x, int (length (put_uvarint x)))"
  using uvarint_from_put [of x 0 0 r] unsigned_less [of x, where ?'a = nat] by (simp add: uvarint_def)

lemma length_put_uvarint: "unat x < 2 ^ (7 * n) \<Longrightarrow> 0 < n \<Longrightarrow> length (put_uvarint x) \<le> n"
proof (induction n arbitrary: x)
  case (Suc n)
  show ?case
  proof (cases "x < 0x80")
    case False
    then have x: "128 \<le> unat x" by (simp add: word_less_nat_alt)
    have "n \<noteq> 0" using Suc.prems(1) x by (intro notI) simp
    moreover have "unat (drop_bit 7 x) < 2 ^ (7 * n)"
      using Suc.prems(1) by (simp add: unat_drop7 div_less_iff_less_mult power_add mult.commute)
    ultimately have "length (put_uvarint (drop_bit 7 x)) \<le> n" by (intro Suc.IH) auto
    then show ?thesis using False by (subst put_uvarint.simps) simp
  qed (subst put_uvarint.simps, simp)
qed simp

lemma put_uvarint_nonempty [simp]: "put_uvarint x \<noteq> []"
  by (subst put_uvarint.simps) simp

lemma length_put_uvarint_max: "length (put_uvarint x) \<le> 10"
  using unsigned_less [of x, where ?'a = nat] by (intro length_put_uvarint) auto

lemma zigzag:
  "(let ux = (let u = push_bit 1 x in if x <s 0 then NOT u else u) in
    if ux AND 1 \<noteq> 0 then NOT (drop_bit 1 ux) else drop_bit 1 ux) = (x :: i64)"
proof -
  have neg: "x <s 0 \<longleftrightarrow> bit x 63"
    using bit_last_iff [of x] by (simp add: word_sless_alt)
  have odd: "w AND 1 \<noteq> 0 \<longleftrightarrow> bit w 0" for w :: i64
    by (simp add: and_one_eq bit_0 mod2_eq_if)
  have e: "n < 64 \<longleftrightarrow> n = 63 \<or> n < 63" for n :: nat by arith
  have pos: "drop_bit 1 (push_bit 1 x) = x" if "\<not> bit x 63"
    by (rule bit_word_eqI) (use that in \<open>auto simp: bit_simps e simp del: One_nat_def push_bit_Suc\<close>)
  have "NOT (drop_bit 1 (NOT (push_bit 1 x))) = x" if "bit x 63"
    by (rule bit_word_eqI) (use that in \<open>auto simp: bit_simps e simp del: One_nat_def push_bit_Suc\<close>)
  then show ?thesis using pos unfolding Let_def neg odd by (auto simp: bit_simps simp del: One_nat_def push_bit_Suc)
qed

lemma varint_put [simp]: "varint (put_varint x @ r) = (x, int (length (put_varint x)))"
  using zigzag [of x] by (simp add: varint_def put_varint_def Let_def split: if_splits)

lemma length_put_varint_max: "length (put_varint x) \<le> 10"
  by (simp add: put_varint_def length_put_uvarint_max)

subsection \<open>Checksums\<close>

text \<open>The table entry of a byte is eight steps of the shift register with the reversed polynomial.\<close>

definition crc_step :: "u32 \<Rightarrow> u32" where
  "crc_step c = (if c AND 1 = 1 then drop_bit 1 c XOR 0xedb88320 else drop_bit 1 c)"

definition crc_table :: "u8 \<Rightarrow> u32" where
  "crc_table b = (crc_step ^^ 8) (ucast b)"

definition crc_update :: "u32 \<Rightarrow> bytes \<Rightarrow> u32" where
  "crc_update crc p = NOT (fold (\<lambda>v c. crc_table (ucast c XOR v) XOR drop_bit 8 c) p (NOT crc))"

definition ChecksumIEEE :: "bytes \<Rightarrow> u32" where
  "ChecksumIEEE p = crc_update 0 p"

lemma crc_update_append [simp]: "crc_update (crc_update c p) q = crc_update c (p @ q)"
  by (simp add: crc_update_def)

lemma crc_update_Checksum [simp]: "crc_update (ChecksumIEEE p) q = ChecksumIEEE (p @ q)"
  by (simp add: ChecksumIEEE_def)

lemma crc_table_eight: "crc_table b =
    crc_step (crc_step (crc_step (crc_step (crc_step (crc_step (crc_step (crc_step (ucast b))))))))"
  by (simp add: crc_table_def eval_nat_numeral)

lemma crc_check_value: "ChecksumIEEE [0x61] = 0xe8b7be43"
  by code_simp

end
