(* ===== verification/WalSegment.thy ===== *)
theory WalSegment
  imports GoEncoding
begin

text \<open>
  A segment of the write-ahead log (\<open>pkg/wal/segment.go\<close>): an append-only file in blocks of 32 KB,
  each record in one chunk or in several that end with their blocks. The file is the list of its
  bytes. The block number and the fill of the last block are kept in 32 bit words as in the code;
  \<open>int64\<close> sizes and offsets, which cannot overflow from these, are numbers.

  What the operating system answers to a write is an argument: \<open>None\<close> when all bytes were
  written, \<open>Some n\<close> when an error comes after \<open>n\<close> bytes. The buffer taken from the pool is an
  argument too: it holds what its last user left in it.
\<close>

definition chunkHeaderSize :: nat where "chunkHeaderSize = 7"
definition blockSize :: nat where "blockSize = 32768"
definition maxLen :: nat where "maxLen = 25"

definition ChunkTypeFull :: u8 where "ChunkTypeFull = 0"
definition ChunkTypeFirst :: u8 where "ChunkTypeFirst = 1"
definition ChunkTypeMiddle :: u8 where "ChunkTypeMiddle = 2"
definition ChunkTypeLast :: u8 where "ChunkTypeLast = 3"

lemmas chunk_types = ChunkTypeFull_def ChunkTypeFirst_def ChunkTypeMiddle_def ChunkTypeLast_def

definition ErrClosed :: string where "ErrClosed = ''the segment file is closed''"
definition ErrInvalidCRC :: string where "ErrInvalidCRC = ''invalid crc, the data may be corrupted''"
definition EOF :: string where "EOF = ''EOF''"
definition slice_bounds :: string where "slice_bounds = ''slice bounds out of range''"

record ChunkPosition =
  SegmentId :: u32
  BlockNumber :: u32
  ChunkOffset :: i64
  ChunkSize :: u32

record segment =
  segId :: u32
  segFile :: bytes
  currentBlockNumber :: u32
  currentBlockSize :: u32
  segClosed :: bool
  startupBlock :: bytes
  startupNumber :: int
  isStartupTraversal :: bool

definition openSegmentFile :: "u32 \<Rightarrow> bytes \<Rightarrow> segment" where
  "openSegmentFile i content =
     (let offset = length content in
      \<lparr>segId = i, segFile = content, currentBlockNumber = word_of_nat (offset div blockSize),
       currentBlockSize = word_of_nat (offset mod blockSize), segClosed = False,
       startupBlock = replicate blockSize 0, startupNumber = - 1, isStartupTraversal = False\<rparr>)"

definition segClose :: "segment \<Rightarrow> segment" where
  "segClose seg = seg\<lparr>segClosed := True\<rparr>"

definition segSync :: "bool \<Rightarrow> segment \<Rightarrow> unit gores" where
  "segSync ok seg = (if segClosed seg \<or> ok then Ok () else Err ''sync error'')"

definition segSize :: "segment \<Rightarrow> nat" where
  "segSize seg = unat (currentBlockNumber seg) * blockSize + unat (currentBlockSize seg)"

subsection \<open>Writing\<close>

definition chunk :: "u8 \<Rightarrow> bytes \<Rightarrow> bytes" where
  "chunk ty data =
     (let hd = le_bytes 2 (length data) @ [ty]; sum = crc_update (ChecksumIEEE hd) data in
      le_bytes 4 (unat sum) @ hd @ data)"

definition appendChunkBuffer :: "bytes \<Rightarrow> bytes \<Rightarrow> u8 \<Rightarrow> bytes" where
  "appendChunkBuffer buf data ty = buf @ chunk ty data"

definition slice :: "nat \<Rightarrow> nat \<Rightarrow> 'a list \<Rightarrow> 'a list" where
  "slice i j xs = take (j - i) (drop i xs)"

text \<open>The loop over the chunks of a record that does not fit into the block.\<close>

function write_chunks :: "bytes \<Rightarrow> u32 \<Rightarrow> u32 \<Rightarrow> u32 \<Rightarrow> bytes \<Rightarrow> u32 \<Rightarrow> bytes \<times> u32" where
  "write_chunks data dataSize leftSize currBlockSize buf blockCount =
     (if leftSize = 0 then (buf, blockCount)
      else
        let room = 0x8000 - currBlockSize - 7;
            chunkSize = (if leftSize < room then leftSize else room);
            fin = dataSize - leftSize + chunkSize;
            fin = (if dataSize < fin then dataSize else fin);
            chunkType = (if leftSize = dataSize then ChunkTypeFirst
              else if leftSize = chunkSize then ChunkTypeLast else ChunkTypeMiddle);
            buf = appendChunkBuffer buf (slice (unat (dataSize - leftSize)) (unat fin) data) chunkType
        in write_chunks data dataSize (leftSize - chunkSize)
             ((currBlockSize + chunkSize + 7) mod 0x8000) buf (blockCount + 1))"
  by pat_completeness auto
termination
proof (relation "measures [\<lambda>(data, ds, left, c, buf, n). unat left,
    \<lambda>(data, ds, left, c, buf, n). if c = 0x7ff9 then 1 else 0]")
  fix data buf b :: bytes and ds left c n room k x y ty
  assume l: "left \<noteq> 0" and k: "room = 0x8000 - c - (7 :: u32)" "k = (if left < room then left else room)"
  have le: "k \<le> left" using k by (auto simp: not_less)
  have eq: "unat (left - k) = unat left - unat k" using le by (simp add: unat_sub)
  show "((data, ds, left - k, (c + k + 7) mod 0x8000, b, n + 1), data, ds, left, c, buf, n)
    \<in> measures [\<lambda>(data, ds, left, c, buf, n). unat left,
        \<lambda>(data, ds, left, c, buf, n). if c = 0x7ff9 then 1 else 0]"
  proof (cases "k = 0")
    case False
    then have "0 < unat k" "unat k \<le> unat left" using le by (simp_all add: unat_gt_0 word_le_nat_alt)
    then show ?thesis by (simp add: eq)
  next
    case True
    then have "room = 0" using k l by (auto split: if_splits)
    then have "c = 0x7ff9" using k by (simp add: algebra_simps)
    then show ?thesis using True by simp
  qed
qed simp

declare write_chunks.simps [simp del]

text \<open>The three parts of \<open>writeToBuffer\<close>: padding the block, putting the chunks, moving on.\<close>

definition padBlock :: "segment \<Rightarrow> bytes \<Rightarrow> segment \<times> bytes \<times> u32" where
  "padBlock seg buf =
     (if 0x8000 \<le> currentBlockSize seg + 7 \<and> currentBlockSize seg < 0x8000
      then let padding = 0x8000 - currentBlockSize seg in
        (seg\<lparr>currentBlockNumber := currentBlockNumber seg + 1, currentBlockSize := 0\<rparr>,
         buf @ replicate (unat padding) 0, padding)
      else (seg, buf, 0))"

definition putRecord :: "bytes \<Rightarrow> u32 \<Rightarrow> bytes \<Rightarrow> bytes \<times> u32" where
  "putRecord data cbs buf =
     (let dataSize = word_of_nat (length data) in
      if cbs + dataSize + 7 \<le> 0x8000 then (appendChunkBuffer buf data ChunkTypeFull, dataSize + 7)
      else case write_chunks data dataSize dataSize cbs buf 0 of
        (buf, blockCount) \<Rightarrow> (buf, blockCount * 7 + dataSize))"

definition advance :: "u32 \<Rightarrow> segment \<Rightarrow> segment" where
  "advance n seg =
     (let bs = currentBlockSize seg + n in
      if 0x8000 \<le> bs
      then seg\<lparr>currentBlockSize := bs mod 0x8000, currentBlockNumber := currentBlockNumber seg + bs div 0x8000\<rparr>
      else seg\<lparr>currentBlockSize := bs\<rparr>)"

definition writeToBuffer :: "bytes \<Rightarrow> segment \<Rightarrow> bytes \<Rightarrow> segment \<times> (ChunkPosition \<times> bytes) gores" where
  "writeToBuffer data seg chunkBuffer =
     (if segClosed seg then (seg, Err ErrClosed)
      else case padBlock seg chunkBuffer of (seg, buf, padding) \<Rightarrow>
        (case putRecord data (currentBlockSize seg) buf of (buf, n) \<Rightarrow>
           if n + padding \<noteq> word_of_nat (length buf - length chunkBuffer)
           then (seg, Err ''wrong!!! the chunk size is not equal to the buffer len'')
           else (advance n seg,
             Ok (\<lparr>SegmentId = segId seg, BlockNumber = currentBlockNumber seg,
               ChunkOffset = ucast (currentBlockSize seg), ChunkSize = n\<rparr>, buf))))"

definition writeChunkBuffer :: "nat option \<Rightarrow> bytes \<Rightarrow> segment \<Rightarrow> segment \<times> unit gores" where
  "writeChunkBuffer io buf seg =
     (if 0x8000 < currentBlockSize seg then (seg, Err ''the current block size exceeds the maximum block size'')
      else case io of
        None \<Rightarrow> (seg\<lparr>segFile := segFile seg @ buf, startupNumber := - 1\<rparr>, Ok ())
      | Some n \<Rightarrow> (seg\<lparr>segFile := segFile seg @ take n buf\<rparr>, Err ''write error''))"

text \<open>The deferred function of the two writers: an error puts the block number and fill back.\<close>

definition restoring :: "segment \<Rightarrow> segment \<times> 'a gores \<Rightarrow> segment \<times> 'a gores" where
  "restoring seg sr = (case sr of
     (seg', Err e) \<Rightarrow> (seg'\<lparr>currentBlockNumber := currentBlockNumber seg, currentBlockSize := currentBlockSize seg\<rparr>, Err e)
   | _ \<Rightarrow> sr)"

definition segWrite :: "nat option \<Rightarrow> bytes \<Rightarrow> segment \<Rightarrow> segment \<times> ChunkPosition gores" where
  "segWrite io data seg =
     (if segClosed seg then (seg, Err ErrClosed)
      else restoring seg
        (st_bind (writeToBuffer data seg []) (\<lambda>seg (pos, buf).
         st_bind (writeChunkBuffer io buf seg) (\<lambda>seg _. (seg, Ok pos)))))"

fun write_each :: "bytes list \<Rightarrow> segment \<Rightarrow> bytes \<Rightarrow> segment \<times> (ChunkPosition list \<times> bytes) gores" where
  "write_each [] seg buf = (seg, Ok ([], buf))"
| "write_each (d # ds) seg buf =
     st_bind (writeToBuffer d seg buf) (\<lambda>seg (pos, buf).
     st_bind (write_each ds seg buf) (\<lambda>seg (ps, buf). (seg, Ok (pos # ps, buf))))"

definition segWriteAll :: "nat option \<Rightarrow> bytes list \<Rightarrow> segment \<Rightarrow> segment \<times> ChunkPosition list gores" where
  "segWriteAll io data seg =
     (if segClosed seg then (seg, Err ErrClosed)
      else restoring seg
        (st_bind (write_each data seg []) (\<lambda>seg (ps, buf).
         st_bind (writeChunkBuffer io buf seg) (\<lambda>seg _. (seg, Ok ps)))))"

subsection \<open>Reading\<close>

text \<open>
  The loop over the chunks of a record. \<open>block\<close> is the buffer a block is read into, \<open>cached\<close> the
  number of the block that it holds for certain, which only the traversal at startup uses. A block
  number is a number here: it stays below \<open>2 ^ 32\<close> in every file of less than \<open>2 ^ 47\<close> bytes.
\<close>

record cursor =
  curBlock :: bytes
  curCached :: int

lemma read_measure:
  assumes "offset = bn * blockSize"
    and "sz = (if blockSize + offset > n then int n - int offset else int blockSize)"
    and "\<not> sz \<le> off" "\<not> off < 0"
  shows "n - (bn + 1) * blockSize < n - bn * blockSize"
  using assms by (auto simp: blockSize_def split: if_splits)

function read_chunks :: "segment \<Rightarrow> cursor \<Rightarrow> nat \<Rightarrow> int \<Rightarrow> bytes \<Rightarrow> cursor \<times> (bytes \<times> nat \<times> nat) gores" where
  "read_chunks seg cur blockNumber chunkOffset result =
     (let offset = blockNumber * blockSize;
          size = (if blockSize + offset > segSize seg then int (segSize seg) - int offset else int blockSize)
      in if size \<le> chunkOffset then (cur, Err EOF)
      else if chunkOffset < 0 then (cur, Panic slice_bounds)
      else
        let fetch = (\<not> isStartupTraversal seg \<or> curCached cur \<noteq> int blockNumber \<or> size \<noteq> int blockSize);
            got = take (nat size) (drop offset (segFile seg));
            block = (if fetch then got @ drop (length got) (curBlock cur) else curBlock cur)
        in if fetch \<and> int (length got) < size then (cur\<lparr>curBlock := block\<rparr>, Err EOF)
        else
          let cur = \<lparr>curBlock = block, curCached = (if fetch \<and> isStartupTraversal seg then int blockNumber else curCached cur)\<rparr>;
              off = nat chunkOffset; start = off + chunkHeaderSize
          in if blockSize < start then (cur, Panic slice_bounds)
          else
            let header = slice off start block;
                len = le_val (slice 4 6 header);
                checksumEnd = start + len
            in if blockSize < checksumEnd then (cur, Panic slice_bounds)
            else
              let result = result @ slice start checksumEnd block in
              if word_of_nat (le_val (take 4 header)) \<noteq> ChecksumIEEE (slice (off + 4) checksumEnd block)
              then (cur, Err ErrInvalidCRC)
              else if header ! 6 = ChunkTypeFull \<or> header ! 6 = ChunkTypeLast then
                (cur, Ok (result,
                   if blockSize \<le> checksumEnd + chunkHeaderSize then (blockNumber + 1, 0)
                   else (blockNumber, checksumEnd)))
              else read_chunks seg cur (blockNumber + 1) 0 result)"
  by pat_completeness auto
termination
  by (relation "measure (\<lambda>(seg, cur, bn, off, res). segSize seg - bn * blockSize)", rule wf_measure,
      unfold in_measure prod.case, rule read_measure)

declare read_chunks.simps [simp del]

text \<open>Only the traversal keeps its block; the others work on a buffer of the pool.\<close>

definition readInternal :: "bytes \<Rightarrow> u32 \<Rightarrow> i64 \<Rightarrow> segment \<Rightarrow> segment \<times> (bytes \<times> ChunkPosition) gores" where
  "readInternal pool blockNumber chunkOffset seg =
     (if segClosed seg then (seg, Err ErrClosed)
      else
        let cur = (if isStartupTraversal seg then \<lparr>curBlock = startupBlock seg, curCached = startupNumber seg\<rparr>
              else \<lparr>curBlock = (if length pool = blockSize then pool else replicate blockSize 0), curCached = - 1\<rparr>)
        in case read_chunks seg cur (unat blockNumber) (sint chunkOffset) [] of
          (cur', r) \<Rightarrow>
            (if isStartupTraversal seg then seg\<lparr>startupBlock := curBlock cur', startupNumber := curCached cur'\<rparr> else seg,
             go_bind r (\<lambda>(value, bn, off). Ok (value,
               \<lparr>SegmentId = segId seg, BlockNumber = word_of_nat bn, ChunkOffset = word_of_nat off, ChunkSize = 0\<rparr>))))"

definition segRead :: "bytes \<Rightarrow> u32 \<Rightarrow> i64 \<Rightarrow> segment \<Rightarrow> segment \<times> bytes gores" where
  "segRead pool blockNumber chunkOffset seg =
     st_bind (readInternal pool blockNumber chunkOffset seg) (\<lambda>seg (value, _). (seg, Ok value))"

text \<open>A reader of a segment is its place; the segment is the argument.\<close>

record segmentReader =
  rdBlock :: u32
  rdOffset :: i64

definition segNewReader :: segmentReader where
  "segNewReader = \<lparr>rdBlock = 0, rdOffset = 0\<rparr>"

definition segNext :: "bytes \<Rightarrow> segment \<Rightarrow> segmentReader \<Rightarrow>
    (segment \<times> segmentReader) \<times> (bytes \<times> ChunkPosition) gores" where
  "segNext pool seg rd =
     (if segClosed seg then ((seg, rd), Err ErrClosed)
      else case readInternal pool (rdBlock rd) (rdOffset rd) seg of
        (seg, r) \<Rightarrow>
          st_bind ((seg, rd), r) (\<lambda>(seg, rd) (value, nextChunk).
            ((seg, \<lparr>rdBlock = BlockNumber nextChunk, rdOffset = ChunkOffset nextChunk\<rparr>),
             Ok (value, \<lparr>SegmentId = segId seg, BlockNumber = rdBlock rd, ChunkOffset = rdOffset rd,
               ChunkSize = BlockNumber nextChunk * 0x8000 + ucast (ChunkOffset nextChunk)
                 - (rdBlock rd * 0x8000 + ucast (rdOffset rd))\<rparr>))))"

subsection \<open>Positions as bytes\<close>

definition cp_varints :: "ChunkPosition \<Rightarrow> bytes" where
  "cp_varints cp = put_uvarint (ucast (SegmentId cp)) @ put_uvarint (ucast (BlockNumber cp)) @
     put_uvarint (ChunkOffset cp) @ put_uvarint (ucast (ChunkSize cp))"

text \<open>The buffer of \<open>encode\<close> has \<open>maxLen\<close> bytes; writing past it would be a panic.\<close>

definition cp_encode :: "bool \<Rightarrow> ChunkPosition \<Rightarrow> bytes gores" where
  "cp_encode shrink cp =
     (let bs = cp_varints cp in
      if maxLen < length bs then Panic ''index out of range''
      else Ok (if shrink then bs else bs @ replicate (maxLen - length bs) 0))"

definition Encode :: "ChunkPosition \<Rightarrow> bytes gores" where "Encode = cp_encode True"
definition EncodeFixedSize :: "ChunkPosition \<Rightarrow> bytes gores" where "EncodeFixedSize = cp_encode False"

text \<open>\<open>buf[index:]\<close> for an index that a malformed varint may have made negative.\<close>

definition from_index :: "bytes \<Rightarrow> int \<Rightarrow> bytes gores" where
  "from_index buf i = (if i < 0 \<or> int (length buf) < i then Panic slice_bounds else Ok (drop (nat i) buf))"

definition next_uvarint :: "bytes \<Rightarrow> int \<Rightarrow> (u64 \<times> int) gores" where
  "next_uvarint buf i = go_bind (from_index buf i) (\<lambda>bs. case uvarint bs of (x, n) \<Rightarrow> Ok (x, i + n))"

definition DecodeChunkPosition :: "bytes \<Rightarrow> ChunkPosition option gores" where
  "DecodeChunkPosition buf =
     (if buf = [] then Ok None
      else
        go_bind (next_uvarint buf 0) (\<lambda>(sid, i).
        go_bind (next_uvarint buf i) (\<lambda>(bn, i).
        go_bind (next_uvarint buf i) (\<lambda>(off, i).
        go_bind (next_uvarint buf i) (\<lambda>(size, i).
          Ok (Some \<lparr>SegmentId = ucast sid, BlockNumber = ucast bn, ChunkOffset = off, ChunkSize = ucast size\<rparr>))))))"

end
