(* ===== verification/Wal.thy ===== *)
theory Wal
  imports WalSegment
begin

text \<open>
  The write-ahead log (\<open>pkg/wal/wal.go\<close>): segments by their ids, the last one active. A
  directory is the list of the ids that \<open>Sscanf\<close> reads from its file names and the content
  of the file of each id. The answers of the operating system to one call are a record: whether
  syncing the old segment, opening files, syncing, making and reading the directory, closing, renaming and removing
  work, and how many bytes a write takes that fails. The lock makes each call one step.
\<close>

record walOptions =
  SegmentSize :: int
  SegmentFileExt :: string
  wSync :: bool
  BytesPerSync :: u32

record WAL =
  activeSegment :: segment
  olderSegments :: "(u32 \<times> segment) list"
  woptions :: walOptions
  bytesWrite :: u32
  renameIds :: "u32 list"
  pendingWrites :: "bytes list"
  pendingSize :: int

record walIO =
  ioOldSync :: bool
  ioOpen :: bool
  ioWrite :: "nat option"
  ioSync :: bool
  ioMkdir :: bool
  ioReadDir :: bool
  ioClose :: bool
  ioRename :: bool
  ioRemove :: bool

definition io_fine :: walIO where
  "io_fine = \<lparr>ioOldSync = True, ioOpen = True, ioWrite = None, ioSync = True, ioMkdir = True, ioReadDir = True,
     ioClose = True, ioRename = True, ioRemove = True\<rparr>"

definition initialSegmentFileID :: u32 where "initialSegmentFileID = 1"

definition ErrValueTooLarge :: string where
  "ErrValueTooLarge = ''the data size can't larger than segment size''"
definition ErrPendingSizeTooLarge :: string where
  "ErrPendingSizeTooLarge = ''the upper bound of pendingWrites can't larger than segment size''"

subsection \<open>Opening and closing\<close>

definition walOpen :: "walIO \<Rightarrow> walOptions \<Rightarrow> int list \<Rightarrow> (u32 \<Rightarrow> bytes) \<Rightarrow> WAL gores" where
  "walOpen io opts ids disk =
     (if take 1 (SegmentFileExt opts) \<noteq> ''.'' then Err ''segment file extension must start with a dot''
      else if \<not> ioMkdir io then Err ''mkdir error''
      else if \<not> ioReadDir io then Err ''readdir error''
      else if \<not> ioOpen io then Err ''open error''
      else
        let sids = (if ids = [] then [initialSegmentFileID] else map word_of_int (sort ids));
            segs = map (\<lambda>i. openSegmentFile i (disk i)) sids
        in Ok \<lparr>activeSegment = last segs,
             olderSegments = fold (\<lambda>seg m. AList.update (segId seg) seg m) (butlast segs) [],
             woptions = opts, bytesWrite = 0, renameIds = [], pendingWrites = [], pendingSize = 0\<rparr>)"

definition segment_of :: "WAL \<Rightarrow> u32 \<Rightarrow> segment option" where
  "segment_of wal i = (if i = segId (activeSegment wal) then Some (activeSegment wal) else map_of (olderSegments wal) i)"

definition put_segment :: "u32 \<Rightarrow> segment \<Rightarrow> WAL \<Rightarrow> WAL" where
  "put_segment i seg wal =
     (if i = segId (activeSegment wal) then wal\<lparr>activeSegment := seg\<rparr>
      else wal\<lparr>olderSegments := AList.update i seg (olderSegments wal)\<rparr>)"

text \<open>A new file is made active; there is none with the next id, as the active id is the largest.\<close>

definition replaceActive :: "walIO \<Rightarrow> WAL \<Rightarrow> WAL \<times> unit gores" where
  "replaceActive io wal =
     (if \<not> ioOpen io then (wal, Err ''open error'')
      else let a = activeSegment wal in
        (wal\<lparr>olderSegments := AList.update (segId a) a (olderSegments wal),
           activeSegment := openSegmentFile (segId a + 1) []\<rparr>, Ok ()))"

definition OpenNewActiveSegment :: "walIO \<Rightarrow> WAL \<Rightarrow> WAL \<times> unit gores" where
  "OpenNewActiveSegment io wal =
     (if \<not> ioOldSync io \<and> \<not> segClosed (activeSegment wal) then (wal, Err ''sync error'') else replaceActive io wal)"

definition rotateActiveSegment :: "walIO \<Rightarrow> WAL \<Rightarrow> WAL \<times> unit gores" where
  "rotateActiveSegment io wal =
     (if \<not> ioOldSync io \<and> \<not> segClosed (activeSegment wal) then (wal, Err ''sync error'')
      else replaceActive io (wal\<lparr>bytesWrite := 0\<rparr>))"

definition ActiveSegmentID :: "WAL \<Rightarrow> u32" where
  "ActiveSegmentID wal = segId (activeSegment wal)"

definition walIsEmpty :: "WAL \<Rightarrow> bool" where
  "walIsEmpty wal \<longleftrightarrow> olderSegments wal = [] \<and> segSize (activeSegment wal) = 0"

definition SetIsStartupTraversal :: "bool \<Rightarrow> WAL \<Rightarrow> WAL" where
  "SetIsStartupTraversal v wal =
     wal\<lparr>olderSegments := map (\<lambda>(i, seg). (i, seg\<lparr>isStartupTraversal := v\<rparr>)) (olderSegments wal),
       activeSegment := (activeSegment wal)\<lparr>isStartupTraversal := v\<rparr>\<rparr>"

text \<open>
  Closing the older segments, in the order in which the map gives them: the files that are left, the ids of those that
  were closed, and whether all were. A segment counts as closed before its file is.
\<close>

fun close_segments :: "walIO \<Rightarrow> (u32 \<times> segment) list \<Rightarrow> (u32 \<times> segment) list \<times> u32 list \<times> bool" where
  "close_segments io [] = ([], [], True)"
| "close_segments io ((i, seg) # segs) =
     (if \<not> segClosed seg \<and> \<not> ioClose io then ((i, segClose seg) # segs, [], False)
      else case close_segments io segs of (segs, ids, ok) \<Rightarrow> ((i, segClose seg) # segs, segId seg # ids, ok))"

definition walClose :: "walIO \<Rightarrow> WAL \<Rightarrow> WAL \<times> unit gores" where
  "walClose io wal =
     (case close_segments io (olderSegments wal) of (segs, ids, ok) \<Rightarrow>
        if \<not> ok then (wal\<lparr>olderSegments := segs, renameIds := renameIds wal @ ids\<rparr>, Err ''close error'')
        else (wal\<lparr>renameIds := renameIds wal @ ids @ [segId (activeSegment wal)], olderSegments := [],
                activeSegment := segClose (activeSegment wal)\<rparr>,
              if \<not> segClosed (activeSegment wal) \<and> \<not> ioClose io then Err ''close error'' else Ok ()))"

definition walSync :: "walIO \<Rightarrow> WAL \<Rightarrow> unit gores" where
  "walSync io wal = segSync (ioSync io) (activeSegment wal)"

text \<open>What is on the disk: the content of each segment file.\<close>

definition walFiles :: "WAL \<Rightarrow> u32 \<Rightarrow> bytes" where
  "walFiles wal i = (case segment_of wal i of None \<Rightarrow> [] | Some seg \<Rightarrow> segFile seg)"

definition walIds :: "WAL \<Rightarrow> u32 list" where
  "walIds wal = map fst (olderSegments wal) @ [segId (activeSegment wal)]"

text \<open>
  Deleting the log closes and removes every file; the ids of the removed files are given too. A file that cannot be closed or
  removed ends it.
\<close>

definition segRemove :: "walIO \<Rightarrow> segment \<Rightarrow> segment \<times> unit gores" where
  "segRemove io seg =
     (segClose seg, if \<not> segClosed seg \<and> \<not> ioClose io then Err ''close error''
        else if \<not> ioRemove io then Err ''remove error'' else Ok ())"

fun remove_segments :: "walIO \<Rightarrow> (u32 \<times> segment) list \<Rightarrow> (u32 \<times> segment) list \<times> u32 list \<times> unit gores" where
  "remove_segments io [] = ([], [], Ok ())"
| "remove_segments io ((i, seg) # segs) =
     (case segRemove io seg of (seg, r) \<Rightarrow>
        if r \<noteq> Ok () then ((i, seg) # segs, [], r)
        else case remove_segments io segs of (segs, ids, r) \<Rightarrow> ((i, seg) # segs, segId seg # ids, r))"

definition walDelete :: "walIO \<Rightarrow> WAL \<Rightarrow> (WAL \<times> u32 list) \<times> unit gores" where
  "walDelete io wal =
     (case remove_segments io (olderSegments wal) of (segs, ids, r) \<Rightarrow>
        if r \<noteq> Ok () then ((wal\<lparr>olderSegments := segs\<rparr>, ids), r)
        else case segRemove io (activeSegment wal) of (seg, r) \<Rightarrow>
          ((wal\<lparr>olderSegments := [], activeSegment := seg\<rparr>, if r = Ok () then ids @ [segId seg] else ids), r))"

subsection \<open>Writing\<close>

definition maxDataWriteSize :: "int \<Rightarrow> int" where
  "maxDataWriteSize n = 7 + n + (n div 32768 + 1) * 7"

definition isFull :: "int \<Rightarrow> WAL \<Rightarrow> bool" where
  "isFull delta wal \<longleftrightarrow>
     int (segSize (activeSegment wal)) + maxDataWriteSize delta > SegmentSize (woptions wal)"

definition ClearPendingWrites :: "WAL \<Rightarrow> WAL" where
  "ClearPendingWrites wal = wal\<lparr>pendingSize := 0, pendingWrites := []\<rparr>"

definition PendingWrites :: "bytes \<Rightarrow> WAL \<Rightarrow> WAL" where
  "PendingWrites data wal =
     wal\<lparr>pendingSize := pendingSize wal + maxDataWriteSize (int (length data)),
       pendingWrites := pendingWrites wal @ [data]\<rparr>"

definition on_active :: "(segment \<Rightarrow> segment \<times> 'a gores) \<Rightarrow> WAL \<Rightarrow> WAL \<times> 'a gores" where
  "on_active f wal = (case f (activeSegment wal) of (seg, r) \<Rightarrow> (wal\<lparr>activeSegment := seg\<rparr>, r))"

definition walWriteAll :: "walIO \<Rightarrow> WAL \<Rightarrow> WAL \<times> ChunkPosition list gores" where
  "walWriteAll io wal =
     (if pendingWrites wal = [] then (wal, Ok [])
      else apfst ClearPendingWrites
        (if pendingSize wal > SegmentSize (woptions wal) then (wal, Err ErrPendingSizeTooLarge)
         else st_bind
           (if int (segSize (activeSegment wal)) + pendingSize wal > SegmentSize (woptions wal)
            then rotateActiveSegment io wal else (wal, Ok ()))
           (\<lambda>wal _. on_active (segWriteAll (ioWrite io) (pendingWrites wal)) wal)))"

definition walWrite :: "walIO \<Rightarrow> bytes \<Rightarrow> WAL \<Rightarrow> WAL \<times> ChunkPosition gores" where
  "walWrite io data wal =
     (if int (length data) + 7 > SegmentSize (woptions wal) then (wal, Err ErrValueTooLarge)
      else st_bind (if isFull (int (length data)) wal then rotateActiveSegment io wal else (wal, Ok ()))
        (\<lambda>wal _.
      st_bind (on_active (segWrite (ioWrite io) data) wal)
        (\<lambda>wal position.
         let wal = wal\<lparr>bytesWrite := bytesWrite wal + ChunkSize position\<rparr>;
             needSync = (wSync (woptions wal) \<or>
               0 < BytesPerSync (woptions wal) \<and> BytesPerSync (woptions wal) \<le> bytesWrite wal)
         in if needSync
            then if is_Ok (walSync io wal) then (wal\<lparr>bytesWrite := 0\<rparr>, Ok position)
              else (wal, Err ''sync error'')
            else (wal, Ok position))))"

subsection \<open>Reading\<close>

definition walRead :: "bytes \<Rightarrow> ChunkPosition \<Rightarrow> WAL \<Rightarrow> WAL \<times> bytes gores" where
  "walRead pool pos wal =
     (case segment_of wal (SegmentId pos) of
        None \<Rightarrow> (wal, Err ''segment file not found'')
      | Some seg \<Rightarrow>
          (case segRead pool (BlockNumber pos) (ChunkOffset pos) seg of
             (seg', r) \<Rightarrow> (put_segment (SegmentId pos) seg' wal, r)))"

text \<open>A reader of the log: the readers of the segments by their ids, and the current one.\<close>

record walReader =
  segmentReaders :: "(u32 \<times> segmentReader) list"
  currentReader :: nat

definition NewReaderWithMax :: "u32 \<Rightarrow> WAL \<Rightarrow> walReader" where
  "NewReaderWithMax sid wal =
     \<lparr>segmentReaders = map (\<lambda>i. (i, segNewReader)) (sort (filter (\<lambda>i. sid = 0 \<or> i \<le> sid) (walIds wal))),
      currentReader = 0\<rparr>"

definition NewReader :: "WAL \<Rightarrow> walReader" where
  "NewReader = NewReaderWithMax 0"

definition SkipCurrentSegment :: "walReader \<Rightarrow> walReader" where
  "SkipCurrentSegment rd = rd\<lparr>currentReader := currentReader rd + 1\<rparr>"

definition CurrentSegmentId :: "walReader \<Rightarrow> u32 gores" where
  "CurrentSegmentId rd =
     (if currentReader rd < length (segmentReaders rd) then Ok (fst (segmentReaders rd ! currentReader rd))
      else Panic ''index out of range'')"

definition CurrentChunkPosition :: "walReader \<Rightarrow> ChunkPosition gores" where
  "CurrentChunkPosition rd =
     (if currentReader rd < length (segmentReaders rd)
      then case segmentReaders rd ! currentReader rd of (i, sr) \<Rightarrow>
        Ok \<lparr>SegmentId = i, BlockNumber = rdBlock sr, ChunkOffset = rdOffset sr, ChunkSize = 0\<rparr>
      else Panic ''index out of range'')"

text \<open>At the end of a segment the reader goes on with the next one.\<close>

function walNext :: "bytes \<Rightarrow> WAL \<Rightarrow> walReader \<Rightarrow> (WAL \<times> walReader) \<times> (bytes \<times> ChunkPosition) gores" where
  "walNext pool wal rd =
     (if length (segmentReaders rd) \<le> currentReader rd then ((wal, rd), Err EOF)
      else
        let (i, sr) = segmentReaders rd ! currentReader rd in
        case segment_of wal i of
          None \<Rightarrow> ((wal, rd), Panic ''nil segment'')
        | Some seg \<Rightarrow>
            (case segNext pool seg sr of
               ((seg', sr'), r) \<Rightarrow>
                 let wal' = put_segment i seg' wal;
                     rd' = rd\<lparr>segmentReaders := (segmentReaders rd)[currentReader rd := (i, sr')]\<rparr>
                 in if r = Err EOF then walNext pool wal' (rd'\<lparr>currentReader := currentReader rd + 1\<rparr>)
                    else ((wal', rd'), r)))"
  by pat_completeness auto
termination
  by (relation "measure (\<lambda>(pool, wal, rd). length (segmentReaders rd) - currentReader rd)") auto

declare walNext.simps [simp del]

definition RenameFileExt :: "walIO \<Rightarrow> string \<Rightarrow> WAL \<Rightarrow> WAL \<times> unit gores" where
  "RenameFileExt io ext wal =
     (if take 1 ext \<noteq> ''.'' then (wal, Err ''segment file extension must start with a dot'')
      else if renameIds wal \<noteq> [] \<and> \<not> ioRename io then (wal, Err ''rename error'')
      else (wal\<lparr>woptions := (woptions wal)\<lparr>SegmentFileExt := ext\<rparr>\<rparr>, Ok ()))"

end
