(* ===== verification/WalSegmentCorrect.thy ===== *)
theory WalSegmentCorrect
  imports WalSegment
begin

text \<open>
  Records in a segment file: where a chunk, a record and a log of records are, that reading finds
  them and that writing puts them there.
\<close>

subsection \<open>Slices\<close>

lemma length_slice [simp]: "length (slice i j xs) = min (j - i) (length xs - i)"
  by (simp add: slice_def)

lemma slice_slice: "b \<le> n \<Longrightarrow> slice a b (slice i (i + n) xs) = slice (i + a) (i + b) xs"
  by (simp add: slice_def drop_take min_def add.commute)

lemma slice_all: "length xs \<le> n \<Longrightarrow> slice 0 n xs = xs"
  by (simp add: slice_def)

lemma slice_append1: "j \<le> length xs \<Longrightarrow> slice i j (xs @ ys) = slice i j xs"
  by (simp add: slice_def)

lemma slice_append2: "length xs \<le> i \<Longrightarrow> slice i j (xs @ ys) = slice (i - length xs) (j - length xs) ys"
  by (simp add: slice_def)

lemma slice_of_take: "take n xs = take n (drop i ys) \<Longrightarrow> j \<le> n \<Longrightarrow> slice a j xs = slice (i + a) (i + j) ys"
proof -
  assume h: "take n xs = take n (drop i ys)" "j \<le> n"
  have "slice a j xs = slice a j (take n xs)" using h(2) by (simp add: slice_def drop_take min_def)
  also have "\<dots> = slice (i + a) (i + j) ys" using h by (simp add: slice_def drop_take min_def add.commute)
  finally show ?thesis .
qed

subsection \<open>Chunks in a file\<close>

lemma length_chunk [simp]: "length (chunk ty d) = chunkHeaderSize + length d"
  by (simp add: chunk_def Let_def chunkHeaderSize_def)

definition chunk_at :: "bytes \<Rightarrow> nat \<Rightarrow> u8 \<Rightarrow> bytes \<Rightarrow> bool" where
  "chunk_at f p ty d \<longleftrightarrow> p mod blockSize + chunkHeaderSize + length d \<le> blockSize \<and>
     slice p (p + chunkHeaderSize + length d) f = chunk ty d"

lemma chunk_at_length: "chunk_at f p ty d \<Longrightarrow> p + chunkHeaderSize + length d \<le> length f"
proof -
  assume "chunk_at f p ty d"
  then have "length (slice p (p + chunkHeaderSize + length d) f) = chunkHeaderSize + length d"
    by (simp add: chunk_at_def)
  then show ?thesis by (simp add: chunkHeaderSize_def min_def split: if_splits)
qed

lemma chunk_at_append: "chunk_at f p ty d \<Longrightarrow> chunk_at (f @ g) p ty d"
  using chunk_at_length [of f p ty d] by (simp add: chunk_at_def slice_append1)

lemma chunk_fields:
  assumes "length d \<le> blockSize"
  shows "le_val (slice 4 6 (take 7 (chunk ty d))) = length d" "chunk ty d ! 6 = ty"
    and "(word_of_nat (le_val (take 4 (chunk ty d))) :: u32) = ChecksumIEEE (drop 4 (chunk ty d))"
    and "drop 7 (chunk ty d) = d"
  using assms by (simp_all add: chunk_def Let_def slice_def blockSize_def nth_append)

definition next_place :: "nat \<Rightarrow> nat \<Rightarrow> nat \<times> nat" where
  "next_place bn checksumEnd =
     (if blockSize \<le> checksumEnd + chunkHeaderSize then (bn + 1, 0) else (bn, checksumEnd))"

text \<open>The file has the size that the counters say, and the block that is kept is that of the file.\<close>

definition cache_ok :: "segment \<Rightarrow> cursor \<Rightarrow> bool" where
  "cache_ok seg cur \<longleftrightarrow> length (curBlock cur) = blockSize \<and>
     (isStartupTraversal seg \<longrightarrow> (\<forall>bn. curCached cur = int bn \<longrightarrow> (bn + 1) * blockSize \<le> length (segFile seg) \<longrightarrow>
        curBlock cur = take blockSize (drop (bn * blockSize) (segFile seg))))"

lemma read_chunk:
  assumes sz: "segSize seg = length (segFile seg)" and ca: "cache_ok seg cur"
    and at: "chunk_at (segFile seg) (bn * blockSize + off) ty d" and off: "off < blockSize"
  obtains cur' where "cache_ok seg cur'"
    "read_chunks seg cur bn (int off) res =
       (if ty = ChunkTypeFull \<or> ty = ChunkTypeLast
        then (cur', Ok (res @ d, next_place bn (off + chunkHeaderSize + length d)))
        else read_chunks seg cur' (bn + 1) 0 (res @ d))"
proof -
  let ?f = "segFile seg" and ?o = "bn * blockSize"
  define sz where "sz = min blockSize (length ?f - ?o)"
  have fit: "off + chunkHeaderSize + length d \<le> blockSize"
    using at off by (simp add: chunk_at_def)
  have fl: "?o + off + chunkHeaderSize + length d \<le> length ?f" using chunk_at_length [OF at] .
  have e: "off + chunkHeaderSize + length d \<le> sz" using fit fl by (simp add: sz_def)
  have size: "(if blockSize + ?o > segSize seg then int (segSize seg) - int ?o else int blockSize) = int sz"
    using fl sz by (auto simp: sz_def)
  define fetch where "fetch \<longleftrightarrow> \<not> isStartupTraversal seg \<or> curCached cur \<noteq> int bn \<or> int sz \<noteq> int blockSize"
  define got where "got = take sz (drop ?o ?f)"
  have lg: "length got = sz" using fl by (simp add: got_def sz_def)
  define block where "block = (if fetch then got @ drop (length got) (curBlock cur) else curBlock cur)"
  define cur' where "cur' = \<lparr>curBlock = block, curCached = (if fetch \<and> isStartupTraversal seg then int bn else curCached cur)\<rparr>"
  have full: "sz = blockSize \<Longrightarrow> (bn + 1) * blockSize \<le> length ?f" using fl by (simp add: sz_def min_def split: if_splits)
  have keep: "block = got" if "\<not> fetch"
    using that ca full by (auto simp: fetch_def block_def cache_ok_def got_def)
  have bt: "take sz block = take sz (drop ?o ?f)"
    using keep lg by (cases fetch) (auto simp: block_def got_def)
  have lb: "length block = blockSize"
    using ca lg by (auto simp: block_def cache_ok_def sz_def)
  have ca': "cache_ok seg cur'"
    using ca lb lg by (auto simp: cache_ok_def cur'_def block_def got_def sz_def fetch_def)
  have sl: "slice (off + a) (off + b) block = slice a b (chunk ty d)" if "b \<le> chunkHeaderSize + length d" for a b
  proof -
    have "slice (off + a) (off + b) block = slice (?o + (off + a)) (?o + (off + b)) ?f"
      using bt that e by (intro slice_of_take) auto
    also have "\<dots> = slice a b (slice (?o + off) (?o + off + (chunkHeaderSize + length d)) ?f)"
      using slice_slice [OF that, of a "?o + off" ?f] by (simp add: add.assoc)
    also have "\<dots> = slice a b (chunk ty d)" using at by (simp add: chunk_at_def add.assoc)
    finally show ?thesis .
  qed
  have hd: "slice off (off + chunkHeaderSize) block = take 7 (chunk ty d)"
    using sl [of "chunkHeaderSize" 0] by (simp add: slice_def chunkHeaderSize_def)
  have pay: "slice (off + chunkHeaderSize) (off + chunkHeaderSize + length d) block = d"
    using sl [of "chunkHeaderSize + length d" chunkHeaderSize] chunk_fields(4) [of d ty] fit
    by (simp add: slice_def chunkHeaderSize_def add.assoc)
  have sum: "slice (off + 4) (off + chunkHeaderSize + length d) block = drop 4 (chunk ty d)"
    using sl [of "chunkHeaderSize + length d" 4] by (simp add: slice_def add.assoc)
  have "read_chunks seg cur bn (int off) res =
       (if ty = ChunkTypeFull \<or> ty = ChunkTypeLast
        then (cur', Ok (res @ d, next_place bn (off + chunkHeaderSize + length d)))
        else read_chunks seg cur' (bn + 1) 0 (res @ d))"
  proof -
    have c: "\<not> int sz \<le> int off" "\<not> int off < 0" "\<not> blockSize < off + chunkHeaderSize"
      "\<not> blockSize < off + chunkHeaderSize + length d" "\<not> (fetch \<and> int (length got) < int sz)"
      using e fit lg by (simp_all add: chunkHeaderSize_def)
    have ty: "take 7 (chunk ty d) ! 6 = ty" "take 4 (take 7 (chunk ty d)) = take 4 (chunk ty d)"
      using chunk_fields(2) [of d ty] fit by simp_all
    have dl: "length d \<le> blockSize" using fit by simp
    show ?thesis
      unfolding cur'_def next_place_def
      by (subst read_chunks.simps)
        (simp only: Let_def size nat_int fetch_def [symmetric] got_def [symmetric] block_def [symmetric]
          c if_False hd chunk_fields [OF dl] ty pay sum simp_thms)
  qed
  with ca' show ?thesis by (rule that)
qed

subsection \<open>Records in a file\<close>

fun rest_at :: "bytes \<Rightarrow> nat \<Rightarrow> bytes list \<Rightarrow> bool" where
  "rest_at f p [] \<longleftrightarrow> False"
| "rest_at f p (d # ds) \<longleftrightarrow>
     (if ds = [] then chunk_at f p ChunkTypeLast d
      else chunk_at f p ChunkTypeMiddle d \<and> blockSize dvd (p + chunkHeaderSize + length d) \<and>
        rest_at f (p + chunkHeaderSize + length d) ds)"

definition pieces_size :: "bytes list \<Rightarrow> nat" where
  "pieces_size ds = length ds * chunkHeaderSize + length (concat ds)"

definition stored :: "bytes \<Rightarrow> nat \<Rightarrow> bytes \<Rightarrow> nat \<Rightarrow> bool" where
  "stored f p data e \<longleftrightarrow>
     (chunk_at f p ChunkTypeFull data \<and> e = p + chunkHeaderSize + length data) \<or>
     (\<exists>d ds. data = d @ concat ds \<and> chunk_at f p ChunkTypeFirst d \<and>
        blockSize dvd (p + chunkHeaderSize + length d) \<and> rest_at f (p + chunkHeaderSize + length d) ds \<and>
        e = p + pieces_size (d # ds))"

text \<open>Where the next record starts: the rest of a block that holds no more than a header is left out.\<close>

definition align :: "nat \<Rightarrow> nat" where
  "align e = (if blockSize \<le> e mod blockSize + chunkHeaderSize then (e div blockSize + 1) * blockSize else e)"

definition place :: "nat \<Rightarrow> nat \<times> nat" where
  "place p = (p div blockSize, p mod blockSize)"

lemma next_place:
  assumes "0 < oe" "oe \<le> blockSize"
  shows "next_place bn oe = place (align (bn * blockSize + oe))"
proof (cases "oe = blockSize")
  case True
  then have "bn * blockSize + oe = (bn + 1) * blockSize" by simp
  then show ?thesis using True by (simp only: align_def place_def) (simp add: next_place_def blockSize_def chunkHeaderSize_def)
next
  case False
  then have "oe < blockSize" using assms by simp
  then have "(bn * blockSize + oe) mod blockSize = oe" "(bn * blockSize + oe) div blockSize = bn" by simp_all
  then show ?thesis by (auto simp: align_def place_def next_place_def blockSize_def)
qed

lemma rest_at_append: "rest_at f p ds \<Longrightarrow> rest_at (f @ g) p ds"
  by (induction ds arbitrary: p) (auto intro: chunk_at_append split: if_splits)

lemma stored_append: "stored f p data e \<Longrightarrow> stored (f @ g) p data e"
  unfolding stored_def by (blast intro: chunk_at_append rest_at_append)

lemma pieces_size_simps [simp]:
  "pieces_size [] = 0" "pieces_size (d # ds) = chunkHeaderSize + length d + pieces_size ds"
  by (simp_all add: pieces_size_def)

lemma rest_at_length: "rest_at f p ds \<Longrightarrow> p + pieces_size ds \<le> length f"
proof (induction ds arbitrary: p)
  case (Cons d ds)
  show ?case
  proof (cases "ds = []")
    case True
    then show ?thesis using Cons.prems chunk_at_length [of f p _ d] by (fastforce simp: add.assoc)
  next
    case False
    then show ?thesis using Cons.prems Cons.IH [of "p + chunkHeaderSize + length d"] by (simp add: add.assoc)
  qed
qed simp

lemma stored_length: "stored f p data e \<Longrightarrow> p < e \<and> e \<le> length f"
  using rest_at_length [of f] chunk_at_length [of f p]
  by (auto simp: stored_def chunkHeaderSize_def) (fastforce simp: add.assoc chunkHeaderSize_def)+

subsection \<open>Reading a record\<close>

lemma block_place: "0 < blockSize" "p div blockSize * blockSize + p mod blockSize = p" "p mod blockSize < blockSize"
  by (simp_all add: blockSize_def)

lemma read_rest:
  assumes sz: "segSize seg = length (segFile seg)"
  shows "cache_ok seg cur \<Longrightarrow> rest_at (segFile seg) (bn * blockSize) ds \<Longrightarrow>
    \<exists>cur'. cache_ok seg cur' \<and> read_chunks seg cur bn 0 res =
      (cur', Ok (res @ concat ds, place (align (bn * blockSize + pieces_size ds))))"
proof (induction ds arbitrary: bn cur res)
  case (Cons d ds)
  let ?p = "bn * blockSize"
  show ?case
  proof (cases "ds = []")
    case True
    with Cons.prems have at: "chunk_at (segFile seg) (bn * blockSize + 0) ChunkTypeLast d" by simp
    obtain cur' where c: "cache_ok seg cur'" "read_chunks seg cur bn 0 res =
        (cur', Ok (res @ d, next_place bn (chunkHeaderSize + length d)))"
      by (rule read_chunk [OF sz Cons.prems(1) at block_place(1), of res]) (simp add: chunk_types)
    have "next_place bn (chunkHeaderSize + length d) = place (align (?p + (chunkHeaderSize + length d)))"
      using at by (intro next_place) (simp_all add: chunk_at_def chunkHeaderSize_def)
    then show ?thesis using c True by auto
  next
    case False
    with Cons.prems have at: "chunk_at (segFile seg) (bn * blockSize + 0) ChunkTypeMiddle d"
      and dv: "blockSize dvd (?p + chunkHeaderSize + length d)"
      and rest: "rest_at (segFile seg) (?p + chunkHeaderSize + length d) ds" by simp_all
    obtain cur' where c: "cache_ok seg cur'"
        "read_chunks seg cur bn 0 res = read_chunks seg cur' (bn + 1) 0 (res @ d)"
      by (rule read_chunk [OF sz Cons.prems(1) at block_place(1), of res]) (simp add: chunk_types)
    have "blockSize dvd (chunkHeaderSize + length d)" using dv by (simp add: add.assoc dvd_add_right_iff)
    moreover have "chunkHeaderSize + length d \<le> blockSize" "0 < chunkHeaderSize + length d"
      using at by (simp_all add: chunk_at_def chunkHeaderSize_def)
    ultimately have e: "chunkHeaderSize + length d = blockSize" by (meson dvd_imp_le le_antisym)
    then have p: "?p + chunkHeaderSize + length d = (bn + 1) * blockSize" by simp
    have "(bn + 1) * blockSize + pieces_size ds = ?p + pieces_size (d # ds)" using e by simp
    then show ?thesis using Cons.IH [OF c(1), of "bn + 1" "res @ d"] rest c(2) unfolding p by (auto simp: add_ac)
  qed
qed simp

lemma read_stored:
  assumes sz: "segSize seg = length (segFile seg)" and ca: "cache_ok seg cur"
    and st: "stored (segFile seg) p data e"
  shows "\<exists>cur'. cache_ok seg cur' \<and>
    read_chunks seg cur (p div blockSize) (int (p mod blockSize)) [] = (cur', Ok (data, place (align e)))"
proof -
  let ?b = "p div blockSize" and ?o = "p mod blockSize"
  note rc = read_chunk [OF sz ca _ block_place(3), of ?b p, unfolded block_place(2)]
  from st consider
      "chunk_at (segFile seg) p ChunkTypeFull data" "e = p + chunkHeaderSize + length data"
    | d ds where "data = d @ concat ds" "chunk_at (segFile seg) p ChunkTypeFirst d"
        "blockSize dvd (p + chunkHeaderSize + length d)" "rest_at (segFile seg) (p + chunkHeaderSize + length d) ds"
        "e = p + pieces_size (d # ds)"
    unfolding stored_def by blast
  then show ?thesis
  proof cases
    case 1
    have "next_place ?b (?o + chunkHeaderSize + length data) = place (align (?b * blockSize + (?o + chunkHeaderSize + length data)))"
      using 1(1) by (intro next_place) (simp_all add: chunk_at_def chunkHeaderSize_def)
    moreover have "?b * blockSize + (?o + chunkHeaderSize + length data) = e"
      using 1(2) block_place(2) [of p] by simp
    ultimately show ?thesis
      using rc [OF 1(1), of "[]"] by (metis (full_types) append_Nil)
  next
    case 2
    obtain cur' where c: "cache_ok seg cur'"
        "read_chunks seg cur ?b (int ?o) [] = read_chunks seg cur' (?b + 1) 0 d"
      by (rule rc [OF 2(2), of "[]"]) (simp add: chunk_types)
    have "blockSize dvd (?o + chunkHeaderSize + length d)"
      using 2(3) by (metis add.assoc block_place(2) dvd_add_right_iff dvd_triv_right)
    moreover have "?o + chunkHeaderSize + length d \<le> blockSize" "0 < ?o + chunkHeaderSize + length d"
      using 2(2) by (simp_all add: chunk_at_def chunkHeaderSize_def)
    ultimately have o: "?o + chunkHeaderSize + length d = blockSize" by (meson dvd_imp_le le_antisym)
    have block: "p + n + m = (b + 1) * blockSize" if "b * blockSize + k = p" "k + n + m = blockSize" for b k n m
      using that by simp
    have pe: "p + chunkHeaderSize + length d = (?b + 1) * blockSize"
      by (rule block [OF block_place(2) o])
    have "(?b + 1) * blockSize + pieces_size ds = e" unfolding pe [symmetric] 2(5) by simp
    then show ?thesis using read_rest [OF sz c(1), of "?b + 1" ds d] 2(1,4) c(2) pe by auto
  qed
qed

text \<open>At the end of the records there is nothing.\<close>

lemma read_end:
  assumes "segSize seg = e"
  shows "read_chunks seg cur (align e div blockSize) (int (align e mod blockSize)) [] = (cur, Err EOF)"
proof -
  have "e < align e div blockSize * blockSize + blockSize" 
    by (auto simp: align_def blockSize_def)
  moreover have "e \<le> align e div blockSize * blockSize + align e mod blockSize"
    unfolding block_place(2) by (auto simp: align_def blockSize_def)
  then have "int e - int (align e div blockSize * blockSize) \<le> int (align e mod blockSize)" by linarith
  ultimately show ?thesis using assms by (subst read_chunks.simps) (auto simp: Let_def)
qed

subsection \<open>Writing a record\<close>

lemma u32_nat: "n < 2 ^ 32 \<Longrightarrow> unat (word_of_nat n :: u32) = n"
  by (simp add: unat_of_nat)

lemma u32_arith:
  "a < 2 ^ 32 \<Longrightarrow> b \<le> a \<Longrightarrow> word_of_nat a - (word_of_nat b :: u32) = word_of_nat (a - b)"
  "(word_of_nat a :: u32) + word_of_nat b = word_of_nat (a + b)"
  "a < 2 ^ 32 \<Longrightarrow> b < 2 ^ 32 \<Longrightarrow> (word_of_nat a :: u32) < word_of_nat b \<longleftrightarrow> a < b"
  "a < 2 ^ 32 \<Longrightarrow> b < 2 ^ 32 \<Longrightarrow> (word_of_nat a :: u32) \<le> word_of_nat b \<longleftrightarrow> a \<le> b"
  "a < 2 ^ 32 \<Longrightarrow> b < 2 ^ 32 \<Longrightarrow> (word_of_nat a :: u32) = word_of_nat b \<longleftrightarrow> a = b"
  "a < 2 ^ 32 \<Longrightarrow> (word_of_nat a :: u32) mod 0x8000 = word_of_nat (a mod 32768)"
  "a < 2 ^ 32 \<Longrightarrow> (word_of_nat a :: u32) div 0x8000 = word_of_nat (a div 32768)"
proof -
  show "word_of_nat a - (word_of_nat b :: u32) = word_of_nat (a - b)" if "b \<le> a"
    using that by (simp add: of_nat_diff)
  show "(word_of_nat a :: u32) + word_of_nat b = word_of_nat (a + b)" by simp
  show "(word_of_nat a :: u32) < word_of_nat b \<longleftrightarrow> a < b" "(word_of_nat a :: u32) \<le> word_of_nat b \<longleftrightarrow> a \<le> b"
    "(word_of_nat a :: u32) = word_of_nat b \<longleftrightarrow> a = b" if "a < 2 ^ 32" "b < 2 ^ 32"
    using that by (simp_all add: word_less_nat_alt word_le_nat_alt word_unat_eq_iff u32_nat)
  show "(word_of_nat a :: u32) mod 0x8000 = word_of_nat (a mod 32768)"
    "(word_of_nat a :: u32) div 0x8000 = word_of_nat (a div 32768)" if "a < 2 ^ 32"
    using that by (simp_all add: word_unat_eq_iff unat_mod unat_div u32_nat)
qed

lemma write_step:
  assumes N: "length data = n" "n < 2 ^ 31" and l: "0 < l" "l \<le> n" and c: "c + 7 < 32768"
    and m: "m = min l (32761 - c)"
  shows "write_chunks data (word_of_nat n) (word_of_nat l) (word_of_nat c) buf k =
    write_chunks data (word_of_nat n) (word_of_nat (l - m)) (word_of_nat ((c + m + 7) mod 32768))
      (buf @ chunk (if l = n then ChunkTypeFirst else if l = m then ChunkTypeLast else ChunkTypeMiddle)
         (take m (drop (n - l) data))) (k + 1)"
proof -
  have lt: "l < 2 ^ 32" "n < 2 ^ 32" "m < 2 ^ 32" "m \<le> l" "0 < m" "c < 2 ^ 32" using N l c m by auto
  have num: "(0x8000 :: u32) = word_of_nat 32768" "(7 :: u32) = word_of_nat 7" by simp_all
  have room: "(0x8000 :: u32) - word_of_nat c - 7 = word_of_nat (32761 - c)"
  proof -
    have "(word_of_nat 32768 :: u32) - word_of_nat c = word_of_nat (32768 - c)" using c by (intro u32_arith(1)) auto
    moreover have "(word_of_nat (32768 - c) :: u32) - word_of_nat 7 = word_of_nat (32768 - c - 7)"
      using c by (intro u32_arith(1)) auto
    ultimately show ?thesis unfolding num by simp
  qed
  have m': "(if word_of_nat l < (word_of_nat (32761 - c) :: u32) then word_of_nat l else word_of_nat (32761 - c) :: u32) = word_of_nat m"
    using lt m by (simp add: u32_arith(3) min_def)
  have fin: "(word_of_nat n :: u32) - word_of_nat l + word_of_nat m = word_of_nat (n - l + m)"
    using lt l by (simp only: u32_arith(1,2))
  have fin': "(if (word_of_nat n :: u32) < word_of_nat (n - l + m) then word_of_nat n else word_of_nat (n - l + m)) = (word_of_nat (n - l + m) :: u32)"
    using lt l by (subst u32_arith(3)) auto
  have z: "(word_of_nat l :: u32) \<noteq> 0" using u32_arith(5) [of l 0] lt l by simp
  have ty: "((word_of_nat l :: u32) = word_of_nat n) = (l = n)" "((word_of_nat l :: u32) = word_of_nat m) = (l = m)"
    using lt by (simp_all only: u32_arith(5))
  have sl: "slice (unat (word_of_nat n - word_of_nat l :: u32)) (unat (word_of_nat (n - l + m) :: u32)) data =
      take m (drop (n - l) data)"
  proof -
    have "n - l < 2 ^ 32" "n - l + m < 2 ^ 32" using lt by auto
    with lt l have "unat (word_of_nat n - word_of_nat l :: u32) = n - l" "unat (word_of_nat (n - l + m) :: u32) = n - l + m"
      by (simp_all only: u32_arith(1) u32_nat)
    then show ?thesis by (simp only: slice_def diff_add_inverse)
  qed
  have sub: "(word_of_nat l :: u32) - word_of_nat m = word_of_nat (l - m)" using lt by (simp only: u32_arith(1))
  have cur: "((word_of_nat c :: u32) + word_of_nat m + 7) mod 0x8000 = word_of_nat ((c + m + 7) mod 32768)"
    using lt c m unfolding num(2) u32_arith(2) by (subst u32_arith(6)) auto
  show ?thesis
    by (subst write_chunks.simps)
      (simp only: Let_def z if_False room m' fin fin' ty sl sub cur appendChunkBuffer_def)
qed

lemma chunk_at_here:
  "length f mod blockSize + chunkHeaderSize + length d \<le> blockSize \<Longrightarrow> chunk_at (f @ chunk ty d @ g) (length f) ty d"
  by (simp add: chunk_at_def slice_append2 slice_append1 add.assoc) (simp add: slice_def)

lemma write_chunks_done: "write_chunks data ds 0 c buf k = (buf, k)"
  by (subst write_chunks.simps) simp

lemma write_rest:
  assumes N: "length data = n" "n < 2 ^ 31"
  shows "0 < l \<Longrightarrow> l < n \<Longrightarrow> \<exists>ds out. concat ds = drop (n - l) data \<and> length ds \<le> l div 32761 + 1 \<and>
    write_chunks data (word_of_nat n) (word_of_nat l) 0 buf k = (buf @ out, k + word_of_nat (length ds)) \<and>
    length out = pieces_size ds \<and>
    (\<forall>f. blockSize dvd length f \<longrightarrow> rest_at (f @ out) (length f) ds)"
proof (induction l arbitrary: buf k rule: less_induct)
  case (less l)
  note step = write_step [OF N less.prems(1) less_imp_le [OF less.prems(2)], of 0, simplified]
  show ?case
  proof (cases "l \<le> 32761")
    case True
    let ?d = "drop (n - l) data"
    have "write_chunks data (word_of_nat n) (word_of_nat l) 0 buf k = (buf @ chunk ChunkTypeLast ?d, k + 1)"
      using step [of l buf k] True less.prems N(1) by (simp add: write_chunks_done)
    moreover have "rest_at (f @ chunk ChunkTypeLast ?d) (length f) [?d]" if "blockSize dvd length f" for f
      using chunk_at_here [of f ?d ChunkTypeLast "[]"] that True N(1) less.prems
      by (simp add: chunkHeaderSize_def blockSize_def)
    ultimately show ?thesis using N(1) less.prems
      by (intro exI [of _ "[?d]"] exI [of _ "chunk ChunkTypeLast ?d"]) (simp add: pieces_size_def)
  next
    case False
    let ?m = "32761" let ?d = "take ?m (drop (n - l) data)"
    have w: "write_chunks data (word_of_nat n) (word_of_nat l) 0 buf k =
        write_chunks data (word_of_nat n) (word_of_nat (l - ?m)) 0 (buf @ chunk ChunkTypeMiddle ?d) (k + 1)"
      using step [of ?m buf k] False less.prems by simp
    obtain ds out where ih: "concat ds = drop (n - (l - ?m)) data" "length ds \<le> (l - ?m) div 32761 + 1"
      "write_chunks data (word_of_nat n) (word_of_nat (l - ?m)) 0 (buf @ chunk ChunkTypeMiddle ?d) (k + 1) =
        ((buf @ chunk ChunkTypeMiddle ?d) @ out, k + 1 + word_of_nat (length ds))"
      "length out = pieces_size ds" "\<And>f. blockSize dvd length f \<Longrightarrow> rest_at (f @ out) (length f) ds"
    proof -
      have "l - ?m < l" "0 < l - ?m" "l - ?m < n" using False less.prems by auto
      from less.IH [OF this, of "buf @ chunk ChunkTypeMiddle ?d" "k + 1"] show ?thesis using that by blast
    qed
    have ld: "length ?d = ?m" using False less.prems N(1) by simp
    have "n - (l - ?m) = (n - l) + ?m" using False less.prems by simp
    then have cat: "concat (?d # ds) = drop (n - l) data"
      using ih(1) append_take_drop_id [of ?m "drop (n - l) data"] by (simp add: add.commute)
    have len: "length (?d # ds) \<le> l div 32761 + 1"
    proof -
      have "l div 32761 = (l - ?m) div 32761 + 1" using False by (simp add: le_div_geq)
      then show ?thesis using ih(2) by simp
    qed
    have rest: "rest_at (f @ chunk ChunkTypeMiddle ?d @ out) (length f) (?d # ds)" if "blockSize dvd length f" for f
    proof -
      have ne: "ds \<noteq> []" using ih(1) False less.prems N(1) by auto
      have len: "length f + chunkHeaderSize + length ?d = length f + blockSize"
        using ld by (simp add: chunkHeaderSize_def blockSize_def)
      have "chunk_at (f @ chunk ChunkTypeMiddle ?d @ out) (length f) ChunkTypeMiddle ?d"
        using that ld by (intro chunk_at_here) (simp add: chunkHeaderSize_def blockSize_def)
      moreover have "rest_at ((f @ chunk ChunkTypeMiddle ?d) @ out) (length (f @ chunk ChunkTypeMiddle ?d)) ds"
        using that ld by (intro ih(5)) (simp add: chunkHeaderSize_def blockSize_def)
      ultimately show ?thesis using ne len ld that by (simp add: add.assoc)
    qed
    show ?thesis
      by (intro exI [of _ "?d # ds"] exI [of _ "chunk ChunkTypeMiddle ?d @ out"] conjI allI impI)
        (rule cat, rule len, unfold w ih(3), simp add: ac_simps, simp add: ih(4), rule rest)
  qed
qed

text \<open>A record that does not fit into the rest of its block.\<close>

lemma write_split:
  assumes N: "length data = n" "n < 2 ^ 31" and c: "c + 7 < 32768" and big: "32768 < c + n + 7"
  shows "\<exists>ds out. concat ds = data \<and> length ds \<le> n div 32761 + 2 \<and>
    write_chunks data (word_of_nat n) (word_of_nat n) (word_of_nat c) buf 0 = (buf @ out, word_of_nat (length ds)) \<and>
    length out = pieces_size ds \<and>
    (\<forall>f. length f mod blockSize = c \<longrightarrow> stored (f @ out) (length f) data (length f + length out))"
proof -
  let ?m = "32761 - c" let ?d = "take ?m data"
  have m: "0 < ?m" "?m < n" "?m = min n (32761 - c)" using c big by auto
  have ld: "length ?d = ?m" using m N by simp
  have "write_chunks data (word_of_nat n) (word_of_nat n) (word_of_nat c) buf 0 =
      write_chunks data (word_of_nat n) (word_of_nat (n - ?m)) (word_of_nat ((c + ?m + 7) mod 32768))
        (buf @ chunk ChunkTypeFirst ?d) 1"
    using write_step [OF N _ order_refl c m(3), of buf 0] m by simp
  moreover have "(c + ?m + 7) mod 32768 = 0" using c by simp
  ultimately have w: "write_chunks data (word_of_nat n) (word_of_nat n) (word_of_nat c) buf 0 =
      write_chunks data (word_of_nat n) (word_of_nat (n - ?m)) 0 (buf @ chunk ChunkTypeFirst ?d) 1"
    by (metis semiring_1_class.of_nat_0)
  obtain ds out where ih: "concat ds = drop (n - (n - ?m)) data" "length ds \<le> (n - ?m) div 32761 + 1"
      "write_chunks data (word_of_nat n) (word_of_nat (n - ?m)) 0 (buf @ chunk ChunkTypeFirst ?d) 1 =
        ((buf @ chunk ChunkTypeFirst ?d) @ out, 1 + word_of_nat (length ds))"
      "length out = pieces_size ds" "\<And>f. blockSize dvd length f \<Longrightarrow> rest_at (f @ out) (length f) ds"
  proof -
    have "0 < n - ?m" "n - ?m < n" using m by auto
    from write_rest [OF N this, of "buf @ chunk ChunkTypeFirst ?d" 1] show ?thesis using that by blast
  qed
  have cat: "concat (?d # ds) = data" using ih(1) m by simp
  have "(n - ?m) div 32761 \<le> n div 32761" by (intro div_le_mono) simp
  then have len: "length (?d # ds) \<le> n div 32761 + 2" using ih(2) by simp
  have st: "stored (f @ chunk ChunkTypeFirst ?d @ out) (length f) data (length f + (chunkHeaderSize + length ?d + length out))"
    if f: "length f mod blockSize = c" for f
  proof -
    have e: "length f + chunkHeaderSize + length ?d = (length f div blockSize + 1) * blockSize"
    proof -
      have "length f = length f div blockSize * blockSize + c" using f block_place(2) [of "length f"] by simp
      moreover have "c + chunkHeaderSize + length ?d = blockSize" using ld c by (simp add: chunkHeaderSize_def blockSize_def)
      ultimately show ?thesis by (simp add: add.assoc)
    qed
    have "chunk_at (f @ chunk ChunkTypeFirst ?d @ out) (length f) ChunkTypeFirst ?d"
      using f ld c by (intro chunk_at_here) (simp add: chunkHeaderSize_def blockSize_def)
    moreover have "rest_at ((f @ chunk ChunkTypeFirst ?d) @ out) (length (f @ chunk ChunkTypeFirst ?d)) ds"
      using e by (intro ih(5)) (simp add: add.assoc)
    ultimately show ?thesis unfolding stored_def
      using cat e ih(4) by (intro disjI2 exI [of _ ?d] exI [of _ ds]) (simp add: add.assoc)
  qed
  show ?thesis
    by (intro exI [of _ "?d # ds"] exI [of _ "chunk ChunkTypeFirst ?d @ out"] conjI allI impI)
      (rule cat, rule len, unfold w ih(3), simp, simp add: ih(4), simp only: length_append length_chunk st)
qed

definition pos_at :: "u32 \<Rightarrow> nat \<Rightarrow> u32 \<Rightarrow> ChunkPosition" where
  "pos_at i p n = \<lparr>SegmentId = i, BlockNumber = word_of_nat (p div blockSize),
     ChunkOffset = word_of_nat (p mod blockSize), ChunkSize = n\<rparr>"

text \<open>How many bytes of headers and padding a record of \<open>n\<close> bytes can take.\<close>

definition overhead :: "nat \<Rightarrow> nat" where
  "overhead n = 7 * (n div 32761 + 2)"

lemma u32_split: "c < 2 ^ 32 \<Longrightarrow> unat w = c \<Longrightarrow> w = word_of_nat c" for w :: u32
  by (simp add: word_unat_eq_iff u32_nat)

lemma putRecord_Ok:
  assumes n: "length data < 2 ^ 31" and c: "c + 7 < 32768"
  shows "\<exists>out. putRecord data (word_of_nat c) buf = (buf @ out, word_of_nat (length out)) \<and>
    length data + 7 \<le> length out \<and> length out \<le> length data + overhead (length data) \<and>
    (\<forall>f. length f mod blockSize = c \<longrightarrow> stored (f @ out) (length f) data (length f + length out))"
proof -
  let ?n = "length data"
  have num: "(0x8000 :: u32) = word_of_nat 32768" "(7 :: u32) = word_of_nat 7" by simp_all
  have fits: "(word_of_nat c + word_of_nat ?n + 7 \<le> (0x8000 :: u32)) = (c + ?n + 7 \<le> 32768)"
    using n c unfolding num u32_arith(2) by (subst u32_arith(4)) auto
  show ?thesis
  proof (cases "c + ?n + 7 \<le> 32768")
    case True
    have "stored (f @ chunk ChunkTypeFull data) (length f) data (length f + length (chunk ChunkTypeFull data))"
      if "length f mod blockSize = c" for f
    proof -
      have "chunk_at (f @ chunk ChunkTypeFull data @ []) (length f) ChunkTypeFull data"
        by (rule chunk_at_here, unfold that) (use True in \<open>simp add: chunkHeaderSize_def blockSize_def\<close>)
      then show ?thesis unfolding stored_def by (intro disjI1 conjI) (simp_all only: append_Nil2 length_chunk add.assoc)
    qed
    moreover have "word_of_nat (length (chunk ChunkTypeFull data)) = (word_of_nat ?n + 7 :: u32)"
      by (simp add: chunkHeaderSize_def)
    then have "putRecord data (word_of_nat c) buf = (buf @ chunk ChunkTypeFull data, word_of_nat (length (chunk ChunkTypeFull data)))"
      using True by (simp only: putRecord_def Let_def fits if_True appendChunkBuffer_def)
    moreover have "?n + 7 \<le> length (chunk ChunkTypeFull data)" "length (chunk ChunkTypeFull data) \<le> ?n + overhead ?n"
      by (simp_all add: chunkHeaderSize_def overhead_def)
    ultimately show ?thesis by blast
  next
    case False
    obtain ds out where w: "concat ds = data" "length ds \<le> ?n div 32761 + 2"
      "write_chunks data (word_of_nat ?n) (word_of_nat ?n) (word_of_nat c) buf 0 = (buf @ out, word_of_nat (length ds))"
      "length out = pieces_size ds"
      "\<And>f. length f mod blockSize = c \<Longrightarrow> stored (f @ out) (length f) data (length f + length out)"
    proof -
      have "32768 < c + ?n + 7" using False by simp
      from write_split [OF refl n c this, of buf] show ?thesis using that by blast
    qed
    have lo: "length out = length ds * 7 + ?n" using w(1,4) by (simp add: pieces_size_def chunkHeaderSize_def)
    have "ds \<noteq> []" using w(1) False c by auto
    then have "1 \<le> length ds" by (cases ds) auto
    with lo w(2) have "?n + 7 \<le> length out" "length out \<le> ?n + overhead ?n" by (simp_all add: overhead_def)
    moreover have "putRecord data (word_of_nat c) buf = (buf @ out, word_of_nat (length out))"
      using False by (simp add: putRecord_def fits w(3) lo)
    ultimately show ?thesis using w(5) by blast
  qed
qed

lemma padBlock_Ok:
  assumes c: "unat (currentBlockSize seg) < 32768" and s: "segSize seg < 2 ^ 46"
  shows "\<exists>z seg1. padBlock seg buf = (seg1, buf @ z, word_of_nat (length z)) \<and> length z \<le> 7 \<and>
    seg1 = seg\<lparr>currentBlockNumber := currentBlockNumber seg1, currentBlockSize := currentBlockSize seg1\<rparr> \<and>
    segSize seg1 = align (segSize seg) \<and> align (segSize seg) = segSize seg + length z \<and>
    unat (currentBlockSize seg1) + 7 < 32768"
proof -
  let ?c = "unat (currentBlockSize seg)" and ?b = "unat (currentBlockNumber seg)"
  have cw: "currentBlockSize seg = word_of_nat ?c" by simp
  have pad: "(0x8000 \<le> currentBlockSize seg + 7) = (32768 \<le> ?c + 7)" "currentBlockSize seg < 0x8000"
    using c unsigned_less [of "currentBlockSize seg", where ?'a = nat]
    by (simp_all add: word_le_nat_alt word_less_nat_alt unat_word_ariths)
  have al: "align (segSize seg) = (if 32768 \<le> ?c + 7 then (?b + 1) * blockSize else segSize seg)"
    using c by (simp add: align_def segSize_def blockSize_def chunkHeaderSize_def)
  show ?thesis
  proof (cases "32768 \<le> ?c + 7")
    case True
    have z: "unat (0x8000 - currentBlockSize seg) = 32768 - ?c"
      using pad(2) by (simp add: unat_sub less_imp_le)
    have "unat (currentBlockNumber seg + 1) = ?b + 1"
      using s by (simp add: unat_word_ariths segSize_def blockSize_def)
    with True al z c show ?thesis
      by (intro exI [of _ "replicate (32768 - ?c) 0"])
        (auto simp: padBlock_def Let_def pad segSize_def blockSize_def word_unat_eq_iff u32_nat)
  next
    case False
    with al show ?thesis by (intro exI [of _ "[]"]) (simp add: padBlock_def pad)
  qed
qed

lemma advance_Ok:
  assumes "unat (currentBlockSize seg) < 32768" "n < 2 ^ 32 - 32768" "segSize seg + n < 2 ^ 47"
  shows "segSize (advance (word_of_nat n) seg) = segSize seg + n"
    and "unat (currentBlockSize (advance (word_of_nat n) seg)) < 32768"
    and "advance (word_of_nat n) seg = seg\<lparr>currentBlockNumber := currentBlockNumber (advance (word_of_nat n) seg),
      currentBlockSize := currentBlockSize (advance (word_of_nat n) seg)\<rparr>"
proof -
  let ?c = "unat (currentBlockSize seg)" and ?b = "unat (currentBlockNumber seg)" and ?s = "advance (word_of_nat n) seg"
  have u: "unat (currentBlockSize seg + word_of_nat n) = ?c + n"
    using assms by (simp add: unat_word_ariths u32_nat)
  have "?b + (?c + n) div 32768 = (segSize seg + n) div 32768" by (simp add: segSize_def blockSize_def)
  then have b: "?b + (?c + n) div 32768 < 2 ^ 32" using assms(3) by (simp add: less_mult_imp_div_less)
  then have d: "unat (currentBlockNumber seg + (currentBlockSize seg + word_of_nat n) div 0x8000) = ?b + (?c + n) div 32768"
    using b by (subst unat_word_ariths(1), subst unat_div, subst u) simp
  have m: "unat ((currentBlockSize seg + word_of_nat n) mod 0x8000) = (?c + n) mod 32768"
    by (simp only: unat_mod u) simp
  have le: "(0x8000 \<le> currentBlockSize seg + word_of_nat n) = (32768 \<le> ?c + n)"
    by (simp only: word_le_nat_alt u) simp
  show "segSize ?s = segSize seg + n" "unat (currentBlockSize ?s) < 32768"
    by (cases "32768 \<le> ?c + n"; simp add: advance_def Let_def le segSize_def blockSize_def d m u)+
  show "?s = seg\<lparr>currentBlockNumber := currentBlockNumber ?s, currentBlockSize := currentBlockSize ?s\<rparr>"
    by (simp add: advance_def Let_def)
qed

text \<open>Only the place of the end moves.\<close>

definition same_but_end :: "segment \<Rightarrow> segment \<Rightarrow> bool" where
  "same_but_end seg seg' \<longleftrightarrow> segId seg' = segId seg \<and> segFile seg' = segFile seg \<and> segClosed seg' = segClosed seg \<and>
     startupBlock seg' = startupBlock seg \<and> startupNumber seg' = startupNumber seg \<and>
     isStartupTraversal seg' = isStartupTraversal seg"

lemma same_but_end_trans: "same_but_end a b \<Longrightarrow> same_but_end b c \<Longrightarrow> same_but_end a c"
  by (simp add: same_but_end_def)

lemma same_but_endI:
  "seg' = seg\<lparr>currentBlockNumber := n, currentBlockSize := m\<rparr> \<Longrightarrow> same_but_end seg seg'"
  by (simp add: same_but_end_def)

lemma writeToBuffer_Ok:
  assumes o: "\<not> segClosed seg" "unat (currentBlockSize seg) < 32768" "segSize seg < 2 ^ 46"
    and n: "length data < 2 ^ 31"
  obtains out seg' k where
    "writeToBuffer data seg buf = (seg', Ok (pos_at (segId seg) (align (segSize seg)) k, buf @ out))"
    "same_but_end seg seg'" "unat (currentBlockSize seg') < 32768" "segSize seg' = segSize seg + length out"
    "length data + 7 \<le> length out" "length out \<le> length data + overhead (length data) + 7"
    "\<And>f. length f = segSize seg \<Longrightarrow> stored (f @ out) (align (segSize seg)) data (segSize seg')"
proof -
  obtain z seg1 where p: "padBlock seg buf = (seg1, buf @ z, word_of_nat (length z))" "length z \<le> 7"
    "seg1 = seg\<lparr>currentBlockNumber := currentBlockNumber seg1, currentBlockSize := currentBlockSize seg1\<rparr>"
    "segSize seg1 = align (segSize seg)" "align (segSize seg) = segSize seg + length z"
    "unat (currentBlockSize seg1) + 7 < 32768"
    using padBlock_Ok [OF o(2,3), of buf] by blast
  let ?c = "unat (currentBlockSize seg1)"
  obtain out where r: "putRecord data (word_of_nat ?c) (buf @ z) = ((buf @ z) @ out, word_of_nat (length out))"
    "length data + 7 \<le> length out" "length out \<le> length data + overhead (length data)"
    "\<And>f. length f mod blockSize = ?c \<Longrightarrow> stored (f @ out) (length f) data (length f + length out)"
    using putRecord_Ok [OF n p(6), of "buf @ z"] by blast
  have cw: "word_of_nat ?c = currentBlockSize seg1" by simp
  have "overhead (length data) \<le> 7 * (2 ^ 31 div 32761 + 2)"
    using n by (simp add: overhead_def div_le_mono)
  then have small: "length out < 2 ^ 32 - 32768" "length out < 2 ^ 45" using r(3) n by simp_all
  have end1: "segSize seg1 + length out < 2 ^ 47" using small o(3) p(2,4,5) by simp
  have c1: "?c < 32768" using p(6) by simp
  note adv = advance_Ok [OF c1 small(1) end1]
  define seg' where "seg' = advance (word_of_nat (length out)) seg1"
  have chk: "word_of_nat (length out) + word_of_nat (length z) = (word_of_nat (length ((buf @ z) @ out) - length buf) :: u32)"
    by (simp add: add.commute)
  have blk: "align (segSize seg) div blockSize = unat (currentBlockNumber seg1)" "align (segSize seg) mod blockSize = ?c"
    using p(6) unfolding p(4) [symmetric] by (simp_all add: segSize_def blockSize_def)
  have cl: "segId seg1 = segId seg" by (subst p(3)) simp
  have "ucast (currentBlockSize seg1) = (word_of_nat ?c :: i64)" by simp
  then have "writeToBuffer data seg buf = (seg', Ok (pos_at (segId seg) (align (segSize seg)) (word_of_nat (length out)), buf @ z @ out))"
    using o(1) chk by (simp add: writeToBuffer_def p(1) r(1) [unfolded cw] seg'_def pos_at_def blk cl)
  moreover have "same_but_end seg seg'"
    using same_but_endI [OF p(3)] same_but_endI [OF adv(3)] unfolding seg'_def by (rule same_but_end_trans)
  moreover have "unat (currentBlockSize seg') < 32768" "segSize seg' = segSize seg + length (z @ out)"
    using adv p(4,5) by (simp_all add: seg'_def)
  moreover have "length data + 7 \<le> length (z @ out)" "length (z @ out) \<le> length data + overhead (length data) + 7"
    using r(2,3) p(2) by simp_all
  moreover have "stored (f @ z @ out) (align (segSize seg)) data (segSize seg')" if f: "length f = segSize seg" for f
  proof -
    have l: "length (f @ z) = align (segSize seg)" using f p(5) by simp
    then have "stored ((f @ z) @ out) (length (f @ z)) data (length (f @ z) + length out)"
      using blk(2) by (intro r(4)) simp
    then show ?thesis using l p(4) adv(1) by (simp add: seg'_def)
  qed
  ultimately show ?thesis by (rule that)
qed

subsection \<open>A segment as a log of records\<close>

text \<open>The records of a file from the end \<open>e\<close> of the one before, each with its place.\<close>

fun log_from :: "bytes \<Rightarrow> nat \<Rightarrow> (nat \<times> bytes) list \<Rightarrow> bool" where
  "log_from f e [] \<longleftrightarrow> e = length f"
| "log_from f e ((p, d) # r) \<longleftrightarrow> p = align e \<and> (\<exists>e'. stored f p d e' \<and> log_from f e' r)"

definition seg_ok :: "segment \<Rightarrow> (nat \<times> bytes) list \<Rightarrow> bool" where
  "seg_ok seg log \<longleftrightarrow> \<not> segClosed seg \<and> segSize seg = length (segFile seg) \<and>
     unat (currentBlockSize seg) < 32768 \<and> log_from (segFile seg) 0 log \<and>
     length (startupBlock seg) = blockSize \<and>
     (\<forall>bn. startupNumber seg = int bn \<longrightarrow> (bn + 1) * blockSize \<le> length (segFile seg) \<longrightarrow>
        startupBlock seg = take blockSize (drop (bn * blockSize) (segFile seg)))"

lemma log_from_snoc:
  "log_from f e log \<Longrightarrow> (\<And>e0. e0 = length f \<Longrightarrow> stored (f @ g) (align e0) d (length (f @ g))) \<Longrightarrow>
   log_from (f @ g) e (log @ [(align (length f), d)])"
proof (induction f e log rule: log_from.induct)
  case (2 f e p d' r)
  from 2(2) obtain e' where e': "p = align e" "stored f p d' e'" "log_from f e' r" by auto
  have "log_from (f @ g) e' (r @ [(align (length f), d)])" by (rule 2(1) [OF e'(3) 2(3)])
  then show ?case using e' stored_append [OF e'(2), of g] by auto
qed auto

lemma log_from_stored: "log_from f e log \<Longrightarrow> (p, d) \<in> set log \<Longrightarrow> \<exists>e'. stored f p d e'"
  by (induction f e log rule: log_from.induct) auto

lemma segSize_bound: "segSize seg < 2 ^ 47"
  if "unat (currentBlockSize seg) < 32768"
  using unsigned_less [of "currentBlockNumber seg", where ?'a = nat] that by (simp add: segSize_def blockSize_def)

text \<open>Opening a file that holds a log.\<close>

lemma openSegmentFile_ok:
  assumes "log_from f 0 log" "length f < 2 ^ 47"
  shows "seg_ok (openSegmentFile i f) log"
proof -
  have "length f div 32768 < 2 ^ 32" using assms(2) by (simp add: less_mult_imp_div_less)
  then have "segSize (openSegmentFile i f) = length f" "unat (word_of_nat (length f mod 32768) :: u32) < 32768"
    by (simp_all add: openSegmentFile_def segSize_def Let_def u32_nat blockSize_def)
  then show ?thesis using assms(1) by (simp add: seg_ok_def openSegmentFile_def Let_def blockSize_def)
qed

lemma openSegmentFile_fields [simp]:
  "segId (openSegmentFile i f) = i" "segFile (openSegmentFile i f) = f" "\<not> segClosed (openSegmentFile i f)"
  by (simp_all add: openSegmentFile_def Let_def)

subsection \<open>Writing to a segment\<close>

text \<open>The state inside a write: the buffer holds what the file does not yet.\<close>

definition pending_ok :: "segment \<Rightarrow> bytes \<Rightarrow> (nat \<times> bytes) list \<Rightarrow> bool" where
  "pending_ok seg buf log \<longleftrightarrow> \<not> segClosed seg \<and> unat (currentBlockSize seg) < 32768 \<and>
     segSize seg = length (segFile seg @ buf) \<and> log_from (segFile seg @ buf) 0 log"

lemma writeToBuffer_pending:
  assumes "pending_ok seg buf log" "segSize seg < 2 ^ 46" "length data < 2 ^ 31"
  shows "\<exists>seg' k out. writeToBuffer data seg buf =
      (seg', Ok (pos_at (segId seg) (align (segSize seg)) k, buf @ out)) \<and> same_but_end seg seg' \<and>
    pending_ok seg' (buf @ out) (log @ [(align (segSize seg), data)]) \<and>
    segSize seg' \<le> segSize seg + length data + overhead (length data) + 7"
proof -
  have o: "\<not> segClosed seg" "unat (currentBlockSize seg) < 32768" using assms(1) by (simp_all add: pending_ok_def)
  obtain out seg' k where w:
    "writeToBuffer data seg buf = (seg', Ok (pos_at (segId seg) (align (segSize seg)) k, buf @ out))"
    "same_but_end seg seg'" "unat (currentBlockSize seg') < 32768" "segSize seg' = segSize seg + length out"
    "length data + 7 \<le> length out" "length out \<le> length data + overhead (length data) + 7"
    "\<And>f. length f = segSize seg \<Longrightarrow> stored (f @ out) (align (segSize seg)) data (segSize seg')"
    by (rule writeToBuffer_Ok [OF o assms(2,3), of buf]) (rule that; assumption)
  have f: "segSize seg = length (segFile seg @ buf)" "log_from (segFile seg @ buf) 0 log"
    using assms(1) by (simp_all add: pending_ok_def)
  have "log_from ((segFile seg @ buf) @ out) 0 (log @ [(align (length (segFile seg @ buf)), data)])"
    using w(7) [OF f(1) [symmetric]] w(4) f(1) by (intro log_from_snoc [OF f(2)]) (simp add: add.assoc)
  then have "pending_ok seg' (buf @ out) (log @ [(align (segSize seg), data)])"
    using w(2,3,4) o(1) f(1) by (simp add: pending_ok_def same_but_end_def)
  then show ?thesis using w(1,2,4,6) by auto
qed

lemma seg_pending: "seg_ok seg log \<Longrightarrow> pending_ok seg [] log"
  by (simp add: seg_ok_def pending_ok_def)

lemma writeChunkBuffer_ok:
  assumes "pending_ok seg' buf log'" "seg_ok seg log" "same_but_end seg seg'"
  obtains seg2 where "writeChunkBuffer None buf seg' = (seg2, Ok ())" "seg_ok seg2 log'"
    "segId seg2 = segId seg" "segSize seg2 = segSize seg'" "isStartupTraversal seg2 = isStartupTraversal seg"
    "segFile seg2 = segFile seg @ buf"
proof -
  have "\<not> 0x8000 < currentBlockSize seg'" using assms(1) by (simp add: pending_ok_def word_less_nat_alt)
  then have "writeChunkBuffer None buf seg' = (seg'\<lparr>segFile := segFile seg' @ buf, startupNumber := - 1\<rparr>, Ok ())"
    by (simp add: writeChunkBuffer_def)
  then show ?thesis
    using assms
    by (intro that [of "seg'\<lparr>segFile := segFile seg' @ buf, startupNumber := - 1\<rparr>"])
      (simp_all add: seg_ok_def pending_ok_def same_but_end_def segSize_def)
qed

lemma segWrite_ok:
  assumes s: "seg_ok seg log" "segSize seg < 2 ^ 46" "length data < 2 ^ 31"
  obtains seg' k where "segWrite None data seg = (seg', Ok (pos_at (segId seg) (align (segSize seg)) k))"
    "seg_ok seg' (log @ [(align (segSize seg), data)])" "segId seg' = segId seg"
    "segSize seg' \<le> segSize seg + length data + overhead (length data) + 7"
    "isStartupTraversal seg' = isStartupTraversal seg"
proof -
  have o: "\<not> segClosed seg" using s(1) by (simp add: seg_ok_def)
  obtain seg1 k out where w: "writeToBuffer data seg [] =
      (seg1, Ok (pos_at (segId seg) (align (segSize seg)) k, out))" "same_but_end seg seg1"
    "pending_ok seg1 out (log @ [(align (segSize seg), data)])"
    "segSize seg1 \<le> segSize seg + length data + overhead (length data) + 7"
    using writeToBuffer_pending [OF seg_pending [OF s(1)] s(2,3)] by auto
  obtain seg2 where c: "writeChunkBuffer None out seg1 = (seg2, Ok ())" "seg_ok seg2 (log @ [(align (segSize seg), data)])"
    "segId seg2 = segId seg" "segSize seg2 = segSize seg1" "isStartupTraversal seg2 = isStartupTraversal seg"
    by (rule writeChunkBuffer_ok [OF w(3) s(1) w(2)]) (rule that; assumption)
  have "segWrite None data seg = (seg2, Ok (pos_at (segId seg) (align (segSize seg)) k))"
    using o w(1) c(1) by (simp add: segWrite_def restoring_def)
  then show ?thesis using c w(4) by (intro that [of seg2 k]) simp_all
qed


text \<open>The same for a list of records.\<close>

fun write_bound :: "bytes list \<Rightarrow> nat" where
  "write_bound [] = 0"
| "write_bound (d # ds) = length d + overhead (length d) + 7 + write_bound ds"

lemma write_each_ok:
  "pending_ok seg buf log \<Longrightarrow> segSize seg + write_bound ds < 2 ^ 46 \<Longrightarrow> \<forall>d \<in> set ds. length d < 2 ^ 31 \<Longrightarrow>
   \<exists>seg' out ps ks. write_each ds seg buf = (seg', Ok (map2 (pos_at (segId seg)) ps ks, buf @ out)) \<and>
     length ps = length ds \<and> length ks = length ds \<and> same_but_end seg seg' \<and>
     pending_ok seg' (buf @ out) (log @ zip ps ds) \<and> segSize seg' \<le> segSize seg + write_bound ds"
proof (induction ds arbitrary: seg buf log)
  case Nil
  then show ?case by (intro exI [of _ seg] exI [of _ "[]"]) (simp add: same_but_end_def)
next
  case (Cons d ds)
  have "segSize seg < 2 ^ 46" "length d < 2 ^ 31" using Cons.prems by simp_all
  then obtain seg1 k out where w: "writeToBuffer d seg buf =
      (seg1, Ok (pos_at (segId seg) (align (segSize seg)) k, buf @ out))" "same_but_end seg seg1"
    "pending_ok seg1 (buf @ out) (log @ [(align (segSize seg), d)])"
    "segSize seg1 \<le> segSize seg + length d + overhead (length d) + 7"
    using writeToBuffer_pending [OF Cons.prems(1)] by blast
  have "segSize seg1 + write_bound ds < 2 ^ 46" "\<forall>d \<in> set ds. length d < 2 ^ 31" using w(4) Cons.prems by simp_all
  from Cons.IH [OF w(3) this] obtain seg' out' ps ks where ih:
    "write_each ds seg1 (buf @ out) = (seg', Ok (map2 (pos_at (segId seg1)) ps ks, (buf @ out) @ out'))"
    "length ps = length ds" "length ks = length ds" "same_but_end seg1 seg'"
    "pending_ok seg' ((buf @ out) @ out') ((log @ [(align (segSize seg), d)]) @ zip ps ds)"
    "segSize seg' \<le> segSize seg1 + write_bound ds" by blast
  have i: "segId seg1 = segId seg" using w(2) by (simp add: same_but_end_def)
  show ?case
    using ih w(4) same_but_end_trans [OF w(2) ih(4)]
    by (intro exI [of _ seg'] exI [of _ "out @ out'"] exI [of _ "align (segSize seg) # ps"] exI [of _ "k # ks"])
      (simp add: w(1) i)
qed

lemma segWriteAll_ok:
  assumes s: "seg_ok seg log" "segSize seg + write_bound ds < 2 ^ 46" "\<forall>d \<in> set ds. length d < 2 ^ 31"
  obtains seg' ps ks where "segWriteAll None ds seg = (seg', Ok (map2 (pos_at (segId seg)) ps ks))"
    "length ps = length ds" "length ks = length ds" "seg_ok seg' (log @ zip ps ds)" "segId seg' = segId seg"
    "segSize seg' \<le> segSize seg + write_bound ds" "isStartupTraversal seg' = isStartupTraversal seg"
proof -
  have o: "\<not> segClosed seg" using s(1) by (simp add: seg_ok_def)
  obtain seg1 out ps ks where w: "write_each ds seg [] = (seg1, Ok (map2 (pos_at (segId seg)) ps ks, [] @ out))"
    "length ps = length ds" "length ks = length ds" "same_but_end seg seg1"
    "pending_ok seg1 ([] @ out) (log @ zip ps ds)" "segSize seg1 \<le> segSize seg + write_bound ds"
    using write_each_ok [OF seg_pending [OF s(1)] s(2,3)] by blast
  obtain seg2 where c: "writeChunkBuffer None out seg1 = (seg2, Ok ())" "seg_ok seg2 (log @ zip ps ds)"
    "segId seg2 = segId seg" "segSize seg2 = segSize seg1" "isStartupTraversal seg2 = isStartupTraversal seg"
    by (rule writeChunkBuffer_ok [OF w(5) [unfolded append_Nil] s(1) w(4)]) (rule that; assumption)
  have "segWriteAll None ds seg = (seg2, Ok (map2 (pos_at (segId seg)) ps ks))"
    using o w(1) c(1) by (simp add: segWriteAll_def restoring_def)
  then show ?thesis using c w by (intro that [of seg2 ps ks]) simp_all
qed

text \<open>A write that fails before any byte reaches the file leaves the log as it was.\<close>

lemma writeToBuffer_pending_failed:
  assumes "seg_ok seg log" "same_but_end seg seg1"
  shows "seg_ok (fst (restoring seg (st_bind (writeChunkBuffer (Some 0) out seg1) f))) log"
    and "\<exists>e. snd (restoring seg (st_bind (writeChunkBuffer (Some 0) out seg1) f)) = Err e"
  using assms by (auto simp: writeChunkBuffer_def restoring_def seg_ok_def same_but_end_def segSize_def)

subsection \<open>Reading from a segment\<close>

lemma seg_cursor:
  "seg_ok seg log \<Longrightarrow> cache_ok seg (if isStartupTraversal seg then \<lparr>curBlock = startupBlock seg, curCached = startupNumber seg\<rparr>
     else \<lparr>curBlock = (if length pool = blockSize then pool else replicate blockSize 0), curCached = - 1\<rparr>)"
  by (auto simp: seg_ok_def cache_ok_def)

lemma seg_after:
  "seg_ok seg log \<Longrightarrow> cache_ok seg cur \<Longrightarrow>
   seg_ok (if isStartupTraversal seg then seg\<lparr>startupBlock := curBlock cur, startupNumber := curCached cur\<rparr> else seg) log"
  by (auto simp: seg_ok_def cache_ok_def segSize_def)

lemma place_words:
  assumes "p < 2 ^ 47"
  shows "unat (word_of_nat (p div blockSize) :: u32) = p div blockSize"
    and "sint (word_of_nat (p mod blockSize) :: i64) = int (p mod blockSize)"
proof -
  have "p div 32768 < 2 ^ 32" using assms by (simp add: less_mult_imp_div_less)
  then show "unat (word_of_nat (p div blockSize) :: u32) = p div blockSize" by (simp add: u32_nat blockSize_def)
  have "p mod blockSize < 2 ^ 63" using block_place(3) [of p] by (simp add: blockSize_def)
  then show "sint (word_of_nat (p mod blockSize) :: i64) = int (p mod blockSize)"
    by (simp add: signed_of_nat signed_take_bit_int_eq_self)
qed

lemma readInternal_ok:
  assumes s: "seg_ok seg log" and st: "stored (segFile seg) p d e"
  obtains seg' where "readInternal pool (word_of_nat (p div blockSize)) (word_of_nat (p mod blockSize)) seg =
      (seg', Ok (d, pos_at (segId seg) (align e) 0))" "seg_ok seg' log" "segId seg' = segId seg"
    "segFile seg' = segFile seg" "isStartupTraversal seg' = isStartupTraversal seg"
proof -
  let ?cur = "if isStartupTraversal seg then \<lparr>curBlock = startupBlock seg, curCached = startupNumber seg\<rparr>
     else \<lparr>curBlock = (if length pool = blockSize then pool else replicate blockSize 0), curCached = - 1\<rparr>"
  have sz: "segSize seg = length (segFile seg)" "\<not> segClosed seg" "segSize seg < 2 ^ 47"
    using s segSize_bound [of seg] by (simp_all add: seg_ok_def)
  then have "p < 2 ^ 47" using stored_length [OF st] by simp
  note pw = place_words [OF this]
  obtain cur' where r: "cache_ok seg cur'"
    "read_chunks seg ?cur (p div blockSize) (int (p mod blockSize)) [] = (cur', Ok (d, place (align e)))"
    using read_stored [OF sz(1) seg_cursor [OF s] st] by blast
  have "readInternal pool (word_of_nat (p div blockSize)) (word_of_nat (p mod blockSize)) seg =
      (if isStartupTraversal seg then seg\<lparr>startupBlock := curBlock cur', startupNumber := curCached cur'\<rparr> else seg,
       Ok (d, pos_at (segId seg) (align e) 0))"
    using sz(2) r(2) by (simp add: readInternal_def Let_def pw place_def pos_at_def)
  then show ?thesis using seg_after [OF s r(1)] by (rule that) simp_all
qed

lemma segRead_ok:
  assumes s: "seg_ok seg log" and d: "(p, d) \<in> set log"
  obtains seg' where "segRead pool (BlockNumber (pos_at i p k)) (ChunkOffset (pos_at i p k)) seg = (seg', Ok d)"
    "seg_ok seg' log" "segId seg' = segId seg" "segFile seg' = segFile seg"
    "isStartupTraversal seg' = isStartupTraversal seg"
proof -
  have "log_from (segFile seg) 0 log" using s by (simp add: seg_ok_def)
  then obtain e where "stored (segFile seg) p d e" using log_from_stored [OF _ d] by blast
  then obtain seg' where r: "readInternal pool (word_of_nat (p div blockSize)) (word_of_nat (p mod blockSize)) seg =
      (seg', Ok (d, pos_at (segId seg) (align e) 0))" "seg_ok seg' log" "segId seg' = segId seg"
    "segFile seg' = segFile seg" "isStartupTraversal seg' = isStartupTraversal seg"
    by (rule readInternal_ok [OF s, of p d e pool]) (rule that; assumption)
  have "segRead pool (BlockNumber (pos_at i p k)) (ChunkOffset (pos_at i p k)) seg = (seg', Ok d)"
    by (simp add: segRead_def pos_at_def r(1))
  then show ?thesis using r by (intro that [of seg']) simp_all
qed

text \<open>The reader after the record that ends at \<open>e\<close>.\<close>

definition reader_at :: "nat \<Rightarrow> segmentReader" where
  "reader_at e = \<lparr>rdBlock = word_of_nat (align e div blockSize), rdOffset = word_of_nat (align e mod blockSize)\<rparr>"

lemma segNewReader_at: "segNewReader = reader_at 0"
  by (simp add: segNewReader_def reader_at_def align_def blockSize_def chunkHeaderSize_def)

lemma segNext_record:
  assumes s: "seg_ok seg log" and l: "log_from (segFile seg) e ((p, d) # r)"
  obtains seg' e' k where "segNext pool seg (reader_at e) = ((seg', reader_at e'), Ok (d, pos_at (segId seg) p k))"
    "log_from (segFile seg') e' r" "seg_ok seg' log" "segId seg' = segId seg" "segFile seg' = segFile seg"
    "isStartupTraversal seg' = isStartupTraversal seg"
proof -
  from l obtain e' where p: "p = align e" "stored (segFile seg) p d e'" "log_from (segFile seg) e' r" by auto
  obtain seg' where ri: "readInternal pool (word_of_nat (p div blockSize)) (word_of_nat (p mod blockSize)) seg =
      (seg', Ok (d, pos_at (segId seg) (align e') 0))" "seg_ok seg' log" "segId seg' = segId seg"
    "segFile seg' = segFile seg" "isStartupTraversal seg' = isStartupTraversal seg"
    by (rule readInternal_ok [OF s p(2), of pool]) (rule that; assumption)
  have "\<not> segClosed seg" using s by (simp add: seg_ok_def)
  then obtain k where k: "segNext pool seg (reader_at e) = ((seg', reader_at e'), Ok (d, pos_at (segId seg) p k))"
    using ri(1,3) by (auto simp: segNext_def reader_at_def p(1) [symmetric] pos_at_def)
  show ?thesis by (rule that [OF k]) (use ri p in auto)
qed

lemma align_le: "align e \<le> e + 7"
proof -
  define r where "r = e mod 32768"
  have "e div 32768 * 32768 = e - r" "r \<le> e" by (simp_all add: minus_mod_eq_div_mult r_def)
  then show ?thesis by (simp add: align_def blockSize_def chunkHeaderSize_def flip: r_def) arith
qed

lemma segNext_end:
  assumes s: "seg_ok seg log" "segSize seg < 2 ^ 46" and l: "log_from (segFile seg) e []"
  shows "segNext pool seg (reader_at e) = ((seg, reader_at e), Err EOF)"
proof -
  have sz: "segSize seg = length (segFile seg)" "\<not> segClosed seg"
    using s by (simp_all add: seg_ok_def)
  then have e: "segSize seg = e" using l by simp
  have "align e < 2 ^ 47" using align_le [of e] s(2) e by simp
  note pw = place_words [OF this]
  show ?thesis
    using sz(2) read_end [OF e] by (simp add: segNext_def readInternal_def reader_at_def Let_def pw)
qed

subsection \<open>Encoded positions\<close>

lemma cp_varints_length: "length (cp_varints pos) \<le> 25"
proof -
  have u: "length (put_uvarint (ucast x :: u64)) \<le> 5" for x :: u32
    by (rule length_put_uvarint) (use unsigned_less [of x, where ?'a = nat] in \<open>simp_all add: unsigned_ucast_eq take_bit_nat_eq_self\<close>)
  show ?thesis
    using u [of "SegmentId pos"] u [of "BlockNumber pos"] u [of "ChunkSize pos"] length_put_uvarint_max [of "ChunkOffset pos"]
    by (simp add: cp_varints_def)
qed

lemma next_uvarint_at: "next_uvarint (pre @ put_uvarint x @ rest) (int (length pre)) = Ok (x, int (length (pre @ put_uvarint x)))"
  by (simp add: next_uvarint_def from_index_def)

lemma ucast_u32: "ucast (ucast x :: u64) = (x :: u32)"
  by (simp add: unsigned_ucast_eq take_bit_word_eq_self)

end
