(* ===== verification/WalCorrect.thy ===== *)
theory WalCorrect
  imports Wal WalSegmentCorrect
begin

text \<open>
  The log as a whole: what is written is read back at the position that was returned, in every later
  state, and a reader gives all records in the order of the writes.
\<close>

type_synonym logs = "(u32 \<times> (nat \<times> bytes) list) list"

definition records :: "logs \<Rightarrow> (u32 \<times> nat \<times> bytes) list" where
  "records logs = concat (map (\<lambda>(i, l). map (\<lambda>(p, d). (i, p, d)) l) logs)"

lemma records_simps [simp]:
  "records [] = []" "records ((i, l) # logs) = map (\<lambda>(p, d). (i, p, d)) l @ records logs"
  "records (logs @ logs') = records logs @ records logs'"
  by (simp_all add: records_def)

definition holds_log :: "segment option \<Rightarrow> u32 \<Rightarrow> (nat \<times> bytes) list \<Rightarrow> bool" where
  "holds_log s i l \<longleftrightarrow> (\<exists>seg. s = Some seg \<and> segId seg = i \<and> seg_ok seg l \<and> segSize seg < 2 ^ 45)"

definition wal_ok :: "WAL \<Rightarrow> logs \<Rightarrow> bool" where
  "wal_ok wal logs \<longleftrightarrow> logs \<noteq> [] \<and> sorted_wrt (<) (map fst logs) \<and>
     fst (last logs) = segId (activeSegment wal) \<and> distinct (map fst (olderSegments wal)) \<and>
     fst ` set (olderSegments wal) = fst ` set (butlast logs) \<and>
     (\<forall>(i, l) \<in> set logs. holds_log (segment_of wal i) i l) \<and> 0 \<notin> fst ` set logs \<and>
     pendingSize wal = (\<Sum>d\<leftarrow>pendingWrites wal. maxDataWriteSize (int (length d)))"

text \<open>What an operation on the segments leaves alone.\<close>

definition same_pending :: "WAL \<Rightarrow> WAL \<Rightarrow> bool" where
  "same_pending wal wal' \<longleftrightarrow> woptions wal' = woptions wal \<and> pendingWrites wal' = pendingWrites wal \<and>
     pendingSize wal' = pendingSize wal"

lemma segment_of_put: "segId seg = i \<Longrightarrow> segment_of (put_segment i seg wal) j = (if j = i then Some seg else segment_of wal j)"
  by (auto simp: segment_of_def put_segment_def)

lemma put_segment_fields [simp]:
  "woptions (put_segment i seg wal) = woptions wal" "pendingWrites (put_segment i seg wal) = pendingWrites wal"
  "pendingSize (put_segment i seg wal) = pendingSize wal" "bytesWrite (put_segment i seg wal) = bytesWrite wal"
  "segId seg = i \<Longrightarrow> segId (activeSegment (put_segment i seg wal)) = segId (activeSegment wal)"
  by (auto simp: put_segment_def)

lemma fst_update: "fst ` set (AList.update k v m) = insert k (fst ` set m)"
  by (simp add: dom_update)

lemma wal_ok_put:
  assumes w: "wal_ok wal logs" and i: "(i, l) \<in> set logs"
    and seg: "segId seg = i" "seg_ok seg l" "segSize seg < 2 ^ 45"
  shows "wal_ok (put_segment i seg wal) logs"
proof -
  have d: "distinct (map fst logs)" using w by (simp add: wal_ok_def strict_sorted_iff)
  have "holds_log (segment_of (put_segment i seg wal) j) j l'" if "(j, l') \<in> set logs" for j l'
    using w that seg eq_key_imp_eq_value [OF d i, of l'] unfolding wal_ok_def segment_of_put [OF seg(1)]
    by (auto simp: holds_log_def)
  moreover have "fst ` set (olderSegments (put_segment i seg wal)) = fst ` set (olderSegments wal)"
  proof (cases "i = segId (activeSegment wal)")
    case False
    have "logs = butlast logs @ [last logs]" "fst (last logs) = segId (activeSegment wal)"
      using w by (simp_all add: wal_ok_def)
    then have "(i, l) \<in> set (butlast logs)" using False i
      by (metis Un_iff empty_iff empty_set fst_conv list.set(1) set_ConsD set_append)
    then have "i \<in> fst ` set (butlast logs)" by force
    then have "i \<in> fst ` set (olderSegments wal)" using w by (simp add: wal_ok_def)
    then show ?thesis using False by (simp add: put_segment_def fst_update insert_absorb)
  qed (simp add: put_segment_def)
  moreover have "distinct (map fst (olderSegments (put_segment i seg wal)))"
    using w by (simp add: put_segment_def wal_ok_def)
  ultimately show ?thesis using w seg unfolding wal_ok_def by (intro conjI) (auto simp: case_prod_beta)
qed

lemma wal_ok_segment:
  assumes "wal_ok wal logs" "(i, l) \<in> set logs"
  obtains seg where "segment_of wal i = Some seg" "segId seg = i" "seg_ok seg l" "segSize seg < 2 ^ 45"
  using assms by (auto simp: wal_ok_def holds_log_def)

lemma wal_ok_active:
  assumes "wal_ok wal logs"
  obtains logs0 l where "logs = logs0 @ [(segId (activeSegment wal), l)]" "seg_ok (activeSegment wal) l"
    "segSize (activeSegment wal) < 2 ^ 45"
proof -
  obtain logs0 i l where "logs = logs0 @ [(i, l)]"
    using assms by (cases logs rule: rev_cases) (auto simp: wal_ok_def)
  moreover from this have "i = segId (activeSegment wal)" using assms by (simp add: wal_ok_def)
  moreover have "holds_log (segment_of wal i) i l" using assms calculation(1) by (auto simp: wal_ok_def)
  ultimately show ?thesis by (intro that) (auto simp: holds_log_def segment_of_def)
qed

subsection \<open>Reading\<close>

lemma walRead_ok:
  assumes w: "wal_ok wal logs" and d: "(i, p, d) \<in> set (records logs)"
  obtains wal' where "walRead pool (pos_at i p k) wal = (wal', Ok d)" "wal_ok wal' logs" "same_pending wal wal'"
proof -
  from d obtain l where l: "(i, l) \<in> set logs" "(p, d) \<in> set l" by (auto simp: records_def)
  obtain seg where s: "segment_of wal i = Some seg" "segId seg = i" "seg_ok seg l" "segSize seg < 2 ^ 45"
    by (rule wal_ok_segment [OF w l(1)])
  obtain seg' where r: "segRead pool (BlockNumber (pos_at i p k)) (ChunkOffset (pos_at i p k)) seg = (seg', Ok d)"
    "seg_ok seg' l" "segId seg' = segId seg" "segFile seg' = segFile seg"
    by (rule segRead_ok [OF s(3) l(2)]) (rule that; assumption)
  have sz: "segSize seg' < 2 ^ 45" using r(2,4) s(3,4) by (simp add: seg_ok_def)
  have ok: "wal_ok (put_segment i seg' wal) logs"
    using r(2,3) s(2) sz by (intro wal_ok_put [OF w l(1)]) simp_all
  have i: "SegmentId (pos_at i p k) = i" by (simp add: pos_at_def)
  show ?thesis
    by (rule that [OF _ ok]) (simp_all add: walRead_def i s(1) r(1) same_pending_def)
qed

subsection \<open>Iterating\<close>

text \<open>What a reader of the segments \<open>rs\<close> has still to give.\<close>

fun rest_of :: "WAL \<Rightarrow> (u32 \<times> segmentReader) list \<Rightarrow> (u32 \<times> nat \<times> bytes) list \<Rightarrow> bool" where
  "rest_of wal [] rest \<longleftrightarrow> rest = []"
| "rest_of wal ((i, sr) # rs) rest \<longleftrightarrow>
     (\<exists>seg e l r. segment_of wal i = Some seg \<and> sr = reader_at e \<and> log_from (segFile seg) e l \<and>
       rest = map (\<lambda>(p, d). (i, p, d)) l @ r \<and> rest_of wal rs r)"

definition reader_ok :: "logs \<Rightarrow> WAL \<Rightarrow> walReader \<Rightarrow> (u32 \<times> nat \<times> bytes) list \<Rightarrow> bool" where
  "reader_ok logs wal rd rest \<longleftrightarrow> wal_ok wal logs \<and>
     fst ` set (segmentReaders rd) \<subseteq> fst ` set logs \<and>
     rest_of wal (drop (currentReader rd) (segmentReaders rd)) rest"

lemma rest_of_put:
  assumes "segment_of wal i = Some seg" "segFile seg' = segFile seg" "segId seg' = i"
  shows "rest_of wal rs rest \<Longrightarrow> rest_of (put_segment i seg' wal) rs rest"
proof (induction rs arbitrary: rest)
  case (Cons x rs)
  obtain j sr where x: "x = (j, sr)" by (cases x)
  from Cons.prems obtain sg e l r where "segment_of wal j = Some sg" "sr = reader_at e" "log_from (segFile sg) e l"
    "rest = map (\<lambda>(p, d). (j, p, d)) l @ r" "rest_of wal rs r" unfolding x by auto
  then show ?case unfolding x rest_of.simps segment_of_put [OF assms(3)]
    using assms(1,2) Cons.IH
    by (intro exI [of _ "if j = i then seg' else sg"] exI [of _ e] exI [of _ l] exI [of _ r]) auto
qed simp

text \<open>One call of \<open>Next\<close>, on the record that is next and at the end.\<close>

lemma walNext_step:
  assumes "length (segmentReaders rd) > currentReader rd" "segmentReaders rd ! currentReader rd = (i, sr)"
    "segment_of wal i = Some seg" "segNext pool seg sr = ((seg', sr'), r)"
  shows "walNext pool wal rd =
    (let rd' = rd\<lparr>segmentReaders := (segmentReaders rd)[currentReader rd := (i, sr')]\<rparr> in
     if r = Err EOF then walNext pool (put_segment i seg' wal) (rd'\<lparr>currentReader := currentReader rd + 1\<rparr>)
     else ((put_segment i seg' wal, rd'), r))"
  using assms by (subst walNext.simps) (simp add: Let_def)

lemma put_same: "segment_of wal i = Some seg \<Longrightarrow> put_segment i seg wal = wal"
  by (auto simp: segment_of_def put_segment_def update_triv split: if_splits)

lemma walNext_ok:
  assumes "reader_ok logs wal rd rest"
  shows "case rest of
      [] \<Rightarrow> \<exists>rd'. walNext pool wal rd = ((wal, rd'), Err EOF)
    | (i, p, d) # rest' \<Rightarrow> \<exists>wal' rd' k. walNext pool wal rd = ((wal', rd'), Ok (d, pos_at i p k)) \<and>
        reader_ok logs wal' rd' rest' \<and> same_pending wal wal' \<and> map fst (segmentReaders rd') = map fst (segmentReaders rd)"
  using assms
proof (induction "length (segmentReaders rd) - currentReader rd" arbitrary: rd)
  case 0
  then have "walNext pool wal rd = ((wal, rd), Err EOF)" by (subst walNext.simps) simp
  moreover have "rest = []" using 0 by (simp add: reader_ok_def)
  ultimately show ?case by auto
next
  case (Suc n)
  let ?c = "currentReader rd" and ?rs = "segmentReaders rd"
  have c: "?c < length ?rs" using Suc.hyps(2) by simp
  obtain i sr where at: "?rs ! ?c = (i, sr)" by fastforce
  have w: "wal_ok wal logs" and sub: "fst ` set ?rs \<subseteq> fst ` set logs" using Suc.prems by (simp_all add: reader_ok_def)
  have dr: "drop ?c ?rs = (i, sr) # drop (Suc ?c) ?rs" using c at by (metis Cons_nth_drop_Suc)
  obtain seg e l r where st: "segment_of wal i = Some seg" "sr = reader_at e" "log_from (segFile seg) e l"
    "rest = map (\<lambda>(p, d). (i, p, d)) l @ r" "rest_of wal (drop (Suc ?c) ?rs) r"
    using Suc.prems unfolding reader_ok_def dr by auto
  have "i \<in> fst ` set ?rs" using c at by (metis fst_conv image_eqI nth_mem)
  then obtain lg where lg: "(i, lg) \<in> set logs" using sub by auto
  have so: "seg_ok seg lg" "segId seg = i" "segSize seg < 2 ^ 45"
    using wal_ok_segment [OF w lg] st(1) by (metis option.inject)+
  show ?case
  proof (cases l)
    case Nil
    have nx: "segNext pool seg (reader_at e) = ((seg, reader_at e), Err EOF)"
      by (rule segNext_end [OF so(1)]) (use so(3) st(3) Nil in auto)
    let ?rd = "rd\<lparr>segmentReaders := ?rs[?c := (i, sr)], currentReader := ?c + 1\<rparr>"
    have rs: "?rs[?c := (i, sr)] = ?rs" using at by (metis list_update_id)
    have "reader_ok logs wal ?rd rest"
      using w sub st(4,5) Nil by (simp add: reader_ok_def rs)
    moreover have "walNext pool wal rd = walNext pool wal ?rd"
      using walNext_step [OF c at st(1), of pool seg sr "Err EOF"] nx st(2) put_same [OF st(1)]
      by (simp add: Let_def)
    moreover have "n = length (segmentReaders ?rd) - currentReader ?rd" using Suc.hyps(2) by simp
    ultimately show ?thesis using Suc.hyps(1) [of ?rd] by (cases rest) (auto simp: rs)
  next
    case (Cons x l')
    obtain p d where x: "x = (p, d)" by (cases x)
    obtain seg' e' k where nx: "segNext pool seg (reader_at e) = ((seg', reader_at e'), Ok (d, pos_at (segId seg) p k))"
      "log_from (segFile seg') e' l'" "seg_ok seg' lg" "segId seg' = segId seg" "segFile seg' = segFile seg"
      using segNext_record [OF so(1), of e p d l' pool] st(3) unfolding Cons x by metis
    let ?rd = "rd\<lparr>segmentReaders := ?rs[?c := (i, reader_at e')]\<rparr>" and ?wal = "put_segment i seg' wal"
    have n: "walNext pool wal rd = ((?wal, ?rd), Ok (d, pos_at i p k))"
      using walNext_step [OF c at st(1), of pool seg' "reader_at e'"] nx(1) st(2) so(2) by (simp add: Let_def)
    have sz: "segSize seg' < 2 ^ 45" using nx(3,5) so by (simp add: seg_ok_def)
    have "wal_ok ?wal logs" using nx(3,4) so(2) sz by (intro wal_ok_put [OF w lg]) simp_all
    moreover have "rest_of ?wal (drop (Suc ?c) ?rs) r"
      by (rule rest_of_put [OF st(1) nx(5) _ st(5)]) (use nx(4) so(2) in simp)
    then have "rest_of ?wal (drop ?c (?rs[?c := (i, reader_at e')])) (map (\<lambda>(p, d). (i, p, d)) l' @ r)"
      using c nx(2,4) so(2) by (auto simp: drop_update_swap Cons_nth_drop_Suc [symmetric] segment_of_put)
    moreover have ids: "map fst (?rs[?c := (i, x)]) = map fst ?rs" for x
      using c at by (simp add: map_update list_update_same_conv)
    then have "fst ` set (?rs[?c := (i, x)]) = fst ` set ?rs" for x by (metis set_map)
    ultimately have "reader_ok logs ?wal ?rd (map (\<lambda>(p, d). (i, p, d)) l' @ r)"
      using sub by (simp add: reader_ok_def)
    then show ?thesis using n st(4) Cons x ids by (auto simp: same_pending_def)
  qed
qed

lemma wal_ids:
  assumes "wal_ok wal logs"
  shows "sort (filter P (walIds wal)) = filter P (map fst logs)"
proof -
  obtain logs0 l where l: "logs = logs0 @ [(segId (activeSegment wal), l)]"
    by (rule wal_ok_active [OF assms])
  have so: "sorted (map fst logs)" "distinct (map fst logs)"
    using assms by (simp_all add: wal_ok_def strict_sorted_iff)
  have st: "set (walIds wal) = set (map fst logs)" and d: "distinct (walIds wal)"
    using assms so(2) l by (auto simp: wal_ok_def walIds_def)
  have "sorted (filter P (map fst logs))" "distinct (filter P (map fst logs))"
    using so sorted_filter [of "\<lambda>x. x" "map fst logs" P] by simp_all
  moreover have "set (sort (filter P (walIds wal))) = set (filter P (map fst logs))" by (simp add: st)
  moreover have "sorted (sort (filter P (walIds wal)))" "distinct (sort (filter P (walIds wal)))"
    using d by simp_all
  ultimately show ?thesis by (intro sorted_distinct_set_unique) auto
qed

lemma rest_of_fresh:
  "(\<And>i l. (i, l) \<in> set lg \<Longrightarrow> holds_log (segment_of wal i) i l) \<Longrightarrow>
   rest_of wal (map (\<lambda>i. (i, segNewReader)) (map fst lg)) (records lg)"
proof (induction lg)
  case (Cons x lg)
  obtain i l where x: "x = (i, l)" by (cases x)
  obtain seg where s: "segment_of wal i = Some seg" "seg_ok seg l"
    using Cons.prems [of i l] by (auto simp: x holds_log_def)
  have "rest_of wal (map (\<lambda>i. (i, segNewReader)) (map fst lg)) (records lg)"
    using Cons.prems by (intro Cons.IH) auto
  then show ?case using s unfolding x
    by (simp add: segNewReader_at) (metis seg_ok_def)
qed simp

lemma NewReader_ok:
  assumes "wal_ok wal logs"
  shows "reader_ok logs wal (NewReaderWithMax sid wal) (records (filter (\<lambda>(i, l). sid = 0 \<or> i \<le> sid) logs))"
proof -
  let ?P = "\<lambda>i. sid = 0 \<or> i \<le> sid"
  have f: "filter ?P (map fst logs) = map fst (filter (\<lambda>(i, l). ?P i) logs)"
    by (induction logs) auto
  have "rest_of wal (map (\<lambda>i. (i, segNewReader)) (map fst (filter (\<lambda>(i, l). ?P i) logs)))
      (records (filter (\<lambda>(i, l). ?P i) logs))"
    using assms by (intro rest_of_fresh) (auto simp: wal_ok_def)
  then show ?thesis using assms
    by (force simp: reader_ok_def NewReaderWithMax_def wal_ids [OF assms] f)
qed

lemma records_all: "records (filter (\<lambda>(i, l). (0 :: u32) = 0 \<or> i \<le> 0) logs) = records logs"
  by (simp add: case_prod_beta)

subsection \<open>Writing\<close>

lemma segment_of_active:
  "segment_of wal (segId (activeSegment wal)) = Some (activeSegment wal)"
  by (simp add: segment_of_def)

text \<open>A new active segment.\<close>

lemma replaceActive_ok:
  assumes w: "wal_ok wal logs" and i: "segId (activeSegment wal) < - 1" and io: "ioOpen io"
  obtains wal' where "replaceActive io wal = (wal', Ok ())"
    "wal_ok wal' (logs @ [(segId (activeSegment wal) + 1, [])])" "same_pending wal wal'"
    "segSize (activeSegment wal') = 0" "segId (activeSegment wal') = segId (activeSegment wal) + 1"
proof -
  let ?a = "activeSegment wal" let ?i = "segId ?a"
  define wal' where "wal' = wal\<lparr>olderSegments := AList.update ?i ?a (olderSegments wal),
     activeSegment := openSegmentFile (?i + 1) []\<rparr>"
  obtain logs0 l where l: "logs = logs0 @ [(?i, l)]" "seg_ok ?a l" "segSize ?a < 2 ^ 45"
    by (rule wal_ok_active [OF w])
  have nz: "?i + 1 \<noteq> 0" using i by (metis add_diff_cancel_right' diff_0 less_irrefl)
  have lt: "?i < ?i + 1" using i by (simp add: word_less_nat_alt unat_word_ariths unsigned_minus_1_eq_mask mask_eq_exp_minus_1)
  have sl: "\<forall>j \<in> fst ` set logs. j \<le> ?i"
    using w by (auto simp: wal_ok_def l(1) sorted_wrt_append)
  have "holds_log (segment_of wal' j) j l'" if "(j, l') \<in> set logs" for j l'
  proof -
    have "j \<noteq> ?i + 1" using sl that lt by force
    then have "segment_of wal' j = segment_of wal j" by (simp add: segment_of_def wal'_def)
    then show ?thesis using w that by (auto simp: wal_ok_def)
  qed
  moreover have new: "holds_log (segment_of wal' (?i + 1)) (?i + 1) []"
    by (simp add: segment_of_def wal'_def holds_log_def openSegmentFile_ok)
      (simp add: segSize_def openSegmentFile_def blockSize_def)
  moreover have "fst ` set (olderSegments wal') = fst ` set logs"
    using w l(1) by (simp add: wal'_def fst_update wal_ok_def)
  moreover have "sorted_wrt (<) (map fst (logs @ [(?i + 1, [] :: (nat \<times> bytes) list)]))"
    using w sl lt by (auto simp: wal_ok_def sorted_wrt_append)
  ultimately have "wal_ok wal' (logs @ [(?i + 1, [])])"
    using w nz by (auto simp: wal_ok_def wal'_def)
  moreover have "replaceActive io wal = (wal', Ok ())" using io by (simp add: replaceActive_def wal'_def Let_def)
  moreover have "same_pending wal wal'" "segId (activeSegment wal') = ?i + 1" "segSize (activeSegment wal') = 0"
    by (simp_all add: same_pending_def wal'_def segSize_def openSegmentFile_def blockSize_def)
  ultimately show ?thesis by (intro that)
qed


lemma wal_ok_fields: "wal_ok (wal\<lparr>bytesWrite := n\<rparr>) logs = wal_ok wal logs"
proof -
  have "segment_of (wal\<lparr>bytesWrite := n\<rparr>) = segment_of wal" by (simp add: segment_of_def fun_eq_iff)
  then show ?thesis by (simp add: wal_ok_def)
qed

lemma rotate_ok:
  assumes w: "wal_ok wal logs" and i: "segId (activeSegment wal) < - 1" and io: "ioOpen io" "ioOldSync io"
  obtains wal' where "rotateActiveSegment io wal = (wal', Ok ())"
    "wal_ok wal' (logs @ [(segId (activeSegment wal) + 1, [])])" "same_pending wal wal'"
    "segSize (activeSegment wal') = 0" "segId (activeSegment wal') = segId (activeSegment wal) + 1"
proof -
  have "wal_ok (wal\<lparr>bytesWrite := 0\<rparr>) logs" using w by (simp add: wal_ok_fields)
  then obtain wal' where "replaceActive io (wal\<lparr>bytesWrite := 0\<rparr>) = (wal', Ok ())"
    "wal_ok wal' (logs @ [(segId (activeSegment wal) + 1, [])])" "same_pending (wal\<lparr>bytesWrite := 0\<rparr>) wal'"
    "segSize (activeSegment wal') = 0" "segId (activeSegment wal') = segId (activeSegment wal) + 1"
    using replaceActive_ok [of "wal\<lparr>bytesWrite := 0\<rparr>" logs io] i io(1) by auto
  then show ?thesis using io(2) by (intro that [of wal']) (auto simp: rotateActiveSegment_def same_pending_def)
qed

text \<open>The active segment after a write.\<close>

lemma wal_ok_appended:
  assumes w: "wal_ok wal (logs0 @ [(segId (activeSegment wal), l)])"
    and seg: "segId seg = segId (activeSegment wal)" "seg_ok seg l'" "segSize seg < 2 ^ 45"
  shows "wal_ok (wal\<lparr>activeSegment := seg\<rparr>) (logs0 @ [(segId (activeSegment wal), l')])"
proof -
  have "segment_of (wal\<lparr>activeSegment := seg\<rparr>) j = segment_of wal j" if "j \<noteq> segId (activeSegment wal)" for j
    using that by (simp add: segment_of_def seg(1))
  moreover have "j \<noteq> segId (activeSegment wal)" if "(j, k) \<in> set logs0" for j k
    using w that by (auto simp: wal_ok_def sorted_wrt_append)
  ultimately have "holds_log (segment_of (wal\<lparr>activeSegment := seg\<rparr>) j) j k" if "(j, k) \<in> set logs0" for j k
    using w that by (auto simp: wal_ok_def) 
  moreover have "holds_log (segment_of (wal\<lparr>activeSegment := seg\<rparr>) (segId (activeSegment wal))) (segId (activeSegment wal)) l'"
    using seg by (simp add: segment_of_def holds_log_def)
  ultimately show ?thesis using w by (auto simp: wal_ok_def seg(1))
qed

lemma overhead_le: "overhead n \<le> n + 14"
proof -
  have "32761 * (n div 32761) \<le> n" by simp
  then show ?thesis by (simp add: overhead_def)
qed


definition io_ok :: "walIO \<Rightarrow> bool" where
  "io_ok io \<longleftrightarrow> ioOldSync io \<and> ioOpen io \<and> ioWrite io = None \<and> ioSync io \<and> ioMkdir io \<and> ioReadDir io"

text \<open>The state that a write finds, after a rotation if one is needed.\<close>

definition grown :: "WAL \<Rightarrow> logs \<Rightarrow> WAL \<Rightarrow> logs \<Rightarrow> bool" where
  "grown wal logs wal' logs' \<longleftrightarrow> wal_ok wal' logs' \<and> same_pending wal wal' \<and>
     segId (activeSegment wal) \<le> segId (activeSegment wal') \<and>
     unat (segId (activeSegment wal')) \<le> unat (segId (activeSegment wal)) + 1"

lemma rotate_if_ok:
  assumes w: "wal_ok wal logs" and i: "segId (activeSegment wal) < - 1" and io: "io_ok io"
  obtains wal' logs' where "(if b then rotateActiveSegment io wal else (wal, Ok ())) = (wal', Ok ())"
    "grown wal logs wal' logs'" "records logs' = records logs"
    "segSize (activeSegment wal') = (if b then 0 else segSize (activeSegment wal))"
    "segId (activeSegment wal') = (if b then segId (activeSegment wal) + 1 else segId (activeSegment wal))"
proof (cases b)
  case True
  obtain wal' where r: "rotateActiveSegment io wal = (wal', Ok ())"
    "wal_ok wal' (logs @ [(segId (activeSegment wal) + 1, [])])" "same_pending wal wal'"
    "segSize (activeSegment wal') = 0" "segId (activeSegment wal') = segId (activeSegment wal) + 1"
    by (rule rotate_ok [OF w i, of io]) (use io in \<open>auto simp: io_ok_def\<close>)
  have "unat (segId (activeSegment wal) + 1) \<le> unat (segId (activeSegment wal)) + 1"
    by (simp add: unat_word_ariths)
  moreover have "segId (activeSegment wal) \<le> segId (activeSegment wal) + 1"
    using i by (simp add: word_le_nat_alt word_less_nat_alt unat_word_ariths unsigned_minus_1_eq_mask mask_eq_exp_minus_1)
  ultimately have "grown wal logs wal' (logs @ [(segId (activeSegment wal) + 1, [])])"
    using r by (simp add: grown_def)
  then show ?thesis using True r by (intro that [of wal' "logs @ [(segId (activeSegment wal) + 1, [])]"]) simp_all
next
  case False
  then show ?thesis using w by (intro that [of wal logs]) (auto simp: grown_def same_pending_def)
qed

text \<open>A record put into the active segment, with the bookkeeping of \<open>Write\<close> after it.\<close>

lemma append_active:
  assumes w: "wal_ok wal logs" and io: "io_ok io" and nl: "length data < 2 ^ 31"
    and sz: "segSize (activeSegment wal) + 2 * length data + 21 < 2 ^ 45"
  obtains seg logs' p k where
    "segWrite None data (activeSegment wal) = (seg, Ok (pos_at (segId (activeSegment wal)) p k))"
    "wal_ok (wal\<lparr>activeSegment := seg\<rparr>) logs'" "segId seg = segId (activeSegment wal)"
    "records logs' = records logs @ [(segId (activeSegment wal), p, data)]"
    "segSize seg \<le> segSize (activeSegment wal) + 2 * length data + 21"
proof -
  obtain logs0 l where l: "logs = logs0 @ [(segId (activeSegment wal), l)]" "seg_ok (activeSegment wal) l"
    by (rule wal_ok_active [OF w])
  let ?p = "align (segSize (activeSegment wal))"
  have "segSize (activeSegment wal) < 2 ^ 46" using sz by simp
  then obtain seg k where s: "segWrite None data (activeSegment wal) = (seg, Ok (pos_at (segId (activeSegment wal)) ?p k))"
    "seg_ok seg (l @ [(?p, data)])" "segId seg = segId (activeSegment wal)"
    "segSize seg \<le> segSize (activeSegment wal) + length data + overhead (length data) + 7"
    using segWrite_ok [OF l(2) _ nl] by metis
  have b: "segSize seg \<le> segSize (activeSegment wal) + 2 * length data + 21"
    using s(4) overhead_le [of "length data"] by simp
  have "wal_ok (wal\<lparr>activeSegment := seg\<rparr>) (logs0 @ [(segId (activeSegment wal), l @ [(?p, data)])])"
    using wal_ok_appended [OF w [unfolded l(1)] s(3,2)] b sz by simp
  then show ?thesis using that [OF s(1) _ s(3) _ b] l(1) by simp
qed

lemma walWrite_rest:
  assumes r: "(if isFull (int (length data)) wal then rotateActiveSegment io wal else (wal, Ok ())) = (wal1, Ok ())"
    and n: "int (length data) + 7 \<le> SegmentSize (woptions wal)" and io: "io_ok io"
    and s: "segWrite None data (activeSegment wal1) = (seg, Ok pos)"
  shows "\<exists>m. walWrite io data wal = (wal1\<lparr>activeSegment := seg, bytesWrite := m\<rparr>, Ok pos)"
  using n io by (auto simp: walWrite_def r on_active_def io_ok_def s Let_def walSync_def segSync_def)

text \<open>A write, with what it adds to the active segment, or to a new one that it starts with.\<close>

lemma walWrite_size:
  assumes w: "wal_ok wal logs" and i: "segId (activeSegment wal) < - 1" and io: "io_ok io"
    and n: "int (length data) + 7 \<le> SegmentSize (woptions wal)" and nl: "length data < 2 ^ 31"
    and sz: "\<not> isFull (int (length data)) wal \<Longrightarrow> segSize (activeSegment wal) + 2 * length data + 21 < 2 ^ 45"
  obtains wal' logs' p k where "walWrite io data wal = (wal', Ok (pos_at (segId (activeSegment wal')) p k))" "grown wal logs wal' logs'"
    "records logs' = records logs @ [(segId (activeSegment wal'), p, data)]"
    "segSize (activeSegment wal') \<le> (if isFull (int (length data)) wal then 0 else segSize (activeSegment wal)) + 2 * length data + 21"
    "segId (activeSegment wal') = segId (activeSegment wal) + (if isFull (int (length data)) wal then 1 else 0)"
proof -
  let ?full = "isFull (int (length data)) wal"
  obtain wal1 logs1 where r: "(if ?full then rotateActiveSegment io wal else (wal, Ok ())) = (wal1, Ok ())"
    "grown wal logs wal1 logs1" "records logs1 = records logs"
    "segSize (activeSegment wal1) = (if ?full then 0 else segSize (activeSegment wal))"
    "segId (activeSegment wal1) = (if ?full then segId (activeSegment wal) + 1 else segId (activeSegment wal))"
    by (rule rotate_if_ok [OF w i io])
  have w1: "wal_ok wal1 logs1" using r(2) by (simp add: grown_def)
  have sz1: "segSize (activeSegment wal1) + 2 * length data + 21 < 2 ^ 45" using r(4) sz nl by simp
  obtain seg logs2 p k where s: "segWrite None data (activeSegment wal1) = (seg, Ok (pos_at (segId (activeSegment wal1)) p k))"
    "wal_ok (wal1\<lparr>activeSegment := seg\<rparr>) logs2" "segId seg = segId (activeSegment wal1)"
    "records logs2 = records logs1 @ [(segId (activeSegment wal1), p, data)]"
    "segSize seg \<le> segSize (activeSegment wal1) + 2 * length data + 21"
    by (rule append_active [OF w1 io nl sz1])
  obtain m where m: "walWrite io data wal = (wal1\<lparr>activeSegment := seg, bytesWrite := m\<rparr>, Ok (pos_at (segId (activeSegment wal1)) p k))"
    using walWrite_rest [OF r(1) n io s(1)] by blast
  show ?thesis
  proof (rule that [of "wal1\<lparr>activeSegment := seg, bytesWrite := m\<rparr>" p k logs2])
    show "grown wal logs (wal1\<lparr>activeSegment := seg, bytesWrite := m\<rparr>) logs2"
      using r(2) s(2,3) by (simp add: grown_def same_pending_def wal_ok_fields)
  qed (use m s r(3-5) in simp_all)
qed

lemma walWrite_ok:
  assumes w: "wal_ok wal logs" and i: "segId (activeSegment wal) < - 1" and io: "io_ok io"
    and n: "int (length data) + 7 \<le> SegmentSize (woptions wal)" and ss: "SegmentSize (woptions wal) \<le> 2 ^ 30"
  obtains wal' logs' j p k where "walWrite io data wal = (wal', Ok (pos_at j p k))" "grown wal logs wal' logs'"
    "records logs' = records logs @ [(j, p, data)]" "j = segId (activeSegment wal')"
proof -
  have "segSize (activeSegment wal) + 2 * length data + 21 < 2 ^ 45" if "\<not> isFull (int (length data)) wal"
    using that n ss pos_imp_zdiv_nonneg_iff [of 32768 "int (length data)"] by (simp add: isFull_def maxDataWriteSize_def)
  moreover have "length data < 2 ^ 31" using n ss by simp
  ultimately obtain wal' logs' p k where "walWrite io data wal = (wal', Ok (pos_at (segId (activeSegment wal')) p k))"
    "grown wal logs wal' logs'" "records logs' = records logs @ [(segId (activeSegment wal'), p, data)]"
    using walWrite_size [OF w i io n] by metis
  then show ?thesis using that by blast
qed

lemma write_bound_le: "int (write_bound ds) \<le> 3 * (\<Sum>d\<leftarrow>ds. maxDataWriteSize (int (length d)))"
proof (induction ds)
  case (Cons d ds)
  have "int (length d) + 14 \<le> maxDataWriteSize (int (length d))"
    using pos_imp_zdiv_nonneg_iff [of 32768 "int (length d)"] by (simp add: maxDataWriteSize_def)
  then show ?case using Cons overhead_le [of "length d"] by simp
qed simp

lemma pending_member:
  fixes ds :: "bytes list"
  shows "d \<in> set ds \<Longrightarrow> int (length d) \<le> (\<Sum>d\<leftarrow>ds. maxDataWriteSize (int (length d)))"
proof (induction ds)
  case (Cons d' ds)
  have p: "int (length x) \<le> maxDataWriteSize (int (length x))" for x :: bytes
    using pos_imp_zdiv_nonneg_iff [of 32768 "int (length x)"] by (simp add: maxDataWriteSize_def)
  have p0: "0 \<le> maxDataWriteSize (int (length x))" for x :: bytes
    using p [of x] by linarith
  have "0 \<le> (\<Sum>d\<leftarrow>ds. maxDataWriteSize (int (length d)))"
    by (rule sum_list_nonneg) (use p0 in auto)
  then show ?case using Cons p [of d] p [of d'] by auto
qed simp

lemma walWriteAll_ok:
  assumes w: "wal_ok wal logs" and i: "segId (activeSegment wal) < - 1" and io: "io_ok io"
    and n: "pendingSize wal \<le> SegmentSize (woptions wal)" and ne: "pendingWrites wal \<noteq> []"
    and ss: "SegmentSize (woptions wal) \<le> 2 ^ 30"
  obtains wal' logs' j ps ks where "walWriteAll io wal = (wal', Ok (map2 (pos_at j) ps ks))"
    "wal_ok wal' logs'" "woptions wal' = woptions wal" "pendingWrites wal' = []"
    "unat (segId (activeSegment wal')) \<le> unat (segId (activeSegment wal)) + 1"
    "segId (activeSegment wal) \<le> segId (activeSegment wal')" "j = segId (activeSegment wal')"
    "length ps = length (pendingWrites wal)" "length ks = length (pendingWrites wal)"
    "records logs' = records logs @ map (\<lambda>(p, d). (j, p, d)) (zip ps (pendingWrites wal))"
proof -
  let ?ds = "pendingWrites wal"
  let ?full = "int (segSize (activeSegment wal)) + pendingSize wal > SegmentSize (woptions wal)"
  have ps: "pendingSize wal = (\<Sum>d\<leftarrow>?ds. maxDataWriteSize (int (length d)))" using w by (simp add: wal_ok_def)
  obtain d0 where "d0 \<in> set ?ds" using ne by (cases ?ds) auto
  then have p0: "0 \<le> pendingSize wal" using pending_member [of d0 ?ds] ps by simp
  have nf: "segSize (activeSegment wal) \<le> 2 ^ 30" if "\<not> ?full" using that ss p0 by simp
  obtain wal1 logs1 where r: "(if ?full then rotateActiveSegment io wal else (wal, Ok ())) = (wal1, Ok ())"
    "grown wal logs wal1 logs1" "records logs1 = records logs" "segSize (activeSegment wal1) = (if ?full then 0 else segSize (activeSegment wal))"
    by (rule rotate_if_ok [OF w i io])
  then have s1: "segSize (activeSegment wal1) \<le> 2 ^ 30" using nf by simp
  have w1: "wal_ok wal1 logs1" using r(2) by (simp add: grown_def)
  obtain logs0 l where l: "logs1 = logs0 @ [(segId (activeSegment wal1), l)]" "seg_ok (activeSegment wal1) l"
    by (rule wal_ok_active [OF w1])
  have d1: "pendingWrites wal1 = ?ds" using r(2) by (simp add: grown_def same_pending_def)
  have lens: "\<forall>d \<in> set ?ds. length d < 2 ^ 31" using pending_member ps n ss by fastforce
  have wb: "int (write_bound ?ds) \<le> 3 * 2 ^ 30" using write_bound_le [of ?ds] ps n ss by simp
  then have "segSize (activeSegment wal1) + write_bound ?ds < 2 ^ 46" using s1 by simp
  then obtain seg ps ks where s: "segWriteAll None ?ds (activeSegment wal1) = (seg, Ok (map2 (pos_at (segId (activeSegment wal1))) ps ks))"
    "length ps = length ?ds" "length ks = length ?ds" "seg_ok seg (l @ zip ps ?ds)" "segId seg = segId (activeSegment wal1)"
    "segSize seg \<le> segSize (activeSegment wal1) + write_bound ?ds"
    using segWriteAll_ok [OF l(2) _ lens] by metis
  have sz: "segSize seg < 2 ^ 45" using s(6) s1 wb by simp
  let ?wal2 = "wal1\<lparr>activeSegment := seg\<rparr>" and ?logs2 = "logs0 @ [(segId (activeSegment wal1), l @ zip ps ?ds)]"
  have w2: "wal_ok ?wal2 ?logs2" using wal_ok_appended [OF w1 [unfolded l(1)] s(5,4) sz] .
  have so: "segment_of (ClearPendingWrites x) = segment_of x" for x by (simp add: segment_of_def ClearPendingWrites_def fun_eq_iff)
  have w3: "wal_ok (ClearPendingWrites ?wal2) ?logs2"
  proof -
    have "activeSegment (ClearPendingWrites x) = activeSegment x" "olderSegments (ClearPendingWrites x) = olderSegments x"
      "woptions (ClearPendingWrites x) = woptions x" "pendingSize (ClearPendingWrites x) = 0"
      "pendingWrites (ClearPendingWrites x) = []" for x by (simp_all add: ClearPendingWrites_def)
    then show ?thesis using w2 s(5) unfolding wal_ok_def so by simp
  qed
  have rec: "records ?logs2 = records logs @ map (\<lambda>(p, d). (segId (activeSegment wal1), p, d)) (zip ps ?ds)"
    using r(3) by (simp add: l(1))
  have "walWriteAll io wal = (ClearPendingWrites ?wal2, Ok (map2 (pos_at (segId (activeSegment wal1))) ps ks))"
    using n ne io by (simp add: walWriteAll_def r(1) on_active_def io_ok_def d1 s(1))
  then show ?thesis
    by (rule that [OF _ w3]) (use r(2) s rec in \<open>simp_all add: grown_def same_pending_def ClearPendingWrites_def\<close>)
qed

end
