(* ===== verification/WalLog.thy ===== *)
theory WalLog
  imports WalCorrect
begin

text \<open>
  What a client of the log relies on: the records it holds with the positions that were returned for
  them. Opening the directory again gives the same log, each write adds to its end, and a read or a
  scan finds what was written.
\<close>

subsection \<open>Opening a directory\<close>

lemma update_new: "k \<notin> fst ` set m \<Longrightarrow> AList.update k v m = m @ [(k, v)]"
  by (induction m) auto

lemma fold_update_new:
  "distinct (map fst m @ map f xs) \<Longrightarrow> fold (\<lambda>x m. AList.update (f x) x m) xs m = m @ map (\<lambda>x. (f x, x)) xs"
  by (induction xs arbitrary: m) (auto simp: update_new)

lemma sort_ids:
  assumes "sorted (is :: u32 list)" "mset ids = mset (map uint is)"
  shows "map word_of_int (sort ids) = is"
proof -
  have "sorted (map uint is)" using assms(1) by (induction "is") (auto simp: word_le_def)
  then have "sort ids = map uint is" using assms(2) by (metis properties_for_sort)
  then show ?thesis by (simp add: comp_def)
qed

text \<open>Opening a log: the directory can be made and read and the files opened.\<close>

definition dirs_ok :: "walIO \<Rightarrow> bool" where
  "dirs_ok io \<longleftrightarrow> ioMkdir io \<and> ioReadDir io \<and> ioOpen io"

lemma dirs_fine: "dirs_ok io \<Longrightarrow> walOpen io = walOpen io_fine"
  by (simp add: walOpen_def dirs_ok_def io_fine_def fun_eq_iff)

lemma walOpen_dirs: "walOpen io opts ids disk = Ok wal \<Longrightarrow> dirs_ok io"
  by (simp add: walOpen_def dirs_ok_def split: if_splits)

lemma io_ok_dirs: "io_ok io \<Longrightarrow> dirs_ok io"
  by (simp add: io_ok_def dirs_ok_def)

lemma dirs_ok_fine [simp]: "dirs_ok io_fine"
  by (simp add: dirs_ok_def io_fine_def)

lemma walOpen_ok:
  assumes l: "logs \<noteq> []" "sorted_wrt (<) (map fst logs)" "0 \<notin> fst ` set logs"
    and files: "\<And>i l. (i, l) \<in> set logs \<Longrightarrow> log_from (disk i) 0 l \<and> length (disk i) < 2 ^ 45"
    and ids: "mset ids = mset (map uint (map fst logs)) \<or> ids = [] \<and> map fst logs = [1]"
    and opts: "take 1 (SegmentFileExt opts) = ''.''"
  obtains wal where "walOpen io_fine opts ids disk = Ok wal" "wal_ok wal logs" "woptions wal = opts"
    "pendingWrites wal = []" "activeSegment wal = openSegmentFile (fst (last logs)) (disk (fst (last logs)))"
proof -
  let ?is = "map fst logs"
  have so: "sorted ?is" "distinct ?is" using l(2) by (simp_all add: strict_sorted_iff)
  have sids: "(if ids = [] then [initialSegmentFileID] else map word_of_int (sort ids)) = ?is"
  proof (cases "ids = []")
    case True
    then show ?thesis using ids l(1) by (auto simp: initialSegmentFileID_def)
  next
    case False
    then have "mset ids = mset (map uint ?is)" using ids by simp
    then show ?thesis using sort_ids [OF so(1)] False by simp
  qed
  define opened where "opened = (\<lambda>i. openSegmentFile i (disk i))"
  obtain is0 i where isn: "?is = is0 @ [i]" using l(1) by (cases ?is rule: rev_cases) auto
  then have i: "i = fst (last logs)" using l(1) by (metis last_map last_snoc)
  have bl: "is0 = map fst (butlast logs)" using isn by (metis butlast_snoc map_butlast)
  define wal where "wal = \<lparr>activeSegment = opened i, olderSegments = map (\<lambda>i. (i, opened i)) is0,
      woptions = opts, bytesWrite = 0, renameIds = [], pendingWrites = [], pendingSize = 0\<rparr>"
  have seg: "segId (opened j) = j" for j by (simp add: opened_def)
  have "fold (\<lambda>seg m. AList.update (segId seg) seg m) (map opened is0) [] = map (\<lambda>i. (i, opened i)) is0"
    using so(2) isn fold_update_new [of "[]" segId "map opened is0"] by (simp add: comp_def seg)
  then have op: "walOpen io_fine opts ids disk = Ok wal"
    using opts by (simp add: walOpen_def io_fine_def Let_def sids isn wal_def flip: opened_def)
  have dis: "distinct (is0 @ [i])" using so(2) isn by simp
  have so': "segment_of wal j = Some (opened j)" if "j \<in> set ?is" for j
    using that dis isn by (auto simp: segment_of_def wal_def seg map_of_map_restrict)
  have "holds_log (segment_of wal j) j k" if "(j, k) \<in> set logs" for j k
  proof -
    have "j \<in> set ?is" using that by force
    moreover have "seg_ok (opened j) k" using files [OF that] unfolding opened_def by (intro openSegmentFile_ok) auto
    ultimately show ?thesis using files [OF that] so'
      by (auto simp: holds_log_def seg seg_ok_def) (simp add: opened_def)
  qed
  moreover have "fst ` set (olderSegments wal) = fst ` set (butlast logs)" "distinct (map fst (olderSegments wal))"
    using bl dis by (simp_all add: wal_def image_image comp_def)
  moreover have "segId (activeSegment wal) = fst (last logs)" "woptions wal = opts" "pendingWrites wal = []" "pendingSize wal = 0"
    using i by (simp_all add: wal_def seg)
  ultimately have "wal_ok wal logs" using l unfolding wal_ok_def by auto
  then show ?thesis using that op by (simp add: wal_def opened_def i)
qed

lemma walFiles_ok:
  assumes "wal_ok wal logs" "(i, l) \<in> set logs"
  shows "log_from (walFiles wal i) 0 l \<and> length (walFiles wal i) < 2 ^ 45"
proof -
  obtain seg where "segment_of wal i = Some seg" "segId seg = i" "seg_ok seg l" "segSize seg < 2 ^ 45"
    by (rule wal_ok_segment [OF assms])
  then show ?thesis by (auto simp: walFiles_def seg_ok_def)
qed

lemma walIds_ok:
  assumes "wal_ok wal logs"
  shows "mset (walIds wal) = mset (map fst logs)"
  using wal_ids [OF assms, of "\<lambda>_. True"] by (metis filter_True mset_sort)

lemma wal_ok_startup: "wal_ok wal logs \<Longrightarrow> wal_ok (SetIsStartupTraversal v wal) logs"
  and rest_of_startup: "rest_of wal rs rest \<Longrightarrow> rest_of (SetIsStartupTraversal v wal) rs rest"
proof -
  have so: "segment_of (SetIsStartupTraversal v wal) i = map_option (isStartupTraversal_update (\<lambda>_. v)) (segment_of wal i)" for i
    by (simp add: segment_of_def SetIsStartupTraversal_def map_of_map)
  have hl: "holds_log s i l \<Longrightarrow> holds_log (map_option (isStartupTraversal_update (\<lambda>_. v)) s) i l" for s i l
    by (auto simp: holds_log_def seg_ok_def segSize_def)
  show "wal_ok wal logs \<Longrightarrow> wal_ok (SetIsStartupTraversal v wal) logs"
    unfolding wal_ok_def so using hl
    by (auto simp: SetIsStartupTraversal_def comp_def case_prod_beta image_image)
  show "rest_of wal rs rest \<Longrightarrow> rest_of (SetIsStartupTraversal v wal) rs rest"
  proof (induction rs arbitrary: rest)
    case (Cons x rs)
    obtain i sr where x: "x = (i, sr)" by (cases x)
    from Cons show ?case unfolding x by (auto simp: so) blast
  qed simp
qed

subsection \<open>The log a client sees\<close>

text \<open>The size in a position plays no part in reading: a record is found by its place.\<close>

type_synonym place = "u32 \<times> u32 \<times> u64"

definition place_of :: "ChunkPosition \<Rightarrow> place" where
  "place_of pos = (SegmentId pos, BlockNumber pos, ChunkOffset pos)"

definition place_at :: "u32 \<Rightarrow> nat \<Rightarrow> place" where
  "place_at j p = (j, word_of_nat (p div blockSize), word_of_nat (p mod blockSize))"

definition placed :: "logs \<Rightarrow> (place \<times> bytes) list" where
  "placed logs = map (\<lambda>(j, p, d). (place_at j p, d)) (records logs)"

definition wal_holds :: "WAL \<Rightarrow> (place \<times> bytes) list \<Rightarrow> bool" where
  "wal_holds wal h \<longleftrightarrow> (\<exists>logs. wal_ok wal logs \<and> h = placed logs)"

lemma place_of_pos_at [simp]: "place_of (pos_at j p k) = place_at j p"
  by (simp add: place_of_def pos_at_def place_at_def)

lemma pos_at_place: "place_of pos = place_at j p \<Longrightarrow> pos = pos_at j p (ChunkSize pos)"
  by (cases pos) (simp add: place_of_def pos_at_def place_at_def)

lemma wal_ok_active_id: "wal_ok wal logs \<Longrightarrow> wal_ok wal' logs \<Longrightarrow> ActiveSegmentID wal' = ActiveSegmentID wal"
  by (simp add: wal_ok_def ActiveSegmentID_def)

definition kept :: "WAL \<Rightarrow> WAL \<Rightarrow> bool" where
  "kept wal wal' \<longleftrightarrow> same_pending wal wal' \<and> ActiveSegmentID wal' = ActiveSegmentID wal"

lemma holds_read:
  assumes "wal_holds wal h" "(place_of pos, d) \<in> set h"
  obtains wal' where "walRead pool pos wal = (wal', Ok d)" "wal_holds wal' h" "kept wal wal'"
proof -
  obtain logs where w: "wal_ok wal logs" "h = placed logs" using assms(1) by (auto simp: wal_holds_def)
  obtain j p where r: "(j, p, d) \<in> set (records logs)" "place_of pos = place_at j p"
    using assms(2) w(2) by (auto simp: placed_def)
  obtain wal' where a: "walRead pool (pos_at j p (ChunkSize pos)) wal = (wal', Ok d)" "wal_ok wal' logs" "same_pending wal wal'"
    by (rule walRead_ok [OF w(1) r(1)])
  have "walRead pool pos wal = (wal', Ok d)" using a(1) unfolding pos_at_place [OF r(2), symmetric] .
  moreover have "wal_holds wal' h" using a(2) w(2) by (auto simp: wal_holds_def)
  moreover have "kept wal wal'" using a(2,3) wal_ok_active_id [OF w(1)] by (simp add: kept_def)
  ultimately show ?thesis by (rule that)
qed

text \<open>What a write needs: a segment id for one more segment, segments of at most a gigabyte (the default
  size), and a fault-free system.\<close>

definition writable :: "walIO \<Rightarrow> WAL \<Rightarrow> bool" where
  "writable io wal \<longleftrightarrow> io_ok io \<and> ActiveSegmentID wal < - 1 \<and> SegmentSize (woptions wal) \<le> 2 ^ 30"

definition advanced :: "WAL \<Rightarrow> WAL \<Rightarrow> bool" where
  "advanced wal wal' \<longleftrightarrow> woptions wal' = woptions wal \<and> ActiveSegmentID wal \<le> ActiveSegmentID wal' \<and> unat (ActiveSegmentID wal') \<le> unat (ActiveSegmentID wal) + 1"

lemma holds_write:
  assumes w: "wal_holds wal h" and io: "writable io wal"
    and n: "int (length data) + 7 \<le> SegmentSize (woptions wal)"
  obtains wal' pos where "walWrite io data wal = (wal', Ok pos)" "wal_holds wal' (h @ [(place_of pos, data)])"
    "advanced wal wal'" "same_pending wal wal'" "SegmentId pos = ActiveSegmentID wal'"
proof -
  obtain logs where l: "wal_ok wal logs" "h = placed logs" using w by (auto simp: wal_holds_def)
  obtain wal' logs' j p k where r: "walWrite io data wal = (wal', Ok (pos_at j p k))" "grown wal logs wal' logs'"
    "records logs' = records logs @ [(j, p, data)]" "j = segId (activeSegment wal')"
    by (rule walWrite_ok [OF l(1) _ _ n, of io]) (use io in \<open>simp_all add: writable_def ActiveSegmentID_def\<close>)
  have "wal_ok wal' logs'" "placed logs' = h @ [(place_of (pos_at j p k), data)]"
    using r(2,3) l(2) by (simp_all add: grown_def placed_def)
  then have "wal_holds wal' (h @ [(place_of (pos_at j p k), data)])" by (auto simp: wal_holds_def)
  then show ?thesis using that r(1,2,4) by (simp add: advanced_def grown_def ActiveSegmentID_def same_pending_def pos_at_def)
qed

lemma holds_writeAll:
  assumes w: "wal_holds wal h" and io: "writable io wal"
    and n: "pendingSize wal \<le> SegmentSize (woptions wal)"
  obtains wal' poss where "walWriteAll io wal = (wal', Ok poss)" "length poss = length (pendingWrites wal)"
    "wal_holds wal' (h @ zip (map place_of poss) (pendingWrites wal))" "advanced wal wal'" "pendingWrites wal' = []"
    "\<forall>pos \<in> set poss. SegmentId pos = ActiveSegmentID wal'"
proof (cases "pendingWrites wal = []")
  case True
  then show ?thesis using that [of wal "[]"] w by (simp add: walWriteAll_def advanced_def)
next
  case False
  obtain logs where l: "wal_ok wal logs" "h = placed logs" using w by (auto simp: wal_holds_def)
  obtain wal' logs' j ps ks where r: "walWriteAll io wal = (wal', Ok (map2 (pos_at j) ps ks))"
    "wal_ok wal' logs'" "woptions wal' = woptions wal" "pendingWrites wal' = []"
    "unat (segId (activeSegment wal')) \<le> unat (segId (activeSegment wal)) + 1"
    "segId (activeSegment wal) \<le> segId (activeSegment wal')" "j = segId (activeSegment wal')"
    "length ps = length (pendingWrites wal)" "length ks = length (pendingWrites wal)"
    "records logs' = records logs @ map (\<lambda>(p, d). (j, p, d)) (zip ps (pendingWrites wal))"
    by (rule walWriteAll_ok [OF l(1) _ _ n False, of io])
      (use io in \<open>simp_all add: writable_def ActiveSegmentID_def\<close>)
  have "placed logs' = h @ zip (map place_of (map2 (pos_at j) ps ks)) (pendingWrites wal)"
    using r(8,9) l(2) unfolding placed_def r(10)
    by (auto intro!: nth_equalityI)
  then have "wal_holds wal' (h @ zip (map place_of (map2 (pos_at j) ps ks)) (pendingWrites wal))"
    using r(2) by (auto simp: wal_holds_def)
  moreover have "\<forall>pos \<in> set (map2 (pos_at j) ps ks). SegmentId pos = ActiveSegmentID wal'"
    using r(7) by (auto simp: pos_at_def ActiveSegmentID_def set_zip)
  ultimately show ?thesis using that r by (simp add: advanced_def ActiveSegmentID_def)
qed

subsection \<open>Reading the whole log\<close>

definition reading :: "(place \<times> bytes) list \<Rightarrow> WAL \<Rightarrow> walReader \<Rightarrow> (place \<times> bytes) list \<Rightarrow> bool" where
  "reading h wal rd rest \<longleftrightarrow> (\<exists>logs rs. reader_ok logs wal rd rs \<and> h = placed logs \<and>
     rest = map (\<lambda>(j, p, d). (place_at j p, d)) rs)"

lemma reading_holds: "reading h wal rd rest \<Longrightarrow> wal_holds wal h"
  by (auto simp: reading_def reader_ok_def wal_holds_def)

lemma reading_new: "wal_holds wal h \<Longrightarrow> reading h wal (NewReader wal) h"
proof -
  assume "wal_holds wal h"
  then obtain logs where l: "wal_ok wal logs" "h = placed logs" by (auto simp: wal_holds_def)
  have "reader_ok logs wal (NewReader wal) (records logs)"
    using NewReader_ok [OF l(1), of 0] unfolding NewReader_def records_all .
  then show "reading h wal (NewReader wal) h" unfolding reading_def using l(2) by (auto simp: placed_def)
qed

lemma reading_startup: "reading h wal rd rest \<Longrightarrow> reading h (SetIsStartupTraversal v wal) rd rest"
  unfolding reading_def reader_ok_def
  by (elim exE conjE) (intro exI conjI, rule wal_ok_startup, assumption+, rule rest_of_startup, assumption+)

lemma holds_startup: "wal_holds wal h \<Longrightarrow> wal_holds (SetIsStartupTraversal v wal) h"
  unfolding wal_holds_def using wal_ok_startup by blast

lemma startup_fields [simp]:
  "woptions (SetIsStartupTraversal v wal) = woptions wal" "pendingWrites (SetIsStartupTraversal v wal) = pendingWrites wal"
  "ActiveSegmentID (SetIsStartupTraversal v wal) = ActiveSegmentID wal"
  by (simp_all add: SetIsStartupTraversal_def ActiveSegmentID_def)

lemma reading_end:
  assumes "reading h wal rd []"
  obtains rd' where "walNext pool wal rd = ((wal, rd'), Err EOF)"
  using assms walNext_ok [of _ wal rd "[]" pool] by (auto simp: reading_def)

lemma reading_next:
  assumes "reading h wal rd ((pl, d) # rest)"
  obtains wal' rd' pos where "walNext pool wal rd = ((wal', rd'), Ok (d, pos))" "place_of pos = pl"
    "reading h wal' rd' rest" "kept wal wal'" "map fst (segmentReaders rd') = map fst (segmentReaders rd)"
proof -
  obtain logs rs where r: "reader_ok logs wal rd rs" "h = placed logs"
    "(pl, d) # rest = map (\<lambda>(j, p, d). (place_at j p, d)) rs"
    using assms by (auto simp: reading_def)
  obtain j p rs' where rs: "rs = (j, p, d) # rs'" "pl = place_at j p" "rest = map (\<lambda>(j, p, d). (place_at j p, d)) rs'"
    using r(3) by (cases rs) auto
  obtain wal' rd' k where n: "walNext pool wal rd = ((wal', rd'), Ok (d, pos_at j p k))" "reader_ok logs wal' rd' rs'"
    "same_pending wal wal'" "map fst (segmentReaders rd') = map fst (segmentReaders rd)"
    using walNext_ok [OF r(1), of pool] unfolding rs(1) by auto
  have "kept wal wal'"
    using n(2,3) r(1) wal_ok_active_id [of wal logs wal'] by (simp add: kept_def reader_ok_def)
  moreover have "reading h wal' rd' rest" using n(2) r(2) rs(3) by (auto simp: reading_def)
  ultimately show ?thesis using n(1,4) rs(2) by (intro that [of wal' rd' "pos_at j p k"]) simp_all
qed

text \<open>A scan, as every client of a reader makes it: \<open>Next\<close> until \<open>io.EOF\<close>.\<close>

fun wal_scan :: "nat \<Rightarrow> bytes \<Rightarrow> WAL \<Rightarrow> walReader \<Rightarrow> (place \<times> bytes) list gores" where
  "wal_scan 0 pool wal rd = Crash ''out of fuel''"
| "wal_scan (Suc n) pool wal rd =
     (case walNext pool wal rd of
        ((wal, rd), Ok (d, pos)) \<Rightarrow> go_bind (wal_scan n pool wal rd) (\<lambda>r. Ok ((place_of pos, d) # r))
      | (_, Err e) \<Rightarrow> if e = EOF then Ok [] else Err e
      | (_, Panic p) \<Rightarrow> Panic p
      | (_, Crash p) \<Rightarrow> Crash p)"

lemma scan_reading: "reading h wal rd rest \<Longrightarrow> length rest < n \<Longrightarrow> wal_scan n pool wal rd = Ok rest"
proof (induction n arbitrary: wal rd rest)
  case (Suc n)
  show ?case
  proof (cases rest)
    case Nil
    then show ?thesis using Suc.prems(1) reading_end [of h wal rd pool] by fastforce
  next
    case (Cons x rest')
    obtain pl d where x: "x = (pl, d)" by (cases x)
    obtain wal' rd' pos where "walNext pool wal rd = ((wal', rd'), Ok (d, pos))" "place_of pos = pl"
      "reading h wal' rd' rest'"
      by (rule reading_next [OF Suc.prems(1) [unfolded Cons x], of pool])
    then show ?thesis using Suc Cons x by simp
  qed
qed simp

subsection \<open>Opening the directory again\<close>

lemma holds_open_new:
  assumes "take 1 (SegmentFileExt opts) = ''.''" "disk 1 = []"
  obtains wal where "walOpen io_fine opts [] disk = Ok wal" "wal_holds wal []" "woptions wal = opts" "ActiveSegmentID wal = 1"
    "pendingWrites wal = []"
proof -
  obtain wal where w: "walOpen io_fine opts [] disk = Ok wal" "wal_ok wal [(1, [])]" "woptions wal = opts"
    "pendingWrites wal = []" "activeSegment wal = openSegmentFile 1 (disk 1)"
    by (rule walOpen_ok [of "[(1, [])]" disk "[]" opts]) (use assms in auto)
  have "wal_holds wal []" using w(2) by (auto simp: wal_holds_def placed_def intro!: exI [of _ "[(1, [])]"])
  then show ?thesis using that w by (simp add: ActiveSegmentID_def)
qed

lemma holds_reopen:
  assumes "wal_holds wal h" "mset ids = mset (map uint (walIds wal))"
    and "take 1 (SegmentFileExt opts) = ''.''"
  obtains wal' where "walOpen io_fine opts ids (walFiles wal) = Ok wal'" "wal_holds wal' h" "woptions wal' = opts"
    "ActiveSegmentID wal' = ActiveSegmentID wal" "pendingWrites wal' = []" "mset (walIds wal') = mset (walIds wal)"
proof -
  obtain logs where l: "wal_ok wal logs" "h = placed logs" using assms(1) by (auto simp: wal_holds_def)
  have ids: "mset ids = mset (map uint (map fst logs))"
    using assms(2) walIds_ok [OF l(1)] by (metis mset_map)
  have lo: "logs \<noteq> []" "sorted_wrt (<) (map fst logs)" "0 \<notin> fst ` set logs" using l(1) by (simp_all add: wal_ok_def)
  obtain wal' where "walOpen io_fine opts ids (walFiles wal) = Ok wal'" "wal_ok wal' logs" "woptions wal' = opts"
    "pendingWrites wal' = []"
    by (rule walOpen_ok [OF lo walFiles_ok [OF l(1)] disjI1 [OF ids] assms(3)])
  moreover from this have "wal_holds wal' h" using l(2) by (auto simp: wal_holds_def)
  ultimately show ?thesis using that wal_ok_active_id [OF l(1)] walIds_ok l(1) by metis
qed

lemma holds_rotate:
  assumes "wal_holds wal h" "writable io wal"
  obtains wal' where "OpenNewActiveSegment io wal = (wal', Ok ())" "wal_holds wal' h"
    "same_pending wal wal'" "ActiveSegmentID wal' = ActiveSegmentID wal + 1"
proof -
  obtain logs where l: "wal_ok wal logs" "h = placed logs" using assms(1) by (auto simp: wal_holds_def)
  obtain wal' where r: "replaceActive io wal = (wal', Ok ())" "wal_ok wal' (logs @ [(segId (activeSegment wal) + 1, [])])"
    "same_pending wal wal'" "segId (activeSegment wal') = segId (activeSegment wal) + 1"
    using replaceActive_ok [OF l(1)] assms(2) unfolding writable_def io_ok_def ActiveSegmentID_def by metis
  have "wal_holds wal' h" using r(2) l(2) unfolding wal_holds_def by (metis append_Nil2 placed_def records_simps(1,2,3) list.map(1))
  then show ?thesis using that r assms(2) by (simp add: OpenNewActiveSegment_def writable_def io_ok_def ActiveSegmentID_def)
qed

lemma holds_pending:
  assumes "wal_holds wal h"
  shows "wal_holds (PendingWrites d wal) h" "wal_holds (ClearPendingWrites wal) h"
proof -
  obtain logs where l: "wal_ok wal logs" "h = placed logs" using assms by (auto simp: wal_holds_def)
  have "segment_of (PendingWrites d wal) = segment_of wal" "segment_of (ClearPendingWrites wal) = segment_of wal"
    by (simp_all add: segment_of_def fun_eq_iff PendingWrites_def ClearPendingWrites_def)
  then have "wal_ok (PendingWrites d wal) logs" "wal_ok (ClearPendingWrites wal) logs"
    using l(1) unfolding wal_ok_def by (simp_all add: PendingWrites_def ClearPendingWrites_def)
  then show "wal_holds (PendingWrites d wal) h" "wal_holds (ClearPendingWrites wal) h"
    using l(2) by (auto simp: wal_holds_def)
qed

subsection \<open>A write that fails\<close>

text \<open>When the file system takes no byte of a write, the segment and the log are as before.\<close>

lemma restored:
  assumes "seg_ok seg log" "same_but_end seg seg1"
    and "s' = restoring seg (st_bind (writeChunkBuffer (Some 0) out seg1) f)"
  shows "seg_ok (fst s') log \<and> segId (fst s') = segId seg \<and> segSize (fst s') = segSize seg \<and> (\<exists>e. snd s' = Err e)"
  using assms by (auto simp: writeChunkBuffer_def restoring_def seg_ok_def same_but_end_def segSize_def)

lemma segWrite_failed:
  assumes s: "seg_ok seg log" "segSize seg < 2 ^ 46" "length data < 2 ^ 31"
  obtains seg' e where "segWrite (Some 0) data seg = (seg', Err e)" "seg_ok seg' log" "segId seg' = segId seg"
    "segSize seg' = segSize seg"
proof -
  have o: "\<not> segClosed seg" using s(1) by (simp add: seg_ok_def)
  obtain seg1 r where w: "writeToBuffer data seg [] = (seg1, Ok r)" "same_but_end seg seg1"
    using writeToBuffer_pending [OF seg_pending [OF s(1)] s(2,3)] by auto
  have "segWrite (Some 0) data seg = restoring seg (st_bind (writeChunkBuffer (Some 0) (snd r) seg1) (\<lambda>seg _. (seg, Ok (fst r))))"
    using o w(1) by (simp add: segWrite_def case_prod_beta)
  then show ?thesis using that restored [OF s(1) w(2) refl, of "snd r" "\<lambda>seg _. (seg, Ok (fst r))"]
    by (metis prod.collapse)
qed

lemma segWriteAll_failed:
  assumes s: "seg_ok seg log" "segSize seg + write_bound ds < 2 ^ 46" "\<forall>d \<in> set ds. length d < 2 ^ 31"
  obtains seg' e where "segWriteAll (Some 0) ds seg = (seg', Err e)" "seg_ok seg' log" "segId seg' = segId seg"
    "segSize seg' = segSize seg"
proof -
  have o: "\<not> segClosed seg" using s(1) by (simp add: seg_ok_def)
  obtain seg1 r where w: "write_each ds seg [] = (seg1, Ok r)" "same_but_end seg seg1"
    using write_each_ok [OF seg_pending [OF s(1)] s(2,3)] by auto
  have "segWriteAll (Some 0) ds seg = restoring seg (st_bind (writeChunkBuffer (Some 0) (snd r) seg1) (\<lambda>seg _. (seg, Ok (fst r))))"
    using o w(1) by (simp add: segWriteAll_def case_prod_beta)
  then show ?thesis using that restored [OF s(1) w(2) refl, of "snd r" "\<lambda>seg _. (seg, Ok (fst r))"]
    by (metis prod.collapse)
qed


definition disk_full :: "walIO \<Rightarrow> WAL \<Rightarrow> bool" where
  "disk_full io wal \<longleftrightarrow> writable (io\<lparr>ioWrite := None\<rparr>) wal \<and> ioWrite io = Some 0"

lemma rotate_io: "rotateActiveSegment (io\<lparr>ioWrite := w\<rparr>) = rotateActiveSegment io"
  by (simp add: rotateActiveSegment_def replaceActive_def fun_eq_iff)

lemma rotate_if_full:
  assumes "wal_ok wal logs" "disk_full io wal" "\<not> b \<Longrightarrow> segSize (activeSegment wal) \<le> 2 ^ 30"
  obtains wal' logs0 l where "(if b then rotateActiveSegment io wal else (wal, Ok ())) = (wal', Ok ())"
    "grown wal logs wal' (logs0 @ [(segId (activeSegment wal'), l)])" "seg_ok (activeSegment wal') l"
    "records (logs0 @ [(segId (activeSegment wal'), l)]) = records logs" "segSize (activeSegment wal') \<le> 2 ^ 30"
proof -
  obtain wal' logs' where r: "(if b then rotateActiveSegment (io\<lparr>ioWrite := None\<rparr>) wal else (wal, Ok ())) = (wal', Ok ())"
    "grown wal logs wal' logs'" "records logs' = records logs"
    "segSize (activeSegment wal') = (if b then 0 else segSize (activeSegment wal))"
    by (rule rotate_if_ok [OF assms(1), of "io\<lparr>ioWrite := None\<rparr>"])
      (use assms(2) in \<open>auto simp: disk_full_def writable_def ActiveSegmentID_def\<close>)
  have "wal_ok wal' logs'" using r(2) by (simp add: grown_def)
  then obtain logs0 l where "logs' = logs0 @ [(segId (activeSegment wal'), l)]" "seg_ok (activeSegment wal') l"
    by (rule wal_ok_active)
  then show ?thesis using r assms(3) unfolding rotate_io by (intro that [of wal' logs0 l]) simp_all
qed

lemma wal_ok_failed:
  assumes "wal_ok wal (logs0 @ [(segId (activeSegment wal), l)])" "seg_ok seg l"
    "segId seg = segId (activeSegment wal)" "segSize seg = segSize (activeSegment wal)" "segSize (activeSegment wal) \<le> 2 ^ 30"
  shows "wal_ok (wal\<lparr>activeSegment := seg\<rparr>) (logs0 @ [(segId (activeSegment wal), l)])"
  using assms by (intro wal_ok_appended [of _ _ l]) auto

lemma holds_write_failed:
  assumes w: "wal_holds wal h" and io: "disk_full io wal" and n: "int (length data) + 7 \<le> SegmentSize (woptions wal)"
  obtains wal' e where "walWrite io data wal = (wal', Err e)" "wal_holds wal' h" "advanced wal wal'"
proof -
  let ?full = "isFull (int (length data)) wal"
  obtain logs where l: "wal_ok wal logs" "h = placed logs" using w by (auto simp: wal_holds_def)
  have ss: "SegmentSize (woptions wal) \<le> 2 ^ 30" using io by (simp add: disk_full_def writable_def)
  have nf: "segSize (activeSegment wal) \<le> 2 ^ 30" if "\<not> ?full"
    using that ss pos_imp_zdiv_nonneg_iff [of 32768 "int (length data)"] by (simp add: isFull_def maxDataWriteSize_def)
  obtain wal1 logs0 k where r: "(if ?full then rotateActiveSegment io wal else (wal, Ok ())) = (wal1, Ok ())"
    "grown wal logs wal1 (logs0 @ [(segId (activeSegment wal1), k)])" "seg_ok (activeSegment wal1) k"
    "records (logs0 @ [(segId (activeSegment wal1), k)]) = records logs" "segSize (activeSegment wal1) \<le> 2 ^ 30"
    by (rule rotate_if_full [OF l(1) io nf])
  obtain seg e where s: "segWrite (Some 0) data (activeSegment wal1) = (seg, Err e)" "seg_ok seg k"
    "segId seg = segId (activeSegment wal1)" "segSize seg = segSize (activeSegment wal1)"
    by (rule segWrite_failed [OF r(3)]) (use r(5) n ss in auto)
  let ?wal2 = "wal1\<lparr>activeSegment := seg\<rparr>"
  have "wal_ok ?wal2 (logs0 @ [(segId (activeSegment wal1), k)])"
    using r(2,5) s by (intro wal_ok_failed) (auto simp: grown_def)
  then have "wal_holds ?wal2 h" using r(4) l(2) by (auto simp: wal_holds_def placed_def)
  moreover have "walWrite io data wal = (?wal2, Err e)"
    using n io s(1) by (simp add: walWrite_def r(1) on_active_def disk_full_def)
  ultimately show ?thesis using that r(2) s(3) by (simp add: advanced_def grown_def ActiveSegmentID_def same_pending_def)
qed

lemma holds_writeAll_failed:
  assumes w: "wal_holds wal h" and io: "disk_full io wal" and n: "pendingSize wal \<le> SegmentSize (woptions wal)"
    and ne: "pendingWrites wal \<noteq> []"
  obtains wal' e where "walWriteAll io wal = (wal', Err e)" "wal_holds wal' h" "advanced wal wal'" "pendingWrites wal' = []"
proof -
  let ?ds = "pendingWrites wal"
  let ?full = "int (segSize (activeSegment wal)) + pendingSize wal > SegmentSize (woptions wal)"
  obtain logs where l: "wal_ok wal logs" "h = placed logs" using w by (auto simp: wal_holds_def)
  have ss: "SegmentSize (woptions wal) \<le> 2 ^ 30" and ps: "pendingSize wal = (\<Sum>d\<leftarrow>?ds. maxDataWriteSize (int (length d)))"
    using l(1) io by (simp_all add: wal_ok_def disk_full_def writable_def)
  obtain d0 where "d0 \<in> set ?ds" using ne by (cases ?ds) auto
  then have p0: "0 \<le> pendingSize wal" using pending_member [of d0 ?ds] ps by simp
  have nf: "segSize (activeSegment wal) \<le> 2 ^ 30" if "\<not> ?full" using that ss p0 by simp
  obtain wal1 logs0 k where r: "(if ?full then rotateActiveSegment io wal else (wal, Ok ())) = (wal1, Ok ())"
    "grown wal logs wal1 (logs0 @ [(segId (activeSegment wal1), k)])" "seg_ok (activeSegment wal1) k"
    "records (logs0 @ [(segId (activeSegment wal1), k)]) = records logs" "segSize (activeSegment wal1) \<le> 2 ^ 30"
    by (rule rotate_if_full [OF l(1) io nf])
  have lens: "\<forall>d \<in> set ?ds. length d < 2 ^ 31" using pending_member ps n ss by fastforce
  have d1: "pendingWrites wal1 = ?ds" using r(2) by (simp add: grown_def same_pending_def)
  have wb: "int (write_bound ?ds) \<le> 3 * 2 ^ 30" using write_bound_le [of ?ds] ps n ss by simp
  obtain seg e where s: "segWriteAll (Some 0) ?ds (activeSegment wal1) = (seg, Err e)" "seg_ok seg k"
    "segId seg = segId (activeSegment wal1)" "segSize seg = segSize (activeSegment wal1)"
    by (rule segWriteAll_failed [OF r(3) _ lens]) (use r(5) wb in auto)
  let ?wal2 = "wal1\<lparr>activeSegment := seg\<rparr>"
  have "wal_ok ?wal2 (logs0 @ [(segId (activeSegment wal1), k)])"
    using r(2,5) s by (intro wal_ok_failed) (auto simp: grown_def)
  then have "wal_holds ?wal2 h" using r(4) l(2) by (auto simp: wal_holds_def placed_def)
  then have "wal_holds (ClearPendingWrites ?wal2) h" by (rule holds_pending)
  moreover have "walWriteAll io wal = (ClearPendingWrites ?wal2, Err e)"
    using n ne io s(1) by (simp add: walWriteAll_def r(1) on_active_def disk_full_def d1)
  ultimately show ?thesis using that r(2) s(3)
    by (simp add: advanced_def grown_def ActiveSegmentID_def same_pending_def ClearPendingWrites_def)
qed

subsection \<open>Histories of a log\<close>

text \<open>
  All that a client may do with a log, with the records written so far. The file system either
  works or takes no byte of a write.
\<close>

inductive wal_history :: "walOptions \<Rightarrow> WAL \<Rightarrow> (place \<times> bytes) list \<Rightarrow> bool" for opts where
  created: "walOpen io opts [] (\<lambda>_. []) = Ok wal \<Longrightarrow> wal_history opts wal []"
| written: "wal_history opts wal h \<Longrightarrow> writable io wal \<Longrightarrow> walWrite io data wal = (wal', Ok pos) \<Longrightarrow>
    wal_history opts wal' (h @ [(place_of pos, data)])"
| refused: "wal_history opts wal h \<Longrightarrow> writable io wal \<or> disk_full io wal \<Longrightarrow> walWrite io data wal = (wal', Err e) \<Longrightarrow> wal_history opts wal' h"
| pended: "wal_history opts wal h \<Longrightarrow> wal_history opts (PendingWrites data wal) h"
| cleared: "wal_history opts wal h \<Longrightarrow> wal_history opts (ClearPendingWrites wal) h"
| written_all: "wal_history opts wal h \<Longrightarrow> writable io wal \<Longrightarrow> walWriteAll io wal = (wal', Ok poss) \<Longrightarrow>
    wal_history opts wal' (h @ zip (map place_of poss) (pendingWrites wal))"
| refused_all: "wal_history opts wal h \<Longrightarrow> writable io wal \<or> disk_full io wal \<Longrightarrow> walWriteAll io wal = (wal', Err e) \<Longrightarrow> wal_history opts wal' h"
| rotated: "wal_history opts wal h \<Longrightarrow> writable io wal \<Longrightarrow> OpenNewActiveSegment io wal = (wal', Ok ()) \<Longrightarrow> wal_history opts wal' h"
| fetched: "wal_history opts wal h \<Longrightarrow> (place_of pos, data) \<in> set h \<Longrightarrow> walRead pool pos wal = (wal', r) \<Longrightarrow> wal_history opts wal' h"
| startup: "wal_history opts wal h \<Longrightarrow> wal_history opts (SetIsStartupTraversal v wal) h"
| reopened: "wal_history opts wal h \<Longrightarrow> mset ids = mset (map uint (walIds wal)) \<Longrightarrow>
    walOpen io opts ids (walFiles wal) = Ok wal' \<Longrightarrow> wal_history opts wal' h"

lemma walOpen_ext: "walOpen io opts ids disk = Ok wal \<Longrightarrow> take 1 (SegmentFileExt opts) = ''.''"
  by (simp add: walOpen_def split: if_splits)

lemma history_holds:
  assumes "wal_history opts wal h"
  shows "wal_holds wal h \<and> woptions wal = opts"
  using assms
proof induction
  case (created io wal)
  obtain wal' where "walOpen io_fine opts [] (\<lambda>_. []) = Ok wal'" "wal_holds wal' []" "woptions wal' = opts"
    by (rule holds_open_new [OF walOpen_ext [OF created], of "\<lambda>_. []"]) simp
  then show ?case using created dirs_fine [OF walOpen_dirs [OF created]] by simp
next
  case (written wal h io data wal' pos)
  have n: "int (length data) + 7 \<le> SegmentSize (woptions wal)"
    using written by (auto simp: walWrite_def split: if_splits)
  obtain w p where "walWrite io data wal = (w, Ok p)" "wal_holds w (h @ [(place_of p, data)])" "advanced wal w"
    by (rule holds_write [OF _ written(2) n, of h]) (use written in auto)
  then show ?case using written by (auto simp: advanced_def)
next
  case (refused wal h io data wal' e)
  show ?case
  proof (cases "int (length data) + 7 \<le> SegmentSize (woptions wal)")
    case False
    then show ?thesis using refused by (auto simp: walWrite_def)
  next
    case True
    then have "\<not> writable io wal"
      using holds_write [of wal h io data] refused by (metis gores.distinct(1) prod.inject)
    then have "disk_full io wal" using refused(2) by simp
    then obtain w f where "walWrite io data wal = (w, Err f)" "wal_holds w h" "advanced wal w"
      by (rule holds_write_failed [OF _ _ True, of h, rotated]) (use refused in auto)
    then show ?thesis using refused by (auto simp: advanced_def)
  qed
next
  case (pended wal h data)
  then show ?case using holds_pending by (simp add: PendingWrites_def)
next
  case (cleared wal h)
  then show ?case using holds_pending by (simp add: ClearPendingWrites_def)
next
  case (written_all wal h io wal' poss)
  have n: "pendingSize wal \<le> SegmentSize (woptions wal) \<or> pendingWrites wal = []"
    using written_all by (auto simp: walWriteAll_def split: if_splits)
  show ?case
  proof (cases "pendingWrites wal = []")
    case True
    then show ?thesis using written_all by (simp add: walWriteAll_def)
  next
    case False
    then have "pendingSize wal \<le> SegmentSize (woptions wal)" using n by simp
    then obtain w ps where "walWriteAll io wal = (w, Ok ps)" "wal_holds w (h @ zip (map place_of ps) (pendingWrites wal))"
      "advanced wal w"
      by (rule holds_writeAll [OF _ written_all(2), of h, rotated]) (use written_all in auto)
    then show ?thesis using written_all by (auto simp: advanced_def)
  qed
next
  case (refused_all wal h io wal' e)
  have ne: "pendingWrites wal \<noteq> []" using refused_all(3) by (auto simp: walWriteAll_def)
  show ?case
  proof (cases "pendingSize wal \<le> SegmentSize (woptions wal)")
    case False
    then have "wal' = ClearPendingWrites wal" using refused_all(3) by (auto simp: walWriteAll_def split: if_splits)
    then show ?thesis using refused_all holds_pending by (simp add: ClearPendingWrites_def)
  next
    case True
    then have "\<not> writable io wal"
      using holds_writeAll [of wal h io] refused_all by (metis gores.distinct(1) prod.inject)
    then have "disk_full io wal" using refused_all(2) by simp
    then obtain w f where "walWriteAll io wal = (w, Err f)" "wal_holds w h" "advanced wal w"
      by (rule holds_writeAll_failed [OF _ _ True ne, of h, rotated]) (use refused_all in auto)
    then show ?thesis using refused_all by (auto simp: advanced_def)
  qed
next
  case (rotated wal h io wal')
  then show ?case using holds_rotate [of wal h io] by (metis prod.inject same_pending_def)
next
  case (fetched wal h pos data pool wal' r)
  then show ?case using holds_read [of wal h pos data pool] by (metis prod.inject kept_def same_pending_def)
next
  case (startup wal h v)
  then show ?case using holds_startup by simp
next
  case (reopened wal h ids io wal')
  then show ?case using dirs_fine [OF walOpen_dirs [OF reopened(3)]] holds_reopen [OF _ reopened(2) walOpen_ext [OF reopened(3)], of h]
    by (metis gores.inject(1))
qed

subsection \<open>The log keeps what it was given\<close>

definition log_opts :: walOptions where
  "log_opts = \<lparr>SegmentSize = 2 ^ 20, SegmentFileExt = ''.SEG'', wSync = False, BytesPerSync = 0\<rparr>"

lemma one_below_last: "(1 :: u32) < - 1"
  by (simp add: word_less_nat_alt unsigned_minus_1_eq_mask mask_eq_exp_minus_1)

lemma log_opts_size: "SegmentSize log_opts = 2 ^ 20" by (simp add: log_opts_def)

lemma log_opts_created: "\<exists>wal. walOpen io_fine log_opts [] (\<lambda>_. []) = Ok wal \<and> wal_history log_opts wal [] \<and> ActiveSegmentID wal = 1"
proof -
  obtain wal where "walOpen io_fine log_opts [] (\<lambda>_. []) = Ok wal" "ActiveSegmentID wal = 1"
    by (rule holds_open_new [of log_opts "\<lambda>_. []"]) (simp_all add: log_opts_def)
  then show ?thesis using wal_history.created by blast
qed

lemma log_opts_written:
  "\<exists>wal pos. wal_history log_opts wal [(place_of pos, [1, 2, 3])] \<and> writable io_fine wal"
proof -
  obtain wal where w: "wal_history log_opts wal []" "ActiveSegmentID wal = 1" using log_opts_created by auto
  have h: "wal_holds wal []" "woptions wal = log_opts" using history_holds [OF w(1)] by simp_all
  have io: "writable io_fine wal" using w(2) h(2) by (simp add: writable_def io_ok_def io_fine_def one_below_last log_opts_size)
  obtain wal' pos where r: "walWrite io_fine [1, 2, 3] wal = (wal', Ok pos)" "advanced wal wal'"
    by (rule holds_write [OF h(1) io, of "[1, 2, 3]"]) (simp add: h(2) log_opts_def)
  have "ActiveSegmentID wal' < - 1" "woptions wal' = log_opts" using r(2) w(2) h(2) by (simp_all add: advanced_def word_less_nat_alt unsigned_minus_1_eq_mask mask_eq_exp_minus_1)
  then show ?thesis using wal_history.written [OF w(1) io r(1)] io h(2) by (auto simp: writable_def)
qed

text \<open>
  C6: Every record of the log is read back at the position its write returned, whatever was written,
  refused, rotated, read or reopened since, and whatever the pooled read buffer holds.\<close>

theorem log_reads_back:
  assumes "wal_history opts wal h" "(place_of pos, data) \<in> set h"
  shows "\<exists>wal'. walRead pool pos wal = (wal', Ok data)"
  using holds_read [of wal h pos data pool] history_holds [OF assms(1)] assms(2) by metis

theorem log_reads_back_witness:
  "\<exists>wal pos wal'. walRead [] pos wal = (wal', Ok [1, 2, 3])"
proof -
  obtain wal pos where "wal_history log_opts wal [(place_of pos, [1, 2, 3])]" using log_opts_written by blast
  then show ?thesis using log_reads_back [of log_opts wal "[(place_of pos, [1, 2, 3])]" pos "[1, 2, 3]" "[]"] by (auto simp: log_opts_size)
qed

text \<open>
  C7: A reader of the whole log gives every record once, at its place and in the order of the
  writes, and then \<open>io.EOF\<close>; one call more than there are records is enough.\<close>

theorem log_scan_complete:
  assumes "wal_history opts wal h" "length h < n"
  shows "wal_scan n pool wal (NewReader wal) = Ok h"
  using scan_reading [OF reading_new assms(2)] history_holds [OF assms(1)] by blast

theorem log_scan_complete_witness:
  "\<exists>wal pos. wal_scan 2 [] wal (NewReader wal) = Ok [(place_of pos, [1, 2, 3])]"
proof -
  obtain wal pos where "wal_history log_opts wal [(place_of pos, [1, 2, 3])]" using log_opts_written by blast
  then show ?thesis using log_scan_complete [of log_opts wal "[(place_of pos, [1, 2, 3])]" 2 "[]"] by (auto simp: log_opts_size)
qed

text \<open>
  What a client sees of a log: every record is read back at its place, a reader of the whole log gives
  the records in their order, and both are so after the log is opened again.
\<close>

definition reads_as :: "WAL \<Rightarrow> (place \<times> bytes) list \<Rightarrow> bool" where
  "reads_as wal h \<longleftrightarrow>
     (\<forall>pool pos data. (place_of pos, data) \<in> set h \<longrightarrow> snd (walRead pool pos wal) = Ok data) \<and>
     (\<forall>pool n. length h < n \<longrightarrow> wal_scan n pool wal (NewReader wal) = Ok h)"

definition log_reads :: "walOptions \<Rightarrow> WAL \<Rightarrow> (place \<times> bytes) list \<Rightarrow> bool" where
  "log_reads opts wal h \<longleftrightarrow> reads_as wal h \<and>
     (\<forall>io ids. dirs_ok io \<and> mset ids = mset (map uint (walIds wal)) \<longrightarrow>
       (\<exists>wal'. walOpen io opts ids (walFiles wal) = Ok wal' \<and> reads_as wal' h))"

lemma holds_reads_as: "wal_holds wal h \<Longrightarrow> reads_as wal h"
  unfolding reads_as_def by (metis holds_read reading_new scan_reading snd_conv)

lemma holds_log_reads: "wal_holds wal h \<Longrightarrow> take 1 (SegmentFileExt opts) = ''.'' \<Longrightarrow> log_reads opts wal h"
  unfolding log_reads_def by (metis holds_reads_as holds_reopen dirs_fine)

lemma history_ext: "wal_history opts wal h \<Longrightarrow> take 1 (SegmentFileExt opts) = ''.''"
  by (induction rule: wal_history.induct) (auto dest: walOpen_ext)

text \<open>
  C34: A record that fits a segment is accepted by \<open>Write\<close> and, with the other pending records, by
  \<open>WriteAll\<close>: afterwards the log reads as before with the new records at its end, at the positions that were returned,
  now and after it is opened again. When the file system takes none of the bytes the call
  fails, and the log reads as it did.\<close>

theorem log_accepts:
  assumes "wal_history opts wal h" "SegmentSize opts \<le> 2 ^ 30" "ActiveSegmentID wal < - 1"
  shows "(io_ok io \<longrightarrow> int (length data) + 7 \<le> SegmentSize opts \<longrightarrow>
      (\<exists>wal' pos. walWrite io data wal = (wal', Ok pos) \<and> log_reads opts wal' (h @ [(place_of pos, data)]))) \<and>
    (io_ok io \<longrightarrow> pendingSize wal \<le> SegmentSize opts \<longrightarrow>
      (\<exists>wal' poss. walWriteAll io wal = (wal', Ok poss) \<and> length poss = length (pendingWrites wal) \<and>
        pendingWrites wal' = [] \<and> log_reads opts wal' (h @ zip (map place_of poss) (pendingWrites wal)))) \<and>
    (disk_full io wal \<longrightarrow> int (length data) + 7 \<le> SegmentSize opts \<longrightarrow>
      (\<exists>wal' e. walWrite io data wal = (wal', Err e) \<and> log_reads opts wal' h)) \<and>
    (disk_full io wal \<longrightarrow> pendingSize wal \<le> SegmentSize opts \<longrightarrow> pendingWrites wal \<noteq> [] \<longrightarrow>
      (\<exists>wal' e. walWriteAll io wal = (wal', Err e) \<and> pendingWrites wal' = [] \<and> log_reads opts wal' h))"
proof (intro conjI impI)
  have h: "wal_holds wal h" "woptions wal = opts" using history_holds [OF assms(1)] by simp_all
  have w: "writable io wal" if "io_ok io" for io using that assms(2,3) h(2) by (simp add: writable_def)
  note reads = holds_log_reads [OF _ history_ext [OF assms(1)]]
  show "\<exists>wal' pos. walWrite io data wal = (wal', Ok pos) \<and> log_reads opts wal' (h @ [(place_of pos, data)])"
    if "io_ok io" "int (length data) + 7 \<le> SegmentSize opts"
    by (rule holds_write [OF h(1) w [OF that(1)], of data]) (use that(2) h(2) reads in auto)
  show "\<exists>wal' poss. walWriteAll io wal = (wal', Ok poss) \<and> length poss = length (pendingWrites wal) \<and>
        pendingWrites wal' = [] \<and> log_reads opts wal' (h @ zip (map place_of poss) (pendingWrites wal))"
    if "io_ok io" "pendingSize wal \<le> SegmentSize opts"
    by (rule holds_writeAll [OF h(1) w [OF that(1)]]) (use that(2) h(2) reads in auto)
  show "\<exists>wal' e. walWrite io data wal = (wal', Err e) \<and> log_reads opts wal' h"
    if "disk_full io wal" "int (length data) + 7 \<le> SegmentSize opts"
    by (rule holds_write_failed [OF h(1) that(1), of data]) (use that(2) h(2) reads in auto)
  show "\<exists>wal' e. walWriteAll io wal = (wal', Err e) \<and> pendingWrites wal' = [] \<and> log_reads opts wal' h"
    if "disk_full io wal" "pendingSize wal \<le> SegmentSize opts" "pendingWrites wal \<noteq> []"
    by (rule holds_writeAll_failed [OF h(1) that(1) _ that(3)]) (use that(2) h(2) reads in auto)
qed

theorem log_accepts_witness:
  "\<exists>wal wal' pos. walWrite io_fine [7] wal = (wal', Ok pos) \<and> snd (walRead [] pos wal') = Ok [7] \<and>
     wal_scan 2 [] wal' (NewReader wal') = Ok [(place_of pos, [7])]"
proof -
  obtain wal where w: "wal_history log_opts wal []" "ActiveSegmentID wal = 1" using log_opts_created by auto
  have "ActiveSegmentID wal < - 1" "io_ok io_fine" using w(2) by (simp_all add: one_below_last io_ok_def io_fine_def)
  then obtain wal' pos where "walWrite io_fine [7] wal = (wal', Ok pos)" "reads_as wal' [(place_of pos, [7])]"
    using log_accepts [OF w(1), of io_fine "[7]"] by (auto simp: log_opts_size log_reads_def)
  then show ?thesis by (intro exI [of _ wal] exI [of _ wal'] exI [of _ pos]) (simp add: reads_as_def)
qed

text \<open>
  C35: Every position survives its two encodings, the short one of at most 25 bytes and the one padded to 25.\<close>

theorem position_roundtrip:
  "\<exists>short. Encode pos = Ok short \<and> length short \<le> 25 \<and> DecodeChunkPosition short = Ok (Some pos) \<and>
     EncodeFixedSize pos = Ok (short @ replicate (25 - length short) 0) \<and>
     DecodeChunkPosition (short @ replicate (25 - length short) 0) = Ok (Some pos)"
proof -
  have dec: "DecodeChunkPosition (cp_varints pos @ rest) = Ok (Some pos)" for rest
  proof -
    let ?a = "put_uvarint (ucast (SegmentId pos))" and ?b = "put_uvarint (ucast (BlockNumber pos))"
      and ?c = "put_uvarint (ChunkOffset pos)" and ?d = "put_uvarint (ucast (ChunkSize pos))"
    have "cp_varints pos @ rest = ?a @ ?b @ ?c @ ?d @ rest" by (simp add: cp_varints_def)
    then show ?thesis
      using next_uvarint_at [of "[]" "ucast (SegmentId pos)" "?b @ ?c @ ?d @ rest"]
        next_uvarint_at [of ?a "ucast (BlockNumber pos)" "?c @ ?d @ rest"]
        next_uvarint_at [of "?a @ ?b" "ChunkOffset pos" "?d @ rest"]
        next_uvarint_at [of "?a @ ?b @ ?c" "ucast (ChunkSize pos)" rest]
      by (simp add: DecodeChunkPosition_def ucast_u32 del: uvarint_put)
  qed
  show ?thesis
    using cp_varints_length [of pos] dec [of "[]"] dec by (intro exI [of _ "cp_varints pos"])
      (simp add: Encode_def EncodeFixedSize_def cp_encode_def Let_def maxLen_def)
qed

end
