(* ===== verification/WalRoom.thy ===== *)
theory WalRoom
  imports WalLog
begin

text \<open>
  Room in a log: the ids of its segments, that no two records have one place, how much space a
  number of writes can take, and what a reader sees after a new segment was started.
\<close>

subsection \<open>Ids and places\<close>

lemma holds_ids:
  assumes "wal_holds wal h"
  shows "distinct (walIds wal)" "0 \<notin> set (walIds wal)" "\<forall>i \<in> set (walIds wal). i \<le> ActiveSegmentID wal"
proof -
  obtain logs where l: "wal_ok wal logs" using assms by (auto simp: wal_holds_def)
  have m: "mset (walIds wal) = mset (map fst logs)" by (rule walIds_ok [OF l])
  then have s: "set (walIds wal) = fst ` set logs" by (metis set_map set_mset_mset)
  obtain logs0 k where k: "logs = logs0 @ [(ActiveSegmentID wal, k)]" using wal_ok_active [OF l] unfolding ActiveSegmentID_def by blast
  have so: "sorted_wrt (<) (map fst logs)" "0 \<notin> fst ` set logs" using l by (simp_all add: wal_ok_def)
  have "distinct (map fst logs)" using so(1) by (simp add: strict_sorted_iff)
  then show "distinct (walIds wal)" using m by (metis mset_eq_imp_distinct_iff)
  show "0 \<notin> set (walIds wal)" using so(2) s by simp
  show "\<forall>i \<in> set (walIds wal). i \<le> ActiveSegmentID wal" unfolding s using so(1) k by (auto simp: sorted_wrt_append)
qed

lemma holds_place:
  assumes "wal_holds wal h" "x \<in> set h"
  shows "fst (fst x) \<le> ActiveSegmentID wal"
proof -
  obtain logs where l: "wal_ok wal logs" "h = placed logs" using assms(1) by (auto simp: wal_holds_def)
  have "fst ` set logs = set (walIds wal)" using walIds_ok [OF l(1)] by (metis set_map set_mset_mset)
  then have "fst (fst x) \<in> set (walIds wal)" using assms(2) l(2) by (force simp: placed_def records_def place_at_def)
  then show ?thesis using holds_ids(3) [OF assms(1)] by blast
qed

lemma holds_active: "wal_holds wal h \<Longrightarrow> ActiveSegmentID wal \<noteq> 0"
  using holds_ids(2) [of wal h] by (auto simp: walIds_def ActiveSegmentID_def)

lemma holds_first:
  assumes "wal_holds wal h" "ActiveSegmentID wal = 1"
  shows "walIds wal = [1]"
proof -
  have "i = 1" if "i \<in> set (map fst (olderSegments wal))" for i
  proof -
    have "i \<le> 1" "i \<noteq> 0" using holds_ids(2,3) [OF assms(1)] assms(2) that by (auto simp: walIds_def)
    then have "unat i \<le> 1" "unat i \<noteq> 0" by (simp_all add: word_le_nat_alt unat_eq_zero)
    then have "unat i = unat (1 :: u32)" by simp
    then show ?thesis by (rule word_unat_eq_iff [THEN iffD2])
  qed
  moreover have "1 \<notin> set (map fst (olderSegments wal))"
    using holds_ids(1) [OF assms(1)] assms(2) by (simp add: walIds_def ActiveSegmentID_def)
  ultimately have "map fst (olderSegments wal) = []" by (metis last_in_set)
  then show ?thesis using assms(2) by (simp add: walIds_def ActiveSegmentID_def)
qed

lemma log_from_ascending: "log_from f e l \<Longrightarrow> sorted_wrt (<) (map fst l) \<and> (\<forall>p \<in> fst ` set l. e \<le> p \<and> p < length f)"
proof (induction f e l rule: log_from.induct)
  case (2 f e p d r)
  then obtain e' where e': "p = align e" "stored f p d e'" "log_from f e' r" by auto
  have "e < blockSize + e div blockSize * blockSize" by (rule dividend_less_div_times) (simp add: blockSize_def)
  then have "e \<le> align e" by (simp add: align_def)
  moreover have "p < e'" "e' \<le> length f" using stored_length [OF e'(2)] by simp_all
  ultimately show ?case using "2.IH" [OF e'(3)] e'(1) by fastforce
qed simp

lemma place_at_inj: "place_at i p = place_at j q \<Longrightarrow> p < 2 ^ 45 \<Longrightarrow> q < 2 ^ 45 \<Longrightarrow> i = j \<and> p = q"
proof -
  assume a: "place_at i p = place_at j q" "p < 2 ^ 45" "q < 2 ^ 45"
  have "p div blockSize < 2 ^ 32" "q div blockSize < 2 ^ 32" "p mod blockSize < 2 ^ 64" "q mod blockSize < 2 ^ 64"
    using a(2,3) mod_less_divisor [of blockSize p] mod_less_divisor [of blockSize q]
    by (simp_all add: blockSize_def less_mult_imp_div_less)
  then have "p div blockSize = q div blockSize" "p mod blockSize = q mod blockSize"
    using a(1) by (simp_all add: place_at_def word_unat_eq_iff unat_of_nat)
  then show ?thesis using a(1) by (metis div_mult_mod_eq place_at_def prod.inject)
qed

lemma placed_distinct:
  "distinct (map fst logs) \<Longrightarrow> \<forall>(i, l) \<in> set logs. distinct (map fst l) \<and> (\<forall>p \<in> fst ` set l. p < 2 ^ 45) \<Longrightarrow>
   distinct (map fst (placed logs))"
proof (induction logs)
  case (Cons x logs)
  obtain i l where x: "x = (i, l)" by (cases x)
  have "inj_on (\<lambda>(p, d). place_at i p) (set l)"
  proof (rule inj_onI)
    fix a b assume ab: "a \<in> set l" "b \<in> set l" "(case a of (p, d) \<Rightarrow> place_at i p) = (case b of (p, d) \<Rightarrow> place_at i p)"
    have "fst a < 2 ^ 45" "fst b < 2 ^ 45" using Cons.prems(2) ab x by auto
    then have "fst a = fst b" using ab(3) place_at_inj [of i "fst a" i "fst b"] by (simp add: case_prod_beta)
    then show "a = b" using Cons.prems(2) x ab(1,2) by (auto simp: distinct_map inj_on_def)
  qed
  then have "distinct (map (\<lambda>(p, d). place_at i p) l)"
    using Cons.prems(2) x by (auto simp: distinct_map)
  moreover have "map fst (placed (x # logs)) = map (\<lambda>(p, d). place_at i p) l @ map fst (placed logs)"
    by (simp add: placed_def x comp_def case_prod_beta)
  moreover have "(\<lambda>(p, d). place_at i p) y \<notin> fst ` set (placed logs)" if "y \<in> set l" for y
  proof
    assume "(\<lambda>(p, d). place_at i p) y \<in> fst ` set (placed logs)"
    then obtain j l' q d' where q: "(j, l') \<in> set logs" "(q, d') \<in> set l'" "place_at i (fst y) = place_at j q"
      by (auto simp: placed_def records_def case_prod_beta)
    have "fst y < 2 ^ 45" "q < 2 ^ 45" using Cons.prems(2) that q(1,2) x by force+
    then have "i = j" using place_at_inj [OF q(3)] by simp
    then show False using Cons.prems(1) q(1) x by force
  qed
  then have "set (map (\<lambda>(p, d). place_at i p) l) \<inter> set (map fst (placed logs)) = {}" unfolding set_map by blast
  moreover have "distinct (map fst (placed logs))" using Cons by auto
  ultimately show ?case by (simp only: distinct_append)
qed (simp add: placed_def)

lemma holds_distinct: "wal_holds wal h \<Longrightarrow> distinct (map fst h)"
proof -
  assume "wal_holds wal h"
  then obtain logs where l: "wal_ok wal logs" "h = placed logs" by (auto simp: wal_holds_def)
  have "distinct (map fst l') \<and> (\<forall>p \<in> fst ` set l'. p < 2 ^ 45)" if "(i, l') \<in> set logs" for i l'
    using walFiles_ok [OF l(1) that] log_from_ascending [of "walFiles wal i" 0 l'] by (force simp: strict_sorted_iff)
  then show "distinct (map fst h)"
    unfolding l(2) using l(1) by (intro placed_distinct) (auto simp: wal_ok_def strict_sorted_iff)
qed

subsection \<open>The space of a log\<close>

text \<open>Full segments count with their bound, the active one with its size.\<close>

definition used :: "WAL \<Rightarrow> nat" where
  "used wal = (unat (ActiveSegmentID wal) - 1) * nat (SegmentSize (woptions wal)) + segSize (activeSegment wal)"

definition room_for :: "nat \<Rightarrow> nat" where
  "room_for n = 2 * (2 * n + 21)"

lemma used_active:
  assumes "wal_holds wal h" "used wal < n * nat (SegmentSize (woptions wal))"
  shows "unat (ActiveSegmentID wal) \<le> n"
proof -
  have "(unat (ActiveSegmentID wal) - 1) * nat (SegmentSize (woptions wal)) < n * nat (SegmentSize (woptions wal))"
    using assms(2) unfolding used_def by (rule le_less_trans [rotated]) simp
  then show ?thesis unfolding mult_less_cancel2 by linarith
qed

lemma holds_write_used:
  assumes w: "wal_holds wal h" and i: "ActiveSegmentID wal < - 1" and io: "io_ok io"
    and n: "int (length data) + 7 \<le> SegmentSize (woptions wal)" and nl: "length data < 2 ^ 31"
    and sz: "SegmentSize (woptions wal) \<le> 2 ^ 30 \<or> used wal + room_for (length data) < 2 ^ 45"
  obtains wal' pos where "walWrite io data wal = (wal', Ok pos)" "wal_holds wal' (h @ [(place_of pos, data)])"
    "same_pending wal wal'" "used wal' \<le> used wal + room_for (length data)"
proof -
  let ?n = "int (length data)" and ?S = "nat (SegmentSize (woptions wal))"
  obtain logs where l: "wal_ok wal logs" "h = placed logs" using w by (auto simp: wal_holds_def)
  have d: "0 \<le> ?n div 32768" by simp
  have room: "segSize (activeSegment wal) + 2 * length data + 21 < 2 ^ 45" if f: "\<not> isFull ?n wal"
  proof (cases "SegmentSize (woptions wal) \<le> 2 ^ 30")
    case True
    then show ?thesis using f n d by (simp add: isFull_def maxDataWriteSize_def)
  next
    case False
    then show ?thesis using sz by (simp add: used_def room_for_def)
  qed
  have i': "segId (activeSegment wal) < - 1" using i by (simp add: ActiveSegmentID_def)
  obtain wal' logs' p k where r: "walWrite io data wal = (wal', Ok (pos_at (segId (activeSegment wal')) p k))" "grown wal logs wal' logs'"
    "records logs' = records logs @ [(segId (activeSegment wal'), p, data)]"
    "segSize (activeSegment wal') \<le> (if isFull ?n wal then 0 else segSize (activeSegment wal)) + 2 * length data + 21"
    "segId (activeSegment wal') = segId (activeSegment wal) + (if isFull ?n wal then 1 else 0)"
    by (rule walWrite_size [OF l(1) i' io n nl room])
  have h: "wal_holds wal' (h @ [(place_of (pos_at (segId (activeSegment wal')) p k), data)])"
    using r(2,3) l(2) by (auto simp: grown_def placed_def wal_holds_def)
  have o: "woptions wal' = woptions wal" using r(2) by (simp add: grown_def same_pending_def)
  have "used wal' \<le> used wal + room_for (length data)"
  proof (cases "isFull ?n wal")
    case False
    then show ?thesis using r(4,5) o by (simp add: used_def room_for_def ActiveSegmentID_def)
  next
    case True
    let ?a = "segId (activeSegment wal)"
    have "unat ?a \<noteq> 0" "unat ?a < 2 ^ 32 - 1"
      using holds_active [OF w] i by (simp_all add: ActiveSegmentID_def word_less_nat_alt unsigned_minus_1_eq_mask mask_eq_exp_minus_1 unat_eq_zero)
    then have a: "unat (segId (activeSegment wal')) - 1 = Suc (unat ?a - 1)"
      using r(5) True by (simp add: unat_word_ariths)
    have "?n div 32768 * 7 \<le> ?n" using d by linarith
    then have "?S \<le> segSize (activeSegment wal) + 2 * length data + 14"
      using True by (simp add: isFull_def maxDataWriteSize_def)
    moreover have "segSize (activeSegment wal') \<le> 2 * length data + 21" using r(4) True by simp
    moreover have "S \<le> s + 2 * n + 14 \<Longrightarrow> s' \<le> 2 * n + 21 \<Longrightarrow> S + x + s' \<le> x + s + 2 * (2 * n + 21)" for S s n s' x :: nat
      by simp
    ultimately have "?S + x + segSize (activeSegment wal') \<le> x + segSize (activeSegment wal) + 2 * (2 * length data + 21)" for x
      by blast
    then show ?thesis unfolding used_def room_for_def ActiveSegmentID_def o a mult_Suc .
  qed
  then show ?thesis using that [OF r(1) h] r(2) by (simp add: grown_def)
qed

subsection \<open>A new segment\<close>

lemma holds_new_segment:
  assumes "wal_holds wal h" "writable io wal"
  obtains wal' where "OpenNewActiveSegment io wal = (wal', Ok ())" "same_pending wal wal'"
    "ActiveSegmentID wal' = ActiveSegmentID wal + 1" "reading h wal' (NewReaderWithMax (ActiveSegmentID wal) wal') h"
proof -
  let ?i = "ActiveSegmentID wal"
  obtain logs where l: "wal_ok wal logs" "h = placed logs" using assms(1) by (auto simp: wal_holds_def)
  obtain wal' where r: "replaceActive io wal = (wal', Ok ())" "wal_ok wal' (logs @ [(?i + 1, [])])"
    "same_pending wal wal'" "segId (activeSegment wal') = ?i + 1"
    using replaceActive_ok [OF l(1)] assms(2) unfolding writable_def io_ok_def ActiveSegmentID_def by metis
  have h: "h = placed (logs @ [(?i + 1, [])])" using l(2) by (simp add: placed_def)
  have "\<not> ?i + 1 \<le> ?i" "?i + 1 \<noteq> 0"
    using assms(2) by (simp_all add: writable_def word_le_nat_alt word_less_nat_alt word_unat_eq_iff unat_word_ariths
        unsigned_minus_1_eq_mask mask_eq_exp_minus_1)
  moreover have "\<forall>j \<in> fst ` set logs. j \<le> ?i"
    using holds_ids(3) [OF assms(1)] walIds_ok [OF l(1)] by (metis set_map set_mset_mset)
  ultimately have "filter (\<lambda>(i, l). ?i = 0 \<or> i \<le> ?i) (logs @ [(?i + 1, [] :: (nat \<times> bytes) list)]) = logs"
    using holds_active [OF assms(1)] by (auto intro!: filter_True)
  then have "reader_ok (logs @ [(?i + 1, [])]) wal' (NewReaderWithMax ?i wal') (records logs)"
    using NewReader_ok [OF r(2), of ?i] by simp
  then have "reading h wal' (NewReaderWithMax ?i wal') h"
    unfolding reading_def using h l(2) by (intro exI [of _ "logs @ [(?i + 1, [])]"] exI [of _ "records logs"]) (simp add: placed_def)
  then show ?thesis using that r assms(2) by (simp add: OpenNewActiveSegment_def writable_def io_ok_def ActiveSegmentID_def)
qed

end
