(* ===== verification/DiskvRecord.thy ===== *)
theory DiskvRecord
  imports WalRoom
begin

text \<open>
  The records of the key-value store (\<open>diskv/record.go\<close>): log records, hint records and the record
  that ends a merge, as bytes. The header of a log record is built in an array of 31 bytes and its
  fields are read at an index of type \<open>uint32\<close>; an index or a length outside its slice is a panic.
\<close>

definition LogRecordNormal :: u8 where "LogRecordNormal = 0"
definition LogRecordDeleted :: u8 where "LogRecordDeleted = 1"
definition LogRecordBatchFinished :: u8 where "LogRecordBatchFinished = 2"

lemmas record_types = LogRecordNormal_def LogRecordDeleted_def LogRecordBatchFinished_def

definition maxLogRecordHeaderSize :: nat where "maxLogRecordHeaderSize = 31"

record LogRecord =
  rKey :: bytes
  rValue :: bytes
  rType :: u8
  rBatchId :: u64
  rExpire :: i64

definition IsExpired :: "LogRecord \<Rightarrow> i64 \<Rightarrow> bool" where
  "IsExpired lr now \<longleftrightarrow> 0 <s rExpire lr \<and> rExpire lr \<le>s now"

definition encodeLogRecord :: "LogRecord \<Rightarrow> bytes gores" where
  "encodeLogRecord r =
     (let header = [rType r] @ put_uvarint (rBatchId r) @ put_varint (word_of_nat (length (rKey r))) @
          put_varint (word_of_nat (length (rValue r))) @ put_varint (rExpire r)
      in if maxLogRecordHeaderSize < length header then Panic ''index out of range''
      else Ok (header @ rKey r @ rValue r))"

definition from_index32 :: "bytes \<Rightarrow> u32 \<Rightarrow> bytes gores" where
  "from_index32 buf i = (if length buf < unat i then Panic slice_bounds else Ok (drop (unat i) buf))"

definition next_varint :: "bytes \<Rightarrow> u32 \<Rightarrow> (i64 \<times> u32) gores" where
  "next_varint buf i = go_bind (from_index32 buf i) (\<lambda>bs. case varint bs of (x, n) \<Rightarrow> Ok (x, i + word_of_int n))"

text \<open>
  \<open>make([]byte, size)\<close> and \<open>copy\<close> of the next \<open>size\<close> bytes, the end of the slice computed in 32 bits. A slice
  may reach beyond the length of \<open>buf\<close> up to its capacity: \<open>spare\<close> is what the array holds there.
\<close>

definition copy_field :: "bytes \<Rightarrow> bytes \<Rightarrow> u32 \<Rightarrow> i64 \<Rightarrow> (bytes \<times> u32) gores" where
  "copy_field spare buf i sz =
     (if sz <s 0 then Panic ''makeslice: len out of range''
      else
        let fin = i + ucast sz; arr = buf @ spare in
        if fin < i \<or> length arr < unat fin then Panic slice_bounds
        else let s = take (unat sz) (slice (unat i) (unat fin) arr) in
          Ok (s @ replicate (unat sz - length s) 0, fin))"

definition decodeLogRecord :: "bytes \<Rightarrow> bytes \<Rightarrow> LogRecord gores" where
  "decodeLogRecord spare buf =
     (if buf = [] then Panic ''index out of range''
      else
        go_bind (from_index32 buf 1) (\<lambda>bs.
        case uvarint bs of (batchId, n) \<Rightarrow>
        go_bind (next_varint buf (1 + word_of_int n)) (\<lambda>(keySize, i).
        go_bind (next_varint buf i) (\<lambda>(valueSize, i).
        go_bind (next_varint buf i) (\<lambda>(expire, i).
        go_bind (copy_field spare buf i keySize) (\<lambda>(key, i).
        go_bind (copy_field spare buf i valueSize) (\<lambda>(value, i).
          Ok \<lparr>rKey = key, rValue = value, rType = hd buf, rBatchId = batchId, rExpire = expire\<rparr>)))))))"

text \<open>Hint records: the position and the key.\<close>

definition encodeHintRecord :: "bytes \<Rightarrow> ChunkPosition \<Rightarrow> bytes gores" where
  "encodeHintRecord key pos =
     (let buf = cp_varints pos in if 25 < length buf then Panic ''index out of range'' else Ok (buf @ key))"

definition decodeHintRecord :: "bytes \<Rightarrow> (bytes \<times> ChunkPosition) gores" where
  "decodeHintRecord buf =
     go_bind (next_uvarint buf 0) (\<lambda>(segmentId, idx).
     go_bind (next_uvarint buf idx) (\<lambda>(blockNumber, idx).
     go_bind (next_uvarint buf idx) (\<lambda>(chunkOffset, idx).
     go_bind (next_uvarint buf idx) (\<lambda>(chunkSize, idx).
     go_bind (from_index buf idx) (\<lambda>key.
       Ok (key, \<lparr>SegmentId = ucast segmentId, BlockNumber = ucast blockNumber, ChunkOffset = chunkOffset,
         ChunkSize = ucast chunkSize\<rparr>))))))"

definition encodeMergeFinRecord :: "u32 \<Rightarrow> bytes" where
  "encodeMergeFinRecord segmentId = le_bytes 4 (unat segmentId)"

subsection \<open>Every record is read back\<close>

lemma decodeHintRecord_encode:
  "\<exists>bs. encodeHintRecord key pos = Ok bs \<and> length bs \<le> 25 + length key \<and> decodeHintRecord bs = Ok (key, pos)"
proof -
  let ?a = "put_uvarint (ucast (SegmentId pos))" and ?b = "put_uvarint (ucast (BlockNumber pos))"
    and ?c = "put_uvarint (ChunkOffset pos)" and ?d = "put_uvarint (ucast (ChunkSize pos))"
  have e: "cp_varints pos @ key = ?a @ ?b @ ?c @ ?d @ key" by (simp add: cp_varints_def)
  have "decodeHintRecord (cp_varints pos @ key) = Ok (key, pos)"
    unfolding e
    using next_uvarint_at [of "[]" "ucast (SegmentId pos)" "?b @ ?c @ ?d @ key"]
      next_uvarint_at [of ?a "ucast (BlockNumber pos)" "?c @ ?d @ key"]
      next_uvarint_at [of "?a @ ?b" "ChunkOffset pos" "?d @ key"]
      next_uvarint_at [of "?a @ ?b @ ?c" "ucast (ChunkSize pos)" key]
    by (simp add: decodeHintRecord_def ucast_u32 from_index_def del: uvarint_put)
  then show ?thesis using cp_varints_length [of pos] by (simp add: encodeHintRecord_def Let_def)
qed

lemma length_put_varint: "n < 2 ^ 34 \<Longrightarrow> length (put_varint (word_of_nat n)) \<le> 5"
proof -
  assume n: "n < 2 ^ 34"
  have "\<not> (word_of_nat n :: i64) <s 0"
    using n by (simp add: word_sless_alt signed_of_nat signed_take_bit_int_eq_self)
  moreover have "push_bit 1 (word_of_nat n :: u64) = word_of_nat (n * 2)" by (simp add: push_bit_eq_mult)
  moreover have "unat (word_of_nat (n * 2) :: u64) < 2 ^ (7 * 5)" using n by (simp add: unat_of_nat del: of_nat_mult)
  ultimately show ?thesis unfolding put_varint_def Let_def by (intro length_put_uvarint) simp_all
qed

lemma next_varint_at:
  assumes "length (pre @ put_varint x @ rest) < 2 ^ 32"
  shows "next_varint (pre @ put_varint x @ rest) (word_of_nat (length pre)) = Ok (x, word_of_nat (length (pre @ put_varint x)))"
  using assms by (simp add: next_varint_def from_index32_def unat_of_nat)

lemma copy_field_at:
  assumes "length (pre @ f @ rest) < 2 ^ 32"
  shows "copy_field spare (pre @ f @ rest) (word_of_nat (length pre)) (word_of_nat (length f)) =
    Ok (f, word_of_nat (length (pre @ f)))"
proof -
  have l: "length pre < 2 ^ 32" "length f < 2 ^ 32" "length pre + length f < 2 ^ 32" using assms by simp_all
  have s: "\<not> (word_of_nat (length f) :: i64) <s 0"
    using l by (simp add: word_sless_alt signed_of_nat signed_take_bit_int_eq_self)
  have f: "(word_of_nat (length pre) :: u32) + ucast (word_of_nat (length f) :: i64) = word_of_nat (length pre + length f)"
    using l by (simp add: unsigned_of_nat take_bit_nat_eq_self)
  have u: "unat (word_of_nat (length pre) :: u32) = length pre" "unat (word_of_nat (length pre + length f) :: u32) = length pre + length f"
    "unat (word_of_nat (length f) :: i64) = length f"
    using l by (simp_all add: unat_of_nat del: of_nat_add)
  show ?thesis
    using l unfolding copy_field_def f Let_def by (simp add: s u word_less_nat_alt slice_def del: of_nat_add)
qed

text \<open>A log record whose bytes can be counted in 32 bits.\<close>

definition record_fits :: "LogRecord \<Rightarrow> bool" where
  "record_fits r \<longleftrightarrow> length (rKey r) + length (rValue r) < 2 ^ 32 - 31"

lemma decodeLogRecord_encode:
  assumes "record_fits r"
  obtains bs where "encodeLogRecord r = Ok bs" "length bs \<le> 31 + length (rKey r) + length (rValue r)"
    "\<And>spare. decodeLogRecord spare bs = Ok r"
proof -
  let ?a = "put_uvarint (rBatchId r)" and ?b = "put_varint (word_of_nat (length (rKey r)))"
    and ?c = "put_varint (word_of_nat (length (rValue r)))" and ?d = "put_varint (rExpire r)"
  let ?h = "[rType r] @ ?a @ ?b @ ?c @ ?d" and ?k = "rKey r" and ?v = "rValue r"
  have h: "length ?h \<le> 31"
    using length_put_uvarint_max [of "rBatchId r"] length_put_varint_max [of "rExpire r"]
      length_put_varint [of "length ?k"] length_put_varint [of "length ?v"] assms by (simp add: record_fits_def)
  have e: "encodeLogRecord r = Ok (?h @ ?k @ ?v)" using h by (simp add: encodeLogRecord_def Let_def maxLogRecordHeaderSize_def)
  have l: "length (?h @ ?k @ ?v) < 2 ^ 32" using h assms by (simp add: record_fits_def)
  have b: "?h @ ?k @ ?v = [rType r] @ ?a @ ?b @ ?c @ ?d @ ?k @ ?v" by simp
  have i: "1 + word_of_int (int (length ?a)) = (word_of_nat (length ([rType r] @ ?a)) :: u32)" by simp
  have "decodeLogRecord spare (?h @ ?k @ ?v) = Ok r" for spare
    using l next_varint_at [of "[rType r] @ ?a" "word_of_nat (length ?k)" "?c @ ?d @ ?k @ ?v"]
      next_varint_at [of "[rType r] @ ?a @ ?b" "word_of_nat (length ?v)" "?d @ ?k @ ?v"]
      next_varint_at [of "[rType r] @ ?a @ ?b @ ?c" "rExpire r" "?k @ ?v"]
      copy_field_at [of ?h ?k ?v spare] copy_field_at [of "?h @ ?k" ?v "[]" spare]
    by (simp add: decodeLogRecord_def from_index32_def unat_of_nat add.assoc)
  then show ?thesis using that [OF e] h by simp
qed

text \<open>
  C38: A log record of less than four gigabytes takes at most 31 bytes more than its key and value
  and is read back as it was, whatever the array behind its bytes holds, and so is every hint record.\<close>

theorem records_roundtrip:
  assumes "record_fits r"
  shows "(\<exists>bs. encodeLogRecord r = Ok bs \<and> length bs \<le> 31 + length (rKey r) + length (rValue r) \<and> decodeLogRecord spare bs = Ok r) \<and>
    (\<exists>bs. encodeHintRecord key pos = Ok bs \<and> length bs \<le> 25 + length key \<and> decodeHintRecord bs = Ok (key, pos))"
  using decodeLogRecord_encode [OF assms] decodeHintRecord_encode by metis

theorem records_roundtrip_witness:
  "\<exists>bs. encodeLogRecord \<lparr>rKey = [1], rValue = [2, 3], rType = 0, rBatchId = 4, rExpire = - 1\<rparr> = Ok bs \<and>
     decodeLogRecord [9] bs = Ok \<lparr>rKey = [1], rValue = [2, 3], rType = 0, rBatchId = 4, rExpire = - 1\<rparr>"
  using records_roundtrip [of "\<lparr>rKey = [1], rValue = [2, 3], rType = 0, rBatchId = 4, rExpire = - 1\<rparr>" "[9]"]
  by (auto simp: record_fits_def)

end
