(* ===== verification/DiskvIndex.thy ===== *)
theory DiskvIndex
  imports WalLog
begin

text \<open>
  The index of the key-value store (\<open>diskv/index/btree.go\<close>, \<open>index.go\<close>): an ordered map from keys
  to positions, kept in a B-tree of \<open>github.com/google/btree\<close>. The tree is a parameter of the model,
  a record of the operations that the index calls; \<open>btree_ok\<close> states their documented behaviour over
  the finite map \<open>\<alpha>\<close> that a tree stands for.
\<close>

subsection \<open>The order of the keys\<close>

fun bytes_less :: "bytes \<Rightarrow> bytes \<Rightarrow> bool" where
  "bytes_less [] ys = (ys \<noteq> [])"
| "bytes_less (x # xs) [] = False"
| "bytes_less (x # xs) (y # ys) = (x < y \<or> x = y \<and> bytes_less xs ys)"

lemma bytes_less_irrefl [simp]: "\<not> bytes_less xs xs"
  by (induction xs) auto

lemma bytes_less_trans: "bytes_less xs ys \<Longrightarrow> bytes_less ys zs \<Longrightarrow> bytes_less xs zs"
proof (induction xs ys arbitrary: zs rule: bytes_less.induct)
  case (1 ys)
  then show ?case by (cases ys; cases zs) auto
next
  case (3 x xs y ys)
  then show ?case by (cases zs) auto
qed simp

lemma bytes_less_total: "bytes_less xs ys \<or> xs = ys \<or> bytes_less ys xs"
  by (induction xs ys rule: bytes_less.induct) auto

text \<open>\<open>item.Less\<close>; the second item is never nil here.\<close>

record item =
  itKey :: bytes
  itPos :: ChunkPosition

definition itemLess :: "item \<Rightarrow> item option \<Rightarrow> bool" where
  "itemLess it bi = (case bi of None \<Rightarrow> False | Some b \<Rightarrow> bytes_less (itKey it) (itKey b))"

subsection \<open>The tree\<close>

record 't btree =
  bt_New :: 't
  bt_ReplaceOrInsert :: "item \<Rightarrow> 't \<Rightarrow> 't \<times> item option"
  bt_Get :: "bytes \<Rightarrow> 't \<Rightarrow> item option"
  bt_Delete :: "bytes \<Rightarrow> 't \<Rightarrow> 't \<times> item option"
  bt_Len :: "'t \<Rightarrow> nat"
  bt_Ascend :: "'t \<Rightarrow> item list"
  bt_AscendRange :: "bytes \<Rightarrow> bytes \<Rightarrow> 't \<Rightarrow> item list"
  bt_AscendGreaterOrEqual :: "bytes \<Rightarrow> 't \<Rightarrow> item list"
  bt_Descend :: "'t \<Rightarrow> item list"
  bt_DescendRange :: "bytes \<Rightarrow> bytes \<Rightarrow> 't \<Rightarrow> item list"
  bt_DescendLessOrEqual :: "bytes \<Rightarrow> 't \<Rightarrow> item list"

text \<open>
  The iterators are given by the items that they offer, in their order: \<open>AscendRange a b\<close> those from
  \<open>a\<close> up to but not including \<open>b\<close>, \<open>DescendRange a b\<close> those from \<open>a\<close> down to but not including \<open>b\<close>.
\<close>

definition btree_ok :: "'t btree \<Rightarrow> ('t \<Rightarrow> bytes \<rightharpoonup> item) \<Rightarrow> bool" where
  "btree_ok B \<alpha> \<longleftrightarrow>
     \<alpha> (bt_New B) = Map.empty \<and>
     (\<forall>t k i. \<alpha> t k = Some i \<longrightarrow> itKey i = k) \<and>
     (\<forall>t i. \<alpha> (fst (bt_ReplaceOrInsert B i t)) = (\<alpha> t)(itKey i \<mapsto> i)) \<and>
     (\<forall>t i. snd (bt_ReplaceOrInsert B i t) = \<alpha> t (itKey i)) \<and>
     (\<forall>t k. bt_Get B k t = \<alpha> t k) \<and>
     (\<forall>t k. \<alpha> (fst (bt_Delete B k t)) = (\<alpha> t)(k := None)) \<and>
     (\<forall>t k. snd (bt_Delete B k t) = \<alpha> t k) \<and>
     (\<forall>t. bt_Len B t = card (dom (\<alpha> t))) \<and>
     (\<forall>t. set (bt_Ascend B t) = ran (\<alpha> t) \<and> sorted_wrt bytes_less (map itKey (bt_Ascend B t))) \<and>
     (\<forall>t a b. bt_AscendRange B a b t = filter (\<lambda>i. \<not> bytes_less (itKey i) a \<and> bytes_less (itKey i) b) (bt_Ascend B t)) \<and>
     (\<forall>t a. bt_AscendGreaterOrEqual B a t = filter (\<lambda>i. \<not> bytes_less (itKey i) a) (bt_Ascend B t)) \<and>
     (\<forall>t. bt_Descend B t = rev (bt_Ascend B t)) \<and>
     (\<forall>t a b. bt_DescendRange B a b t = filter (\<lambda>i. \<not> bytes_less a (itKey i) \<and> bytes_less b (itKey i)) (bt_Descend B t)) \<and>
     (\<forall>t a. bt_DescendLessOrEqual B a t = filter (\<lambda>i. \<not> bytes_less a (itKey i)) (bt_Descend B t))"

subsection \<open>The index\<close>

definition idxPut :: "'t btree \<Rightarrow> bytes \<Rightarrow> ChunkPosition \<Rightarrow> 't \<Rightarrow> 't \<times> ChunkPosition option" where
  "idxPut B key position t =
     (case bt_ReplaceOrInsert B \<lparr>itKey = key, itPos = position\<rparr> t of (t, old) \<Rightarrow> (t, map_option itPos old))"

definition idxGet :: "'t btree \<Rightarrow> bytes \<Rightarrow> 't \<Rightarrow> ChunkPosition option" where
  "idxGet B key t = map_option itPos (bt_Get B key t)"

definition idxDelete :: "'t btree \<Rightarrow> bytes \<Rightarrow> 't \<Rightarrow> 't \<times> (ChunkPosition option \<times> bool)" where
  "idxDelete B key t =
     (case bt_Delete B key t of (t, v) \<Rightarrow> (t, (map_option itPos v, v \<noteq> None)))"

definition idxSize :: "'t btree \<Rightarrow> 't \<Rightarrow> nat" where "idxSize B t = bt_Len B t"

text \<open>A handler works on the state of its caller; an error of it or its \<open>false\<close> ends the walk.\<close>

type_synonym 's handler = "bytes \<Rightarrow> ChunkPosition \<Rightarrow> 's \<Rightarrow> 's \<times> bool gores"

fun walk :: "'s handler \<Rightarrow> item list \<Rightarrow> 's \<Rightarrow> 's \<times> unit gores" where
  "walk f [] s = (s, Ok ())"
| "walk f (i # is) s =
     (case f (itKey i) (itPos i) s of
        (s, Ok cont) \<Rightarrow> if cont then walk f is s else (s, Ok ())
      | (s, Err e) \<Rightarrow> (s, Ok ())
      | (s, Panic p) \<Rightarrow> (s, Panic p)
      | (s, Crash p) \<Rightarrow> (s, Crash p))"

definition idxAscend :: "'t btree \<Rightarrow> 's handler \<Rightarrow> 't \<Rightarrow> 's \<Rightarrow> 's \<times> unit gores" where
  "idxAscend B f t = walk f (bt_Ascend B t)"
definition idxDescend :: "'t btree \<Rightarrow> 's handler \<Rightarrow> 't \<Rightarrow> 's \<Rightarrow> 's \<times> unit gores" where
  "idxDescend B f t = walk f (bt_Descend B t)"
definition idxAscendRange :: "'t btree \<Rightarrow> bytes \<Rightarrow> bytes \<Rightarrow> 's handler \<Rightarrow> 't \<Rightarrow> 's \<Rightarrow> 's \<times> unit gores" where
  "idxAscendRange B startKey endKey f t = walk f (bt_AscendRange B startKey endKey t)"
definition idxDescendRange :: "'t btree \<Rightarrow> bytes \<Rightarrow> bytes \<Rightarrow> 's handler \<Rightarrow> 't \<Rightarrow> 's \<Rightarrow> 's \<times> unit gores" where
  "idxDescendRange B startKey endKey f t = walk f (bt_DescendRange B startKey endKey t)"
definition idxAscendGreaterOrEqual :: "'t btree \<Rightarrow> bytes \<Rightarrow> 's handler \<Rightarrow> 't \<Rightarrow> 's \<Rightarrow> 's \<times> unit gores" where
  "idxAscendGreaterOrEqual B key f t = walk f (bt_AscendGreaterOrEqual B key t)"
definition idxDescendLessOrEqual :: "'t btree \<Rightarrow> bytes \<Rightarrow> 's handler \<Rightarrow> 't \<Rightarrow> 's \<Rightarrow> 's \<times> unit gores" where
  "idxDescendLessOrEqual B key f t = walk f (bt_DescendLessOrEqual B key t)"

subsection \<open>The index as a finite map\<close>

definition positions :: "('t \<Rightarrow> bytes \<rightharpoonup> item) \<Rightarrow> 't \<Rightarrow> bytes \<rightharpoonup> ChunkPosition" where
  "positions \<alpha> t k = map_option itPos (\<alpha> t k)"

lemma btree_okD:
  assumes "btree_ok B \<alpha>"
  shows "\<alpha> (bt_New B) = Map.empty" "\<alpha> t k = Some i \<Longrightarrow> itKey i = k"
    "\<alpha> (fst (bt_ReplaceOrInsert B j t)) = (\<alpha> t)(itKey j \<mapsto> j)" "bt_Get B k t = \<alpha> t k"
    "\<alpha> (fst (bt_Delete B k t)) = (\<alpha> t)(k := None)" "set (bt_Ascend B t) = ran (\<alpha> t)"
    "sorted_wrt bytes_less (map itKey (bt_Ascend B t))" "bt_Descend B t = rev (bt_Ascend B t)"
    "bt_AscendRange B a b t = filter (\<lambda>i. \<not> bytes_less (itKey i) a \<and> bytes_less (itKey i) b) (bt_Ascend B t)"
    "bt_AscendGreaterOrEqual B a t = filter (\<lambda>i. \<not> bytes_less (itKey i) a) (bt_Ascend B t)"
    "bt_DescendRange B a b t = filter (\<lambda>i. \<not> bytes_less a (itKey i) \<and> bytes_less b (itKey i)) (bt_Descend B t)"
    "bt_DescendLessOrEqual B a t = filter (\<lambda>i. \<not> bytes_less a (itKey i)) (bt_Descend B t)"
  using assms unfolding btree_ok_def by - (elim conjE, iprover)+

lemma idxGet_positions: "btree_ok B \<alpha> \<Longrightarrow> idxGet B k t = positions \<alpha> t k"
  by (simp add: idxGet_def positions_def btree_okD(4))

lemma idxPut_positions: "btree_ok B \<alpha> \<Longrightarrow> positions \<alpha> (fst (idxPut B k p t)) = (positions \<alpha> t)(k \<mapsto> p)"
  by (simp add: idxPut_def positions_def case_prod_beta btree_okD(3) fun_eq_iff)

lemma idxDelete_positions: "btree_ok B \<alpha> \<Longrightarrow> positions \<alpha> (fst (idxDelete B k t)) = (positions \<alpha> t)(k := None)"
  by (simp add: idxDelete_def positions_def case_prod_beta btree_okD(5) fun_eq_iff)

lemma New_positions: "btree_ok B \<alpha> \<Longrightarrow> positions \<alpha> (bt_New B) = Map.empty"
  by (simp add: positions_def btree_okD(1) fun_eq_iff)

lemma Ascend_positions:
  assumes "btree_ok B \<alpha>"
  shows "positions \<alpha> t k = Some p \<longleftrightarrow> (k, p) \<in> set (map (\<lambda>i. (itKey i, itPos i)) (bt_Ascend B t))"
    and "sorted_wrt bytes_less (map itKey (bt_Ascend B t))"
proof -
  note s = btree_okD(6) [OF assms, of t] and k = btree_okD(2) [OF assms, of t]
  show "positions \<alpha> t k = Some p \<longleftrightarrow> (k, p) \<in> set (map (\<lambda>i. (itKey i, itPos i)) (bt_Ascend B t))"
    using k by (force simp: s positions_def ran_def)
  show "sorted_wrt bytes_less (map itKey (bt_Ascend B t))" by (rule btree_okD(7) [OF assms])
qed

subsection \<open>A tree that meets the contract\<close>

text \<open>A list of items, newest first, that is sorted when it is walked: the tree of the witnesses.\<close>

fun insert_item :: "item \<Rightarrow> item list \<Rightarrow> item list" where
  "insert_item i [] = [i]"
| "insert_item i (j # js) =
     (if bytes_less (itKey i) (itKey j) then i # j # js
      else if itKey i = itKey j then i # js else j # insert_item i js)"

definition items_of :: "item list \<Rightarrow> item list" where
  "items_of t = foldr insert_item t []"

definition find_item :: "item list \<Rightarrow> bytes \<Rightarrow> item option" where
  "find_item t k = List.find (\<lambda>i. itKey i = k) (items_of t)"

definition list_btree :: "item list btree" where
  "list_btree = \<lparr>bt_New = [], bt_ReplaceOrInsert = (\<lambda>i t. (i # t, find_item t (itKey i))),
     bt_Get = (\<lambda>k t. find_item t k), bt_Delete = (\<lambda>k t. (filter (\<lambda>i. itKey i \<noteq> k) t, find_item t k)),
     bt_Len = (\<lambda>t. length (items_of t)), bt_Ascend = items_of,
     bt_AscendRange = (\<lambda>a b t. filter (\<lambda>i. \<not> bytes_less (itKey i) a \<and> bytes_less (itKey i) b) (items_of t)),
     bt_AscendGreaterOrEqual = (\<lambda>a t. filter (\<lambda>i. \<not> bytes_less (itKey i) a) (items_of t)),
     bt_Descend = (\<lambda>t. rev (items_of t)),
     bt_DescendRange = (\<lambda>a b t. filter (\<lambda>i. \<not> bytes_less a (itKey i) \<and> bytes_less b (itKey i)) (rev (items_of t))),
     bt_DescendLessOrEqual = (\<lambda>a t. filter (\<lambda>i. \<not> bytes_less a (itKey i)) (rev (items_of t)))\<rparr>"

lemma insert_item_keys: "itKey ` set (insert_item i s) = insert (itKey i) (itKey ` set s)"
  by (induction s) auto

lemma insert_item_sorted: "sorted_wrt bytes_less (map itKey s) \<Longrightarrow> sorted_wrt bytes_less (map itKey (insert_item i s))"
proof (induction s)
  case (Cons j s)
  have "\<forall>k \<in> itKey ` set (insert_item i s). bytes_less (itKey j) k" if "\<not> bytes_less (itKey i) (itKey j)" "itKey i \<noteq> itKey j"
    using Cons.prems that bytes_less_total [of "itKey i" "itKey j"] by (auto simp: insert_item_keys)
  then show ?case using Cons bytes_less_trans by auto
qed simp

lemma items_sorted: "sorted_wrt bytes_less (map itKey (items_of t))"
  by (induction t) (simp_all add: items_of_def insert_item_sorted)

lemma find_insert: "List.find (\<lambda>j. itKey j = k) (insert_item i s) =
    (if k = itKey i then Some i else List.find (\<lambda>j. itKey j = k) s)"
  by (induction s) auto

lemma find_item_Cons: "find_item (i # t) k = (if k = itKey i then Some i else find_item t k)"
  by (simp add: find_item_def items_of_def find_insert)

lemma filter_insert: "filter (\<lambda>j. itKey j \<noteq> k) (insert_item i s) =
    (if itKey i = k then filter (\<lambda>j. itKey j \<noteq> k) s else insert_item i (filter (\<lambda>j. itKey j \<noteq> k) s))
    \<or> \<not> sorted_wrt bytes_less (map itKey s)"
proof (induction s)
  case (Cons j s)
  have "insert_item i (filter (\<lambda>j. itKey j \<noteq> k) s) = i # filter (\<lambda>j. itKey j \<noteq> k) s"
    if "bytes_less (itKey i) (itKey j)" "sorted_wrt bytes_less (map itKey (j # s))"
  proof (cases "filter (\<lambda>j. itKey j \<noteq> k) s")
    case (Cons x xs)
    then have "x \<in> set s" using filter_is_subset [of "\<lambda>j. itKey j \<noteq> k" s] by auto
    then show ?thesis using that Cons bytes_less_trans by auto
  qed simp
  then show ?case using Cons by auto
qed simp

lemma items_of_filter: "items_of (filter (\<lambda>i. itKey i \<noteq> k) t) = filter (\<lambda>i. itKey i \<noteq> k) (items_of t)"
proof (induction t)
  case (Cons i t)
  have "items_of (i # t) = insert_item i (items_of t)" by (simp add: items_of_def)
  then show ?case using Cons filter_insert [of k i "items_of t"] items_sorted [of t] by (simp add: items_of_def)
qed (simp add: items_of_def)

lemma find_filter: "List.find (\<lambda>j. itKey j = k) (filter (\<lambda>j. itKey j \<noteq> k') s) =
    (if k = k' then None else List.find (\<lambda>j. itKey j = k) s)"
  by (induction s) auto

lemma find_item_key: "find_item t k = Some i \<Longrightarrow> itKey i = k"
  by (simp add: find_item_def find_Some_iff) blast

lemma items_distinct: "distinct (map itKey (items_of t))"
proof -
  have "distinct ks" if "sorted_wrt bytes_less ks" for ks using that by (induction ks) auto
  then show ?thesis using items_sorted by blast
qed

lemma find_item_iff: "find_item t k = Some i \<longleftrightarrow> i \<in> set (items_of t) \<and> itKey i = k"
proof -
  have "distinct (map itKey s) \<Longrightarrow> List.find (\<lambda>j. itKey j = k) s = Some i \<longleftrightarrow> i \<in> set s \<and> itKey i = k" for s
    by (induction s) auto
  then show ?thesis using items_distinct by (simp add: find_item_def)
qed

lemma list_btree_ok: "btree_ok list_btree find_item"
proof -
  have d: "dom (find_item t) = itKey ` set (items_of t)" for t
    using find_item_iff [of t] by (fastforce simp: dom_def)
  have "length (items_of t) = card (dom (find_item t))" for t
    unfolding d using items_distinct [of t] by (metis distinct_card length_map set_map)
  moreover have "set (items_of t) = ran (find_item t)" for t
    using find_item_iff [of t] by (auto simp: ran_def)
  moreover have "find_item [] = Map.empty" by (simp add: find_item_def items_of_def fun_eq_iff)
  moreover have "find_item (i # t) = (find_item t)(itKey i \<mapsto> i)" for i t by (simp add: find_item_Cons fun_eq_iff)
  moreover have "find_item (filter (\<lambda>i. itKey i \<noteq> k) t) = (find_item t)(k := None)" for k t
    by (simp add: find_item_def items_of_filter find_filter fun_eq_iff)
  ultimately show ?thesis
    unfolding btree_ok_def list_btree_def using find_item_key items_sorted by simp
qed

end
