(* ===== verification/DiskvWatch.thy ===== *)
theory DiskvWatch
  imports Prelude
begin

text \<open>
  The queue of the watcher (\<open>diskv/watch.go\<close>): a ring buffer of events that drops the oldest when
  it is full. \<open>Front\<close> and \<open>Back\<close> count modulo the capacity; \<open>uint64\<close> does not overflow, as
  both stay below the capacity. The contract of a bounded queue is a locale; the ring buffer meets it.
\<close>

definition WatchActionPut :: u8 where "WatchActionPut = 0"
definition WatchActionDelete :: u8 where "WatchActionDelete = 1"

record Event =
  evAction :: u8
  evKey :: bytes
  evValue :: bytes
  evBatchId :: u64

record 'e eventQueue =
  eqEvents :: "'e option list"
  eqCapacity :: nat
  eqFront :: nat
  eqBack :: nat

definition NewWatcher :: "nat \<Rightarrow> 'e eventQueue" where
  "NewWatcher capacity = \<lparr>eqEvents = replicate capacity None, eqCapacity = capacity, eqFront = 0, eqBack = 0\<rparr>"

definition eqPush :: "'e \<Rightarrow> 'e eventQueue \<Rightarrow> 'e eventQueue" where
  "eqPush e q = q\<lparr>eqEvents := (eqEvents q)[eqBack q := Some e], eqBack := (eqBack q + 1) mod eqCapacity q\<rparr>"

definition eqIsFull :: "'e eventQueue \<Rightarrow> bool" where
  "eqIsFull q \<longleftrightarrow> (eqBack q + 1) mod eqCapacity q = eqFront q"

definition eqIsEmpty :: "'e eventQueue \<Rightarrow> bool" where
  "eqIsEmpty q \<longleftrightarrow> eqBack q = eqFront q"

definition frontTakeAStep :: "'e eventQueue \<Rightarrow> 'e eventQueue" where
  "frontTakeAStep q = q\<lparr>eqFront := (eqFront q + 1) mod eqCapacity q\<rparr>"

definition eqPop :: "'e eventQueue \<Rightarrow> 'e eventQueue \<times> 'e option" where
  "eqPop q = (frontTakeAStep q, eqEvents q ! eqFront q)"

text \<open>With capacity 0 the watcher does not exist: the store makes one only when the option is positive.\<close>

definition putEvent :: "'e \<Rightarrow> 'e eventQueue \<Rightarrow> 'e eventQueue" where
  "putEvent e q = (let q = eqPush e q in if eqIsFull q then frontTakeAStep q else q)"

definition getEvent :: "'e eventQueue \<Rightarrow> 'e eventQueue \<times> 'e option" where
  "getEvent q = (if eqIsEmpty q then (q, None) else eqPop q)"

subsection \<open>A queue that keeps the newest items\<close>

locale newest_queue =
  fixes holds :: "'q \<Rightarrow> 'e list \<Rightarrow> bool"
    and put :: "'e \<Rightarrow> 'q \<Rightarrow> 'q"
    and get :: "'q \<Rightarrow> 'q \<times> 'e option"
    and room :: "'q \<Rightarrow> nat"
  assumes put_holds: "holds q es \<Longrightarrow> holds (put e q) (drop (length es + 1 - room q) (es @ [e]))"
    and put_room: "holds q es \<Longrightarrow> room (put e q) = room q"
    and get_nil: "holds q [] \<Longrightarrow> get q = (q, None)"
    and get_cons: "holds q (e # es) \<Longrightarrow> \<exists>q'. get q = (q', Some e) \<and> holds q' es \<and> room q' = room q"
    and holds_room: "holds q es \<Longrightarrow> length es \<le> room q"
begin

fun put_all :: "'e list \<Rightarrow> 'q \<Rightarrow> 'q" where
  "put_all [] q = q"
| "put_all (e # es) q = put_all es (put e q)"

lemma put_all_holds:
  "holds q es \<Longrightarrow> holds (put_all fs q) (drop (length es + length fs - room q) (es @ fs)) \<and> room (put_all fs q) = room q"
proof (induction fs arbitrary: q es)
  case Nil
  then show ?case using holds_room by simp
next
  case (Cons f fs)
  let ?es = "drop (length es + 1 - room q) (es @ [f])"
  have h: "holds (put f q) ?es" and r: "room (put f q) = room q" using put_holds put_room Cons.prems by blast+
  have l: "length es \<le> room q" by (rule holds_room [OF Cons.prems])
  have "drop (length ?es + length fs - room q) (?es @ fs) = drop (length es + length (f # fs) - room q) (es @ f # fs)"
  proof (cases "length es < room q")
    case False
    then have "length es = room q" using l by simp
    then show ?thesis by (cases es) auto
  qed simp
  then show ?case using Cons.IH [OF h] r by (metis put_all.simps(2))
qed

text \<open>Gets after puts give the newest items, oldest first, and then none.\<close>

fun get_all :: "nat \<Rightarrow> 'q \<Rightarrow> 'e list" where
  "get_all 0 q = []"
| "get_all (Suc n) q = (case get q of (q, None) \<Rightarrow> [] | (q, Some e) \<Rightarrow> e # get_all n q)"

lemma get_all_holds: "holds q es \<Longrightarrow> length es \<le> n \<Longrightarrow> get_all n q = es"
proof (induction n arbitrary: q es)
  case (Suc n)
  show ?case
  proof (cases es)
    case Nil
    then show ?thesis using Suc.prems get_nil by simp
  next
    case (Cons e es')
    then obtain q' where "get q = (q', Some e)" "holds q' es'" using get_cons Suc.prems by blast
    then show ?thesis using Suc Cons by simp
  qed
qed simp

end

subsection \<open>The ring buffer\<close>

text \<open>The items from \<open>Front\<close> to \<open>Back\<close>; two of the slots stay free between two calls.\<close>

definition ring_holds :: "'e eventQueue \<Rightarrow> 'e list \<Rightarrow> bool" where
  "ring_holds q es \<longleftrightarrow> 0 < eqCapacity q \<and> length (eqEvents q) = eqCapacity q \<and> eqFront q < eqCapacity q \<and>
     eqBack q = (eqFront q + length es) mod eqCapacity q \<and> length es \<le> eqCapacity q - 2 \<and>
     (\<forall>i < length es. eqEvents q ! ((eqFront q + i) mod eqCapacity q) = Some (es ! i))"

definition ring_room :: "'e eventQueue \<Rightarrow> nat" where
  "ring_room q = eqCapacity q - 2"

lemma wrap: "f < c \<Longrightarrow> i \<le> c \<Longrightarrow> (f + i) mod c = (if f + i < c then f + i else f + i - c)" for f c i :: nat
  by (auto simp: mod_if)

lemma ring_put:
  assumes q: "ring_holds q es"
  shows "ring_holds (putEvent e q) (drop (length es + 1 - ring_room q) (es @ [e])) \<and> ring_room (putEvent e q) = ring_room q"
proof -
  let ?c = "eqCapacity q" and ?f = "eqFront q" and ?n = "length es"
  have c: "0 < ?c" "length (eqEvents q) = ?c" "?f < ?c" "eqBack q = (?f + ?n) mod ?c" "?n \<le> ?c - 2"
    and at: "\<And>i. i < ?n \<Longrightarrow> eqEvents q ! ((?f + i) mod ?c) = Some (es ! i)"
    using q by (simp_all add: ring_holds_def)
  define ev where "ev = (eqEvents q)[eqBack q := Some e]"
  have len: "length ev = ?c" using c(2) by (simp add: ev_def)
  have p: "eqPush e q = q\<lparr>eqEvents := ev, eqBack := (?f + (?n + 1)) mod ?c\<rparr>"
    using c(4) by (simp add: eqPush_def ev_def mod_Suc_eq)
  have full: "(?f + (?n + 1) + 1) mod ?c = ?f \<longleftrightarrow> ?n + 2 \<ge> ?c"
  proof (cases "?c = 1")
    case False
    then show ?thesis using c wrap [of ?f ?c "?n + 2"] by auto
  qed (use c in simp)
  have ev: "ev ! ((?f + i) mod ?c) = Some ((es @ [e]) ! i)" if "i < ?n + 1" "2 \<le> ?c" for i
  proof (cases "i = ?n")
    case True
    then show ?thesis using c by (simp add: ev_def)
  next
    case False
    then have "(?f + i) mod ?c \<noteq> (?f + ?n) mod ?c"
      using that c wrap [of ?f ?c i] wrap [of ?f ?c ?n] by (auto split: if_splits)
    then show ?thesis using False that at [of i] c(4) by (simp add: ev_def nth_append)
  qed
  show ?thesis
  proof (cases "?n + 2 < ?c")
    case True
    then have "putEvent e q = q\<lparr>eqEvents := ev, eqBack := (?f + (?n + 1)) mod ?c\<rparr>"
      using full by (simp add: putEvent_def p eqIsFull_def mod_Suc_eq)
    then show ?thesis using True c len ev by (simp add: ring_holds_def ring_room_def)
  next
    case False
    then have pe: "putEvent e q = q\<lparr>eqEvents := ev, eqBack := (?f + (?n + 1)) mod ?c, eqFront := (?f + 1) mod ?c\<rparr>"
      using full by (simp add: putEvent_def p eqIsFull_def frontTakeAStep_def mod_Suc_eq)
    show ?thesis
    proof (cases "2 \<le> ?c")
      case True
      then have n: "?n + 2 = ?c" using False c(5) by simp
      define es' where "es' = drop 1 (es @ [e])"
      have es': "length es' = ?n" "drop (?n + 1 - ring_room q) (es @ [e]) = es'"
        using n by (simp_all add: es'_def ring_room_def)
      have "ev ! (((?f + 1) mod ?c + i) mod ?c) = Some (es' ! i)" if "i < ?n" for i
      proof -
        have "((?f + 1) mod ?c + i) mod ?c = (?f + (i + 1)) mod ?c" by (simp add: mod_add_left_eq)
        moreover have "es' ! i = (es @ [e]) ! (i + 1)" unfolding es'_def by (subst nth_drop) auto
        ultimately show ?thesis using ev [of "i + 1"] that True by (simp only:)
      qed
      moreover have "(?f + (?n + 1)) mod ?c = ((?f + 1) mod ?c + ?n) mod ?c" by (simp add: mod_add_left_eq)
      ultimately show ?thesis using n c len True unfolding es'(2)
        by (simp add: pe ring_holds_def ring_room_def es'(1))
    next
      case c1: False
      then have "?c = 1" "es = []" using c by auto
      then show ?thesis using len by (simp add: pe ring_holds_def ring_room_def)
    qed
  qed
qed

lemma ring_get_nil: "ring_holds q [] \<Longrightarrow> getEvent q = (q, None)"
  by (simp add: getEvent_def eqIsEmpty_def ring_holds_def)

lemma ring_get_cons:
  assumes q: "ring_holds q (e # es)"
  shows "\<exists>q'. getEvent q = (q', Some e) \<and> ring_holds q' es \<and> ring_room q' = ring_room q"
proof -
  let ?c = "eqCapacity q" and ?f = "eqFront q" and ?n = "length es"
  have c: "0 < ?c" "length (eqEvents q) = ?c" "?f < ?c" "eqBack q = (?f + (?n + 1)) mod ?c" "?n + 1 \<le> ?c - 2"
    and at: "\<And>i. i < ?n + 1 \<Longrightarrow> eqEvents q ! ((?f + i) mod ?c) = Some ((e # es) ! i)"
    using q by (simp_all add: ring_holds_def)
  have "eqBack q \<noteq> ?f" using c wrap [of ?f ?c "?n + 1"] by (auto split: if_splits)
  moreover have "eqEvents q ! ?f = Some e" using at [of 0] c by simp
  moreover have "eqEvents q ! (((?f + 1) mod ?c + i) mod ?c) = Some (es ! i)" if "i < ?n" for i
    using at [of "i + 1"] that by (simp add: mod_add_left_eq)
  moreover have "(?f + (?n + 1)) mod ?c = ((?f + 1) mod ?c + ?n) mod ?c" by (simp add: mod_add_left_eq)
  ultimately show ?thesis using c
    by (simp add: getEvent_def eqIsEmpty_def eqPop_def frontTakeAStep_def ring_holds_def ring_room_def)
qed

interpretation watch: newest_queue ring_holds putEvent getEvent ring_room
proof unfold_locales
  fix q :: "'a eventQueue" and es :: "'a list" and e :: 'a
  show "ring_holds q es \<Longrightarrow> ring_holds (putEvent e q) (drop (length es + 1 - ring_room q) (es @ [e]))"
    by (rule ring_put [THEN conjunct1])
  show "ring_holds q es \<Longrightarrow> ring_room (putEvent e q) = ring_room q" by (rule ring_put [THEN conjunct2])
  show "ring_holds q es \<Longrightarrow> length es \<le> ring_room q" by (simp add: ring_holds_def ring_room_def)
  show "ring_holds q [] \<Longrightarrow> getEvent q = (q, None)" by (rule ring_get_nil)
  show "ring_holds q (e # es) \<Longrightarrow> \<exists>q'. getEvent q = (q', Some e) \<and> ring_holds q' es \<and> ring_room q' = ring_room q"
    by (rule ring_get_cons)
qed

fun putEvents :: "'e list \<Rightarrow> 'e eventQueue \<Rightarrow> 'e eventQueue" where
  "putEvents [] q = q"
| "putEvents (e # es) q = putEvents es (putEvent e q)"

fun getEvents :: "nat \<Rightarrow> 'e eventQueue \<Rightarrow> 'e list" where
  "getEvents 0 q = []"
| "getEvents (Suc n) q = (case getEvent q of (q, None) \<Rightarrow> [] | (q, Some e) \<Rightarrow> e # getEvents n q)"

lemma putEvents_all: "putEvents es q = watch.put_all es q"
  by (induction es arbitrary: q) auto

lemma getEvents_all: "getEvents n q = watch.get_all n q"
  by (induction n arbitrary: q) (auto split: prod.splits option.splits)

text \<open>
  C40: A new watcher gives the newest of the events that were put, oldest first, as many as two less
  than its capacity; with a capacity of one or two it gives none.\<close>

theorem watcher_keeps_newest:
  assumes "0 < capacity" "length es \<le> n"
  shows "getEvents n (putEvents es (NewWatcher capacity)) = drop (length es - (capacity - 2)) es"
proof -
  let ?q = "NewWatcher capacity :: 'a eventQueue"
  have q: "ring_holds ?q []" "ring_room ?q = capacity - 2"
    using assms(1) by (simp_all add: NewWatcher_def ring_holds_def ring_room_def)
  have "ring_holds (putEvents es ?q) (drop (length es - (capacity - 2)) es)"
    using watch.put_all_holds [OF q(1), of es] q(2) by (simp add: putEvents_all)
  then show ?thesis unfolding getEvents_all by (rule watch.get_all_holds) (use assms(2) in simp)
qed

theorem watcher_keeps_newest_witness:
  "getEvents 5 (putEvents [1, 2, 3, 4, 5 :: nat] (NewWatcher 4)) = [4, 5]"
  using watcher_keeps_newest [of 4 "[1, 2, 3, 4, 5 :: nat]" 5] by simp

end
