(* ===== verification/Snowflake.thy ===== *)
theory Snowflake
  imports GoStrconv GoBytes "HOL-Library.Char_ord"
begin

unbundle bit_operations_syntax

text \<open>
  Unique ids (\<open>pkg/snowflake/snowflake.go\<close>): a time in milliseconds, a node number of 10 bits and a
  step of 12 bits in an \<open>int64\<close>. The clock is the list of the values that the calls to
  \<open>time.Since(n.epoch).Milliseconds()\<close> give; \<open>Generate\<close> takes as many of them as it reads and is
  \<open>None\<close> when it would wait beyond the list. The texts of an id go through \<open>strconv\<close> or through
  tables of 32 and 58 letters.
\<close>

subsection \<open>Integers in a base\<close>

definition digit_char :: "nat \<Rightarrow> char" where
  "digit_char d = (if d < 10 then char_of (48 + d) else char_of (87 + d))"

text \<open>The digits of a number, the least first.\<close>

function digits_of :: "nat \<Rightarrow> nat \<Rightarrow> nat list" where
  "digits_of b n = (if n < b \<or> b < 2 then [n] else (n mod b) # digits_of b (n div b))"
  by pat_completeness auto
termination by (relation "measure (\<lambda>(b, n). n)") auto

declare digits_of.simps [simp del]

definition FormatInt :: "int \<Rightarrow> nat \<Rightarrow> string" where
  "FormatInt i b = (if i < 0 then ''-'' else []) @ rev (map digit_char (digits_of b (nat \<bar>i\<bar>)))"

definition base_digit :: "nat \<Rightarrow> char \<Rightarrow> nat option" where
  "base_digit b c =
     (let n = of_char c;
          d = (if 48 \<le> n \<and> n \<le> 57 then n - 48 else if 97 \<le> n \<and> n \<le> 122 then n - 87
               else if 65 \<le> n \<and> n \<le> 90 then n - 55 else 36)
      in if d < b then Some d else None)"

fun base_val :: "nat \<Rightarrow> nat \<Rightarrow> string \<Rightarrow> nat option" where
  "base_val b acc [] = Some acc"
| "base_val b acc (c # cs) =
     (case base_digit b c of None \<Rightarrow> None | Some d \<Rightarrow> base_val b (acc * b + d) cs)"

definition ParseIntBase :: "string \<Rightarrow> nat \<Rightarrow> i64 gores" where
  "ParseIntBase s b =
     (let (neg, ds) = split_sign s in
      if ds = [] then Err ''invalid syntax''
      else case base_val b 0 ds of None \<Rightarrow> Err ''invalid syntax''
        | Some n \<Rightarrow>
            if (if neg then n \<le> 2 ^ 63 else n < 2 ^ 63)
            then Ok (word_of_int (if neg then - int n else int n)) else Err ''value out of range'')"

subsection \<open>Generating\<close>

definition NodeBits :: nat where "NodeBits = 10"
definition StepBits :: nat where "StepBits = 12"
definition Epoch :: i64 where "Epoch = 1288834974657"

record snowNode =
  snTime :: i64
  snNode :: i64
  snStep :: i64

definition NewNode :: "i64 \<Rightarrow> snowNode gores" where
  "NewNode node =
     (if node <s 0 \<or> mask NodeBits <s node then Err ''Node number must be between 0 and 1023''
      else Ok \<lparr>snTime = 0, snNode = node, snStep = 0\<rparr>)"

text \<open>The wait for the next millisecond, once the steps of this one are used up.\<close>

fun wait_after :: "i64 \<Rightarrow> i64 list \<Rightarrow> (i64 \<times> i64 list) option" where
  "wait_after t [] = None"
| "wait_after t (now # clock) = (if now \<le>s t then wait_after t clock else Some (now, clock))"

definition compose_id :: "i64 \<Rightarrow> snowNode \<Rightarrow> i64" where
  "compose_id now n = push_bit (NodeBits + StepBits) now OR push_bit StepBits (snNode n) OR snStep n"

definition snGenerate :: "snowNode \<Rightarrow> i64 list \<Rightarrow> (snowNode \<times> i64 list \<times> i64) option" where
  "snGenerate n clock =
     (case clock of [] \<Rightarrow> None
      | now # clock \<Rightarrow>
          let fin = (\<lambda>n now clock. Some (n\<lparr>snTime := now\<rparr>, clock, compose_id now n)) in
          if now = snTime n then
            let n = n\<lparr>snStep := (snStep n + 1) AND mask StepBits\<rparr> in
            if snStep n = 0
            then (case wait_after (snTime n) clock of None \<Rightarrow> None | Some (now, clock) \<Rightarrow> fin n now clock)
            else fin n now clock
          else fin (n\<lparr>snStep := 0\<rparr>) now clock)"

definition ID_Time :: "i64 \<Rightarrow> i64" where "ID_Time f = signed_drop_bit (NodeBits + StepBits) f + Epoch"
definition ID_Node :: "i64 \<Rightarrow> i64" where
  "ID_Node f = signed_drop_bit StepBits (f AND push_bit StepBits (mask NodeBits))"
definition ID_Step :: "i64 \<Rightarrow> i64" where "ID_Step f = f AND mask StepBits"

subsection \<open>Texts\<close>

definition ID_String :: "i64 \<Rightarrow> string" where "ID_String f = FormatInt (sint f) 10"
definition ID_Base2 :: "i64 \<Rightarrow> string" where "ID_Base2 f = FormatInt (sint f) 2"
definition ID_Base36 :: "i64 \<Rightarrow> string" where "ID_Base36 f = FormatInt (sint f) 36"
definition ParseString :: "string \<Rightarrow> i64 gores" where "ParseString s = ParseIntBase s 10"
definition ParseBase2 :: "string \<Rightarrow> i64 gores" where "ParseBase2 s = ParseIntBase s 2"
definition ParseBase36 :: "string \<Rightarrow> i64 gores" where "ParseBase36 s = ParseIntBase s 36"

definition ID_Bytes :: "i64 \<Rightarrow> bytes" where "ID_Bytes f = str_bytes (ID_String f)"
definition ParseBytes :: "bytes \<Rightarrow> i64 gores" where "ParseBytes bs = ParseIntBase (bytes_str bs) 10"

definition encodeBase32Map :: string where "encodeBase32Map = ''ybndrfg8ejkmcpqxot1uwisza345h769''"
definition encodeBase58Map :: string where
  "encodeBase58Map = ''123456789abcdefghijkmnopqrstuvwxyzABCDEFGHJKLMNPQRSTUVWXYZ''"

text \<open>\<open>Base32\<close> and \<open>Base58\<close> differ in their tables; a negative id is an index out of range.\<close>

definition encode_with :: "string \<Rightarrow> i64 \<Rightarrow> string gores" where
  "encode_with tab f =
     (if f <s 0 then Panic ''index out of range''
      else Ok (rev (map (nth tab) (digits_of (length tab) (unat f)))))"

fun table_index :: "char \<Rightarrow> string \<Rightarrow> nat option" where
  "table_index c [] = None"
| "table_index c (x # xs) = (if x = c then Some 0 else map_option Suc (table_index c xs))"

fun decode_with :: "string \<Rightarrow> i64 \<Rightarrow> string \<Rightarrow> i64 option" where
  "decode_with tab acc [] = Some acc"
| "decode_with tab acc (c # cs) =
     (case table_index c tab of None \<Rightarrow> None
      | Some d \<Rightarrow> decode_with tab (acc * word_of_nat (length tab) + word_of_nat d) cs)"

definition ID_Base32 :: "i64 \<Rightarrow> string gores" where "ID_Base32 = encode_with encodeBase32Map"
definition ID_Base58 :: "i64 \<Rightarrow> string gores" where "ID_Base58 = encode_with encodeBase58Map"
definition ParseBase32 :: "string \<Rightarrow> i64 gores" where
  "ParseBase32 s = (case decode_with encodeBase32Map 0 s of None \<Rightarrow> Err ''invalid base32'' | Some i \<Rightarrow> Ok i)"
definition ParseBase58 :: "string \<Rightarrow> i64 gores" where
  "ParseBase58 s = (case decode_with encodeBase58Map 0 s of None \<Rightarrow> Err ''invalid base58'' | Some i \<Rightarrow> Ok i)"

definition IntBytes :: "i64 \<Rightarrow> bytes" where "IntBytes f = be_bytes 8 (unat f)"
definition ParseIntBytes :: "bytes \<Rightarrow> i64" where "ParseIntBytes b = word_of_nat (be_val b)"

text \<open>
  \<open>Base64\<close> is \<open>base64.StdEncoding\<close> of the decimal text: groups of three bytes as four letters of six bits,
  padded with \<open>=\<close>. The decoder passes over line breaks, takes padding only at the end, and does not look at
  the bits that padding leaves over.
\<close>

definition encodeStd :: string where
  "encodeStd = ''ABCDEFGHIJKLMNOPQRSTUVWXYZabcdefghijklmnopqrstuvwxyz0123456789+/''"

definition b64_letter :: "nat \<Rightarrow> char" where
  "b64_letter n = encodeStd ! (n mod 64)"

fun b64_encode :: "bytes \<Rightarrow> string" where
  "b64_encode [] = []"
| "b64_encode [a] = (let v = unat a * 65536 in [b64_letter (v div 262144), b64_letter (v div 4096), CHR ''='', CHR ''=''])"
| "b64_encode [a, b] = (let v = unat a * 65536 + unat b * 256 in
     [b64_letter (v div 262144), b64_letter (v div 4096), b64_letter (v div 64), CHR ''=''])"
| "b64_encode (a # b # c # r) = (let v = unat a * 65536 + unat b * 256 + unat c in
     [b64_letter (v div 262144), b64_letter (v div 4096), b64_letter (v div 64), b64_letter v] @ b64_encode r)"

definition b64_corrupt :: string where
  "b64_corrupt = ''illegal base64 data''"

fun b64_quanta :: "string \<Rightarrow> bytes gores" where
  "b64_quanta [] = Ok []"
| "b64_quanta (a # b # c # d # r) =
     (case (table_index a encodeStd, table_index b encodeStd) of
        (Some w, Some x) \<Rightarrow>
          let v = w * 262144 + x * 4096 in
          if c = CHR ''='' then (if d = CHR ''='' \<and> r = [] then Ok [word_of_nat (v div 65536)] else Err b64_corrupt)
          else (case table_index c encodeStd of
              None \<Rightarrow> Err b64_corrupt
            | Some y \<Rightarrow>
                let v = v + y * 64 in
                if d = CHR ''='' then (if r = [] then Ok [word_of_nat (v div 65536), word_of_nat (v div 256)] else Err b64_corrupt)
                else (case table_index d encodeStd of
                    None \<Rightarrow> Err b64_corrupt
                  | Some z \<Rightarrow>
                      let v = v + z in
                      go_bind (b64_quanta r) (\<lambda>bs.
                        Ok ([word_of_nat (v div 65536), word_of_nat (v div 256), word_of_nat v] @ bs))))
      | _ \<Rightarrow> Err b64_corrupt)"
| "b64_quanta _ = Err b64_corrupt"

definition b64_decode :: "string \<Rightarrow> bytes gores" where
  "b64_decode s = b64_quanta (filter (\<lambda>c. c \<noteq> CHR 0x0A \<and> c \<noteq> CHR 0x0D) s)"

definition ID_Base64 :: "i64 \<Rightarrow> string" where "ID_Base64 f = b64_encode (ID_Bytes f)"
definition ParseBase64 :: "string \<Rightarrow> i64 gores" where "ParseBase64 s = go_bind (b64_decode s) ParseBytes"

text \<open>The JSON text is the decimal one in quotes; reading it sets the receiver.\<close>

definition ID_MarshalJSON :: "i64 \<Rightarrow> bytes" where
  "ID_MarshalJSON f = str_bytes ([CHR 0x22] @ FormatInt (sint f) 10 @ [CHR 0x22])"

definition ID_UnmarshalJSON :: "bytes \<Rightarrow> i64 \<Rightarrow> i64 \<times> unit gores" where
  "ID_UnmarshalJSON b f =
     (if length b < 3 \<or> hd b \<noteq> 0x22 \<or> last b \<noteq> 0x22 then (f, Err ''invalid snowflake ID'')
      else st_bind (f, ParseIntBase (bytes_str (butlast (tl b))) 10) (\<lambda>_ i. (i, Ok ())))"

subsection \<open>Every text of an id is read back\<close>

lemma digits_of_rec: "2 \<le> b \<Longrightarrow> digits_of b n = (if n < b then [n] else (n mod b) # digits_of b (n div b))"
  by (subst digits_of.simps) auto

lemma digits_of_ne [simp]: "digits_of b n \<noteq> []"
  by (subst digits_of.simps) auto

lemma digits_bound: "2 \<le> b \<Longrightarrow> d \<in> set (digits_of b n) \<Longrightarrow> d < b"
proof (induction n rule: less_induct)
  case (less n)
  have "digits_of b n = (if n < b then [n] else (n mod b) # digits_of b (n div b))" by (rule digits_of_rec [OF less.prems(1)])
  then show ?case using less.IH [of "n div b"] less.prems by (auto split: if_splits)
qed

fun digits_val :: "nat \<Rightarrow> nat list \<Rightarrow> nat" where
  "digits_val b [] = 0"
| "digits_val b (d # ds) = d + b * digits_val b ds"

lemma digits_val_of [simp]: "2 \<le> b \<Longrightarrow> digits_val b (digits_of b n) = n"
proof (induction n rule: less_induct)
  case (less n)
  then show ?case using less.IH [of "n div b"] by (subst digits_of_rec) auto
qed

lemma char_code: "n < 256 \<Longrightarrow> of_char (char_of n :: char) = (n :: nat)"
  by simp

lemma base_digit_char: "d < b \<Longrightarrow> b \<le> 36 \<Longrightarrow> base_digit b (digit_char d) = Some d"
  by (simp add: base_digit_def digit_char_def Let_def char_code)

lemma base_val_snoc: "base_val b acc (s @ [c]) =
    (case base_val b acc s of None \<Rightarrow> None | Some n \<Rightarrow> map_option (\<lambda>d. n * b + d) (base_digit b c))"
  by (induction s arbitrary: acc) (auto split: option.splits)

lemma base_val_rev: "\<forall>d \<in> set ds. d < b \<Longrightarrow> b \<le> 36 \<Longrightarrow>
    base_val b 0 (rev (map digit_char ds)) = Some (digits_val b ds)"
  by (induction ds) (auto simp: base_val_snoc base_digit_char)

lemma digit_char_sign: "d < 36 \<Longrightarrow> digit_char d \<noteq> CHR ''+'' \<and> digit_char d \<noteq> CHR ''-''"
  by (auto simp: digit_char_def dest: arg_cong [where f = "of_char :: char \<Rightarrow> nat"])

lemma ParseIntBase_Format:
  assumes "2 \<le> b" "b \<le> 36" "- (2 ^ 63) \<le> i" "i < 2 ^ 63"
  shows "ParseIntBase (FormatInt i b) b = Ok (word_of_int i)"
proof -
  let ?n = "nat \<bar>i\<bar>" and ?ds = "digits_of b (nat \<bar>i\<bar>)"
  let ?s = "rev (map digit_char ?ds)"
  have v: "base_val b 0 ?s = Some ?n"
    using assms(1,2) digits_bound [of b _ ?n] by (subst base_val_rev) auto
  have "last ?ds < 36" using assms(1,2) digits_bound [of b "last ?ds" ?n] by auto
  then obtain c cs where c: "?s = c # cs" "c \<noteq> CHR ''+''" "c \<noteq> CHR ''-''"
    using digit_char_sign [of "last ?ds"] by (cases ?ds rule: rev_cases) auto
  have sgn: "split_sign (FormatInt i b) = (i < 0, ?s)"
    unfolding FormatInt_def c(1) by (simp add: split_sign_def c(2,3))
  show ?thesis
    unfolding ParseIntBase_def sgn Let_def prod.case using v assms(3,4) c(1) by (auto simp: nat_le_iff)
qed

lemma sint_range: "- (2 ^ 63) \<le> sint (f :: i64)" "sint (f :: i64) < 2 ^ 63"
  using sint_greater_eq [of f] sint_less [of f] by simp_all

lemma table_index_nth: "distinct tab \<Longrightarrow> d < length tab \<Longrightarrow> table_index (tab ! d) tab = Some d"
proof (induction tab arbitrary: d)
  case (Cons x tab)
  then show ?case by (cases d) auto
qed simp

lemma decode_snoc: "decode_with tab acc (s @ [c]) =
    (case decode_with tab acc s of None \<Rightarrow> None
     | Some n \<Rightarrow> map_option (\<lambda>d. n * word_of_nat (length tab) + word_of_nat d) (table_index c tab))"
  by (induction s arbitrary: acc) (auto split: option.splits)

lemma decode_rev:
  "distinct tab \<Longrightarrow> \<forall>d \<in> set ds. d < length tab \<Longrightarrow>
   decode_with tab 0 (rev (map (nth tab) ds)) = Some (word_of_nat (digits_val (length tab) ds))"
  by (induction ds) (auto simp: decode_snoc table_index_nth algebra_simps)

lemma decode_encode:
  assumes "distinct tab" "2 \<le> length tab" "\<not> f <s 0"
  shows "\<exists>s. encode_with tab f = Ok s \<and> decode_with tab 0 s = Some f"
  using assms digits_bound [OF assms(2)] decode_rev [OF assms(1), of "digits_of (length tab) (unat f)"]
  by (simp add: encode_with_def)

lemma tables: "distinct encodeBase32Map" "length encodeBase32Map = 32" "distinct encodeBase58Map" "length encodeBase58Map = 58"
  by (simp_all add: encodeBase32Map_def encodeBase58Map_def)

lemma encodeStd: "distinct encodeStd" "length encodeStd = 64" "\<forall>c \<in> set encodeStd. c \<noteq> CHR ''='' \<and> c \<noteq> CHR 0x0A \<and> c \<noteq> CHR 0x0D"
  by (simp_all add: encodeStd_def)

lemma b64_letter: "table_index (b64_letter n) encodeStd = Some (n mod 64)" "b64_letter n \<noteq> CHR ''=''"
  "b64_letter n \<noteq> CHR 0x0A" "b64_letter n \<noteq> CHR 0x0D"
  using encodeStd nth_mem [of "n mod 64" encodeStd] by (auto simp: b64_letter_def table_index_nth)

text \<open>Four digits of six bits.\<close>

lemma six_bits: "(v :: nat) < 16777216 \<Longrightarrow>
    (v div 262144) mod 64 * 262144 + (v div 4096) mod 64 * 4096 + (v div 64) mod 64 * 64 + v mod 64 = v"
proof -
  assume v: "v < 16777216"
  have "v div 262144 < 64" using v by (simp add: less_mult_imp_div_less)
  then have a: "(v div 262144) mod 64 = v div 262144" by simp
  have "v = v div 64 * 64 + v mod 64" by simp
  moreover have "v div 64 = v div 4096 * 64 + (v div 64) mod 64"
    using div_mult_mod_eq [of "v div 64" 64] by (simp add: div_mult2_eq [symmetric])
  moreover have "v div 4096 = v div 262144 * 64 + (v div 4096) mod 64"
    using div_mult_mod_eq [of "v div 4096" 64] by (simp add: div_mult2_eq [symmetric])
  ultimately show ?thesis unfolding a by linarith
qed

lemma low_bits: "(v :: nat) mod 64 = 0 \<Longrightarrow> (v div 64) mod 64 = 0 \<Longrightarrow> v < 16777216 \<Longrightarrow>
    (v div 262144) mod 64 * 262144 + (v div 4096) mod 64 * 4096 = v"
  "(v :: nat) mod 64 = 0 \<Longrightarrow> v < 16777216 \<Longrightarrow>
    (v div 262144) mod 64 * 262144 + (v div 4096) mod 64 * 4096 + (v div 64) mod 64 * 64 = v"
  using six_bits [of v] by simp_all

lemma three_bytes:
  fixes a b c :: u8
  defines "v \<equiv> unat a * 65536 + unat b * 256 + unat c"
  shows "v < 16777216" "word_of_nat (v div 65536) = a" "word_of_nat (v div 256) = b" "word_of_nat v = c"
proof -
  note l = unsigned_less [of a, where ?'a = nat, simplified] unsigned_less [of b, where ?'a = nat, simplified]
    unsigned_less [of c, where ?'a = nat, simplified]
  show "v < 16777216" using l by (simp add: v_def)
  have e: "v div 65536 = unat a" "v div 256 = unat a * 256 + unat b" "v = (unat a * 256 + unat b) * 256 + unat c"
    using l by (simp_all add: v_def)
  have m: "(word_of_nat (k * 256 + unat x) :: u8) = x" for k and x :: u8
  proof -
    have "unat x < 256" using unsigned_less [of x, where ?'a = nat] by simp
    then have "unat (word_of_nat (k * 256 + unat x) :: u8) = unat x" by (simp only: unsigned_of_nat take_bit_eq_mod) simp
    then show ?thesis by (simp only: word_unat_eq_iff)
  qed
  show "word_of_nat (v div 65536) = a" by (simp add: e(1))
  show "word_of_nat (v div 256) = b" unfolding e(2) by (rule m)
  show "word_of_nat v = c" unfolding e(3) by (rule m)
qed

lemma b64_quanta_encode: "b64_quanta (b64_encode bs) = Ok bs"
proof (induction bs rule: b64_encode.induct)
  case (2 a)
  have "(unat a * 65536) mod 64 = 0" "(unat a * 65536 div 64) mod 64 = 0" by (simp_all add: mod_eq_0_iff_dvd)
  then show ?case using three_bytes [of a 0 0] low_bits(1) [of "unat a * 65536"]
    by (simp add: Let_def b64_letter del: of_nat_add of_nat_mult)
next
  case (3 a b)
  have "(unat a * 65536 + unat b * 256) mod 64 = 0" by (simp add: mod_eq_0_iff_dvd)
  then show ?case using three_bytes [of a b 0] low_bits(2) [of "unat a * 65536 + unat b * 256"]
    by (simp add: Let_def b64_letter del: of_nat_add of_nat_mult)
next
  case (4 a b c r)
  then show ?case using three_bytes [of a b c] six_bits [of "unat a * 65536 + unat b * 256 + unat c"]
    by (simp add: Let_def b64_letter del: of_nat_add of_nat_mult)
qed simp

lemma b64_lines: "filter (\<lambda>c. c \<noteq> CHR 0x0A \<and> c \<noteq> CHR 0x0D) (b64_encode bs) = b64_encode bs"
  by (induction bs rule: b64_encode.induct) (simp_all add: Let_def b64_letter)

lemma b64_decode_encode: "b64_decode (b64_encode bs) = Ok bs"
  by (simp add: b64_decode_def b64_lines b64_quanta_encode)

lemma bytes_str_quoted: "bytes_str (butlast (tl (str_bytes (q # s @ [q'])))) = s"
  using bytes_str_bytes [of s] by (simp add: str_bytes_def)

lemma FormatInt_ne: "FormatInt i b \<noteq> []"
  by (simp add: FormatInt_def)

text \<open>
  C36: The decimal, binary, base 36, base 64, byte and JSON texts of every id are read back as the id; the
  texts in 32 and 58 letters of a non-negative id too, and for a negative id there is none: the table is
  indexed with a negative number.\<close>

theorem id_texts_roundtrip:
  "ParseString (ID_String f) = Ok f \<and> ParseBase2 (ID_Base2 f) = Ok f \<and> ParseBase36 (ID_Base36 f) = Ok f \<and>
   ParseBytes (ID_Bytes f) = Ok f \<and> ParseIntBytes (IntBytes f) = f \<and>
   ParseBase64 (ID_Base64 f) = Ok f \<and> ID_UnmarshalJSON (ID_MarshalJSON f) g = (f, Ok ()) \<and>
   (if f <s 0 then ID_Base32 f = Panic ''index out of range'' \<and> ID_Base58 f = Panic ''index out of range''
    else (\<exists>s s'. ID_Base32 f = Ok s \<and> ParseBase32 s = Ok f \<and> ID_Base58 f = Ok s' \<and> ParseBase58 s' = Ok f))"
proof (intro conjI)
  note p = ParseIntBase_Format [OF _ _ sint_range, of _ f, simplified]
  show d: "ParseString (ID_String f) = Ok f" "ParseBase2 (ID_Base2 f) = Ok f" "ParseBase36 (ID_Base36 f) = Ok f"
    "ParseBytes (ID_Bytes f) = Ok f"
    by (simp_all add: ParseString_def ID_String_def ParseBase2_def ID_Base2_def ParseBase36_def ID_Base36_def
        ParseBytes_def ID_Bytes_def p)
  show "ParseIntBytes (IntBytes f) = f"
    using unsigned_less [of f, where ?'a = nat] by (simp add: ParseIntBytes_def IntBytes_def)
  show "ParseBase64 (ID_Base64 f) = Ok f" by (simp add: ParseBase64_def ID_Base64_def b64_decode_encode d(4))
  have "hd (ID_MarshalJSON f) = 0x22" "last (ID_MarshalJSON f) = 0x22" "\<not> length (ID_MarshalJSON f) < 3"
    using FormatInt_ne [of "sint f" 10] by (simp_all add: ID_MarshalJSON_def str_bytes_def Suc_le_eq)
  then show "ID_UnmarshalJSON (ID_MarshalJSON f) g = (f, Ok ())"
    unfolding ID_UnmarshalJSON_def by (simp add: ID_MarshalJSON_def bytes_str_quoted p)
  show "if f <s 0 then ID_Base32 f = Panic ''index out of range'' \<and> ID_Base58 f = Panic ''index out of range''
    else (\<exists>s s'. ID_Base32 f = Ok s \<and> ParseBase32 s = Ok f \<and> ID_Base58 f = Ok s' \<and> ParseBase58 s' = Ok f)"
    using decode_encode [of encodeBase32Map f] decode_encode [of encodeBase58Map f]
    by (auto simp: tables ID_Base32_def ID_Base58_def ParseBase32_def ParseBase58_def encode_with_def)
qed

subsection \<open>One node never gives an id twice\<close>

definition id_val :: "nat \<Rightarrow> nat \<Rightarrow> nat \<Rightarrow> nat" where
  "id_val t n s = t * 2 ^ 22 + n * 2 ^ 12 + s"

lemma or_word: "s < 2 ^ k \<Longrightarrow> 2 ^ k dvd b \<Longrightarrow> (word_of_nat b :: i64) OR word_of_nat s = word_of_nat (b + s)"
  by (simp add: of_nat_or_eq [symmetric] or_disjoint_add)

lemma compose_id_val:
  assumes "n < 2 ^ 10" "s < 2 ^ 12"
  shows "compose_id (word_of_nat t) \<lparr>snTime = x, snNode = word_of_nat n, snStep = word_of_nat s\<rparr> = word_of_nat (id_val t n s)"
proof -
  have b: "n * 2 ^ 12 < 2 ^ 22" using assms(1) by simp
  have "compose_id (word_of_nat t) \<lparr>snTime = x, snNode = word_of_nat n, snStep = word_of_nat s\<rparr> =
      (word_of_nat (t * 2 ^ 22) OR word_of_nat (n * 2 ^ 12)) OR word_of_nat s"
    by (simp add: compose_id_def NodeBits_def StepBits_def push_bit_eq_mult or.assoc)
  also have "\<dots> = word_of_nat (t * 2 ^ 22 + n * 2 ^ 12) OR word_of_nat s" using or_word [OF b, of "t * 2 ^ 22"] by simp
  also have "\<dots> = word_of_nat (id_val t n s)"
    using or_word [OF assms(2), of "t * 2 ^ 22 + n * 2 ^ 12"] unfolding id_val_def by (simp add: algebra_simps)
  finally show ?thesis .
qed

lemma sint_small: "a < 2 ^ 63 \<Longrightarrow> sint (word_of_nat a :: i64) = int a"
  by (simp add: signed_of_nat signed_take_bit_int_eq_self)

lemma wait_after_nat:
  assumes "\<forall>t \<in> set ts. t < 2 ^ 41" "T < 2 ^ 41"
  shows "wait_after (word_of_nat T) (map word_of_nat ts) =
    (case dropWhile (\<lambda>t. t \<le> T) ts of [] \<Rightarrow> None | t # ts' \<Rightarrow> Some (word_of_nat t, map word_of_nat ts'))"
  using assms by (induction ts) (auto simp: word_sle_eq sint_small)

definition snow_state :: "nat \<Rightarrow> nat \<Rightarrow> nat \<Rightarrow> snowNode" where
  "snow_state T N S = \<lparr>snTime = word_of_nat T, snNode = word_of_nat N, snStep = word_of_nat S\<rparr>"

text \<open>One call moves time and step on in the order of the dictionary.\<close>

lemma snGenerate_step:
  assumes g: "snGenerate (snow_state T N S) (map word_of_nat ts) = Some (n', clock', f)"
    and b: "N < 2 ^ 10" "S < 2 ^ 12" "T < 2 ^ 41" "\<forall>t \<in> set ts. t < 2 ^ 41"
    and so: "sorted (T # ts)"
  obtains T' S' ts' where "n' = snow_state T' N S'" "clock' = map word_of_nat ts'" "f = word_of_nat (id_val T' N S')"
    "T < T' \<or> T' = T \<and> S < S'" "S' < 2 ^ 12" "T' < 2 ^ 41" "sorted (T' # ts')" "\<forall>t \<in> set ts'. t < 2 ^ 41"
proof -
  obtain t ts1 where ts: "ts = t # ts1" using g by (cases ts) (auto simp: snGenerate_def)
  have t: "t < 2 ^ 41" "T \<le> t" "sorted (t # ts1)" using b(4) so by (auto simp: ts)
  have eq: "(word_of_nat t :: i64) = word_of_nat T \<longleftrightarrow> t = T"
  proof
    assume "(word_of_nat t :: i64) = word_of_nat T"
    then have "sint (word_of_nat t :: i64) = sint (word_of_nat T :: i64)" by simp
    then show "t = T" using t(1) b(3) by (simp add: sint_small)
  qed simp
  let ?S = "if t = T then (S + 1) mod 2 ^ 12 else 0"
  have st: "(1 + word_of_nat S :: i64) AND mask 12 = word_of_nat ((S + 1) mod 2 ^ 12)"
  proof -
    have "(1 + word_of_nat S :: i64) AND mask 12 = take_bit 12 (word_of_nat (S + 1))" by (simp add: take_bit_eq_mask)
    then show ?thesis unfolding take_bit_of_nat unfolding take_bit_eq_mod .
  qed
  note result = that
  have fin: thesis
    if "snGenerate (snow_state T N S) (map word_of_nat ts) =
        Some ((snow_state T N S)\<lparr>snStep := word_of_nat S', snTime := word_of_nat T'\<rparr>, map word_of_nat ts',
          compose_id (word_of_nat T') ((snow_state T N S)\<lparr>snStep := word_of_nat S'\<rparr>))"
      "T < T' \<or> T' = T \<and> S < S'" "S' < 2 ^ 12" "T' \<in> set ts" "sorted (T' # ts')" "set ts' \<subseteq> set ts" for T' S' ts'
  proof (rule result)
    show "n' = snow_state T' N S'" "clock' = map word_of_nat ts'" "f = word_of_nat (id_val T' N S')"
      using g that(1) compose_id_val [OF b(1) that(3)] by (simp_all add: snow_state_def)
  qed (use that b(4) in auto)
  show ?thesis
  proof (cases "t = T")
    case False
    then have "T < t" using t(2) by simp
    then show ?thesis using False eq t(3) by (intro fin [of t 0 ts1]) (auto simp: snGenerate_def ts snow_state_def Let_def)
  next
    case True
    note st0 = st [unfolded StepBits_def]
    show ?thesis
    proof (cases "S + 1 < 2 ^ 12")
      case S: True
      then have "(word_of_nat (S + 1) :: i64) \<noteq> 0" using sint_small [of "S + 1"] by auto
      then show ?thesis using True S t(3) st
        by (intro fin [of T "S + 1" ts1]) (auto simp: snGenerate_def ts snow_state_def Let_def StepBits_def add.commute)
    next
      case False
      then have "S + 1 = 2 ^ 12" using b(2) by simp
      then have z: "(word_of_nat S + 1 :: i64) AND mask StepBits = 0" using st by (simp add: StepBits_def add.commute)
      have g': "snGenerate (snow_state T N S) (map word_of_nat ts) =
          (case wait_after (word_of_nat T) (map word_of_nat ts1) of None \<Rightarrow> None
           | Some (now, clock) \<Rightarrow> Some ((snow_state T N S)\<lparr>snStep := 0, snTime := now\<rparr>, clock,
               compose_id now ((snow_state T N S)\<lparr>snStep := 0\<rparr>)))"
        using True z by (simp add: snGenerate_def ts snow_state_def Let_def split: option.split)
      have w: "wait_after (word_of_nat T) (map word_of_nat ts1) =
          (case dropWhile (\<lambda>t. t \<le> T) ts1 of [] \<Rightarrow> None | t # ts' \<Rightarrow> Some (word_of_nat t, map word_of_nat ts'))"
        using b(3,4) by (intro wait_after_nat) (auto simp: ts)
      obtain T' ts' where d: "dropWhile (\<lambda>t. t \<le> T) ts1 = T' # ts'"
        using g g' w by (cases "dropWhile (\<lambda>t. t \<le> T) ts1") auto
      have "T < T'" using d by (metis dropWhile_eq_Cons_conv not_le)
      moreover have "sorted (T' # ts')" using t(3) d by (metis sorted_dropWhile sorted_simps(2))
      moreover have "set (T' # ts') \<subseteq> set ts" using d ts by (metis set_dropWhileD set_subset_Cons subsetD subsetI)
      ultimately show ?thesis using g' w d by (intro fin [of T' 0 ts']) simp_all
    qed
  qed
qed

fun snGenerate_all :: "nat \<Rightarrow> snowNode \<Rightarrow> i64 list \<Rightarrow> i64 list option" where
  "snGenerate_all 0 n clock = Some []"
| "snGenerate_all (Suc k) n clock =
     (case snGenerate n clock of None \<Rightarrow> None
      | Some (n, clock, f) \<Rightarrow> map_option (\<lambda>fs. f # fs) (snGenerate_all k n clock))"

lemma id_val_less:
  assumes "S < 2 ^ 12" "S' < 2 ^ 12" "N < 2 ^ 10" "T < T' \<or> T' = T \<and> S < S'"
  shows "id_val T N S < id_val T' N S'"
  using assms by (auto simp: id_val_def)

lemma id_val_bound: "T < 2 ^ 41 \<Longrightarrow> N < 2 ^ 10 \<Longrightarrow> S < 2 ^ 12 \<Longrightarrow> id_val T N S < 2 ^ 63"
  by (simp add: id_val_def)

lemma ID_Node_val:
  assumes "T < 2 ^ 41" "N < 2 ^ 10" "S < 2 ^ 12"
  shows "ID_Node (word_of_nat (id_val T N S)) = word_of_nat N"
proof -
  have small: "bit N i \<Longrightarrow> i < 10" "bit S i \<Longrightarrow> i < 12" for i
    using assms(2,3) bit_take_bit_iff [of 10 N i] bit_take_bit_iff [of 12 S i] by (simp_all add: take_bit_nat_eq_self)
  have "word_of_nat (id_val T N S) = compose_id (word_of_nat T) \<lparr>snTime = 0, snNode = word_of_nat N, snStep = word_of_nat S\<rparr>"
    using compose_id_val [OF assms(2,3)] by simp
  then show ?thesis
    by (intro bit_word_eqI) (auto simp: ID_Node_def compose_id_def NodeBits_def StepBits_def bit_simps dest: small)
qed

lemma snGenerate_all_step:
  "snGenerate_all k (snow_state T N S) (map word_of_nat ts) = Some fs \<Longrightarrow>
   N < 2 ^ 10 \<Longrightarrow> S < 2 ^ 12 \<Longrightarrow> T < 2 ^ 41 \<Longrightarrow> \<forall>t \<in> set ts. t < 2 ^ 41 \<Longrightarrow> sorted (T # ts) \<Longrightarrow>
   sorted_wrt (\<lambda>a b. sint a < sint b) fs \<and> (\<forall>f \<in> set fs. int (id_val T N S) < sint f \<and> ID_Node f = word_of_nat N)"
proof (induction k arbitrary: T S ts fs)
  case (Suc k)
  obtain n' clock' f fs' where g: "snGenerate (snow_state T N S) (map word_of_nat ts) = Some (n', clock', f)"
    "snGenerate_all k n' clock' = Some fs'" "fs = f # fs'"
    using Suc.prems(1) by (auto split: option.splits)
  obtain T' S' ts' where n: "n' = snow_state T' N S'" "clock' = map word_of_nat ts'" "f = word_of_nat (id_val T' N S')"
    "T < T' \<or> T' = T \<and> S < S'" "S' < 2 ^ 12" "T' < 2 ^ 41" "sorted (T' # ts')" "\<forall>t \<in> set ts'. t < 2 ^ 41"
    by (rule snGenerate_step [OF g(1) Suc.prems(2-6)])
  have f: "sint f = int (id_val T' N S')" "ID_Node f = word_of_nat N"
    using id_val_bound [OF n(6) Suc.prems(2) n(5)] ID_Node_val [OF n(6) Suc.prems(2) n(5)] by (simp_all add: n(3) sint_small)
  moreover have "id_val T N S < id_val T' N S'" using id_val_less [OF Suc.prems(3) n(5) Suc.prems(2) n(4)] .
  moreover note Suc.IH [OF g(2) [unfolded n(1,2)] Suc.prems(2) n(5,6,8,7)]
  ultimately show ?case by (auto simp: g(3))
qed simp

text \<open>A call returns when the clock passes the last time that was given.\<close>

lemma wait_after_returns: "clock \<noteq> [] \<Longrightarrow> t <s last clock \<Longrightarrow> wait_after t clock \<noteq> None"
  by (induction clock) (auto simp: word_sless_alt word_sle_eq split: if_splits)

lemma snGenerate_returns:
  assumes "clock \<noteq> []" "snTime n <s last clock"
  shows "snGenerate n clock \<noteq> None"
proof (cases clock)
  case (Cons now rest)
  have "wait_after (snTime n) rest \<noteq> None" if "now = snTime n"
    using that assms wait_after_returns [of rest "snTime n"] by (cases rest) (auto simp: Cons)
  then show ?thesis by (auto simp: Cons snGenerate_def Let_def split: option.splits)
qed (use assms in simp)

text \<open>
  C37: On a clock that does not go back, with less than 2 to the 41 milliseconds since the epoch, the
  ids of one node strictly increase, so none is given twice, also when the 4096 steps of a
  millisecond are used up; each carries the number of its node. A call waits no longer than until the
  clock has passed the time of the last id.\<close>

theorem ids_increase:
  assumes "NewNode (word_of_nat N) = Ok n" "N < 2 ^ 10" "sorted ts" "\<forall>t \<in> set ts. t < 2 ^ 41"
    and "snGenerate_all k n (map word_of_nat ts) = Some fs"
  shows "sorted_wrt (\<lambda>a b. sint a < sint b) fs \<and> distinct fs \<and> (\<forall>f \<in> set fs. ID_Node f = word_of_nat N) \<and>
    (clock \<noteq> [] \<and> snTime m <s last clock \<longrightarrow> snGenerate m clock \<noteq> None)"
proof -
  have "n = snow_state 0 N 0" using assms(1) by (auto simp: NewNode_def snow_state_def split: if_splits)
  then have r: "sorted_wrt (\<lambda>a b. sint a < sint b) fs \<and> (\<forall>f \<in> set fs. int (id_val 0 N 0) < sint f \<and> ID_Node f = word_of_nat N)"
    using assms by (intro snGenerate_all_step [of k 0 N 0 ts]) simp_all
  then have "sorted_wrt (<) (map sint fs)" by (simp add: sorted_wrt_map)
  then have "distinct fs" by (metis distinct_map strict_sorted_iff)
  then show ?thesis using r snGenerate_returns by blast
qed

theorem ids_increase_witness:
  "distinct [20975616, 20975617, 37752832 :: i64] \<and> ID_Node 37752832 = 1"
proof -
  have g: "snGenerate_all 3 \<lparr>snTime = 0, snNode = 1, snStep = 0\<rparr> [5, 5, 9] = Some [20975616, 20975617, 37752832]"
    by code_simp
  have n: "NewNode 1 = Ok \<lparr>snTime = 0, snNode = 1, snStep = 0\<rparr>" by code_simp
  show ?thesis using ids_increase [of 1 _ "[5, 5, 9]" 3, simplified, OF n g] by simp
qed

end
