(* ===== verification/Diskv.thy ===== *)
theory Diskv
  imports DiskvRecord DiskvIndex DiskvWatch Snowflake
begin

text \<open>
  The key-value store (\<open>diskv/db.go\<close>, \<open>batch.go\<close>): an index in memory over a write-ahead log. Every
  operation runs in a batch that holds the lock of the store from its start to its commit.

  What a call takes from outside is a record: the clock, the readings of the clock that the id
  generator makes, the answers of the file system, the content of a pooled read buffer, what the array
  of a slice holds beyond its length, the hash of
  the Go runtime, and a bound on the turns of the loops at startup. A call that would wait for a lock
  which its own goroutine holds never returns: its result is \<open>Crash deadlock\<close>. Unlocking a lock that
  is not locked ends the process. Keys and values are values here: the caller does not write to a
  slice that it has given to the store.
\<close>

record env =
  envNow :: i64
  envClock :: "i64 list"
  envIO :: walIO
  envPool :: bytes
  envSpare :: "bytes \<Rightarrow> bytes"
  envHash :: "bytes \<Rightarrow> u64"
  envFuel :: nat

definition ErrKeyIsEmpty :: string where "ErrKeyIsEmpty = ''the key is empty''"
definition ErrKeyNotFound :: string where "ErrKeyNotFound = ''key not found in database''"
definition ErrReadOnlyBatch :: string where "ErrReadOnlyBatch = ''the batch is read only''"
definition ErrBatchCommitted :: string where "ErrBatchCommitted = ''the batch is committed''"
definition ErrBatchRollbacked :: string where "ErrBatchRollbacked = ''the batch is rollbacked''"
definition ErrDBClosed :: string where "ErrDBClosed = ''the database is closed''"
definition ErrMergeRunning :: string where "ErrMergeRunning = ''the merge operation is running''"
definition ErrWatchDisabled :: string where "ErrWatchDisabled = ''the watch is disabled''"

lemmas db_errors = ErrKeyIsEmpty_def ErrKeyNotFound_def ErrReadOnlyBatch_def ErrBatchCommitted_def
  ErrBatchRollbacked_def ErrDBClosed_def ErrMergeRunning_def ErrWatchDisabled_def

record dbOptions =
  optSegmentSize :: int
  optSync :: bool
  optBytesPerSync :: u32
  optWatchQueueSize :: nat

text \<open>The files of a directory by their ids, for each of the three extensions.\<close>

type_synonym files = "(u32 \<times> bytes) list"

record dir =
  segFiles :: files
  hintFiles :: files
  finFiles :: files

datatype rwlock = Unlocked | RLocked nat | WLocked

record 't db =
  dataFiles :: WAL
  dbIndex :: 't
  dbOpts :: dbOptions
  dbMu :: rwlock
  dbClosed :: bool
  mergeRunning :: bool
  watcher :: "Event eventQueue option"
  hintDisk :: files
  finDisk :: files
  mergeDisk :: "dir option"

subsection \<open>The lock\<close>

definition acquire :: "bool \<Rightarrow> rwlock \<Rightarrow> rwlock option" where
  "acquire rdonly mu = (case mu of
     Unlocked \<Rightarrow> Some (if rdonly then RLocked 1 else WLocked)
   | RLocked n \<Rightarrow> if rdonly then Some (RLocked (n + 1)) else None
   | WLocked \<Rightarrow> None)"

definition release :: "bool \<Rightarrow> rwlock \<Rightarrow> rwlock option" where
  "release rdonly mu = (case mu of
     Unlocked \<Rightarrow> None
   | RLocked n \<Rightarrow> if rdonly then Some (if n \<le> 1 then Unlocked else RLocked (n - 1)) else None
   | WLocked \<Rightarrow> if rdonly then None else Some Unlocked)"

definition locking :: "bool \<Rightarrow> 't db \<Rightarrow> 't db \<times> unit gores" where
  "locking rdonly db = (case acquire rdonly (dbMu db) of
     None \<Rightarrow> (db, Crash ''deadlock'') | Some mu \<Rightarrow> (db\<lparr>dbMu := mu\<rparr>, Ok ()))"

definition unlocking :: "bool \<Rightarrow> 't db \<Rightarrow> 't db \<times> unit gores" where
  "unlocking rdonly db = (case release rdonly (dbMu db) of
     None \<Rightarrow> (db, Crash ''sync: unlock of unlocked RWMutex'') | Some mu \<Rightarrow> (db\<lparr>dbMu := mu\<rparr>, Ok ()))"

subsection \<open>Batches\<close>

record batch =
  bWrites :: "LogRecord list"
  bMap :: "(u64 \<times> nat list) list"
  bReadOnly :: bool
  bSync :: bool
  bCommitted :: bool
  bRollbacked :: bool
  bNode :: "snowNode option"

text \<open>A batch of the pool after \<open>reset\<close> and \<open>init\<close>; its id generator is what it keeps.\<close>

definition initBatch :: "bool \<Rightarrow> bool \<Rightarrow> snowNode option \<Rightarrow> batch" where
  "initBatch rdonly sync node =
     \<lparr>bWrites = [], bMap = [], bReadOnly = rdonly, bSync = sync, bCommitted = False, bRollbacked = False, bNode = node\<rparr>"

definition newBatch :: batch where
  "newBatch = initBatch False True (case NewNode 1 of Ok n \<Rightarrow> Some n | _ \<Rightarrow> None)"

definition NewBatch :: "bool \<Rightarrow> bool \<Rightarrow> 't db \<Rightarrow> (batch \<times> 't db) \<times> unit gores" where
  "NewBatch rdonly sync db =
     (case locking rdonly db of (db, r) \<Rightarrow>
        ((initBatch rdonly sync (if rdonly then None else bNode newBatch), db), r))"

text \<open>The place of a key among the pending writes.\<close>

definition lookupPendingWrites :: "(bytes \<Rightarrow> u64) \<Rightarrow> bytes \<Rightarrow> batch \<Rightarrow> nat option" where
  "lookupPendingWrites hash key b =
     (case map_of (bMap b) (hash key) of None \<Rightarrow> None
      | Some is \<Rightarrow> List.find (\<lambda>i. rKey (bWrites b ! i) = key) is)"

definition appendPendingWrites :: "(bytes \<Rightarrow> u64) \<Rightarrow> bytes \<Rightarrow> LogRecord \<Rightarrow> batch \<Rightarrow> batch" where
  "appendPendingWrites hash key r b =
     (let is = (case map_of (bMap b) (hash key) of None \<Rightarrow> [] | Some is \<Rightarrow> is) in
      b\<lparr>bWrites := bWrites b @ [r], bMap := AList.update (hash key) (is @ [length (bWrites b)]) (bMap b)\<rparr>)"

definition put_record :: "bytes \<Rightarrow> bytes \<Rightarrow> LogRecord" where
  "put_record key value = \<lparr>rKey = key, rValue = value, rType = LogRecordNormal, rBatchId = 0, rExpire = 0\<rparr>"

definition delete_record :: "bytes \<Rightarrow> LogRecord" where
  "delete_record key = \<lparr>rKey = key, rValue = [], rType = LogRecordDeleted, rBatchId = 0, rExpire = 0\<rparr>"

text \<open>A new record comes from a pool; what it still holds of a batch id is overwritten by the commit.\<close>

definition bPut :: "env \<Rightarrow> bytes \<Rightarrow> bytes \<Rightarrow> 't db \<Rightarrow> batch \<Rightarrow> batch \<times> unit gores" where
  "bPut env key value db b =
     (if key = [] then (b, Err ErrKeyIsEmpty)
      else if dbClosed db then (b, Err ErrDBClosed)
      else if bReadOnly b then (b, Err ErrReadOnlyBatch)
      else case lookupPendingWrites (envHash env) key b of
        None \<Rightarrow> (appendPendingWrites (envHash env) key (put_record key value) b, Ok ())
      | Some i \<Rightarrow> (b\<lparr>bWrites := (bWrites b)[i := (bWrites b ! i)\<lparr>rKey := key, rValue := value,
            rType := LogRecordNormal, rExpire := 0\<rparr>]\<rparr>, Ok ()))"

definition bDelete :: "env \<Rightarrow> bytes \<Rightarrow> 't db \<Rightarrow> batch \<Rightarrow> batch \<times> unit gores" where
  "bDelete env key db b =
     (if key = [] then (b, Err ErrKeyIsEmpty)
      else if dbClosed db then (b, Err ErrDBClosed)
      else if bReadOnly b then (b, Err ErrReadOnlyBatch)
      else case lookupPendingWrites (envHash env) key b of
        None \<Rightarrow> (appendPendingWrites (envHash env) key (delete_record key) b, Ok ())
      | Some i \<Rightarrow> (b\<lparr>bWrites := (bWrites b)[i := (bWrites b ! i)\<lparr>rType := LogRecordDeleted, rValue := [],
            rExpire := 0\<rparr>]\<rparr>, Ok ()))"

definition read_record :: "env \<Rightarrow> ChunkPosition \<Rightarrow> 't db \<Rightarrow> 't db \<times> LogRecord gores" where
  "read_record env pos db =
     (case walRead (envPool env) pos (dataFiles db) of
        (wal, r) \<Rightarrow> (db\<lparr>dataFiles := wal\<rparr>, go_bind r (\<lambda>data. decodeLogRecord (envSpare env data) data)))"

definition bGet :: "'t btree \<Rightarrow> env \<Rightarrow> bytes \<Rightarrow> batch \<Rightarrow> 't db \<Rightarrow> 't db \<times> bytes gores" where
  "bGet B env key b db =
     (if key = [] then (db, Err ErrKeyIsEmpty)
      else if dbClosed db then (db, Err ErrDBClosed)
      else case lookupPendingWrites (envHash env) key b of
        Some i \<Rightarrow>
          let r = bWrites b ! i in
          (db, if rType r = LogRecordDeleted \<or> IsExpired r (envNow env) then Err ErrKeyNotFound else Ok (rValue r))
      | None \<Rightarrow>
          (case idxGet B key (dbIndex db) of
             None \<Rightarrow> (db, Err ErrKeyNotFound)
           | Some pos \<Rightarrow>
               st_bind (read_record env pos db) (\<lambda>db r.
                 if rType r = LogRecordDeleted then (db, Panic ''Deleted data cannot exist in the index'')
                 else if IsExpired r (envNow env)
                 then (db\<lparr>dbIndex := fst (idxDelete B (rKey r) (dbIndex db))\<rparr>, Err ErrKeyNotFound)
                 else (db, Ok (rValue r)))))"

definition bExist :: "'t btree \<Rightarrow> env \<Rightarrow> bytes \<Rightarrow> batch \<Rightarrow> 't db \<Rightarrow> 't db \<times> bool gores" where
  "bExist B env key b db =
     (if key = [] then (db, Err ErrKeyIsEmpty)
      else if dbClosed db then (db, Err ErrDBClosed)
      else case lookupPendingWrites (envHash env) key b of
        Some i \<Rightarrow>
          let r = bWrites b ! i in (db, Ok (rType r \<noteq> LogRecordDeleted \<and> \<not> IsExpired r (envNow env)))
      | None \<Rightarrow>
          (case idxGet B key (dbIndex db) of
             None \<Rightarrow> (db, Ok False)
           | Some pos \<Rightarrow>
               st_bind (read_record env pos db) (\<lambda>db r.
                 if rType r = LogRecordDeleted \<or> IsExpired r (envNow env)
                 then (db\<lparr>dbIndex := fst (idxDelete B (rKey r) (dbIndex db))\<rparr>, Ok False)
                 else (db, Ok True))))"

subsection \<open>Committing\<close>

text \<open>The loop that encodes the records into the pending writes of the log.\<close>

fun pend_records :: "LogRecord list \<Rightarrow> WAL \<Rightarrow> WAL \<times> unit gores" where
  "pend_records [] wal = (wal, Ok ())"
| "pend_records (r # rs) wal =
     (case encodeLogRecord r of
        Ok bs \<Rightarrow> pend_records rs (PendingWrites bs wal)
      | Err e \<Rightarrow> (wal, Err e) | Panic p \<Rightarrow> (wal, Panic p) | Crash p \<Rightarrow> (wal, Crash p))"

definition end_record :: "i64 \<Rightarrow> LogRecord" where
  "end_record bid = \<lparr>rKey = ID_Bytes bid, rValue = [], rType = LogRecordBatchFinished, rBatchId = 0, rExpire = 0\<rparr>"

definition event_of :: "LogRecord \<Rightarrow> Event" where
  "event_of r = \<lparr>evAction = (if rType r = LogRecordDeleted then WatchActionDelete else WatchActionPut),
     evKey = rKey r, evValue = rValue r, evBatchId = rBatchId r\<rparr>"

text \<open>The loop that enters the records into the index and tells the watcher.\<close>

fun index_records :: "'t btree \<Rightarrow> i64 \<Rightarrow> (LogRecord \<times> ChunkPosition) list \<Rightarrow> 't db \<Rightarrow> 't db" where
  "index_records B now [] db = db"
| "index_records B now ((r, pos) # rest) db =
     (let db = db\<lparr>dbIndex := (if rType r = LogRecordDeleted \<or> IsExpired r now
                then fst (idxDelete B (rKey r) (dbIndex db)) else fst (idxPut B (rKey r) pos (dbIndex db)))\<rparr>;
          db = (if 0 < optWatchQueueSize (dbOpts db)
                then db\<lparr>watcher := map_option (putEvent (event_of r)) (watcher db)\<rparr> else db)
      in index_records B now rest db)"

definition commit_writes :: "'t btree \<Rightarrow> env \<Rightarrow> i64 \<Rightarrow> LogRecord list \<Rightarrow> bool \<Rightarrow> 't db \<Rightarrow> 't db \<times> unit gores" where
  "commit_writes B env batchId rs sync db =
     (case pend_records (rs @ [end_record batchId]) (dataFiles db) of
        (wal, Ok _) \<Rightarrow>
          (case walWriteAll (envIO env) wal of
             (wal, Ok poss) \<Rightarrow>
               let db = db\<lparr>dataFiles := wal\<rparr> in
               if length poss \<noteq> length rs + 1
               then (db, Panic ''chunk positions length is not equal to pending writes length'')
               else if sync \<and> \<not> optSync (dbOpts db) \<and> \<not> is_Ok (walSync (envIO env) wal)
               then (db, Err ''sync error'')
               else (index_records B (envNow env) (zip rs poss) db, Ok ())
           | (wal, Err e) \<Rightarrow> (db\<lparr>dataFiles := ClearPendingWrites wal\<rparr>, Err e)
           | (wal, Panic p) \<Rightarrow> (db\<lparr>dataFiles := wal\<rparr>, Panic p)
           | (wal, Crash p) \<Rightarrow> (db\<lparr>dataFiles := wal\<rparr>, Crash p))
      | (wal, Err e) \<Rightarrow> (db\<lparr>dataFiles := wal\<rparr>, Err e)
      | (wal, Panic p) \<Rightarrow> (db\<lparr>dataFiles := wal\<rparr>, Panic p)
      | (wal, Crash p) \<Rightarrow> (db\<lparr>dataFiles := wal\<rparr>, Crash p))"

text \<open>The deferred unlock of a call on a batch, which comes also after an error or a panic.\<close>

definition unlock_after :: "(batch \<times> 't db) \<times> unit gores \<Rightarrow> (batch \<times> 't db) \<times> unit gores" where
  "unlock_after s = (case s of ((b, db), r) \<Rightarrow>
     (case r of Crash p \<Rightarrow> s
      | _ \<Rightarrow> (case unlocking (bReadOnly b) db of (db, u) \<Rightarrow> ((b, db), go_bind u (\<lambda>_. r)))))"

definition bCommit :: "'t btree \<Rightarrow> env \<Rightarrow> batch \<times> 't db \<Rightarrow> (batch \<times> 't db) \<times> unit gores" where
  "bCommit B env s = (case s of (b, db) \<Rightarrow> unlock_after
     (if dbClosed db then ((b, db), Err ErrDBClosed)
      else if bReadOnly b \<or> bWrites b = [] then ((b, db), Ok ())
      else if bCommitted b then ((b, db), Err ErrBatchCommitted)
      else if bRollbacked b then ((b, db), Err ErrBatchRollbacked)
      else case bNode b of
        None \<Rightarrow> ((b, db), Panic ''nil pointer dereference'')
      | Some node \<Rightarrow>
          (case snGenerate node (envClock env) of
             None \<Rightarrow> ((b, db), Crash ''waiting for the clock'')
           | Some (node, _, batchId) \<Rightarrow>
               let b = b\<lparr>bNode := Some node, bWrites := map (rBatchId_update (\<lambda>_. batchId)) (bWrites b)\<rparr> in
               (case commit_writes B env batchId (bWrites b) (bSync b) db of
                  (db, Ok _) \<Rightarrow> ((b\<lparr>bCommitted := True\<rparr>, db), Ok ())
                | (db, r) \<Rightarrow> ((b, db), r)))))"

definition bRollback :: "batch \<times> 't db \<Rightarrow> (batch \<times> 't db) \<times> unit gores" where
  "bRollback s = (case s of (b, db) \<Rightarrow> unlock_after
     (if dbClosed db then ((b, db), Err ErrDBClosed)
      else if bCommitted b then ((b, db), Err ErrBatchCommitted)
      else if bRollbacked b then ((b, db), Err ErrBatchRollbacked)
      else (((if bReadOnly b then b else b\<lparr>bWrites := [], bMap := []\<rparr>)\<lparr>bRollbacked := True\<rparr>, db), Ok ())))"

end
