(* ===== verification/DiskvDb.thy ===== *)
theory DiskvDb
  imports Diskv
begin

text \<open>
  The operations of the store (\<open>diskv/db.go\<close>), its opening with the two ways of loading the index,
  and the merge (\<open>diskv/merge.go\<close>). A directory is the list of its files; a directory that is open
  has its segment files in the log. The merge is one step here: no other call comes between its
  reads of the index.
\<close>

subsection \<open>Single operations\<close>

text \<open>A batch of the pool, with the id generator \<open>node\<close> that it carries, runs the one operation.\<close>

definition in_batch :: "'t btree \<Rightarrow> env \<Rightarrow> snowNode \<Rightarrow> ('t db \<Rightarrow> batch \<Rightarrow> batch \<times> unit gores) \<Rightarrow> 't db \<Rightarrow>
    (batch \<times> 't db) \<times> unit gores" where
  "in_batch B env node f db =
     (case locking False db of
        (db, Ok _) \<Rightarrow>
          (case f db (initBatch False False (Some node)) of
             (b, Ok _) \<Rightarrow> bCommit B env (b, db)
           | (b, r) \<Rightarrow> (case bRollback (b, db) of (s, Crash p) \<Rightarrow> (s, Crash p) | (s, _) \<Rightarrow> (s, r)))
      | (db, r) \<Rightarrow> ((initBatch False False (Some node), db), r))"

definition dbPut :: "'t btree \<Rightarrow> env \<Rightarrow> snowNode \<Rightarrow> bytes \<Rightarrow> bytes \<Rightarrow> 't db \<Rightarrow> (batch \<times> 't db) \<times> unit gores" where
  "dbPut B env node key value = in_batch B env node (bPut env key value)"

definition dbDelete :: "'t btree \<Rightarrow> env \<Rightarrow> snowNode \<Rightarrow> bytes \<Rightarrow> 't db \<Rightarrow> (batch \<times> 't db) \<times> unit gores" where
  "dbDelete B env node key = in_batch B env node (bDelete env key)"

definition in_reader :: "'t btree \<Rightarrow> env \<Rightarrow> (batch \<Rightarrow> 't db \<Rightarrow> 't db \<times> 'a gores) \<Rightarrow> 't db \<Rightarrow> 't db \<times> 'a gores" where
  "in_reader B env f db =
     st_bind (locking True db) (\<lambda>db _.
       let b = initBatch True False None in
       case f b db of (db, r) \<Rightarrow>
         (case bCommit B env (b, db) of ((_, db), Crash p) \<Rightarrow> (db, Crash p) | ((_, db), _) \<Rightarrow> (db, r)))"

definition dbGet :: "'t btree \<Rightarrow> env \<Rightarrow> bytes \<Rightarrow> 't db \<Rightarrow> 't db \<times> bytes gores" where
  "dbGet B env key = in_reader B env (bGet B env key)"

definition dbExist :: "'t btree \<Rightarrow> env \<Rightarrow> bytes \<Rightarrow> 't db \<Rightarrow> 't db \<times> bool gores" where
  "dbExist B env key = in_reader B env (bExist B env key)"

subsection \<open>Walking over the keys\<close>

definition checkValue :: "env \<Rightarrow> bytes \<Rightarrow> bytes option gores" where
  "checkValue env data =
     go_bind (decodeLogRecord (envSpare env data) data) (\<lambda>r.
       Ok (if rType r \<noteq> LogRecordDeleted \<and> \<not> IsExpired r (envNow env) then Some (rValue r) else None))"

text \<open>A read that fails ends the walk: the callback answers \<open>false\<close>.\<close>

definition value_handler :: "env \<Rightarrow> (bytes \<Rightarrow> bytes \<Rightarrow> 's \<Rightarrow> 's \<times> bool gores) \<Rightarrow> (WAL \<times> 's) handler" where
  "value_handler env h key pos ws =
     (case walRead (envPool env) pos (fst ws) of
        (wal, Ok data) \<Rightarrow>
          (case checkValue env data of
             Ok None \<Rightarrow> ((wal, snd ws), Ok True)
           | Ok (Some v) \<Rightarrow> (case h key v (snd ws) of (s, r) \<Rightarrow> ((wal, s), r))
           | Err e \<Rightarrow> ((wal, snd ws), Err e) | Panic p \<Rightarrow> ((wal, snd ws), Panic p) | Crash p \<Rightarrow> ((wal, snd ws), Crash p))
      | (wal, Err e) \<Rightarrow> ((wal, snd ws), Ok False)
      | (wal, Panic p) \<Rightarrow> ((wal, snd ws), Panic p)
      | (wal, Crash p) \<Rightarrow> ((wal, snd ws), Crash p))"

text \<open>\<open>re\<close> is the compiled pattern, none when the pattern is empty.\<close>

definition key_handler :: "env \<Rightarrow> (bytes \<Rightarrow> bool) option \<Rightarrow> bool \<Rightarrow> (bytes \<Rightarrow> 's \<Rightarrow> 's \<times> bool gores) \<Rightarrow> (WAL \<times> 's) handler" where
  "key_handler env re filterExpired h key pos ws =
     (if (case re of None \<Rightarrow> True | Some m \<Rightarrow> m key)
      then if filterExpired then value_handler env (\<lambda>k v. h k) key pos ws
        else (case h key (snd ws) of (s, r) \<Rightarrow> ((fst ws, s), r))
      else (ws, Ok True))"

definition walking :: "(WAL \<times> 's \<Rightarrow> (WAL \<times> 's) \<times> unit gores) \<Rightarrow> 's \<Rightarrow> 't db \<Rightarrow> ('t db \<times> 's) \<times> unit gores" where
  "walking f s db =
     (case locking True db of
        (db, Ok _) \<Rightarrow>
          (case f (dataFiles db, s) of
             ((wal, s), Crash p) \<Rightarrow> ((db\<lparr>dataFiles := wal\<rparr>, s), Crash p)
           | ((wal, s), r) \<Rightarrow> (case unlocking True (db\<lparr>dataFiles := wal\<rparr>) of (db, u) \<Rightarrow> ((db, s), go_bind u (\<lambda>_. r))))
      | (db, r) \<Rightarrow> ((db, s), r))"

type_synonym 's visitor = "bytes \<Rightarrow> bytes \<Rightarrow> 's \<Rightarrow> 's \<times> bool gores"

definition dbAscend :: "'t btree \<Rightarrow> env \<Rightarrow> 's visitor \<Rightarrow> 's \<Rightarrow> 't db \<Rightarrow> ('t db \<times> 's) \<times> unit gores" where
  "dbAscend B env h s db = walking (idxAscend B (value_handler env h) (dbIndex db)) s db"

definition dbAscendRange :: "'t btree \<Rightarrow> env \<Rightarrow> bytes \<Rightarrow> bytes \<Rightarrow> 's visitor \<Rightarrow> 's \<Rightarrow> 't db \<Rightarrow> ('t db \<times> 's) \<times> unit gores" where
  "dbAscendRange B env startKey endKey h s db =
     walking (idxAscendRange B startKey endKey (value_handler env h) (dbIndex db)) s db"

definition dbAscendGreaterOrEqual :: "'t btree \<Rightarrow> env \<Rightarrow> bytes \<Rightarrow> 's visitor \<Rightarrow> 's \<Rightarrow> 't db \<Rightarrow> ('t db \<times> 's) \<times> unit gores" where
  "dbAscendGreaterOrEqual B env key h s db =
     walking (idxAscendGreaterOrEqual B key (value_handler env h) (dbIndex db)) s db"

definition dbAscendKeys :: "'t btree \<Rightarrow> env \<Rightarrow> (bytes \<Rightarrow> bool) option \<Rightarrow> bool \<Rightarrow> (bytes \<Rightarrow> 's \<Rightarrow> 's \<times> bool gores) \<Rightarrow> 's \<Rightarrow>
    't db \<Rightarrow> ('t db \<times> 's) \<times> unit gores" where
  "dbAscendKeys B env re filterExpired h s db =
     walking (idxAscend B (key_handler env re filterExpired h) (dbIndex db)) s db"

definition dbDescend :: "'t btree \<Rightarrow> env \<Rightarrow> 's visitor \<Rightarrow> 's \<Rightarrow> 't db \<Rightarrow> ('t db \<times> 's) \<times> unit gores" where
  "dbDescend B env h s db = walking (idxDescend B (value_handler env h) (dbIndex db)) s db"

definition dbDescendRange :: "'t btree \<Rightarrow> env \<Rightarrow> bytes \<Rightarrow> bytes \<Rightarrow> 's visitor \<Rightarrow> 's \<Rightarrow> 't db \<Rightarrow> ('t db \<times> 's) \<times> unit gores" where
  "dbDescendRange B env startKey endKey h s db =
     walking (idxDescendRange B startKey endKey (value_handler env h) (dbIndex db)) s db"

definition dbDescendLessOrEqual :: "'t btree \<Rightarrow> env \<Rightarrow> bytes \<Rightarrow> 's visitor \<Rightarrow> 's \<Rightarrow> 't db \<Rightarrow> ('t db \<times> 's) \<times> unit gores" where
  "dbDescendLessOrEqual B env key h s db =
     walking (idxDescendLessOrEqual B key (value_handler env h) (dbIndex db)) s db"

definition dbDescendKeys :: "'t btree \<Rightarrow> env \<Rightarrow> (bytes \<Rightarrow> bool) option \<Rightarrow> bool \<Rightarrow> (bytes \<Rightarrow> 's \<Rightarrow> 's \<times> bool gores) \<Rightarrow> 's \<Rightarrow>
    't db \<Rightarrow> ('t db \<times> 's) \<times> unit gores" where
  "dbDescendKeys B env re filterExpired h s db =
     walking (idxDescend B (key_handler env re filterExpired h) (dbIndex db)) s db"

subsection \<open>Loading the index\<close>

definition open_files :: "walIO \<Rightarrow> walOptions \<Rightarrow> files \<Rightarrow> WAL gores" where
  "open_files io opts fs = walOpen io opts (map (uint \<circ> fst) fs) (\<lambda>i. case map_of fs i of None \<Rightarrow> [] | Some bs \<Rightarrow> bs)"

definition files_of :: "WAL \<Rightarrow> files" where
  "files_of wal = map (\<lambda>i. (i, walFiles wal i)) (walIds wal)"

definition openWalFiles :: "walIO \<Rightarrow> dbOptions \<Rightarrow> files \<Rightarrow> WAL gores" where
  "openWalFiles io opts = open_files io \<lparr>SegmentSize = optSegmentSize opts, SegmentFileExt = ''.SEG'',
     wSync = optSync opts, BytesPerSync = optBytesPerSync opts\<rparr>"

definition hint_options :: walOptions where
  "hint_options = \<lparr>SegmentSize = 2 ^ 63 - 1, SegmentFileExt = ''.HINT'', wSync = False, BytesPerSync = 0\<rparr>"

definition getMergeFinSegmentId :: "files \<Rightarrow> u32 gores" where
  "getMergeFinSegmentId fins =
     (case map_of fins 1 of None \<Rightarrow> Ok 0
      | Some content \<Rightarrow> if length content < 11 then Err EOF else Ok (word_of_nat (le_val (take 4 (drop 7 content)))))"

fun hint_loop :: "nat \<Rightarrow> 't btree \<Rightarrow> bytes \<Rightarrow> walReader \<Rightarrow> WAL \<times> 't \<Rightarrow> (WAL \<times> 't) \<times> unit gores" where
  "hint_loop 0 B pool rd s = (s, Crash ''out of fuel'')"
| "hint_loop (Suc n) B pool rd s =
     (case walNext pool (fst s) rd of
        ((wal, rd), Ok (data, _)) \<Rightarrow>
          st_bind ((wal, snd s), decodeHintRecord data) (\<lambda>(wal, idx) (key, position).
            hint_loop n B pool rd (wal, fst (idxPut B key position idx)))
      | ((wal, rd), Err e) \<Rightarrow> ((wal, snd s), if e = EOF then Ok () else Err e)
      | ((wal, rd), Panic p) \<Rightarrow> ((wal, snd s), Panic p)
      | ((wal, rd), Crash p) \<Rightarrow> ((wal, snd s), Crash p))"

definition loadIndexFromHintFile :: "'t btree \<Rightarrow> env \<Rightarrow> files \<times> 't \<Rightarrow> (files \<times> 't) \<times> unit gores" where
  "loadIndexFromHintFile B env s =
     (case open_files (envIO env) hint_options (fst s) of
        Ok wal \<Rightarrow>
          (case hint_loop (envFuel env) B (envPool env) (NewReader wal) (SetIsStartupTraversal True wal, snd s) of
             ((wal, idx), r) \<Rightarrow> ((files_of wal, idx), r))
      | Err e \<Rightarrow> (s, Err e) | Panic p \<Rightarrow> (s, Panic p) | Crash p \<Rightarrow> (s, Crash p))"

record IndexRecord =
  ixKey :: bytes
  ixType :: u8
  ixPos :: ChunkPosition

type_synonym indexRecords = "(u64 \<times> IndexRecord list) list"

text \<open>The records of a finished batch go into the index.\<close>

fun apply_records :: "'t btree \<Rightarrow> IndexRecord list \<Rightarrow> 't \<Rightarrow> 't" where
  "apply_records B [] idx = idx"
| "apply_records B (r # rs) idx =
     apply_records B rs
       (if ixType r = LogRecordNormal then fst (idxPut B (ixKey r) (ixPos r) idx)
        else if ixType r = LogRecordDeleted then fst (idxDelete B (ixKey r) idx) else idx)"

definition records_of :: "indexRecords \<Rightarrow> u64 \<Rightarrow> IndexRecord list" where
  "records_of m bid = (case map_of m bid of None \<Rightarrow> [] | Some rs \<Rightarrow> rs)"

definition load_record :: "'t btree \<Rightarrow> env \<Rightarrow> bytes \<Rightarrow> ChunkPosition \<Rightarrow> 't \<times> indexRecords \<Rightarrow> ('t \<times> indexRecords) gores" where
  "load_record B env data position s =
     (case s of (idx, m) \<Rightarrow>
        go_bind (decodeLogRecord (envSpare env data) data) (\<lambda>r.
          if rType r = LogRecordBatchFinished then
            go_bind (ParseBytes (rKey r)) (\<lambda>batchId.
              Ok (apply_records B (records_of m batchId) idx, AList.delete batchId m))
          else if rType r = LogRecordNormal \<and> rBatchId r = 0 then
            Ok (fst (idxPut B (rKey r) position idx), m)
          else if IsExpired r (envNow env) then Ok (fst (idxDelete B (rKey r) idx), m)
          else Ok (idx, AList.update (rBatchId r)
            (records_of m (rBatchId r) @ [\<lparr>ixKey = rKey r, ixType = rType r, ixPos = position\<rparr>]) m)))"

fun load_loop :: "nat \<Rightarrow> 't btree \<Rightarrow> env \<Rightarrow> u32 \<Rightarrow> walReader \<Rightarrow> WAL \<times> 't \<times> indexRecords \<Rightarrow>
    (WAL \<times> 't \<times> indexRecords) \<times> unit gores" where
  "load_loop 0 B env fin rd s = (s, Crash ''out of fuel'')"
| "load_loop (Suc n) B env fin rd s =
     st_bind (s, CurrentSegmentId rd) (\<lambda>s sid.
       if sid \<le> fin then load_loop n B env fin (SkipCurrentSegment rd) s
       else case walNext (envPool env) (fst s) rd of
         ((wal, rd), Ok (data, position)) \<Rightarrow>
           st_bind ((wal, snd s), load_record B env data position (snd s)) (\<lambda>s t.
             load_loop n B env fin rd (fst s, t))
       | ((wal, rd), Err e) \<Rightarrow> ((wal, snd s), if e = EOF then Ok () else Err e)
       | ((wal, rd), Panic p) \<Rightarrow> ((wal, snd s), Panic p)
       | ((wal, rd), Crash p) \<Rightarrow> ((wal, snd s), Crash p))"

definition loadIndexFromWAL :: "'t btree \<Rightarrow> env \<Rightarrow> files \<Rightarrow> WAL \<times> 't \<Rightarrow> (WAL \<times> 't) \<times> unit gores" where
  "loadIndexFromWAL B env fins s =
     st_bind (s, getMergeFinSegmentId fins) (\<lambda>(wal, idx) fin.
       case load_loop (envFuel env) B env fin (NewReader wal) (SetIsStartupTraversal True wal, idx, []) of
         ((wal, idx, _), r) \<Rightarrow> st_bind ((wal, idx), r) (\<lambda>(wal, idx) _. ((SetIsStartupTraversal False wal, idx), Ok ())))"

definition loadIndex :: "'t btree \<Rightarrow> env \<Rightarrow> 't db \<Rightarrow> 't db \<times> unit gores" where
  "loadIndex B env db =
     (case loadIndexFromHintFile B env (hintDisk db, dbIndex db) of
        ((hints, idx), r) \<Rightarrow> st_bind (db\<lparr>hintDisk := hints, dbIndex := idx\<rparr>, r) (\<lambda>db _.
          case loadIndexFromWAL B env (finDisk db) (dataFiles db, dbIndex db) of
            ((wal, idx), r) \<Rightarrow> (db\<lparr>dataFiles := wal, dbIndex := idx\<rparr>, r)))"

subsection \<open>Opening and closing\<close>

text \<open>Moving the files of a merge into the directory; the directory of the merge is removed in any case.\<close>

definition moveFile :: "files \<Rightarrow> u32 \<Rightarrow> bool \<Rightarrow> files \<Rightarrow> files" where
  "moveFile src i force dest =
     (case map_of src i of None \<Rightarrow> dest
      | Some content \<Rightarrow> if \<not> force \<and> content = [] then dest else AList.update i content dest)"

definition loadMergeFiles :: "dir \<Rightarrow> dir option \<Rightarrow> dir gores" where
  "loadMergeFiles d merge =
     (case merge of None \<Rightarrow> Ok d
      | Some m \<Rightarrow>
          go_bind (getMergeFinSegmentId (finFiles m)) (\<lambda>fin.
            Ok \<lparr>segFiles = fold (\<lambda>i fs. moveFile (segFiles m) i False (AList.delete i fs))
                  (map word_of_nat [1..<Suc (unat fin)]) (segFiles d),
                hintFiles = moveFile (hintFiles m) 1 True (hintFiles d),
                finFiles = moveFile (finFiles m) 1 True (finFiles d)\<rparr>))"

definition checkOptions :: "dbOptions \<Rightarrow> unit gores" where
  "checkOptions opts =
     (if optSegmentSize opts \<le> 0 then Err ''database data file size must be greater than 0'' else Ok ())"

text \<open>A process that opens a directory; a store that it cannot open is not kept.\<close>

definition open_dir :: "'t btree \<Rightarrow> env \<Rightarrow> dbOptions \<Rightarrow> dir \<Rightarrow> 't db gores" where
  "open_dir B env opts d =
     go_bind (openWalFiles (envIO env) opts (segFiles d)) (\<lambda>wal.
       case loadIndex B env
           \<lparr>dataFiles = wal, dbIndex = bt_New B, dbOpts = opts, dbMu = Unlocked, dbClosed = False, mergeRunning = False,
             watcher = (if 0 < optWatchQueueSize opts then Some (NewWatcher (optWatchQueueSize opts)) else None),
             hintDisk = hintFiles d, finDisk = finFiles d, mergeDisk = None\<rparr>
       of (db, r) \<Rightarrow> go_bind r (\<lambda>_. Ok db))"

definition dbOpen :: "'t btree \<Rightarrow> env \<Rightarrow> dbOptions \<Rightarrow> dir \<Rightarrow> dir option \<Rightarrow> 't db gores" where
  "dbOpen B env opts d merge =
     go_bind (checkOptions opts) (\<lambda>_. go_bind (loadMergeFiles d merge) (open_dir B env opts))"

text \<open>What is on the disk, in the directory of the store and in that of the merge.\<close>

definition dbDisk :: "'t db \<Rightarrow> dir" where
  "dbDisk db = \<lparr>segFiles = files_of (dataFiles db), hintFiles = hintDisk db, finFiles = finDisk db\<rparr>"

text \<open>A second \<open>Close\<close> with a watcher closes its channel twice. A failure to close a file ends it before that.\<close>

definition dbClose :: "env \<Rightarrow> 't db \<Rightarrow> 't db \<times> unit gores" where
  "dbClose env db =
     st_bind (locking False db) (\<lambda>db _.
     case walClose (envIO env) (dataFiles db) of (wal, r) \<Rightarrow>
       let again = r = Ok () \<and> dbClosed db \<and> 0 < optWatchQueueSize (dbOpts db);
           db = db\<lparr>dataFiles := wal\<rparr> in
       st_bind (unlocking False (if r \<noteq> Ok () \<or> again then db else db\<lparr>dbClosed := True\<rparr>)) (\<lambda>db _.
         (db, if again then Panic ''close of closed channel'' else r)))"

definition dbSync :: "env \<Rightarrow> 't db \<Rightarrow> 't db \<times> unit gores" where
  "dbSync env db =
     st_bind (locking False db) (\<lambda>db _.
     st_bind (unlocking False db) (\<lambda>db _. (db, walSync (envIO env) (dataFiles db))))"

definition dbWatch :: "'t db \<Rightarrow> unit gores" where
  "dbWatch db = (if optWatchQueueSize (dbOpts db) = 0 then Err ErrWatchDisabled else Ok ())"

definition DirSize :: "dir \<Rightarrow> nat" where
  "DirSize d = sum_list (map (length \<circ> snd) (segFiles d @ hintFiles d @ finFiles d))"

definition dbStat :: "'t btree \<Rightarrow> 't db \<Rightarrow> nat \<times> nat" where
  "dbStat B db = (idxSize B (dbIndex db), DirSize (dbDisk db))"

subsection \<open>Merging\<close>

definition positionEquals :: "ChunkPosition \<Rightarrow> ChunkPosition \<Rightarrow> bool" where
  "positionEquals a b \<longleftrightarrow> SegmentId a = SegmentId b \<and> BlockNumber a = BlockNumber b \<and> ChunkOffset a = ChunkOffset b"

text \<open>The log and the hint file of the merge.\<close>

record mergeState =
  mData :: WAL
  mHint :: WAL

definition merge_record :: "'t btree \<Rightarrow> env \<Rightarrow> 't \<Rightarrow> bytes \<Rightarrow> ChunkPosition \<Rightarrow> mergeState \<Rightarrow> mergeState \<times> unit gores" where
  "merge_record B env idx data position m =
     st_bind (m, decodeLogRecord (envSpare env data) data) (\<lambda>m r.
       if rType r = LogRecordNormal \<and> (rExpire r = 0 \<or> envNow env <s rExpire r) \<and>
         (case idxGet B (rKey r) idx of None \<Rightarrow> False | Some p \<Rightarrow> positionEquals p position)
       then
         st_bind (m, encodeLogRecord (r\<lparr>rBatchId := 0\<rparr>)) (\<lambda>m bs.
         case walWrite (envIO env) bs (mData m) of
           (wal, res) \<Rightarrow> st_bind (m\<lparr>mData := wal\<rparr>, res) (\<lambda>m newPosition.
         st_bind (m, encodeHintRecord (rKey r) newPosition) (\<lambda>m hs.
         case walWrite (envIO env) hs (mHint m) of
           (wal, res) \<Rightarrow> st_bind (m\<lparr>mHint := wal\<rparr>, res) (\<lambda>m _. (m, Ok ())))))
       else (m, Ok ()))"

fun merge_loop :: "nat \<Rightarrow> 't btree \<Rightarrow> env \<Rightarrow> 't \<Rightarrow> walReader \<Rightarrow> WAL \<times> mergeState \<Rightarrow> (WAL \<times> mergeState) \<times> unit gores" where
  "merge_loop 0 B env idx rd s = (s, Crash ''out of fuel'')"
| "merge_loop (Suc n) B env idx rd s =
     (case walNext (envPool env) (fst s) rd of
        ((wal, rd), Ok (data, position)) \<Rightarrow>
          (case merge_record B env idx data position (snd s) of
             (m, r) \<Rightarrow> st_bind ((wal, m), r) (\<lambda>s _. merge_loop n B env idx rd s))
      | ((wal, rd), Err e) \<Rightarrow> ((wal, snd s), if e = EOF then Ok () else Err e)
      | ((wal, rd), Panic p) \<Rightarrow> ((wal, snd s), Panic p)
      | ((wal, rd), Crash p) \<Rightarrow> ((wal, snd s), Crash p))"

definition fin_options :: walOptions where
  "fin_options = \<lparr>SegmentSize = 2 ^ 30, SegmentFileExt = ''.MERGEFIN'', wSync = False, BytesPerSync = 0\<rparr>"

text \<open>The directory of the merge is made anew; the file that ends the merge is written last.\<close>

definition doMerge :: "'t btree \<Rightarrow> env \<Rightarrow> 't db \<Rightarrow> 't db \<times> unit gores" where
  "doMerge B env db =
     (if dbMu db \<noteq> Unlocked then (db, Crash ''deadlock'')
      else if dbClosed db then (db, Err ErrDBClosed)
      else if walIsEmpty (dataFiles db) then (db, Ok ())
      else if mergeRunning db then (db, Err ErrMergeRunning)
      else
        let prevActiveSegId = ActiveSegmentID (dataFiles db) in
        case OpenNewActiveSegment (envIO env) (dataFiles db) of (wal, r) \<Rightarrow>
        st_bind (db\<lparr>dataFiles := wal\<rparr>, r) (\<lambda>db _.
        let opts = (dbOpts db)\<lparr>optSync := False, optBytesPerSync := 0\<rparr>;
            empty = \<lparr>segFiles = [], hintFiles = [], finFiles = []\<rparr> in
        st_bind (db\<lparr>mergeDisk := Some empty\<rparr>, dbOpen B env opts empty None) (\<lambda>db mergeDB.
        st_bind (db, open_files (envIO env) hint_options (hintDisk mergeDB)) (\<lambda>db hint.
        case merge_loop (envFuel env) B env (dbIndex db) (NewReaderWithMax prevActiveSegId (dataFiles db))
            (dataFiles db, \<lparr>mData = dataFiles mergeDB, mHint = hint\<rparr>) of
          ((wal, m), r) \<Rightarrow>
            let d = \<lparr>segFiles = files_of (mData m), hintFiles = files_of (mHint m), finFiles = []\<rparr> in
            st_bind (db\<lparr>dataFiles := wal, mergeDisk := Some d\<rparr>, r) (\<lambda>db _.
            st_bind (db, open_files (envIO env) fin_options []) (\<lambda>db fin.
            case walWrite (envIO env) (encodeMergeFinRecord prevActiveSegId) fin of
              (fin, r) \<Rightarrow> st_bind (db\<lparr>mergeDisk := Some (d\<lparr>finFiles := files_of fin\<rparr>)\<rparr>, r) (\<lambda>db _. (db, Ok ()))))))))"

text \<open>The directory of the merge is removed also when its files cannot be moved.\<close>

definition dbMerge :: "'t btree \<Rightarrow> env \<Rightarrow> bool \<Rightarrow> 't db \<Rightarrow> 't db \<times> unit gores" where
  "dbMerge B env reopenAfterDone db =
     st_bind (doMerge B env db) (\<lambda>db _.
       if \<not> reopenAfterDone then (db, Ok ())
       else st_bind (db\<lparr>dataFiles := fst (walClose (envIO env) (dataFiles db)), mergeDisk := None\<rparr>, loadMergeFiles (dbDisk db) (mergeDisk db))
         (\<lambda>db d. let db = db\<lparr>hintDisk := hintFiles d, finDisk := finFiles d\<rparr> in
            st_bind (db, openWalFiles (envIO env) (dbOpts db) (segFiles d)) (\<lambda>db wal.
              loadIndex B env (db\<lparr>dataFiles := wal, dbIndex := bt_New B\<rparr>))))"

end
