(* ===== verification/DiskvCorrect.thy ===== *)
theory DiskvCorrect
  imports DiskvDb
begin

text \<open>
  The store as a finite map: what a commit does, what a read finds, and what the index is after the
  log has been read again.
\<close>

subsection \<open>What the records of a log mean\<close>

definition enc :: "LogRecord \<Rightarrow> bytes" where
  "enc r = (case encodeLogRecord r of Ok bs \<Rightarrow> bs | _ \<Rightarrow> [])"

type_synonym rlog = "(place \<times> LogRecord) list"

definition encoded :: "rlog \<Rightarrow> (place \<times> bytes) list" where
  "encoded L = map (\<lambda>(pl, r). (pl, enc r)) L"

lemma encoded_simps [simp]:
  "encoded [] = []" "encoded (L @ L') = encoded L @ encoded L'" "encoded ((pl, r) # L) = (pl, enc r) # encoded L"
  by (simp_all add: encoded_def)

lemma enc_Ok: "record_fits r \<Longrightarrow> encodeLogRecord r = Ok (enc r) \<and> decodeLogRecord spare (enc r) = Ok r"
  by (rule decodeLogRecord_encode [of r]) (auto simp: enc_def)

text \<open>A record that the store writes: it never expires, and the key of an end record is a number.\<close>

definition good :: "LogRecord \<Rightarrow> bool" where
  "good r \<longleftrightarrow> record_fits r \<and> rExpire r = 0 \<and>
     (rType r = LogRecordBatchFinished \<longrightarrow> (\<exists>b. ParseBytes (rKey r) = Ok b))"

type_synonym pend = "u64 \<Rightarrow> (bytes \<times> u8 \<times> place) list"

definition bid_of :: "LogRecord \<Rightarrow> u64" where
  "bid_of r = (case ParseBytes (rKey r) of Ok b \<Rightarrow> b | _ \<Rightarrow> 0)"

fun place_records :: "(bytes \<times> u8 \<times> place) list \<Rightarrow> (bytes \<rightharpoonup> place) \<Rightarrow> (bytes \<rightharpoonup> place)" where
  "place_records [] I = I"
| "place_records ((k, t, pl) # rs) I =
     place_records rs (if t = LogRecordNormal then I(k \<mapsto> pl) else if t = LogRecordDeleted then I(k := None) else I)"

definition replay1 :: "place \<times> LogRecord \<Rightarrow> (bytes \<rightharpoonup> place) \<times> pend \<Rightarrow> (bytes \<rightharpoonup> place) \<times> pend" where
  "replay1 x s = (case (x, s) of ((pl, r), (I, P)) \<Rightarrow>
     if rType r = LogRecordBatchFinished then (place_records (P (bid_of r)) I, P(bid_of r := []))
     else if rType r = LogRecordNormal \<and> rBatchId r = 0 then (I(rKey r \<mapsto> pl), P)
     else (I, P(rBatchId r := P (rBatchId r) @ [(rKey r, rType r, pl)])))"

definition replay :: "rlog \<Rightarrow> (bytes \<rightharpoonup> place) \<times> pend \<Rightarrow> (bytes \<rightharpoonup> place) \<times> pend" where
  "replay L s = fold replay1 L s"

lemma replay_simps [simp]: "replay [] s = s" "replay (x # L) s = replay L (replay1 x s)"
  "replay (L @ L') s = replay L' (replay L s)"
  by (simp_all add: replay_def)

subsection \<open>Loading computes the replay\<close>

definition places :: "('t \<Rightarrow> bytes \<rightharpoonup> item) \<Rightarrow> 't \<Rightarrow> bytes \<rightharpoonup> place" where
  "places \<alpha> t k = map_option place_of (positions \<alpha> t k)"

definition loads :: "('t \<Rightarrow> bytes \<rightharpoonup> item) \<Rightarrow> 't \<times> indexRecords \<Rightarrow> (bytes \<rightharpoonup> place) \<times> pend \<Rightarrow> bool" where
  "loads \<alpha> s a \<longleftrightarrow> places \<alpha> (fst s) = fst a \<and>
     (\<forall>b. map (\<lambda>ir. (ixKey ir, ixType ir, place_of (ixPos ir))) (records_of (snd s) b) = snd a b)"

lemma places_ops:
  assumes "btree_ok B \<alpha>"
  shows "places \<alpha> (fst (idxPut B k p t)) = (places \<alpha> t)(k \<mapsto> place_of p)"
    and "places \<alpha> (fst (idxDelete B k t)) = (places \<alpha> t)(k := None)"
    and "places \<alpha> (bt_New B) = Map.empty"
  using assms by (auto simp: places_def fun_eq_iff idxPut_positions idxDelete_positions New_positions)

lemma apply_records_places:
  "btree_ok B \<alpha> \<Longrightarrow> places \<alpha> (apply_records B rs t) =
     place_records (map (\<lambda>ir. (ixKey ir, ixType ir, place_of (ixPos ir))) rs) (places \<alpha> t)"
  by (induction rs arbitrary: t) (simp_all add: places_ops record_types)

lemma records_of_ops [simp]:
  "records_of (AList.delete b m) b' = (if b' = b then [] else records_of m b')"
  "records_of (AList.update b rs m) b' = (if b' = b then rs else records_of m b')"
  "records_of [] b = []"
  by (simp_all add: records_of_def)

lemma load_record_replay:
  assumes B: "btree_ok B \<alpha>" and r: "good r" and l: "loads \<alpha> s a" and p: "place_of pos = pl"
  obtains s' where "load_record B env (enc r) pos s = Ok s'" "loads \<alpha> s' (replay1 (pl, r) a)"
proof -
  obtain idx m I P where s: "s = (idx, m)" "a = (I, P)" by (cases s, cases a)
  have dec: "decodeLogRecord spare (enc r) = Ok r" for spare using r enc_Ok by (simp add: good_def)
  have exp: "\<not> IsExpired r (envNow env)" using r by (simp add: good_def IsExpired_def)
  have I: "places \<alpha> idx = I" and P: "\<And>b. map (\<lambda>ir. (ixKey ir, ixType ir, place_of (ixPos ir))) (records_of m b) = P b"
    using l by (simp_all add: loads_def s)
  show ?thesis
  proof (cases "rType r = LogRecordBatchFinished")
    case True
    then obtain b where "ParseBytes (rKey r) = Ok b" using r by (auto simp: good_def)
    then show ?thesis using that True I P
      by (simp add: load_record_def s dec replay1_def bid_of_def loads_def apply_records_places [OF B])
  next
    case False
    show ?thesis
    proof (cases "rType r = LogRecordNormal \<and> rBatchId r = 0")
      case True
      then show ?thesis using False I P p
        by (intro that [of "(fst (idxPut B (rKey r) pos idx), m)"])
          (simp_all add: load_record_def s dec replay1_def loads_def places_ops [OF B])
    next
      case other: False
      let ?m = "AList.update (rBatchId r) (records_of m (rBatchId r) @ [\<lparr>ixKey = rKey r, ixType = rType r, ixPos = pos\<rparr>]) m"
      have "load_record B env (enc r) pos s = Ok (idx, ?m)"
        using False other exp by (simp only: load_record_def s dec prod.case go_bind.simps if_False simp_thms)
      moreover have "loads \<alpha> (idx, ?m) (replay1 (pl, r) a)"
        using False other I P p by (auto simp: s replay1_def loads_def)
      ultimately show ?thesis by (rule that)
    qed
  qed
qed

subsection \<open>Readers of the log\<close>

lemma walNext_current:
  "walNext pool wal rd = ((wal', rd'), Ok x) \<Longrightarrow>
   currentReader rd \<le> currentReader rd' \<and> currentReader rd' < length (segmentReaders rd') \<and>
   map fst (segmentReaders rd') = map fst (segmentReaders rd)"
proof (induction pool wal rd rule: walNext.induct)
  case (1 pool wal rd)
  let ?c = "currentReader rd" and ?rs = "segmentReaders rd"
  have c: "?c < length ?rs" using "1.prems" by (subst (asm) walNext.simps) (auto split: if_splits)
  obtain i sr where at: "?rs ! ?c = (i, sr)" by fastforce
  obtain seg where seg: "segment_of wal i = Some seg"
    using "1.prems" c at by (subst (asm) walNext.simps) (auto split: option.splits)
  obtain seg' sr' r where n: "segNext pool seg sr = ((seg', sr'), r)" by (metis prod.collapse)
  have ids: "map fst (?rs[?c := (i, sr')]) = map fst ?rs"
    using c at by (simp add: map_update list_update_same_conv)
  note st = walNext_step [OF c at seg n]
  show ?case
  proof (cases "r = Err EOF")
    case True
    then have "walNext pool (put_segment i seg' wal) (rd\<lparr>segmentReaders := ?rs[?c := (i, sr')], currentReader := ?c + 1\<rparr>) = ((wal', rd'), Ok x)"
      using "1.prems" st by (simp add: Let_def)
    then show ?thesis using "1.IH" [OF _ refl at [symmetric] seg n [symmetric] refl refl refl True] c ids by simp
  next
    case False
    then have "rd' = rd\<lparr>segmentReaders := ?rs[?c := (i, sr')]\<rparr>" using "1.prems" st by (simp add: Let_def)
    then show ?thesis using c ids by simp
  qed
qed

definition rd_ids :: "walReader \<Rightarrow> u32 list" where
  "rd_ids rd = map fst (drop (currentReader rd) (segmentReaders rd))"

lemma kept_trans: "kept a b \<Longrightarrow> kept b c \<Longrightarrow> kept a c"
  by (simp add: kept_def same_pending_def)

lemma kept_startup [simp]: "kept wal (SetIsStartupTraversal v wal)" "kept (SetIsStartupTraversal v wal) wal' = kept wal wal'"
  by (simp_all add: kept_def same_pending_def SetIsStartupTraversal_def ActiveSegmentID_def)

lemma kept_refl [simp]: "kept wal wal" by (simp add: kept_def same_pending_def)

lemma rd_ids_next:
  assumes "walNext pool wal rd = ((wal', rd'), Ok x)"
  shows "set (rd_ids rd') \<subseteq> set (rd_ids rd)" "rd_ids rd' \<noteq> []"
proof -
  have c: "currentReader rd \<le> currentReader rd'" "currentReader rd' < length (segmentReaders rd')"
    "map fst (segmentReaders rd') = map fst (segmentReaders rd)"
    using walNext_current [OF assms] by simp_all
  then show "set (rd_ids rd') \<subseteq> set (rd_ids rd)"
    unfolding rd_ids_def drop_map [symmetric] c(3) by (intro set_drop_subset_set_drop) 
  show "rd_ids rd' \<noteq> []" using c(2) by (simp add: rd_ids_def)
qed

lemma CurrentSegmentId_ids: "rd_ids rd \<noteq> [] \<Longrightarrow> CurrentSegmentId rd = Ok (hd (rd_ids rd))"
  by (simp add: CurrentSegmentId_def rd_ids_def hd_map hd_drop_conv_nth)

lemma load_loop_rest:
  assumes B: "btree_ok B \<alpha>"
  shows "reading h wal rd (encoded L) \<Longrightarrow> \<forall>x \<in> set L. good (snd x) \<Longrightarrow> \<forall>i \<in> set (rd_ids rd). fin < i \<Longrightarrow>
    rd_ids rd \<noteq> [] \<Longrightarrow> loads \<alpha> s a \<Longrightarrow> length L < n \<Longrightarrow>
    \<exists>wal' t. load_loop n B env fin rd (wal, s) = ((wal', t), Ok ()) \<and> places \<alpha> (fst t) = fst (replay L a) \<and>
      wal_holds wal' h \<and> kept wal wal'"
proof (induction n arbitrary: wal rd s a L)
  case (Suc n)
  have "hd (rd_ids rd) \<in> set (rd_ids rd)" using Suc.prems(4) by simp
  then have sid: "CurrentSegmentId rd = Ok (hd (rd_ids rd))" "\<not> hd (rd_ids rd) \<le> fin"
    using Suc.prems(3,4) by (simp_all add: CurrentSegmentId_ids not_le)
  show ?case
  proof (cases L)
    case Nil
    obtain rd' where "walNext (envPool env) wal rd = ((wal, rd'), Err EOF)"
      using reading_end [of h wal rd "envPool env"] Suc.prems(1) Nil by auto
    then show ?thesis using sid Nil Suc.prems(5) reading_holds [OF Suc.prems(1)] by (simp add: loads_def)
  next
    case (Cons x L')
    obtain pl r where x: "x = (pl, r)" by (cases x)
    obtain wal1 rd1 pos where n: "walNext (envPool env) wal rd = ((wal1, rd1), Ok (enc r, pos))" "place_of pos = pl"
      "reading h wal1 rd1 (encoded L')" "kept wal wal1"
      by (rule reading_next [of h wal rd pl "enc r" "encoded L'" "envPool env"]) (use Suc.prems(1) Cons x in auto)
    obtain s' where s': "load_record B env (enc r) pos s = Ok s'" "loads \<alpha> s' (replay1 (pl, r) a)"
      by (rule load_record_replay [OF B _ Suc.prems(5) n(2), of r]) (use Suc.prems(2) Cons x in auto)
    have "\<exists>wal' t. load_loop n B env fin rd1 (wal1, s') = ((wal', t), Ok ()) \<and> places \<alpha> (fst t) = fst (replay L' (replay1 (pl, r) a)) \<and>
      wal_holds wal' h \<and> kept wal1 wal'"
      by (rule Suc.IH [OF n(3) _ _ _ s'(2)]) (use Suc.prems(2,3,6) Cons rd_ids_next [OF n(1)] in auto)
    then obtain wal' t where "load_loop n B env fin rd1 (wal1, s') = ((wal', t), Ok ())"
      "places \<alpha> (fst t) = fst (replay L' (replay1 (pl, r) a))" "wal_holds wal' h" "kept wal1 wal'" by blast
    then show ?thesis using sid n(1) s'(1) Cons x kept_trans [OF n(4)]
      by (intro exI [of _ wal'] exI [of _ t]) simp
  qed
qed simp

text \<open>The segments that a merge has replaced are skipped.\<close>

definition live :: "u32 \<Rightarrow> (place \<times> 'a) list \<Rightarrow> (place \<times> 'a) list" where
  "live fin h = filter (\<lambda>x. fin < fst (fst x)) h"

lemma live_simps [simp]: "live fin [] = []" "live fin (h @ h') = live fin h @ live fin h'"
  by (simp_all add: live_def)

lemma live_encoded: "live fin (encoded L) = encoded (live fin L)"
  by (induction L) (auto simp: live_def encoded_def)

lemma live_placed: "live fin (placed logs) = placed (filter (\<lambda>(i, l). fin < i) logs)"
proof (induction logs)
  case (Cons x logs)
  obtain i l where x: "x = (i, l)" by (cases x)
  have "live fin (map (\<lambda>(p, d). (place_at i p, d)) l) = (if fin < i then map (\<lambda>(p, d). (place_at i p, d)) l else [])"
    by (induction l) (auto simp: live_def place_at_def)
  moreover have "placed (x # lg) = map (\<lambda>(p, d). (place_at i p, d)) l @ placed lg" for lg
    by (simp add: placed_def x comp_def case_prod_beta)
  ultimately show ?case using Cons by (simp add: x)
qed (simp add: placed_def)

lemma load_loop_skip:
  "currentReader rd + k < length (segmentReaders rd) \<Longrightarrow>
   \<forall>j < k. fst (segmentReaders rd ! (currentReader rd + j)) \<le> fin \<Longrightarrow>
   load_loop (k + n) B env fin rd s = load_loop n B env fin (rd\<lparr>currentReader := currentReader rd + k\<rparr>) s"
proof (induction k arbitrary: rd)
  case (Suc k)
  have "fst (segmentReaders rd ! currentReader rd) \<le> fin" using Suc.prems(2) by force
  then have "load_loop (Suc k + n) B env fin rd s = load_loop (k + n) B env fin (SkipCurrentSegment rd) s"
    using Suc.prems(1) by (simp add: CurrentSegmentId_def)
  also have "\<dots> = load_loop n B env fin (rd\<lparr>currentReader := currentReader rd + Suc k\<rparr>) s"
    using Suc.prems by (subst Suc.IH) (auto simp: SkipCurrentSegment_def)
  finally show ?case .
qed simp

lemma sorted_split:
  "sorted_wrt (<) (map fst logs) \<Longrightarrow> drop (length (takeWhile (\<lambda>x. fst x \<le> fin) logs)) logs = filter (\<lambda>(i, l). fin < i) logs"
  for fin :: u32
proof (induction logs)
  case (Cons x logs)
  then show ?case by (cases "fst x \<le> fin") (auto simp: not_le case_prod_beta intro!: filter_True [symmetric])
qed simp

lemma load_loop_ok:
  assumes B: "btree_ok B \<alpha>" and w: "wal_holds wal (encoded L)" and g: "\<forall>x \<in> set L. good (snd x)"
    and f: "fin < ActiveSegmentID wal" and l: "loads \<alpha> s a" and n: "length (walIds wal) + length L < n"
  obtains wal' t where "load_loop n B env fin (NewReader wal) (SetIsStartupTraversal True wal, s) = ((wal', t), Ok ())"
    "places \<alpha> (fst t) = fst (replay (live fin L) a)" "wal_holds wal' (encoded L)" "kept wal wal'"
proof -
  obtain logs where lg: "wal_ok wal logs" "encoded L = placed logs" using w by (auto simp: wal_holds_def)
  define k where "k = length (takeWhile (\<lambda>x. fst x \<le> fin) logs)"
  let ?rd = "NewReader wal" and ?wal = "SetIsStartupTraversal True wal"
  let ?rk = "?rd\<lparr>currentReader := k\<rparr>"
  have so: "sorted_wrt (<) (map fst logs)" and ne: "logs \<noteq> []" and la: "fst (last logs) = ActiveSegmentID wal"
    using lg(1) by (simp_all add: wal_ok_def ActiveSegmentID_def)
  have rs: "segmentReaders ?rd = map (\<lambda>i. (i, segNewReader)) (map fst logs)" "currentReader ?rd = 0"
    using wal_ids [OF lg(1), of "\<lambda>_. True"] by (simp_all add: NewReader_def NewReaderWithMax_def)
  have k: "k < length logs"
  proof (rule ccontr)
    assume "\<not> k < length logs"
    then have "takeWhile (\<lambda>x. fst x \<le> fin) logs = logs"
      unfolding k_def by (metis not_less takeWhile_eq_take take_all)
    then have "fst (last logs) \<le> fin" using ne by (metis last_in_set set_takeWhileD)
    then show False using f la by simp
  qed
  have dk: "drop k logs = filter (\<lambda>(i, l). fin < i) logs" unfolding k_def by (rule sorted_split [OF so])
  have "\<forall>j < k. fst (logs ! j) \<le> fin"
    unfolding k_def by (metis (mono_tags, lifting) nth_mem set_takeWhileD takeWhile_nth)
  then have skip: "load_loop (k + m) B env fin ?rd (?wal, s) = load_loop m B env fin ?rk (?wal, s)" for m
    using load_loop_skip [of ?rd k fin m B env "(?wal, s)"] k by (simp add: rs)
  have "rest_of wal (drop k (segmentReaders ?rd)) (records (drop k logs))"
    unfolding rs drop_map by (rule rest_of_fresh) (use lg(1) in \<open>auto simp: wal_ok_def dest: in_set_dropD\<close>)
  then have "reader_ok logs wal ?rk (records (drop k logs))"
    using lg(1) by (simp add: reader_ok_def rs image_image)
  then have "reading (encoded L) wal ?rk (placed (drop k logs))"
    unfolding reading_def lg(2) by (intro exI [of _ logs] exI) (auto simp: placed_def)
  moreover have "placed (drop k logs) = encoded (live fin L)"
    unfolding dk live_placed [symmetric] live_encoded [symmetric] lg(2) ..
  ultimately have rd: "reading (encoded L) ?wal ?rk (encoded (live fin L))" using reading_startup by metis
  have ids: "rd_ids ?rk = map fst (drop k logs)" by (simp add: rd_ids_def rs drop_map comp_def)
  have wi: "length (walIds wal) = length logs" using walIds_ok [OF lg(1)] by (metis length_map size_mset)
  have "\<forall>i \<in> set (rd_ids ?rk). fin < i" unfolding ids dk by auto
  moreover have "rd_ids ?rk \<noteq> []" unfolding ids using k by simp
  moreover have "\<forall>x \<in> set (live fin L). good (snd x)" using g by (simp add: live_def)
  moreover have "length (live fin L) < n - k"
  proof -
    have "length (live fin L) \<le> length L" by (simp add: live_def)
    then show ?thesis using n k wi by linarith
  qed
  ultimately obtain wal' t where "load_loop (n - k) B env fin ?rk (?wal, s) = ((wal', t), Ok ())"
    "places \<alpha> (fst t) = fst (replay (live fin L) a)" "wal_holds wal' (encoded L)" "kept ?wal wal'"
    using load_loop_rest [OF B rd, of fin s a "n - k" env] l by blast
  then show ?thesis using that skip [of "n - k"] n k wi by simp
qed

end
