(* ===== verification/DiskvBatch.thy ===== *)
theory DiskvBatch
  imports DiskvCorrect
begin

text \<open>
  Batches: the pending writes as a map of changes, what the calls on a batch make of it, and what its
  commit makes of the log and the index.
\<close>

subsection \<open>Batches as maps of changes\<close>

text \<open>\<open>None\<close>: the key is untouched; \<open>Some None\<close>: it is deleted; \<open>Some (Some v)\<close>: it has the value \<open>v\<close>.\<close>

type_synonym changes = "bytes \<rightharpoonup> bytes option"

definition changed :: "(bytes \<rightharpoonup> bytes) \<Rightarrow> changes \<Rightarrow> (bytes \<rightharpoonup> bytes)" where
  "changed M W = (\<lambda>k. case W k of None \<Rightarrow> M k | Some v \<Rightarrow> v)"

definition change_of :: "LogRecord \<Rightarrow> bytes option" where
  "change_of r = (if rType r = LogRecordDeleted then None else Some (rValue r))"

definition write_ok :: "LogRecord \<Rightarrow> bool" where
  "write_ok r \<longleftrightarrow> rKey r \<noteq> [] \<and> record_fits r \<and> rExpire r = 0 \<and> rType r \<in> {LogRecordNormal, LogRecordDeleted}"

definition changes_of :: "LogRecord list \<Rightarrow> changes" where
  "changes_of rs = map_of (map (\<lambda>r. (rKey r, change_of r)) rs)"

text \<open>The pending writes have distinct keys and the hash map leads to each of them.\<close>

definition batch_ok :: "(bytes \<Rightarrow> u64) \<Rightarrow> batch \<Rightarrow> bool" where
  "batch_ok hash b \<longleftrightarrow> distinct (map rKey (bWrites b)) \<and> (\<forall>r \<in> set (bWrites b). write_ok r) \<and>
     (\<forall>x is. map_of (bMap b) x = Some is \<longrightarrow> set is \<subseteq> {..<length (bWrites b)}) \<and>
     (\<forall>i < length (bWrites b). \<exists>is. map_of (bMap b) (hash (rKey (bWrites b ! i))) = Some is \<and> i \<in> set is)"

lemma batch_ok_init [simp]: "batch_ok hash (initBatch rdonly sync node)"
  by (simp add: batch_ok_def initBatch_def)

lemma changes_of_simps [simp]:
  "changes_of [] = Map.empty" "changes_of (r # rs) = (changes_of rs)(rKey r \<mapsto> change_of r)"
  by (simp_all add: changes_of_def)

lemma changes_of_None: "changes_of rs k = None \<longleftrightarrow> k \<notin> rKey ` set rs"
  by (induction rs) auto

lemma changes_of_snoc: "rKey r \<notin> rKey ` set rs \<Longrightarrow> changes_of (rs @ [r]) = (changes_of rs)(rKey r \<mapsto> change_of r)"
  by (induction rs) (auto simp: fun_upd_twist)

lemma changes_of_nth:
  "distinct (map rKey rs) \<Longrightarrow> i < length rs \<Longrightarrow> changes_of rs (rKey (rs ! i)) = Some (change_of (rs ! i))"
proof (induction rs arbitrary: i)
  case (Cons a rs)
  have "rKey (rs ! j) \<noteq> rKey a" if "j < length rs" for j using Cons.prems(1) that by (metis distinct.simps(2) image_eqI list.set_map list.simps(9) nth_mem)
  then show ?case using Cons by (cases i) auto
qed simp

lemma changes_of_update:
  "distinct (map rKey rs) \<Longrightarrow> i < length rs \<Longrightarrow> rKey r = rKey (rs ! i) \<Longrightarrow>
   changes_of (rs[i := r]) = (changes_of rs)(rKey r \<mapsto> change_of r)"
proof (induction rs arbitrary: i)
  case (Cons a rs)
  show ?case
  proof (cases i)
    case (Suc j)
    then have "rKey r \<in> rKey ` set rs" using Cons.prems(2,3) by simp
    then have ne: "rKey r \<noteq> rKey a" using Cons.prems(1) by auto
    have "changes_of (rs[j := r]) = (changes_of rs)(rKey r \<mapsto> change_of r)"
      by (rule Cons.IH) (use Cons.prems Suc in auto)
    then show ?thesis using ne by (intro ext) (simp add: Suc)
  qed (use Cons.prems in \<open>auto intro!: ext\<close>)
qed simp

lemma keys_update: "i < length rs \<Longrightarrow> rKey r = rKey (rs ! i) \<Longrightarrow> map rKey (rs[i := r]) = map rKey rs"
  by (metis list_update_id map_update)

lemma lookupPendingWrites_ok:
  assumes "batch_ok hash b"
  shows "case lookupPendingWrites hash key b of
      None \<Rightarrow> key \<notin> rKey ` set (bWrites b)
    | Some i \<Rightarrow> i < length (bWrites b) \<and> rKey (bWrites b ! i) = key"
proof (cases "lookupPendingWrites hash key b")
  case None
  have "rKey (bWrites b ! i) \<noteq> key" if i: "i < length (bWrites b)" for i
  proof
    assume k: "rKey (bWrites b ! i) = key"
    then obtain is' where m: "map_of (bMap b) (hash key) = Some is'" "i \<in> set is'"
      using assms i by (auto simp: batch_ok_def)
    have "List.find (\<lambda>i. rKey (bWrites b ! i) = key) is' \<noteq> None"
      using m(2) k by (auto simp: find_None_iff)
    then show False using None m(1) by (simp add: lookupPendingWrites_def)
  qed
  then have "key \<notin> rKey ` set (bWrites b)" by (metis imageE in_set_conv_nth)
  then show ?thesis using None by simp
next
  case (Some i)
  then obtain is' where "map_of (bMap b) (hash key) = Some is'" "i \<in> set is'" "rKey (bWrites b ! i) = key"
    by (auto simp: lookupPendingWrites_def find_Some_iff split: option.splits)
  then show ?thesis using Some assms by (auto simp: batch_ok_def)
qed

text \<open>The fields that writes to a batch leave as they are.\<close>

definition same_batch :: "batch \<Rightarrow> batch \<Rightarrow> bool" where
  "same_batch b b' \<longleftrightarrow> bReadOnly b' = bReadOnly b \<and> bSync b' = bSync b \<and> bCommitted b' = bCommitted b \<and>
     bRollbacked b' = bRollbacked b \<and> bNode b' = bNode b"

lemma batch_append:
  assumes b: "batch_ok hash b" and k: "rKey r \<notin> rKey ` set (bWrites b)" and r: "write_ok r"
  shows "batch_ok hash (appendPendingWrites hash (rKey r) r b)"
    and "changes_of (bWrites (appendPendingWrites hash (rKey r) r b)) = (changes_of (bWrites b))(rKey r \<mapsto> change_of r)"
    and "same_batch b (appendPendingWrites hash (rKey r) r b)"
proof -
  let ?b = "appendPendingWrites hash (rKey r) r b"
  have w: "bWrites ?b = bWrites b @ [r]" by (simp add: appendPendingWrites_def Let_def)
  have m: "map_of (bMap ?b) = (map_of (bMap b))(hash (rKey r) \<mapsto>
      (case map_of (bMap b) (hash (rKey r)) of None \<Rightarrow> [] | Some is \<Rightarrow> is) @ [length (bWrites b)])"
    by (simp add: appendPendingWrites_def Let_def)
  show "changes_of (bWrites ?b) = (changes_of (bWrites b))(rKey r \<mapsto> change_of r)"
    unfolding w by (rule changes_of_snoc [OF k])
  show "same_batch b ?b" by (simp add: same_batch_def appendPendingWrites_def Let_def)
  show "batch_ok hash ?b" unfolding batch_ok_def
  proof (intro conjI allI impI)
    show "distinct (map rKey (bWrites ?b))" "\<forall>r \<in> set (bWrites ?b). write_ok r"
      using b k r by (auto simp: w batch_ok_def)
    show "set is' \<subseteq> {..<length (bWrites ?b)}" if "map_of (bMap ?b) x = Some is'" for x is'
      using that b unfolding batch_ok_def w m by (fastforce split: if_splits option.splits)
    show "\<exists>is'. map_of (bMap ?b) (hash (rKey (bWrites ?b ! i))) = Some is' \<and> i \<in> set is'"
      if "i < length (bWrites ?b)" for i
    proof (cases "i = length (bWrites b)")
      case False
      then have i: "i < length (bWrites b)" using that w by simp
      then obtain is' where "map_of (bMap b) (hash (rKey (bWrites b ! i))) = Some is'" "i \<in> set is'"
        using b by (auto simp: batch_ok_def)
      then show ?thesis using i by (auto simp: w m nth_append)
    qed (simp add: w m)
  qed
qed

lemma batch_update:
  assumes b: "batch_ok hash b" and i: "i < length (bWrites b)" "rKey r = rKey (bWrites b ! i)" and r: "write_ok r"
  shows "batch_ok hash (b\<lparr>bWrites := (bWrites b)[i := r]\<rparr>)"
    and "changes_of ((bWrites b)[i := r]) = (changes_of (bWrites b))(rKey r \<mapsto> change_of r)"
    and "same_batch b (b\<lparr>bWrites := (bWrites b)[i := r]\<rparr>)"
proof -
  have k: "map rKey ((bWrites b)[i := r]) = map rKey (bWrites b)" by (rule keys_update [OF i])
  have "rKey ((bWrites b)[i := r] ! j) = rKey (bWrites b ! j)" if "j < length (bWrites b)" for j
    using k that by (metis length_list_update nth_map)
  then show "batch_ok hash (b\<lparr>bWrites := (bWrites b)[i := r]\<rparr>)"
    using b r List.set_update_subset_insert [of "bWrites b" i r] unfolding batch_ok_def by (auto simp: k)
  show "changes_of ((bWrites b)[i := r]) = (changes_of (bWrites b))(rKey r \<mapsto> change_of r)"
    using changes_of_update [OF _ i] b by (simp add: batch_ok_def)
qed (simp add: same_batch_def)

lemma same_batch_refl [simp]: "same_batch b b" by (simp add: same_batch_def)

lemma same_batch_trans: "same_batch a b \<Longrightarrow> same_batch b c \<Longrightarrow> same_batch a c"
  by (simp add: same_batch_def)

text \<open>What the calls of a batch need to change it.\<close>

definition writing :: "bytes \<Rightarrow> bytes \<Rightarrow> 't db \<Rightarrow> batch \<Rightarrow> bool" where
  "writing key value db b \<longleftrightarrow> key \<noteq> [] \<and> length key + length value < 2 ^ 32 - 31 \<and> \<not> dbClosed db \<and> \<not> bReadOnly b"

lemma bPut_ok:
  assumes b: "batch_ok (envHash env) b" and w: "writing key value db b"
  obtains b' where "bPut env key value db b = (b', Ok ())" "batch_ok (envHash env) b'" "same_batch b b'"
    "changes_of (bWrites b') = (changes_of (bWrites b))(key \<mapsto> Some value)"
proof (cases "lookupPendingWrites (envHash env) key b")
  case None
  let ?r = "put_record key value"
  have r: "rKey ?r = key" "change_of ?r = Some value" "write_ok ?r"
    using w by (simp_all add: put_record_def change_of_def write_ok_def record_types writing_def record_fits_def)
  have "key \<notin> rKey ` set (bWrites b)" using lookupPendingWrites_ok [OF b, of key] None by simp
  then show ?thesis using batch_append [OF b, of ?r] r w None
    by (intro that [of "appendPendingWrites (envHash env) key ?r b"]) (auto simp: bPut_def writing_def)
next
  case (Some i)
  let ?r = "(bWrites b ! i)\<lparr>rKey := key, rValue := value, rType := LogRecordNormal, rExpire := 0\<rparr>"
  have r: "rKey ?r = key" "change_of ?r = Some value" "write_ok ?r"
    using w by (simp_all add: change_of_def write_ok_def record_types writing_def record_fits_def)
  have i: "i < length (bWrites b)" "rKey (bWrites b ! i) = key" using lookupPendingWrites_ok [OF b, of key] Some by simp_all
  show ?thesis using batch_update [OF b i(1), of ?r] i r w Some
    by (intro that [of "b\<lparr>bWrites := (bWrites b)[i := ?r]\<rparr>"]) (auto simp: bPut_def writing_def)
qed

lemma bDelete_ok:
  assumes b: "batch_ok (envHash env) b" and w: "writing key [] db b"
  obtains b' where "bDelete env key db b = (b', Ok ())" "batch_ok (envHash env) b'" "same_batch b b'"
    "changes_of (bWrites b') = (changes_of (bWrites b))(key \<mapsto> None)"
proof (cases "lookupPendingWrites (envHash env) key b")
  case None
  let ?r = "delete_record key"
  have r: "rKey ?r = key" "change_of ?r = None" "write_ok ?r"
    using w by (simp_all add: delete_record_def change_of_def write_ok_def record_types writing_def record_fits_def)
  have "key \<notin> rKey ` set (bWrites b)" using lookupPendingWrites_ok [OF b, of key] None by simp
  then show ?thesis using batch_append [OF b, of ?r] r w None
    by (intro that [of "appendPendingWrites (envHash env) key ?r b"]) (auto simp: bDelete_def writing_def)
next
  case (Some i)
  let ?r = "(bWrites b ! i)\<lparr>rType := LogRecordDeleted, rValue := [], rExpire := 0\<rparr>"
  have i: "i < length (bWrites b)" "rKey (bWrites b ! i) = key" using lookupPendingWrites_ok [OF b, of key] Some by simp_all
  have r: "rKey ?r = key" "change_of ?r = None" "write_ok ?r"
    using w i by (simp_all add: change_of_def write_ok_def record_types writing_def record_fits_def)
  show ?thesis using batch_update [OF b i(1), of ?r] i r w Some
    by (intro that [of "b\<lparr>bWrites := (bWrites b)[i := ?r]\<rparr>"]) (auto simp: bDelete_def writing_def)
qed

subsection \<open>The records of a commit\<close>

lemma node_id:
  assumes "snGenerate node clock = Some (node', clock', batchId)" "snNode node = 1"
  shows "batchId \<noteq> 0" "snNode node' = 1"
proof -
  have nz: "compose_id now n \<noteq> 0" if "snNode n = 1" for now n
  proof
    assume "compose_id now n = 0"
    moreover have "bit (compose_id now n) 12" using that by (simp add: compose_id_def NodeBits_def StepBits_def bit_simps)
    ultimately show False by simp
  qed
  have "batchId \<noteq> 0 \<and> snNode node' = 1"
    using assms by (auto simp: snGenerate_def Let_def nz split: list.splits if_splits option.splits)
  then show "batchId \<noteq> 0" "snNode node' = 1" by simp_all
qed

lemma ParseBytes_ID: "ParseBytes (ID_Bytes f) = Ok f"
  using ParseIntBase_Format [OF _ _ sint_range, of 10 f] by (simp add: ParseBytes_def ID_Bytes_def ID_String_def)

lemma digits_of_length: "2 \<le> b \<Longrightarrow> n < b ^ Suc k \<Longrightarrow> length (digits_of b n) \<le> Suc k"
proof (induction k arbitrary: n)
  case (Suc k)
  have "n div b < b ^ Suc k" using Suc.prems by (simp add: div_less_iff_less_mult mult.commute)
  then show ?case using Suc.IH [of "n div b"] Suc.prems(1) by (subst digits_of_rec) auto
qed (simp add: digits_of_rec)

lemma ID_Bytes_length: "length (ID_Bytes f) \<le> 20"
proof -
  have "nat \<bar>sint f\<bar> < 10 ^ Suc 18" using sint_range [of f] by simp
  then show ?thesis using digits_of_length [of 10 _ 18] by (force simp: ID_Bytes_def ID_String_def FormatInt_def str_bytes_def)
qed

lemma good_end: "good (end_record b)"
  using ID_Bytes_length [of b] ParseBytes_ID [of b] by (simp add: good_def end_record_def record_fits_def)

text \<open>The records of a batch, with its id, as they go into the log.\<close>

definition numbered :: "u64 \<Rightarrow> LogRecord list \<Rightarrow> LogRecord list" where
  "numbered b rs = map (rBatchId_update (\<lambda>_. b)) rs"

lemma numbered_simps [simp]:
  "length (numbered b rs) = length rs" "numbered b rs = [] \<longleftrightarrow> rs = []"
  "map rKey (numbered b rs) = map rKey rs" "changes_of (numbered b rs) = changes_of rs"
  by (simp_all add: numbered_def comp_def changes_of_def change_of_def cong: if_cong)

lemma numbered_ok: "\<forall>r \<in> set rs. write_ok r \<Longrightarrow> \<forall>r \<in> set (numbered b rs). write_ok r \<and> good r \<and> rBatchId r = b"
  by (auto simp: numbered_def write_ok_def good_def record_fits_def record_types)

lemma pend_records_ok:
  "\<forall>r \<in> set rs. record_fits r \<Longrightarrow> pend_records rs wal = (fold PendingWrites (map enc rs) wal, Ok ())"
  by (induction rs arbitrary: wal) (simp_all add: enc_Ok)

definition data_size :: "bytes list \<Rightarrow> int" where
  "data_size ds = (\<Sum>d\<leftarrow>ds. maxDataWriteSize (int (length d)))"

lemma fold_pending:
  "pendingWrites (fold PendingWrites ds wal) = pendingWrites wal @ ds"
  "pendingSize (fold PendingWrites ds wal) = pendingSize wal + data_size ds"
  "woptions (fold PendingWrites ds wal) = woptions wal" "ActiveSegmentID (fold PendingWrites ds wal) = ActiveSegmentID wal"
  "wal_holds wal h \<Longrightarrow> wal_holds (fold PendingWrites ds wal) h"
  by (induction ds arbitrary: wal) (simp_all add: PendingWrites_def data_size_def ActiveSegmentID_def
      holds_pending(1) [unfolded PendingWrites_def])

lemma index_records_same:
  "dataFiles (index_records B now rps db) = dataFiles db" "dbOpts (index_records B now rps db) = dbOpts db"
  "dbMu (index_records B now rps db) = dbMu db" "dbClosed (index_records B now rps db) = dbClosed db"
  "hintDisk (index_records B now rps db) = hintDisk db" "finDisk (index_records B now rps db) = finDisk db"
  "mergeRunning (index_records B now rps db) = mergeRunning db" "mergeDisk (index_records B now rps db) = mergeDisk db"
  by (induction B now rps db rule: index_records.induct) (simp_all add: Let_def)

text \<open>The entries of a batch, as the replay collects them.\<close>

definition entries :: "rlog \<Rightarrow> (bytes \<times> u8 \<times> place) list" where
  "entries L = map (\<lambda>(pl, r). (rKey r, rType r, pl)) L"

lemma entries_simps [simp]: "entries [] = []" "entries ((pl, r) # L) = (rKey r, rType r, pl) # entries L"
  by (simp_all add: entries_def)

lemma index_records_places:
  assumes "btree_ok B \<alpha>"
  shows "\<forall>(r, pos) \<in> set rps. write_ok r \<Longrightarrow>
    places \<alpha> (dbIndex (index_records B now rps db)) =
      place_records (entries (map (\<lambda>(r, pos). (place_of pos, r)) rps)) (places \<alpha> (dbIndex db))"
proof (induction rps arbitrary: db)
  case (Cons x rps)
  obtain r pos where x: "x = (r, pos)" by (cases x)
  have "\<not> IsExpired r now" "rType r = LogRecordNormal \<or> rType r = LogRecordDeleted"
    using Cons.prems x by (auto simp: write_ok_def IsExpired_def)
  then show ?case using Cons x by (auto simp: Let_def places_ops [OF assms] record_types)
qed simp

lemma replay_batch:
  "\<forall>(pl, r) \<in> set L. rBatchId r = b \<and> write_ok r \<Longrightarrow> b \<noteq> 0 \<Longrightarrow>
   replay L (I, P) = (I, P(b := P b @ entries L))"
proof (induction L arbitrary: P)
  case (Cons x L)
  obtain pl r where x: "x = (pl, r)" by (cases x)
  have "replay1 x (I, P) = (I, P(b := P b @ [(rKey r, rType r, pl)]))"
    using Cons.prems by (auto simp: x replay1_def write_ok_def record_types)
  then show ?case using Cons by (auto simp: x intro!: ext)
qed (simp add: fun_eq_iff)

lemma replay_commit:
  assumes "\<forall>(pl, r) \<in> set L. rBatchId r = b \<and> write_ok r" "b \<noteq> 0" "P b = []"
  shows "replay (L @ [(pl, end_record b)]) (I, P) = (place_records (entries L) I, P)"
  using replay_batch [OF assms(1,2), of I P] assms(3)
  by (auto simp: replay1_def end_record_def bid_of_def ParseBytes_ID intro!: ext)

text \<open>The map that an index with a log stands for.\<close>

definition shows_map :: "rlog \<Rightarrow> (bytes \<rightharpoonup> place) \<Rightarrow> (bytes \<rightharpoonup> bytes) \<Rightarrow> bool" where
  "shows_map L I M \<longleftrightarrow> (\<forall>k. case I k of None \<Rightarrow> M k = None
     | Some pl \<Rightarrow> \<exists>r. (pl, r) \<in> set L \<and> rType r = LogRecordNormal \<and> rKey r = k \<and> M k = Some (rValue r))"

lemma shows_map_more: "shows_map L I M \<Longrightarrow> set L \<subseteq> set L' \<Longrightarrow> shows_map L' I M"
  unfolding shows_map_def by (fastforce split: option.splits)

lemma shows_map_record:
  assumes "shows_map L I M" "(pl, r) \<in> set L" "write_ok r"
  shows "shows_map L (if rType r = LogRecordNormal then I(rKey r \<mapsto> pl) else if rType r = LogRecordDeleted then I(rKey r := None) else I)
    (M(rKey r := change_of r))"
proof -
  have "rType r = LogRecordNormal \<or> rType r = LogRecordDeleted" "LogRecordNormal \<noteq> LogRecordDeleted"
    using assms(3) by (auto simp: write_ok_def record_types)
  note t = this
  show ?thesis unfolding shows_map_def
  proof
    fix k
    show "case (if rType r = LogRecordNormal then I(rKey r \<mapsto> pl) else if rType r = LogRecordDeleted then I(rKey r := None) else I) k of
        None \<Rightarrow> (M(rKey r := change_of r)) k = None
      | Some pl \<Rightarrow> \<exists>ra. (pl, ra) \<in> set L \<and> rType ra = LogRecordNormal \<and> rKey ra = k \<and>
          (M(rKey r := change_of r)) k = Some (rValue ra)"
      using assms(1,2) t unfolding shows_map_def
      by (cases "k = rKey r") (auto simp: change_of_def split: option.split dest!: spec [of _ k])
  qed
qed

lemma shows_map_commit:
  "shows_map L I M \<Longrightarrow> set L1 \<subseteq> set L \<Longrightarrow> \<forall>(pl, r) \<in> set L1. write_ok r \<Longrightarrow> distinct (map (rKey \<circ> snd) L1) \<Longrightarrow>
   shows_map L (place_records (entries L1) I) (changed M (changes_of (map snd L1)))"
proof (induction L1 arbitrary: I M)
  case Nil
  then show ?case by (simp add: changed_def)
next
  case (Cons x L1)
  obtain pl r where x: "x = (pl, r)" by (cases x)
  have "changes_of (map snd L1) (rKey r) = None" using Cons.prems(4) x by (auto simp: changes_of_None)
  then have eq: "changed (M(rKey r := change_of r)) (changes_of (map snd L1)) = changed M (changes_of (map snd (x # L1)))"
    by (auto simp: changed_def x fun_eq_iff split: option.split)
  have step: "shows_map L (if rType r = LogRecordNormal then I(rKey r \<mapsto> pl) else if rType r = LogRecordDeleted then I(rKey r := None) else I)
    (M(rKey r := change_of r))"
    by (rule shows_map_record) (use Cons.prems x in auto)
  have "shows_map L (place_records (entries L1) (if rType r = LogRecordNormal then I(rKey r \<mapsto> pl) else if rType r = LogRecordDeleted then I(rKey r := None) else I))
      (changed (M(rKey r := change_of r)) (changes_of (map snd L1)))"
    by (rule Cons.IH [OF step]) (use Cons.prems in auto)
  then show ?case unfolding eq unfolding x entries_simps place_records.simps .
qed

end
