(* ===== verification/DiskvStore.thy ===== *)
theory DiskvStore
  imports DiskvBatch
begin

text \<open>
  The store keeps a finite map: the invariant that ties the map to the log and the index, and what
  each call of \<open>diskv/db.go\<close> makes of it. Opening a directory is in DiskvOpen, merging in DiskvMerge.
\<close>

subsection \<open>The invariant\<close>

definition wal_opts :: "dbOptions \<Rightarrow> walOptions" where
  "wal_opts opts = \<lparr>SegmentSize = optSegmentSize opts, SegmentFileExt = ''.SEG'', wSync = optSync opts,
     BytesPerSync = optBytesPerSync opts\<rparr>"

text \<open>The hint file of a merge: a log of positions by keys.\<close>

type_synonym hints = "(bytes \<times> ChunkPosition) list"

definition hint_map :: "hints \<Rightarrow> (bytes \<rightharpoonup> place) \<Rightarrow> (bytes \<rightharpoonup> place)" where
  "hint_map H I = fold (\<lambda>(k, pos) I. I(k \<mapsto> place_of pos)) H I"

definition enc_hint :: "bytes \<times> ChunkPosition \<Rightarrow> bytes" where
  "enc_hint x = (case encodeHintRecord (fst x) (snd x) of Ok bs \<Rightarrow> bs | _ \<Rightarrow> [])"

definition one_file :: "files \<Rightarrow> bool" where
  "one_file fs \<longleftrightarrow> (\<exists>c. fs = [(1, c)])"

definition hints_hold :: "files \<Rightarrow> hints \<Rightarrow> bool" where
  "hints_hold fs H \<longleftrightarrow> (fs = [] \<or> one_file fs) \<and> (\<exists>wal h. open_files io_fine hint_options fs = Ok wal \<and> wal_holds wal h \<and> map snd h = map enc_hint H)"

text \<open>
  The map \<open>M\<close> is what the index and the log \<open>L\<close> stand for; the index is what a replay of the log
  gives, and only batches with an id in \<open>U\<close> are unfinished in it.
\<close>

definition replays :: "u64 set \<Rightarrow> u32 \<Rightarrow> hints \<Rightarrow> rlog \<Rightarrow> (bytes \<rightharpoonup> place) \<Rightarrow> bool" where
  "replays U fin H L I \<longleftrightarrow> (\<exists>P. replay (live fin L) (hint_map H Map.empty, \<lambda>_. []) = (I, P) \<and> (\<forall>b. P b \<noteq> [] \<longrightarrow> b \<in> U))"

text \<open>
  A finished merge that is not loaded yet: its segments hold the records \<open>K\<close>, and with the segments that
  are newer than the mark \<open>fin\<close> they stand for the same map. \<open>i\<close> is the active segment of the store.
\<close>

definition merge_core :: "(bytes \<rightharpoonup> bytes) \<Rightarrow> u64 set \<Rightarrow> u32 \<Rightarrow> rlog \<Rightarrow> dir \<Rightarrow> bool" where
  "merge_core M U i L d \<longleftrightarrow> (\<exists>wal K H fin I. segFiles d = files_of wal \<and> wal_holds wal (encoded K) \<and>
     (\<forall>x \<in> set K. good (snd x)) \<and> ActiveSegmentID wal \<le> fin \<and> one_file (hintFiles d) \<and> hints_hold (hintFiles d) H \<and>
     one_file (finFiles d) \<and> getMergeFinSegmentId (finFiles d) = Ok fin \<and> fin < i \<and>
     replays U fin H L I \<and> shows_map (K @ live fin L) I M)"

definition merge_ok :: "(bytes \<rightharpoonup> bytes) \<Rightarrow> u64 set \<Rightarrow> u32 \<Rightarrow> rlog \<Rightarrow> dir option \<Rightarrow> bool" where
  "merge_ok M U i L mg \<longleftrightarrow> (case mg of None \<Rightarrow> True | Some d \<Rightarrow> merge_core M U i L d)"

lemma merge_ok_simps [simp]: "merge_ok M U i L None" "merge_ok M U i L (Some d) = merge_core M U i L d"
  by (simp_all add: merge_ok_def)

definition log_core :: "(bytes \<rightharpoonup> bytes) \<Rightarrow> u64 set \<Rightarrow> (bytes \<rightharpoonup> place) \<Rightarrow> WAL \<Rightarrow> rlog \<Rightarrow> hints \<Rightarrow> u32 \<Rightarrow> dir option \<Rightarrow> bool" where
  "log_core M U I wal L H fin mg \<longleftrightarrow>
     wal_holds wal (encoded L) \<and> (\<forall>x \<in> set L. good (snd x)) \<and> pendingWrites wal = [] \<and> fin < ActiveSegmentID wal \<and>
     replays U fin H L I \<and> shows_map L I M \<and> merge_ok M U (ActiveSegmentID wal) L mg"

definition store_core :: "('t \<Rightarrow> bytes \<rightharpoonup> item) \<Rightarrow> dbOptions \<Rightarrow> (bytes \<rightharpoonup> bytes) \<Rightarrow> u64 set \<Rightarrow> 't db \<Rightarrow> bool" where
  "store_core \<alpha> opts M U db \<longleftrightarrow> dbOpts db = opts \<and> woptions (dataFiles db) = wal_opts opts \<and> \<not> dbClosed db \<and>
     \<not> mergeRunning db \<and>
     (\<exists>L H fin. log_core M U (places \<alpha> (dbIndex db)) (dataFiles db) L H fin (mergeDisk db) \<and> hints_hold (hintDisk db) H \<and>
        getMergeFinSegmentId (finDisk db) = Ok fin)"

text \<open>The parts that are not changed by a commit.\<close>

definition same_db :: "'t db \<Rightarrow> 't db \<Rightarrow> bool" where
  "same_db db db' \<longleftrightarrow> dbOpts db' = dbOpts db \<and> dbMu db' = dbMu db \<and> dbClosed db' = dbClosed db \<and>
     hintDisk db' = hintDisk db \<and> finDisk db' = finDisk db \<and> mergeRunning db' = mergeRunning db \<and> mergeDisk db' = mergeDisk db"

lemma same_db_simps [simp]: "same_db db db" "same_db db (db\<lparr>dataFiles := w\<rparr>)" "same_db db (db\<lparr>dbIndex := i\<rparr>)"
  by (simp_all add: same_db_def)

lemma same_db_trans: "same_db a b \<Longrightarrow> same_db b c \<Longrightarrow> same_db a c"
  by (simp add: same_db_def)

lemma same_db_index_records: "same_db db (index_records B now rps db)"
  by (simp add: same_db_def index_records_same)

definition io_state :: "walIO \<Rightarrow> WAL \<Rightarrow> bool" where
  "io_state io wal \<longleftrightarrow> writable io wal \<or> disk_full io wal"

lemma log_core_pending: "log_core M U I wal L H fin mg \<Longrightarrow> pendingSize wal = 0"
  by (auto simp: log_core_def wal_holds_def wal_ok_def)

lemma live_all: "\<forall>x \<in> set L. fin < fst (fst x) \<Longrightarrow> live fin L = L"
  by (simp add: live_def)

lemma merge_ok_later: "merge_ok M U i L mg \<Longrightarrow> i \<le> j \<Longrightarrow> merge_ok M U j L mg"
  unfolding merge_ok_def merge_core_def by (cases mg) (simp_all, meson less_le_trans)

lemma log_core_wal:
  assumes "log_core M U I wal L H fin mg" "wal_holds wal' (encoded L)" "pendingWrites wal' = []"
    "ActiveSegmentID wal \<le> ActiveSegmentID wal'"
  shows "log_core M U I wal' L H fin mg"
  using assms less_le_trans [of fin] merge_ok_later by (auto simp: log_core_def)

text \<open>A batch that is added to the log.\<close>

definition added_ok :: "u64 set \<Rightarrow> u32 \<Rightarrow> u64 \<Rightarrow> rlog \<Rightarrow> bool" where
  "added_ok U i b L1 \<longleftrightarrow> (\<forall>(pl, r) \<in> set L1. fst pl = i \<and> rBatchId r = b \<and> write_ok r \<and> good r) \<and> b \<noteq> 0 \<and> b \<notin> U \<and>
     distinct (map (rKey \<circ> snd) L1)"

lemma replays_commit:
  assumes "replays U fin H L I" "added_ok U i b L1" "fin < i" "fst pl = i"
  shows "replays U fin H (L @ L1 @ [(pl, end_record b)]) (place_records (entries L1) I)"
    "live fin (L @ L1 @ [(pl, end_record b)]) = live fin L @ L1 @ [(pl, end_record b)]"
proof -
  let ?L1 = "L1 @ [(pl, end_record b)]"
  have "live fin ?L1 = ?L1" using assms(2-4) by (intro live_all) (auto simp: added_ok_def)
  then show l: "live fin (L @ ?L1) = live fin L @ ?L1" by simp
  obtain P where P: "replay (live fin L) (hint_map H Map.empty, \<lambda>_. []) = (I, P)" "\<forall>b. P b \<noteq> [] \<longrightarrow> b \<in> U"
    using assms(1) by (auto simp: replays_def)
  have "replay ?L1 (I, P) = (place_records (entries L1) I, P)"
    by (rule replay_commit) (use assms(2) P(2) in \<open>auto simp: added_ok_def\<close>)
  then show "replays U fin H (L @ ?L1) (place_records (entries L1) I)" using P unfolding replays_def l by auto
qed

lemma shows_map_added:
  "shows_map L I M \<Longrightarrow> added_ok U i b L1 \<Longrightarrow> set L \<union> set L1 \<subseteq> set L' \<Longrightarrow>
   shows_map L' (place_records (entries L1) I) (changed M (changes_of (map snd L1)))"
  by (rule shows_map_commit) (auto simp: added_ok_def intro: shows_map_more)

lemma merge_ok_commit:
  assumes "merge_ok M U i L mg" "added_ok U i b L1" "fst pl = i"
  shows "merge_ok (changed M (changes_of (map snd L1))) U i (L @ L1 @ [(pl, end_record b)]) mg"
proof (cases mg)
  case (Some d)
  then obtain wal K H fin I where d: "segFiles d = files_of wal" "wal_holds wal (encoded K)" "\<forall>x \<in> set K. good (snd x)"
    "ActiveSegmentID wal \<le> fin" "one_file (hintFiles d)" "hints_hold (hintFiles d) H" "one_file (finFiles d)"
    "getMergeFinSegmentId (finFiles d) = Ok fin" "fin < i" "replays U fin H L I" "shows_map (K @ live fin L) I M"
    using assms(1) by (auto simp: merge_core_def)
  note r = replays_commit [OF d(10) assms(2) d(9) assms(3)]
  have "shows_map (K @ live fin (L @ L1 @ [(pl, end_record b)])) (place_records (entries L1) I) (changed M (changes_of (map snd L1)))"
    by (rule shows_map_added [OF d(11) assms(2)]) (unfold r(2), auto)
  then show ?thesis using d(1-9) r(1) unfolding Some merge_ok_simps merge_core_def by blast
qed simp

lemma log_core_commit:
  assumes c: "log_core M U I wal L H fin mg" and w: "wal_holds wal' (encoded (L @ L1 @ [(pl, end_record b)]))"
    "pendingWrites wal' = []" "ActiveSegmentID wal \<le> ActiveSegmentID wal'"
    and a: "added_ok U (ActiveSegmentID wal') b L1" "fst pl = ActiveSegmentID wal'"
  shows "log_core (changed M (changes_of (map snd L1))) U (place_records (entries L1) I) wal' (L @ L1 @ [(pl, end_record b)]) H fin mg"
proof -
  have l: "fin < ActiveSegmentID wal'" "replays U fin H L I" "shows_map L I M" "merge_ok M U (ActiveSegmentID wal') L mg"
    using c less_le_trans [OF _ w(3)] merge_ok_later [OF _ w(3)] by (simp_all add: log_core_def)
  have "shows_map (L @ L1 @ [(pl, end_record b)]) (place_records (entries L1) I) (changed M (changes_of (map snd L1)))"
    by (rule shows_map_added [OF l(3) a(1)]) auto
  moreover have "\<forall>x \<in> set (L @ L1 @ [(pl, end_record b)]). good (snd x)"
    using c a(1) good_end by (auto simp: log_core_def added_ok_def)
  ultimately show ?thesis
    using replays_commit [OF l(2) a(1) l(1) a(2)] merge_ok_commit [OF l(4) a] w(1,2) l(1) by (simp add: log_core_def)
qed

subsection \<open>Writing the records of a batch\<close>

definition batch_data :: "u64 \<Rightarrow> LogRecord list \<Rightarrow> bytes list" where
  "batch_data b rs = map enc (numbered b rs @ [end_record b])"

lemma commit_writes_ok:
  assumes B: "btree_ok B \<alpha>" and core: "store_core \<alpha> opts M U db" and ws: "\<forall>r \<in> set rs. write_ok r"
    and ds: "distinct (map rKey rs)" and b: "b \<noteq> 0" "b \<notin> U" and io: "io_state (envIO env) (dataFiles db)"
  obtains db' r where "commit_writes B env b (numbered b rs) sync db = (db', r)" "same_db db db'"
    "advanced (dataFiles db) (dataFiles db')"
    "if writable (envIO env) (dataFiles db) \<and> data_size (batch_data b rs) \<le> optSegmentSize opts
     then r = Ok () \<and> store_core \<alpha> opts (changed M (changes_of rs)) U db'
     else (\<exists>e. r = Err e) \<and> store_core \<alpha> opts M U db'"
proof -
  let ?wal = "dataFiles db" and ?io = "envIO env" and ?rs = "numbered b rs"
  let ?ds = "batch_data b rs"
  let ?pw = "fold PendingWrites ?ds ?wal"
  obtain L H fin where c: "log_core M U (places \<alpha> (dbIndex db)) ?wal L H fin (mergeDisk db)" and h: "hints_hold (hintDisk db) H"
    "getMergeFinSegmentId (finDisk db) = Ok fin" and o: "dbOpts db = opts" "woptions ?wal = wal_opts opts" "\<not> dbClosed db" "\<not> mergeRunning db"
    using core by (auto simp: store_core_def)
  have n: "\<forall>r \<in> set ?rs. write_ok r \<and> good r \<and> rBatchId r = b" by (rule numbered_ok [OF ws])
  have pend: "pend_records (?rs @ [end_record b]) ?wal = (?pw, Ok ())"
    using n good_end [of b] by (subst pend_records_ok) (auto simp: good_def batch_data_def)
  have pw: "pendingWrites ?pw = ?ds" "pendingSize ?pw = data_size ?ds" "woptions ?pw = wal_opts opts"
    "ActiveSegmentID ?pw = ActiveSegmentID ?wal" "wal_holds ?pw (encoded L)"
    using c log_core_pending [OF c] o(2) fold_pending [where ds = ?ds and wal = ?wal] by (simp_all add: log_core_def)
  have ss: "SegmentSize (woptions ?pw) = optSegmentSize opts" unfolding pw(3) by (simp add: wal_opts_def)
  have iow: "writable ?io ?pw = writable ?io ?wal" "disk_full ?io ?pw = disk_full ?io ?wal"
    unfolding writable_def disk_full_def pw(3,4) o(2) by simp_all
  have adv: "advanced ?wal w = advanced ?pw w" for w unfolding advanced_def pw(3,4) o(2) ..
  have ne: "?ds \<noteq> []" by (simp add: batch_data_def)
  note result = that
  have failed: thesis if w: "walWriteAll ?io ?pw = (wal', Err e)" "wal_holds wal' (encoded L)" "advanced ?pw wal'"
      "pendingWrites wal' = []" and no: "\<not> (writable ?io ?wal \<and> data_size ?ds \<le> optSegmentSize opts)" for wal' e
  proof (rule result [of "db\<lparr>dataFiles := ClearPendingWrites wal'\<rparr>" "Err e"])
    have cl: "wal_holds (ClearPendingWrites wal') (encoded L)" "ActiveSegmentID (ClearPendingWrites wal') = ActiveSegmentID wal'"
      "woptions (ClearPendingWrites wal') = woptions wal'" "pendingWrites (ClearPendingWrites wal') = []"
      using holds_pending(2) [OF w(2)] by (simp_all add: ClearPendingWrites_def ActiveSegmentID_def)
    show "commit_writes B env b ?rs sync db = (db\<lparr>dataFiles := ClearPendingWrites wal'\<rparr>, Err e)"
      by (simp add: commit_writes_def pend w(1))
    show "advanced (dataFiles db) (dataFiles (db\<lparr>dataFiles := ClearPendingWrites wal'\<rparr>))"
      using w(3) unfolding adv by (simp add: advanced_def cl)
    have "log_core M U (places \<alpha> (dbIndex db)) (ClearPendingWrites wal') L H fin (mergeDisk db)"
      by (rule log_core_wal [OF c]) (use cl w(3) pw(4) in \<open>simp_all add: advanced_def\<close>)
    then have "store_core \<alpha> opts M U (db\<lparr>dataFiles := ClearPendingWrites wal'\<rparr>)"
      using h o w(3) pw(3) by (auto simp: store_core_def cl advanced_def)
    then show "if writable ?io ?wal \<and> data_size ?ds \<le> optSegmentSize opts
     then Err e = Ok () \<and> store_core \<alpha> opts (changed M (changes_of rs)) U (db\<lparr>dataFiles := ClearPendingWrites wal'\<rparr>)
     else (\<exists>e'. Err e = Err e') \<and> store_core \<alpha> opts M U (db\<lparr>dataFiles := ClearPendingWrites wal'\<rparr>)" using no by simp
  qed simp
  show ?thesis
  proof (cases "data_size ?ds \<le> optSegmentSize opts")
    case False
    have "walWriteAll ?io ?pw = (ClearPendingWrites ?pw, Err ErrPendingSizeTooLarge)"
      using False ne by (simp add: walWriteAll_def pw(1,2) ss)
    then show ?thesis
      by (rule failed) (use False holds_pending(2) [OF pw(5)] in \<open>auto simp: ClearPendingWrites_def advanced_def ActiveSegmentID_def\<close>)
  next
    case size: True
    show ?thesis
    proof (cases "writable ?io ?wal")
      case False
      then have "disk_full ?io ?pw" using io iow by (simp add: io_state_def)
      then obtain wal' e where "walWriteAll ?io ?pw = (wal', Err e)" "wal_holds wal' (encoded L)" "advanced ?pw wal'" "pendingWrites wal' = []"
        by (rule holds_writeAll_failed [OF pw(5)]) (use size ne pw(1,2) ss in simp_all)
      then show ?thesis by (rule failed) (use False in simp)
    next
      case True
      then have w: "writable ?io ?pw" using iow by simp
      obtain wal' poss where wa: "walWriteAll ?io ?pw = (wal', Ok poss)" "length poss = length ?ds"
        "wal_holds wal' (encoded L @ zip (map place_of poss) ?ds)" "advanced ?pw wal'" "pendingWrites wal' = []"
        "\<forall>pos \<in> set poss. SegmentId pos = ActiveSegmentID wal'"
        by (rule holds_writeAll [OF pw(5) w]) (use size pw(1,2) ss in simp_all)
      have lp: "length poss = length rs + 1" using wa(2) by (simp add: batch_data_def)
      obtain ps p where ps: "poss = ps @ [p]" "length ps = length rs" using lp by (cases poss rule: rev_cases) auto
      define L1 where "L1 = zip (map place_of ps) ?rs"
      have L1: "map snd L1 = ?rs" "entries (map (\<lambda>(r, pos). (place_of pos, r)) (zip ?rs poss)) = entries L1"
        using ps unfolding L1_def entries_def by (simp_all add: zip_append2 zip_map1 case_prod_beta comp_def zip_commute [of ?rs ps])
      have "encoded (L1 @ [(place_of p, end_record b)]) = zip (map place_of poss) ?ds"
        using ps by (simp add: L1_def encoded_def batch_data_def zip_map2 zip_map1)
      then have wh: "wal_holds wal' (encoded (L @ L1 @ [(place_of p, end_record b)]))" using wa(3) by simp
      let ?db1 = "db\<lparr>dataFiles := wal'\<rparr>"
      let ?db' = "index_records B (envNow env) (zip ?rs poss) ?db1"
      have sy: "is_Ok (walSync ?io wal')" using True by (simp add: writable_def io_ok_def walSync_def segSync_def)
      have cw: "commit_writes B env b ?rs sync db = (?db', Ok ())"
        using sy lp by (simp add: commit_writes_def pend wa(1))
      have pl: "places \<alpha> (dbIndex ?db') = place_records (entries L1) (places \<alpha> (dbIndex db))"
        using n index_records_places [OF B, of "zip ?rs poss" "envNow env" ?db1] L1(2) by (auto dest: set_zip_leftD)
      have "log_core (changed M (changes_of (map snd L1))) U (places \<alpha> (dbIndex ?db')) wal' (L @ L1 @ [(place_of p, end_record b)]) H fin (mergeDisk db)"
      unfolding pl
      proof (rule log_core_commit [OF c wh wa(5)])
        show "ActiveSegmentID ?wal \<le> ActiveSegmentID wal'" using wa(4) by (simp add: advanced_def pw)
        have "distinct (map (rKey \<circ> snd) L1)" using ds L1(1) by (metis list.map_comp numbered_simps(3))
        moreover have "fst pl = ActiveSegmentID wal' \<and> rBatchId r = b \<and> write_ok r \<and> good r" if "(pl, r) \<in> set L1" for pl r
        proof -
          have "pl \<in> set (map place_of ps)" "r \<in> set ?rs" using that by (auto simp: L1_def dest: set_zip_leftD set_zip_rightD)
          then show ?thesis using n wa(6) by (auto simp: ps(1) place_of_def)
        qed
        ultimately show "added_ok U (ActiveSegmentID wal') b L1" using b by (auto simp: added_ok_def)
        show "fst (place_of p) = ActiveSegmentID wal'" using wa(6) by (simp add: ps(1) place_of_def)
      qed
      then have "store_core \<alpha> opts (changed M (changes_of rs)) U ?db'"
        using h o wa(4) pw(3) unfolding L1(1) by (auto simp: store_core_def index_records_same advanced_def)
      moreover have "same_db db ?db'" using same_db_index_records same_db_trans same_db_simps(2) by blast
      moreover have "advanced ?wal (dataFiles ?db')" using wa(4) adv by (simp add: index_records_same)
      ultimately show ?thesis using result cw True size by auto
    qed
  qed
qed

subsection \<open>Calls on a batch\<close>

text \<open>What a call takes from outside: a clock that gives a new id, and a file system that works or is full.\<close>

definition batch_id :: "env \<Rightarrow> snowNode \<Rightarrow> u64 option" where
  "batch_id env node = map_option (snd \<circ> snd) (snGenerate node (envClock env))"

definition env_ok :: "env \<Rightarrow> snowNode \<Rightarrow> u64 set \<Rightarrow> WAL \<Rightarrow> bool" where
  "env_ok env node U wal \<longleftrightarrow> snNode node = 1 \<and> (\<exists>b. batch_id env node = Some b \<and> b \<notin> U) \<and> io_state (envIO env) wal"

definition record_bound :: "LogRecord \<Rightarrow> int" where
  "record_bound r = maxDataWriteSize (31 + int (length (rKey r)) + int (length (rValue r)))"

definition commit_bound :: "LogRecord list \<Rightarrow> int" where
  "commit_bound rs = (\<Sum>r\<leftarrow>rs. record_bound r) + maxDataWriteSize 51"

lemma maxDataWriteSize_mono: "a \<le> b \<Longrightarrow> maxDataWriteSize a \<le> maxDataWriteSize b"
  unfolding maxDataWriteSize_def by (simp add: zdiv_mono1 add_mono)

lemma enc_length: "record_fits r \<Longrightarrow> length (enc r) \<le> 31 + length (rKey r) + length (rValue r)"
  by (rule decodeLogRecord_encode [of r]) (auto simp: enc_def)

lemma batch_data_bound:
  assumes "\<forall>r \<in> set rs. record_fits r"
  shows "data_size (batch_data b rs) \<le> commit_bound rs"
proof -
  have r: "maxDataWriteSize (int (length (enc (r\<lparr>rBatchId := b\<rparr>)))) \<le> record_bound r" if "record_fits r" for r
    using enc_length [of "r\<lparr>rBatchId := b\<rparr>"] that unfolding record_bound_def
    by (intro maxDataWriteSize_mono) (simp add: record_fits_def)
  have "length (enc (end_record b)) \<le> 51"
    using enc_length [of "end_record b"] good_end [of b] ID_Bytes_length [of b] by (simp add: good_def end_record_def)
  then have "maxDataWriteSize (int (length (enc (end_record b)))) \<le> maxDataWriteSize 51"
    by (intro maxDataWriteSize_mono) simp
  moreover have "(\<Sum>d\<leftarrow>map enc (numbered b rs). maxDataWriteSize (int (length d))) \<le> (\<Sum>r\<leftarrow>rs. record_bound r)"
    unfolding numbered_def map_map using assms r by (intro sum_list_mono) auto
  ultimately show ?thesis by (simp add: batch_data_def data_size_def commit_bound_def)
qed

definition batch_open :: "batch \<Rightarrow> snowNode \<Rightarrow> bool" where
  "batch_open b node \<longleftrightarrow> \<not> bReadOnly b \<and> \<not> bCommitted b \<and> \<not> bRollbacked b \<and> bNode b = Some node"

lemma batch_open_same: "batch_open b node \<Longrightarrow> same_batch b b' \<Longrightarrow> batch_open b' node"
  by (simp add: batch_open_def same_batch_def)

lemma same_core [simp]: "store_core \<alpha> opts M U (db\<lparr>dbMu := mu\<rparr>) = store_core \<alpha> opts M U db"
  by (simp add: store_core_def)

text \<open>After a call that ends a batch: the lock is free, and the map is changed or as it was.\<close>

definition ended :: "('t \<Rightarrow> bytes \<rightharpoonup> item) \<Rightarrow> dbOptions \<Rightarrow> (bytes \<rightharpoonup> bytes) \<Rightarrow> (bytes \<rightharpoonup> bytes) \<Rightarrow> u64 set \<Rightarrow>
    't db \<Rightarrow> 't db \<Rightarrow> unit gores \<Rightarrow> bool" where
  "ended \<alpha> opts M M' U db db' r \<longleftrightarrow> dbMu db' = Unlocked \<and> advanced (dataFiles db) (dataFiles db') \<and>
     mergeRunning db' = mergeRunning db \<and>
     (r = Ok () \<and> store_core \<alpha> opts M' U db' \<or> (\<exists>e. r = Err e) \<and> store_core \<alpha> opts M U db')"

lemma advanced_refl [simp]: "advanced wal wal" by (simp add: advanced_def)

lemma bCommit_ok:
  assumes B: "btree_ok B \<alpha>" and core: "store_core \<alpha> opts M U db" and mu: "dbMu db = WLocked"
    and b: "batch_ok (envHash env) b" "batch_open b node" and env: "env_ok env node U (dataFiles db)"
  obtains b' db' r where "bCommit B env (b, db) = ((b', db'), r)"
    "ended \<alpha> opts M (changed M (changes_of (bWrites b))) U db db' r"
    "writable (envIO env) (dataFiles db) \<and> commit_bound (bWrites b) \<le> optSegmentSize opts \<longrightarrow> r = Ok ()"
proof (cases "bWrites b = []")
  case True
  have "bCommit B env (b, db) = ((b, db\<lparr>dbMu := Unlocked\<rparr>), Ok ())"
    using True mu b(2) core
    by (simp add: bCommit_def unlock_after_def unlocking_def release_def batch_open_def store_core_def)
  moreover have "ended \<alpha> opts M (changed M (changes_of (bWrites b))) U db (db\<lparr>dbMu := Unlocked\<rparr>) (Ok ())"
    using True core by (simp add: ended_def changed_def)
  ultimately show ?thesis by (rule that) simp
next
  case False
  obtain node' clock' i where g: "snGenerate node (envClock env) = Some (node', clock', i)" "i \<notin> U"
    using env by (auto simp: env_ok_def batch_id_def)
  have i: "i \<noteq> 0" using node_id [OF g(1)] env by (simp add: env_ok_def)
  have ws: "\<forall>r \<in> set (bWrites b). write_ok r" "distinct (map rKey (bWrites b))" using b(1) by (simp_all add: batch_ok_def)
  let ?b = "b\<lparr>bNode := Some node', bWrites := numbered i (bWrites b)\<rparr>"
  obtain db' r where c: "commit_writes B env i (numbered i (bWrites b)) (bSync b) db = (db', r)" "same_db db db'"
    "advanced (dataFiles db) (dataFiles db')"
    "if writable (envIO env) (dataFiles db) \<and> data_size (batch_data i (bWrites b)) \<le> optSegmentSize opts
     then r = Ok () \<and> store_core \<alpha> opts (changed M (changes_of (bWrites b))) U db'
     else (\<exists>e. r = Err e) \<and> store_core \<alpha> opts M U db'"
    by (rule commit_writes_ok [OF B core ws i g(2), of env "bSync b"]) (use env in \<open>simp add: env_ok_def\<close>)
  have mu': "dbMu db' = WLocked" "mergeRunning db' = mergeRunning db" using c(2) mu by (simp_all add: same_db_def)
  have bc: "bCommit B env (b, db) = ((if r = Ok () then ?b\<lparr>bCommitted := True\<rparr> else ?b, db'\<lparr>dbMu := Unlocked\<rparr>), r)"
    if "r = Ok () \<or> (\<exists>e. r = Err e)"
    using that False mu' b(2) core g(1) c(1)
    by (auto simp: bCommit_def unlock_after_def unlocking_def release_def batch_open_def store_core_def numbered_def)
  have "ended \<alpha> opts M (changed M (changes_of (bWrites b))) U db (db'\<lparr>dbMu := Unlocked\<rparr>) r"
    using c(3,4) mu'(2) by (auto simp: ended_def split: if_splits)
  moreover have "data_size (batch_data i (bWrites b)) \<le> commit_bound (bWrites b)"
    using ws(1) by (intro batch_data_bound) (simp add: write_ok_def)
  moreover have "r = Ok () \<or> (\<exists>e. r = Err e)" using c(4) by (auto split: if_splits)
  ultimately show ?thesis using bc c(4) by (intro that) (auto split: if_splits)
qed

text \<open>Reading through a batch sees the changes of the batch.\<close>

definition found :: "bytes option \<Rightarrow> bytes gores" where
  "found v = (case v of None \<Rightarrow> Err ErrKeyNotFound | Some v \<Rightarrow> Ok v)"

lemma read_record_ok:
  assumes core: "store_core \<alpha> opts M U db" and p: "positions \<alpha> (dbIndex db) key = Some pos"
  obtains db' r where "read_record env pos db = (db', Ok r)" "rType r = LogRecordNormal" "rKey r = key" "rExpire r = 0"
    "M key = Some (rValue r)" "store_core \<alpha> opts M U db'" "same_db db db'" "advanced (dataFiles db) (dataFiles db')"
    "dbIndex db' = dbIndex db"
proof -
  obtain L H fin where c: "log_core M U (places \<alpha> (dbIndex db)) (dataFiles db) L H fin (mergeDisk db)" and h: "hints_hold (hintDisk db) H"
    "getMergeFinSegmentId (finDisk db) = Ok fin" and o: "dbOpts db = opts" "woptions (dataFiles db) = wal_opts opts" "\<not> dbClosed db" "\<not> mergeRunning db"
    using core by (auto simp: store_core_def)
  have pl: "places \<alpha> (dbIndex db) key = Some (place_of pos)" using p by (simp add: places_def)
  have sm: "shows_map L (places \<alpha> (dbIndex db)) M" using c by (simp add: log_core_def)
  obtain r where r: "(place_of pos, r) \<in> set L" "rType r = LogRecordNormal" "rKey r = key" "M key = Some (rValue r)"
    using pl spec [OF sm [unfolded shows_map_def], of key] by auto
  have good: "good r" using c r(1) by (auto simp: log_core_def)
  have mem: "(place_of pos, enc r) \<in> set (encoded L)" using r(1) by (force simp: encoded_def)
  obtain wal' where w: "walRead (envPool env) pos (dataFiles db) = (wal', Ok (enc r))" "wal_holds wal' (encoded L)" "kept (dataFiles db) wal'"
    by (rule holds_read [of "dataFiles db" "encoded L" pos "enc r" "envPool env"]) (use c mem in \<open>simp_all add: log_core_def\<close>)
  have k: "pendingWrites wal' = []" "ActiveSegmentID wal' = ActiveSegmentID (dataFiles db)" "woptions wal' = woptions (dataFiles db)"
    using w(3) c by (simp_all add: kept_def same_pending_def log_core_def)
  have "log_core M U (places \<alpha> (dbIndex db)) wal' L H fin (mergeDisk db)" by (rule log_core_wal [OF c w(2)]) (simp_all add: k)
  then have "store_core \<alpha> opts M U (db\<lparr>dataFiles := wal'\<rparr>)" using h o k by (auto simp: store_core_def)
  moreover have "read_record env pos db = (db\<lparr>dataFiles := wal'\<rparr>, Ok r)"
    using w(1) good enc_Ok by (simp add: read_record_def good_def)
  ultimately show ?thesis using that r good k by (simp add: good_def advanced_def)
qed

lemma index_places: "places \<alpha> idx k = None \<longleftrightarrow> positions \<alpha> idx k = None"
  by (simp add: places_def)

lemma bGet_ok:
  assumes B: "btree_ok B \<alpha>" and core: "store_core \<alpha> opts M U db" and b: "batch_ok (envHash env) b" and k: "key \<noteq> []"
  obtains db' where "bGet B env key b db = (db', found (changed M (changes_of (bWrites b)) key))"
    "store_core \<alpha> opts M U db'" "same_db db db'" "advanced (dataFiles db) (dataFiles db')"
proof (cases "lookupPendingWrites (envHash env) key b")
  case (Some i)
  have i: "i < length (bWrites b)" "rKey (bWrites b ! i) = key" using lookupPendingWrites_ok [OF b, of key] Some by simp_all
  have d: "distinct (map rKey (bWrites b))" "write_ok (bWrites b ! i)" using b i by (simp_all add: batch_ok_def)
  have "changed M (changes_of (bWrites b)) key = change_of (bWrites b ! i)"
    using changes_of_nth [OF d(1) i(1)] i(2) by (simp add: changed_def)
  then show ?thesis using Some core k d(2)
    by (intro that [of db]) (auto simp: bGet_def store_core_def change_of_def found_def IsExpired_def write_ok_def)
next
  case None
  have "changes_of (bWrites b) key = None" using lookupPendingWrites_ok [OF b, of key] None by (simp add: changes_of_None)
  then have v: "changed M (changes_of (bWrites b)) key = M key" by (simp add: changed_def)
  have cl: "\<not> dbClosed db" using core by (simp add: store_core_def)
  show ?thesis
  proof (cases "positions \<alpha> (dbIndex db) key")
    case no: None
    then have "places \<alpha> (dbIndex db) key = None" by (simp add: index_places)
    then have "M key = None" using core by (auto simp: store_core_def log_core_def shows_map_def dest!: spec [of _ key])
    then show ?thesis using no None k cl core v
      by (intro that [of db]) (simp_all add: bGet_def idxGet_positions [OF B] found_def)
  next
    case (Some pos)
    obtain db' r where "read_record env pos db = (db', Ok r)" "rType r = LogRecordNormal" "rExpire r = 0"
      "M key = Some (rValue r)" "store_core \<alpha> opts M U db'" "same_db db db'" "advanced (dataFiles db) (dataFiles db')"
      by (rule read_record_ok [OF core Some, of env])
    then show ?thesis using Some None k cl v
      by (intro that [of db']) (simp_all add: bGet_def idxGet_positions [OF B] found_def record_types IsExpired_def)
  qed
qed

subsection \<open>Whole batches\<close>

datatype bop = PutOp bytes bytes | DeleteOp bytes

fun bop_key :: "bop \<Rightarrow> bytes" where "bop_key (PutOp k v) = k" | "bop_key (DeleteOp k) = k"
fun bop_change :: "bop \<Rightarrow> bytes option" where "bop_change (PutOp k v) = Some v" | "bop_change (DeleteOp k) = None"
fun bop_size :: "bop \<Rightarrow> nat" where "bop_size (PutOp k v) = length k + length v" | "bop_size (DeleteOp k) = length k"

fun run_bop :: "env \<Rightarrow> 't db \<Rightarrow> bop \<Rightarrow> batch \<Rightarrow> batch \<times> unit gores" where
  "run_bop env db (PutOp k v) b = bPut env k v db b"
| "run_bop env db (DeleteOp k) b = bDelete env k db b"

fun run_bops :: "env \<Rightarrow> bop list \<Rightarrow> 't db \<Rightarrow> batch \<Rightarrow> batch \<times> unit gores" where
  "run_bops env [] db b = (b, Ok ())"
| "run_bops env (op # ops) db b = st_bind (run_bop env db op b) (\<lambda>b _. run_bops env ops db b)"

text \<open>A batch of the user, or of the pool, with all its calls, up to its commit or its rollback.\<close>

definition run_batch :: "'t btree \<Rightarrow> env \<Rightarrow> bool \<Rightarrow> bop list \<Rightarrow> 't db \<Rightarrow> (batch \<times> 't db) \<times> unit gores" where
  "run_batch B env sync ops db =
     (case NewBatch False sync db of
        ((b, db), Ok _) \<Rightarrow>
          (case run_bops env ops db b of
             (b, Ok _) \<Rightarrow> bCommit B env (b, db)
           | (b, r) \<Rightarrow> ((b, db), r))
      | s \<Rightarrow> s)"

definition drop_batch :: "env \<Rightarrow> bool \<Rightarrow> bop list \<Rightarrow> 't db \<Rightarrow> (batch \<times> 't db) \<times> unit gores" where
  "drop_batch env sync ops db =
     (case NewBatch False sync db of
        ((b, db), Ok _) \<Rightarrow> bRollback (fst (run_bops env ops db b), db)
      | s \<Rightarrow> s)"

definition apply_bops :: "bop list \<Rightarrow> (bytes \<rightharpoonup> bytes) \<Rightarrow> (bytes \<rightharpoonup> bytes)" where
  "apply_bops ops M = fold (\<lambda>op M. M(bop_key op := bop_change op)) ops M"

definition bops_ok :: "bop list \<Rightarrow> bool" where
  "bops_ok ops \<longleftrightarrow> (\<forall>op \<in> set ops. bop_key op \<noteq> [] \<and> bop_size op < 2 ^ 32 - 31)"

definition bops_bound :: "bop list \<Rightarrow> int" where
  "bops_bound ops = (\<Sum>op\<leftarrow>ops. maxDataWriteSize (31 + int (bop_size op)))"

lemma record_bound_nonneg: "0 \<le> record_bound r"
  by (simp add: record_bound_def maxDataWriteSize_def pos_imp_zdiv_nonneg_iff)

lemma bound_append: "(\<Sum>r\<leftarrow>rs @ [r]. record_bound r) = (\<Sum>r\<leftarrow>rs. record_bound r) + record_bound r"
  by simp

lemma bound_update:
  "i < length rs \<Longrightarrow> (\<Sum>r\<leftarrow>rs[i := r]. record_bound r) \<le> (\<Sum>r\<leftarrow>rs. record_bound r) + record_bound r"
proof (induction rs arbitrary: i)
  case (Cons a rs)
  then show ?case using record_bound_nonneg [of a] record_bound_nonneg [of r] by (cases i) auto
qed simp

lemma run_bop_bound:
  assumes "batch_ok (envHash env) b" "run_bop env db op b = (b', Ok ())"
  shows "(\<Sum>r\<leftarrow>bWrites b'. record_bound r) \<le> (\<Sum>r\<leftarrow>bWrites b. record_bound r) + maxDataWriteSize (31 + int (bop_size op))"
proof -
  have l: "i < length (bWrites b) \<and> rKey (bWrites b ! i) = bop_key op" if "lookupPendingWrites (envHash env) (bop_key op) b = Some i" for i
    using lookupPendingWrites_ok [OF assms(1), of "bop_key op"] that by simp
  have u: "(\<Sum>r\<leftarrow>(bWrites b)[i := r]. record_bound r) \<le> (\<Sum>r\<leftarrow>bWrites b. record_bound r) + maxDataWriteSize (31 + int (bop_size op))"
    if "i < length (bWrites b)" "length (rKey r) + length (rValue r) = bop_size op" for i r
  proof -
    have "record_bound r = maxDataWriteSize (31 + int (bop_size op))" using that(2) [symmetric] by (simp add: record_bound_def add.assoc)
    then show ?thesis using bound_update [OF that(1), of r] by simp
  qed
  show ?thesis
  proof (cases op)
    case (PutOp k v)
    then show ?thesis using assms(2) l u
      by (auto simp: bPut_def appendPendingWrites_def Let_def record_bound_def put_record_def add.assoc split: if_splits option.splits)
  next
    case (DeleteOp k)
    then show ?thesis using assms(2) l u
      by (auto simp: bDelete_def appendPendingWrites_def Let_def record_bound_def delete_record_def split: if_splits option.splits)
  qed
qed

lemma run_bops_ok:
  "batch_ok (envHash env) b \<Longrightarrow> bops_ok ops \<Longrightarrow> \<not> dbClosed db \<Longrightarrow> \<not> bReadOnly b \<Longrightarrow>
   \<exists>b'. run_bops env ops db b = (b', Ok ()) \<and> batch_ok (envHash env) b' \<and> same_batch b b' \<and>
     changed M (changes_of (bWrites b')) = apply_bops ops (changed M (changes_of (bWrites b))) \<and>
     (\<Sum>r\<leftarrow>bWrites b'. record_bound r) \<le> (\<Sum>r\<leftarrow>bWrites b. record_bound r) + bops_bound ops"
proof (induction ops arbitrary: b)
  case (Cons op ops)
  have ok: "bop_key op \<noteq> []" "bop_size op < 2 ^ 32 - 31" "bops_ok ops" using Cons.prems(2) by (simp_all add: bops_ok_def)
  obtain b1 where b1: "run_bop env db op b = (b1, Ok ())" "batch_ok (envHash env) b1" "same_batch b b1"
    "changes_of (bWrites b1) = (changes_of (bWrites b))(bop_key op \<mapsto> bop_change op)"
  proof (cases op)
    case (PutOp k v)
    then have "writing k v db b" using ok Cons.prems by (simp add: writing_def)
    then show ?thesis using bPut_ok [OF Cons.prems(1), of k v db] that PutOp by auto
  next
    case (DeleteOp k)
    then have "writing k [] db b" using ok Cons.prems by (simp add: writing_def)
    then show ?thesis using bDelete_ok [OF Cons.prems(1), of k db] that DeleteOp by auto
  qed
  have ch: "changed M (changes_of (bWrites b1)) = (changed M (changes_of (bWrites b)))(bop_key op := bop_change op)"
    unfolding b1(4) by (auto simp: changed_def)
  have "\<not> bReadOnly b1" using b1(3) Cons.prems(4) by (simp add: same_batch_def)
  then obtain b' where b': "run_bops env ops db b1 = (b', Ok ())" "batch_ok (envHash env) b'" "same_batch b1 b'"
     "changed M (changes_of (bWrites b')) = apply_bops ops (changed M (changes_of (bWrites b1)))"
     "(\<Sum>r\<leftarrow>bWrites b'. record_bound r) \<le> (\<Sum>r\<leftarrow>bWrites b1. record_bound r) + bops_bound ops"
    using Cons.IH [OF b1(2) ok(3) Cons.prems(3)] by blast
  have "(\<Sum>r\<leftarrow>bWrites b'. record_bound r) \<le> (\<Sum>r\<leftarrow>bWrites b. record_bound r) + bops_bound (op # ops)"
    using b'(5) run_bop_bound [OF Cons.prems(1) b1(1)] by (simp add: bops_bound_def)
  moreover have "changed M (changes_of (bWrites b')) = apply_bops (op # ops) (changed M (changes_of (bWrites b)))"
    unfolding b'(4) ch by (simp add: apply_bops_def)
  ultimately show ?case using b1(1) b'(1,2) same_batch_trans [OF b1(3) b'(3)] by simp
qed (simp_all add: apply_bops_def bops_bound_def)

text \<open>The outcome of a batch in terms of its calls.\<close>

definition store_ok :: "('t \<Rightarrow> bytes \<rightharpoonup> item) \<Rightarrow> dbOptions \<Rightarrow> (bytes \<rightharpoonup> bytes) \<Rightarrow> u64 set \<Rightarrow> 't db \<Rightarrow> bool" where
  "store_ok \<alpha> opts M U db \<longleftrightarrow> store_core \<alpha> opts M U db \<and> dbMu db = Unlocked"

lemma commit_calls:
  assumes B: "btree_ok B \<alpha>" and s: "store_ok \<alpha> opts M U db" and ops: "bops_ok ops"
    and env: "env_ok env node U (dataFiles db)"
  obtains b b' db' r where "run_bops env ops (db\<lparr>dbMu := WLocked\<rparr>) (initBatch False sync (Some node)) = (b, Ok ())"
    "bCommit B env (b, db\<lparr>dbMu := WLocked\<rparr>) = ((b', db'), r)"
    "ended \<alpha> opts M (apply_bops ops M) U db db' r"
    "writable (envIO env) (dataFiles db) \<and> bops_bound ops + maxDataWriteSize 51 \<le> optSegmentSize opts \<longrightarrow> r = Ok ()"
proof -
  let ?db = "db\<lparr>dbMu := WLocked\<rparr>" and ?b = "initBatch False sync (Some node)"
  have core: "store_core \<alpha> opts M U ?db" and cl: "\<not> dbClosed ?db" using s by (simp_all add: store_ok_def store_core_def)
  have i: "batch_open ?b node" "\<not> bReadOnly ?b" "bWrites ?b = []" by (simp_all add: batch_open_def initBatch_def)
  obtain b where b: "run_bops env ops ?db ?b = (b, Ok ())" "batch_ok (envHash env) b" "same_batch ?b b"
    "changed M (changes_of (bWrites b)) = apply_bops ops M" "(\<Sum>r\<leftarrow>bWrites b. record_bound r) \<le> bops_bound ops"
    using run_bops_ok [of env ?b ops ?db M] ops cl i by (auto simp: changed_def)
  obtain b' db' r where c: "bCommit B env (b, ?db) = ((b', db'), r)"
    "ended \<alpha> opts M (changed M (changes_of (bWrites b))) U ?db db' r"
    "writable (envIO env) (dataFiles ?db) \<and> commit_bound (bWrites b) \<le> optSegmentSize opts \<longrightarrow> r = Ok ()"
    by (rule bCommit_ok [OF B core _ b(2) batch_open_same [OF i(1) b(3)]]) (use env in simp_all)
  show ?thesis
  proof (rule that [OF b(1) c(1)])
    show "ended \<alpha> opts M (apply_bops ops M) U db db' r" using c(2) by (simp add: ended_def b(4))
    show "writable (envIO env) (dataFiles db) \<and> bops_bound ops + maxDataWriteSize 51 \<le> optSegmentSize opts \<longrightarrow> r = Ok ()"
      using c(3) b(5) by (simp add: commit_bound_def)
  qed
qed

definition user_node :: snowNode where "user_node = \<lparr>snTime = 0, snNode = 1, snStep = 0\<rparr>"

lemma newBatch_node: "bNode newBatch = Some user_node"
  by (simp add: newBatch_def initBatch_def NewNode_def user_node_def NodeBits_def word_sless_alt mask_eq_exp_minus_1)

lemma locking_free: "dbMu db = Unlocked \<Longrightarrow> locking rdonly db = (db\<lparr>dbMu := (if rdonly then RLocked 1 else WLocked)\<rparr>, Ok ())"
  by (simp add: locking_def acquire_def)

text \<open>What a batch that ends with a commit makes of the store.\<close>

definition commits :: "('t \<Rightarrow> bytes \<rightharpoonup> item) \<Rightarrow> dbOptions \<Rightarrow> (bytes \<rightharpoonup> bytes) \<Rightarrow> u64 set \<Rightarrow> env \<Rightarrow> bop list \<Rightarrow> 't db \<Rightarrow> 't db \<Rightarrow>
    unit gores \<Rightarrow> bool" where
  "commits \<alpha> opts M U env ops db db' r \<longleftrightarrow>
     (r = Ok () \<and> store_ok \<alpha> opts (apply_bops ops M) U db' \<or> (\<exists>e. r = Err e) \<and> store_ok \<alpha> opts M U db') \<and>
     advanced (dataFiles db) (dataFiles db') \<and> mergeRunning db' = mergeRunning db \<and>
     (writable (envIO env) (dataFiles db) \<and> bops_bound ops + maxDataWriteSize 51 \<le> optSegmentSize opts \<longrightarrow> r = Ok ())"

lemma in_batch_ok:
  assumes "btree_ok B \<alpha>" "store_ok \<alpha> opts M U db" "bops_ok [op]" "env_ok env node U (dataFiles db)"
  obtains b' db' r where "in_batch B env node (\<lambda>db. run_bop env db op) db = ((b', db'), r)" "commits \<alpha> opts M U env [op] db db' r"
proof -
  obtain b b' db' r where c: "run_bops env [op] (db\<lparr>dbMu := WLocked\<rparr>) (initBatch False False (Some node)) = (b, Ok ())"
    "bCommit B env (b, db\<lparr>dbMu := WLocked\<rparr>) = ((b', db'), r)" "ended \<alpha> opts M (apply_bops [op] M) U db db' r"
    "writable (envIO env) (dataFiles db) \<and> bops_bound [op] + maxDataWriteSize 51 \<le> optSegmentSize opts \<longrightarrow> r = Ok ()"
    by (rule commit_calls [OF assms, of False])
  obtain b1 r1 where r1: "run_bop env (db\<lparr>dbMu := WLocked\<rparr>) op (initBatch False False (Some node)) = (b1, r1)" by fastforce
  then have "r1 = Ok ()" "b1 = b" using c(1) by (cases r1; auto)+
  then have "in_batch B env node (\<lambda>db. run_bop env db op) db = ((b', db'), r)"
    using r1 c(2) assms(2) by (simp add: in_batch_def locking_free store_ok_def)
  then show ?thesis by (rule that) (use c(3,4) in \<open>auto simp: commits_def ended_def store_ok_def\<close>)
qed

lemma dbPut_op: "dbPut B env node k v = in_batch B env node (\<lambda>db. run_bop env db (PutOp k v))"
  unfolding dbPut_def by (rule arg_cong [of _ _ "in_batch B env node"]) (intro ext, simp)

lemma dbDelete_op: "dbDelete B env node k = in_batch B env node (\<lambda>db. run_bop env db (DeleteOp k))"
  unfolding dbDelete_def by (rule arg_cong [of _ _ "in_batch B env node"]) (intro ext, simp)

lemma run_batch_ok:
  assumes "btree_ok B \<alpha>" "store_ok \<alpha> opts M U db" "bops_ok ops" "env_ok env user_node U (dataFiles db)"
  obtains b' db' r where "run_batch B env sync ops db = ((b', db'), r)" "commits \<alpha> opts M U env ops db db' r"
proof -
  obtain b b' db' r where c: "run_bops env ops (db\<lparr>dbMu := WLocked\<rparr>) (initBatch False sync (Some user_node)) = (b, Ok ())"
    "bCommit B env (b, db\<lparr>dbMu := WLocked\<rparr>) = ((b', db'), r)" "ended \<alpha> opts M (apply_bops ops M) U db db' r"
    "writable (envIO env) (dataFiles db) \<and> bops_bound ops + maxDataWriteSize 51 \<le> optSegmentSize opts \<longrightarrow> r = Ok ()"
    by (rule commit_calls [OF assms, of sync])
  have "run_batch B env sync ops db = ((b', db'), r)"
    using c(1,2) assms(2) by (simp add: run_batch_def NewBatch_def locking_free store_ok_def newBatch_node)
  then show ?thesis by (rule that) (use c(3,4) in \<open>auto simp: commits_def ended_def store_ok_def\<close>)
qed

lemma drop_batch_ok:
  assumes "store_ok \<alpha> opts M U db" "bops_ok ops"
  obtains b' db' where "drop_batch env sync ops db = ((b', db'), Ok ())" "store_ok \<alpha> opts M U db'" "dataFiles db' = dataFiles db"
proof -
  let ?db = "db\<lparr>dbMu := WLocked\<rparr>" and ?b = "initBatch False sync (Some user_node)"
  have cl: "\<not> dbClosed ?db" and core: "store_core \<alpha> opts M U ?db" using assms by (simp_all add: store_ok_def store_core_def)
  have i: "\<not> bReadOnly ?b" "\<not> bCommitted ?b" "\<not> bRollbacked ?b" by (simp_all add: initBatch_def)
  obtain b where b: "run_bops env ops ?db ?b = (b, Ok ())" "same_batch ?b b"
    using run_bops_ok [of env ?b ops ?db M] assms(2) cl i by auto
  have "drop_batch env sync ops db = ((b\<lparr>bWrites := [], bMap := [], bRollbacked := True\<rparr>, ?db\<lparr>dbMu := Unlocked\<rparr>), Ok ())"
    using b i cl assms(1)
    by (simp add: drop_batch_def NewBatch_def locking_free store_ok_def newBatch_node bRollback_def same_batch_def
        unlock_after_def unlocking_def release_def)
  then show ?thesis by (rule that) (use core in \<open>simp_all add: store_ok_def\<close>)
qed

lemma reader_ends:
  assumes "store_core \<alpha> opts M U db" "dbMu db = RLocked 1"
  shows "\<exists>b. bCommit B env (initBatch True False None, db) = ((b, db\<lparr>dbMu := Unlocked\<rparr>), Ok ())"
  using assms by (simp add: bCommit_def initBatch_def unlock_after_def unlocking_def release_def store_core_def)

lemma dbGet_ok:
  assumes B: "btree_ok B \<alpha>" and s: "store_ok \<alpha> opts M U db" and k: "key \<noteq> []"
  obtains db' where "dbGet B env key db = (db', found (M key))" "store_ok \<alpha> opts M U db'"
    "advanced (dataFiles db) (dataFiles db')" "mergeRunning db' = mergeRunning db"
proof -
  let ?db = "db\<lparr>dbMu := RLocked 1\<rparr>" and ?b = "initBatch True False None"
  have core: "store_core \<alpha> opts M U ?db" using s by (simp add: store_ok_def)
  obtain db1 where g: "bGet B env key ?b ?db = (db1, found (changed M (changes_of (bWrites ?b)) key))"
    "store_core \<alpha> opts M U db1" "same_db ?db db1" "advanced (dataFiles ?db) (dataFiles db1)"
    by (rule bGet_ok [OF B core batch_ok_init k])
  have v: "changed M (changes_of (bWrites ?b)) key = M key" by (simp add: initBatch_def changed_def)
  have mu: "dbMu db1 = RLocked 1" using g(3) by (simp add: same_db_def)
  obtain b' where "bCommit B env (?b, db1) = ((b', db1\<lparr>dbMu := Unlocked\<rparr>), Ok ())"
    using reader_ends [OF g(2) mu] by blast
  then have "dbGet B env key db = (db1\<lparr>dbMu := Unlocked\<rparr>, found (M key))"
    using g(1) s unfolding v by (simp add: dbGet_def in_reader_def locking_free store_ok_def Let_def)
  then show ?thesis by (rule that) (use g in \<open>simp_all add: store_ok_def same_db_def\<close>)
qed

lemma bExist_ok:
  assumes B: "btree_ok B \<alpha>" and core: "store_core \<alpha> opts M U db" and k: "key \<noteq> []"
  obtains db' where "bExist B env key (initBatch True False None) db = (db', Ok (M key \<noteq> None))"
    "store_core \<alpha> opts M U db'" "same_db db db'" "advanced (dataFiles db) (dataFiles db')"
proof -
  have l: "lookupPendingWrites h key (initBatch True False None) = None" for h
    by (simp add: lookupPendingWrites_def initBatch_def)
  have cl: "\<not> dbClosed db" using core by (simp add: store_core_def)
  show ?thesis
  proof (cases "positions \<alpha> (dbIndex db) key")
    case no: None
    then have "places \<alpha> (dbIndex db) key = None" by (simp add: index_places)
    then have "M key = None" using core by (auto simp: store_core_def log_core_def shows_map_def dest!: spec [of _ key])
    then show ?thesis using no l k cl core
      by (intro that [of db]) (simp_all add: bExist_def idxGet_positions [OF B])
  next
    case (Some pos)
    obtain db' r where "read_record env pos db = (db', Ok r)" "rType r = LogRecordNormal" "rExpire r = 0"
      "M key = Some (rValue r)" "store_core \<alpha> opts M U db'" "same_db db db'" "advanced (dataFiles db) (dataFiles db')"
      by (rule read_record_ok [OF core Some, of env])
    then show ?thesis using Some l k cl
      by (intro that [of db']) (simp_all add: bExist_def idxGet_positions [OF B] record_types IsExpired_def)
  qed
qed

lemma dbExist_ok:
  assumes B: "btree_ok B \<alpha>" and s: "store_ok \<alpha> opts M U db" and k: "key \<noteq> []"
  obtains db' where "dbExist B env key db = (db', Ok (M key \<noteq> None))" "store_ok \<alpha> opts M U db'"
    "advanced (dataFiles db) (dataFiles db')" "mergeRunning db' = mergeRunning db"
proof -
  let ?db = "db\<lparr>dbMu := RLocked 1\<rparr>" and ?b = "initBatch True False None"
  have core: "store_core \<alpha> opts M U ?db" using s by (simp add: store_ok_def)
  obtain db1 where g: "bExist B env key ?b ?db = (db1, Ok (M key \<noteq> None))"
    "store_core \<alpha> opts M U db1" "same_db ?db db1" "advanced (dataFiles ?db) (dataFiles db1)"
    by (rule bExist_ok [OF B core k])
  have mu: "dbMu db1 = RLocked 1" using g(3) by (simp add: same_db_def)
  obtain b' where "bCommit B env (?b, db1) = ((b', db1\<lparr>dbMu := Unlocked\<rparr>), Ok ())"
    using reader_ends [OF g(2) mu] by blast
  then have "dbExist B env key db = (db1\<lparr>dbMu := Unlocked\<rparr>, Ok (M key \<noteq> None))"
    using g(1) s by (simp add: dbExist_def in_reader_def locking_free store_ok_def Let_def)
  then show ?thesis by (rule that) (use g in \<open>simp_all add: store_ok_def same_db_def\<close>)
qed

subsection \<open>Walks\<close>

text \<open>A callback that keeps what it sees.\<close>

definition collect :: "(bytes \<times> bytes) list visitor" where
  "collect k v s = (s @ [(k, v)], Ok True)"

lemma walk_collect:
  assumes "\<forall>i \<in> set is. \<exists>r. (place_of (itPos i), r) \<in> set L \<and> good r \<and> rType r = LogRecordNormal \<and> M (itKey i) = Some (rValue r)"
    and "wal_holds wal (encoded L)"
  shows "\<exists>wal'. walk (value_handler env collect) is (wal, s) = ((wal', s @ map (\<lambda>i. (itKey i, the (M (itKey i)))) is), Ok ()) \<and>
    wal_holds wal' (encoded L) \<and> kept wal wal'"
  using assms
proof (induction "is" arbitrary: wal s)
  case (Cons i "is")
  obtain r where r: "(place_of (itPos i), r) \<in> set L" "good r" "rType r = LogRecordNormal" "M (itKey i) = Some (rValue r)"
    using Cons.prems(1) by auto
  have mem: "(place_of (itPos i), enc r) \<in> set (encoded L)" using r(1) by (force simp: encoded_def)
  obtain wal1 where w: "walRead (envPool env) (itPos i) wal = (wal1, Ok (enc r))" "wal_holds wal1 (encoded L)" "kept wal wal1"
    by (rule holds_read [OF Cons.prems(2) mem])
  have "checkValue env (enc r) = Ok (Some (rValue r))"
    using r(2,3) enc_Ok by (simp add: checkValue_def good_def record_types IsExpired_def)
  then have v: "value_handler env collect (itKey i) (itPos i) (wal, s) = ((wal1, s @ [(itKey i, rValue r)]), Ok True)"
    using w(1) by (simp add: value_handler_def collect_def)
  obtain wal' where "walk (value_handler env collect) is (wal1, s @ [(itKey i, rValue r)]) =
      ((wal', (s @ [(itKey i, rValue r)]) @ map (\<lambda>i. (itKey i, the (M (itKey i)))) is), Ok ())"
    "wal_holds wal' (encoded L)" "kept wal1 wal'"
    using Cons.IH [OF _ w(2), of "s @ [(itKey i, rValue r)]"] Cons.prems(1) by auto
  then show ?case using v r(4) kept_trans [OF w(3)] by auto
qed simp

lemma items_read:
  assumes B: "btree_ok B \<alpha>" and sm: "shows_map L (places \<alpha> t) M" and g: "\<forall>x \<in> set L. good (snd x)"
    and i: "i \<in> set (bt_Ascend B t)"
  shows "\<exists>r. (place_of (itPos i), r) \<in> set L \<and> good r \<and> rType r = LogRecordNormal \<and> M (itKey i) = Some (rValue r)"
proof -
  have "positions \<alpha> t (itKey i) = Some (itPos i)" using i by (subst Ascend_positions(1) [OF B]) force
  then have "places \<alpha> t (itKey i) = Some (place_of (itPos i))" by (simp add: places_def)
  then obtain r where "(place_of (itPos i), r) \<in> set L" "rType r = LogRecordNormal" "M (itKey i) = Some (rValue r)"
    using spec [OF sm [unfolded shows_map_def], of "itKey i"] by auto
  then show ?thesis using g by (intro exI [of _ r]) auto
qed

text \<open>The bindings of the store in the order of the keys.\<close>

definition bindings :: "'t btree \<Rightarrow> (bytes \<rightharpoonup> bytes) \<Rightarrow> 't \<Rightarrow> (bytes \<times> bytes) list" where
  "bindings B M t = map (\<lambda>i. (itKey i, the (M (itKey i)))) (bt_Ascend B t)"

lemma bindings_ok:
  assumes B: "btree_ok B \<alpha>" and s: "store_core \<alpha> opts M U db"
  shows "sorted_wrt bytes_less (map fst (bindings B M (dbIndex db))) \<and> map_of (bindings B M (dbIndex db)) = M"
proof -
  let ?t = "dbIndex db"
  obtain L H fin where c: "log_core M U (places \<alpha> ?t) (dataFiles db) L H fin (mergeDisk db)" using s by (auto simp: store_core_def)
  have m: "map_of (map (\<lambda>i. (itKey i, the (M (itKey i)))) is) k = (if k \<in> itKey ` set is then Some (the (M k)) else None)" for k "is"
    by (induction "is") auto
  have "map_of (bindings B M ?t) k = M k" for k
  proof (cases "k \<in> itKey ` set (bt_Ascend B ?t)")
    case True
    then have "\<exists>v. M k = Some v" using items_read [OF B] c by (force simp: log_core_def)
    then show ?thesis using True by (auto simp: bindings_def m)
  next
    case False
    then have "positions \<alpha> ?t k = None" using Ascend_positions(1) [OF B, of ?t k] by (cases "positions \<alpha> ?t k") force+
    then have "places \<alpha> ?t k = None" by (simp add: index_places)
    then have "M k = None" using c by (auto simp: log_core_def shows_map_def dest!: spec [of _ k])
    then show ?thesis using False by (simp add: bindings_def m)
  qed
  then show ?thesis using Ascend_positions(2) [OF B, of ?t] by (auto simp: bindings_def comp_def)
qed

lemma walking_ok:
  assumes B: "btree_ok B \<alpha>" and s: "store_ok \<alpha> opts M U db" and i: "set is \<subseteq> set (bt_Ascend B (dbIndex db))"
    and f: "\<And>ws. f ws = walk (value_handler env collect) is ws"
  shows "\<exists>db'. walking f [] db = ((db', map (\<lambda>i. (itKey i, the (M (itKey i)))) is), Ok ())"
proof -
  obtain L H fin where c: "log_core M U (places \<alpha> (dbIndex db)) (dataFiles db) L H fin (mergeDisk db)" using s by (auto simp: store_ok_def store_core_def)
  have "\<forall>i \<in> set is. \<exists>r. (place_of (itPos i), r) \<in> set L \<and> good r \<and> rType r = LogRecordNormal \<and> M (itKey i) = Some (rValue r)"
    using items_read [OF B] c i by (auto simp: log_core_def)
  from walk_collect [OF this, of "dataFiles db" env "[]"] c
  obtain wal' where "walk (value_handler env collect) is (dataFiles db, []) = ((wal', map (\<lambda>i. (itKey i, the (M (itKey i)))) is), Ok ())"
    by (auto simp: log_core_def)
  then show ?thesis using s by (simp add: walking_def locking_free store_ok_def f unlocking_def release_def)
qed

lemma walks_ok:
  assumes B: "btree_ok B \<alpha>" and s: "store_ok \<alpha> opts M U db"
  defines "kvs \<equiv> bindings B M (dbIndex db)"
  shows "\<exists>db'. dbAscend B env collect [] db = ((db', kvs), Ok ())"
    "\<exists>db'. dbDescend B env collect [] db = ((db', rev kvs), Ok ())"
    "\<exists>db'. dbAscendRange B env a b collect [] db = ((db', filter (\<lambda>(k, v). \<not> bytes_less k a \<and> bytes_less k b) kvs), Ok ())"
    "\<exists>db'. dbDescendRange B env a b collect [] db = ((db', filter (\<lambda>(k, v). \<not> bytes_less a k \<and> bytes_less b k) (rev kvs)), Ok ())"
    "\<exists>db'. dbAscendGreaterOrEqual B env a collect [] db = ((db', filter (\<lambda>(k, v). \<not> bytes_less k a) kvs), Ok ())"
    "\<exists>db'. dbDescendLessOrEqual B env a collect [] db = ((db', filter (\<lambda>(k, v). \<not> bytes_less a k) (rev kvs)), Ok ())"
proof -
  let ?t = "dbIndex db" and ?f = "\<lambda>i. (itKey i, the (M (itKey i)))"
  have fl: "filter (\<lambda>(k, v). P k) (map ?f is) = map ?f (filter (\<lambda>i. P (itKey i)) is)" for P "is"
    by (induction "is") auto
  note w = walking_ok [OF B s]
  show "\<exists>db'. dbAscend B env collect [] db = ((db', kvs), Ok ())"
    unfolding dbAscend_def kvs_def bindings_def by (rule w) (simp_all add: idxAscend_def)
  show "\<exists>db'. dbDescend B env collect [] db = ((db', rev kvs), Ok ())"
    unfolding dbDescend_def kvs_def bindings_def rev_map by (rule w) (simp_all add: idxDescend_def btree_okD(8) [OF B])
  show "\<exists>db'. dbAscendRange B env a b collect [] db = ((db', filter (\<lambda>(k, v). \<not> bytes_less k a \<and> bytes_less k b) kvs), Ok ())"
    unfolding dbAscendRange_def kvs_def bindings_def fl by (rule w) (auto simp: idxAscendRange_def btree_okD(9) [OF B])
  show "\<exists>db'. dbDescendRange B env a b collect [] db = ((db', filter (\<lambda>(k, v). \<not> bytes_less a k \<and> bytes_less b k) (rev kvs)), Ok ())"
    unfolding dbDescendRange_def kvs_def bindings_def rev_map fl by (rule w) (auto simp: idxDescendRange_def btree_okD(8,11) [OF B])
  show "\<exists>db'. dbAscendGreaterOrEqual B env a collect [] db = ((db', filter (\<lambda>(k, v). \<not> bytes_less k a) kvs), Ok ())"
    unfolding dbAscendGreaterOrEqual_def kvs_def bindings_def fl by (rule w) (auto simp: idxAscendGreaterOrEqual_def btree_okD(10) [OF B])
  show "\<exists>db'. dbDescendLessOrEqual B env a collect [] db = ((db', filter (\<lambda>(k, v). \<not> bytes_less a k) (rev kvs)), Ok ())"
    unfolding dbDescendLessOrEqual_def kvs_def bindings_def rev_map fl by (rule w) (auto simp: idxDescendLessOrEqual_def btree_okD(8,12) [OF B])
qed

end
