(* ===== verification/DiskvOpen.thy ===== *)
theory DiskvOpen
  imports DiskvStore
begin

text \<open>
  Opening a directory (\<open>Open\<close> in \<open>diskv/db.go\<close>, \<open>loadMergeFiles\<close> in \<open>merge.go\<close>): the files of a finished merge
  take the place of the segments they come from, the index is loaded from the hints and the log, and the
  store that is opened has the map that the directory holds; also when its last commit was cut off.
\<close>

subsection \<open>Loading the hints\<close>

lemma enc_hint_ok: "decodeHintRecord (enc_hint (k, pos)) = Ok (k, pos)"
  using decodeHintRecord_encode [of k pos] by (auto simp: enc_hint_def)

lemma hint_map_simps [simp]: "hint_map [] I = I" "hint_map ((k, pos) # H) I = hint_map H (I(k \<mapsto> place_of pos))"
  by (simp_all add: hint_map_def)

lemma hint_loop_ok:
  assumes B: "btree_ok B \<alpha>"
  shows "reading h wal rd rest \<Longrightarrow> map snd rest = map enc_hint H \<Longrightarrow> length H < n \<Longrightarrow>
    \<exists>wal' idx'. hint_loop n B pool rd (wal, idx) = ((wal', idx'), Ok ()) \<and> places \<alpha> idx' = hint_map H (places \<alpha> idx) \<and>
      wal_holds wal' h \<and> kept wal wal'"
proof (induction n arbitrary: wal rd rest H idx)
  case (Suc n)
  show ?case
  proof (cases H)
    case Nil
    then have "rest = []" using Suc.prems(2) by simp
    then obtain rd' where "walNext pool wal rd = ((wal, rd'), Err EOF)"
      using reading_end [of h wal rd pool] Suc.prems(1) by auto
    then show ?thesis using Nil reading_holds [OF Suc.prems(1)] by simp
  next
    case (Cons x H')
    obtain k pos where x: "x = (k, pos)" by (cases x)
    obtain pl rest' where r: "rest = (pl, enc_hint (k, pos)) # rest'" "map snd rest' = map enc_hint H'"
      using Suc.prems(2) Cons x by (cases rest) auto
    obtain wal1 rd1 p where n: "walNext pool wal rd = ((wal1, rd1), Ok (enc_hint (k, pos), p))"
      "reading h wal1 rd1 rest'" "kept wal wal1"
      by (rule reading_next [OF Suc.prems(1) [unfolded r(1)], of pool])
    let ?idx = "fst (idxPut B k pos idx)"
    obtain wal' idx' where "hint_loop n B pool rd1 (wal1, ?idx) = ((wal', idx'), Ok ())"
      "places \<alpha> idx' = hint_map H' (places \<alpha> ?idx)" "wal_holds wal' h" "kept wal1 wal'"
      using Suc.IH [OF n(2) r(2), of ?idx] Suc.prems(3) Cons by auto
    then show ?thesis using n(1) Cons x kept_trans [OF n(3)]
      by (intro exI [of _ wal'] exI [of _ idx']) (simp add: enc_hint_ok places_ops [OF B])
  qed
qed simp

subsection \<open>Opening the files again\<close>

lemma files_of_disk: "(\<lambda>i. case map_of (files_of wal) i of None \<Rightarrow> [] | Some bs \<Rightarrow> bs) = walFiles wal"
proof
  fix i
  have m: "map_of (map (\<lambda>i. (i, f i)) is) i = (if i \<in> set is then Some (f i) else None)" for f :: "u32 \<Rightarrow> bytes" and "is"
    by (induction "is") auto
  have "i \<notin> set (walIds wal) \<Longrightarrow> segment_of wal i = None"
    by (auto simp: walIds_def segment_of_def map_of_eq_None_iff)
  then show "(case map_of (files_of wal) i of None \<Rightarrow> [] | Some bs \<Rightarrow> bs) = walFiles wal i"
    by (simp add: files_of_def m walFiles_def)
qed

lemma open_files_fine:
  assumes "dirs_ok io"
  shows "open_files io = open_files io_fine" "openWalFiles io = openWalFiles io_fine"
  by (simp_all add: open_files_def openWalFiles_def dirs_fine [OF assms] fun_eq_iff)

lemma open_files_of:
  assumes "wal_holds wal h" "take 1 (SegmentFileExt opts) = ''.''"
  obtains wal' where "open_files io_fine opts (files_of wal) = Ok wal'" "wal_holds wal' h" "woptions wal' = opts"
    "ActiveSegmentID wal' = ActiveSegmentID wal" "pendingWrites wal' = []" "length (walIds wal') = length (walIds wal)"
proof -
  have ids: "map (uint \<circ> fst) (files_of wal) = map uint (walIds wal)" by (simp add: files_of_def comp_def)
  obtain wal' where w: "walOpen io_fine opts (map uint (walIds wal)) (walFiles wal) = Ok wal'" "wal_holds wal' h" "woptions wal' = opts"
    "ActiveSegmentID wal' = ActiveSegmentID wal" "pendingWrites wal' = []" "mset (walIds wal') = mset (walIds wal)"
    by (rule holds_reopen [OF assms(1) refl assms(2)])
  have "length (walIds wal') = length (walIds wal)" using w(6) by (metis size_mset)
  then show ?thesis using that w by (simp add: open_files_def files_of_disk ids)
qed

lemma open_no_files:
  assumes "take 1 (SegmentFileExt opts) = ''.''"
  obtains wal where "open_files io_fine opts [] = Ok wal" "wal_holds wal []" "woptions wal = opts" "ActiveSegmentID wal = 1"
    "pendingWrites wal = []"
  by (rule holds_open_new [OF assms, of "\<lambda>_. []"]) (use that in \<open>simp_all add: open_files_def\<close>)

lemma open_one:
  assumes "open_files io_fine opts fs = Ok wal" "fs = [] \<or> one_file fs"
  shows "ActiveSegmentID wal = 1"
  using assms
  by (auto simp: open_files_def walOpen_def one_file_def ActiveSegmentID_def initialSegmentFileID_def Let_def split: if_splits)

lemma one_file_of: "wal_holds wal h \<Longrightarrow> ActiveSegmentID wal = 1 \<Longrightarrow> one_file (files_of wal)"
  using holds_first [of wal h] by (simp add: files_of_def one_file_def)

lemma no_hints: "hints_hold [] []"
  by (rule open_no_files [of hint_options]) (auto simp: hints_hold_def hint_options_def)

lemma load_hints:
  assumes B: "btree_ok B \<alpha>" and h: "hints_hold fs H" and n: "length H < envFuel env" and io: "dirs_ok (envIO env)"
  obtains fs' idx where "loadIndexFromHintFile B env (fs, bt_New B) = ((fs', idx), Ok ())"
    "places \<alpha> idx = hint_map H Map.empty" "hints_hold fs' H"
proof -
  obtain wal h where w: "open_files io_fine hint_options fs = Ok wal" "wal_holds wal h" "map snd h = map enc_hint H"
    "fs = [] \<or> one_file fs" using assms(2) by (auto simp: hints_hold_def)
  let ?wal = "SetIsStartupTraversal True wal"
  have "reading h ?wal (NewReader wal) h" by (rule reading_startup [OF reading_new [OF w(2)]])
  from hint_loop_ok [OF B this w(3) n, of "envPool env" "bt_New B"]
  obtain wal' idx where l: "hint_loop (envFuel env) B (envPool env) (NewReader wal) (?wal, bt_New B) = ((wal', idx), Ok ())"
    "places \<alpha> idx = hint_map H (places \<alpha> (bt_New B))" "wal_holds wal' h" "kept wal wal'" by auto
  have "ActiveSegmentID wal' = 1" using l(4) open_one [OF w(1,4)] by (simp add: kept_def)
  then have one: "one_file (files_of wal')" by (rule one_file_of [OF l(3)])
  obtain wal2 where "open_files io_fine hint_options (files_of wal') = Ok wal2" "wal_holds wal2 h"
    by (rule open_files_of [OF l(3), of hint_options]) (simp_all add: hint_options_def)
  then have "hints_hold (files_of wal') H" using w(3) one by (auto simp: hints_hold_def)
  then show ?thesis using that w(1) l by (simp add: loadIndexFromHintFile_def open_files_fine [OF io] places_ops [OF B])
qed

subsection \<open>Opening the store\<close>

text \<open>What is on the disk of a store with the map \<open>M\<close>, and the fuel that reads it all.\<close>

definition disk_core :: "dbOptions \<Rightarrow> (bytes \<rightharpoonup> bytes) \<Rightarrow> u64 set \<Rightarrow> dir \<Rightarrow> nat \<Rightarrow> bool" where
  "disk_core opts M U d n \<longleftrightarrow> (\<exists>wal L H fin I. openWalFiles io_fine opts (segFiles d) = Ok wal \<and> woptions wal = wal_opts opts \<and>
     log_core M U I wal L H fin None \<and> hints_hold (hintFiles d) H \<and> getMergeFinSegmentId (finFiles d) = Ok fin \<and>
     length (walIds wal) + length L < n \<and> length H < n)"

lemma loadIndex_ok:
  assumes B: "btree_ok B \<alpha>" and c: "log_core M U I (dataFiles db) L H fin mg" and h: "hints_hold (hintDisk db) H"
    and f: "getMergeFinSegmentId (finDisk db) = Ok fin" and i: "dbIndex db = bt_New B"
    and n: "length (walIds (dataFiles db)) + length L < envFuel env" "length H < envFuel env" and io: "dirs_ok (envIO env)"
  obtains wal idx hints where "loadIndex B env db = (db\<lparr>hintDisk := hints, dataFiles := wal, dbIndex := idx\<rparr>, Ok ())"
    "places \<alpha> idx = I" "log_core M U I wal L H fin mg" "hints_hold hints H" "kept (dataFiles db) wal"
proof -
  let ?wal = "dataFiles db"
  have lc: "wal_holds ?wal (encoded L)" "\<forall>x \<in> set L. good (snd x)" "pendingWrites ?wal = []" "fin < ActiveSegmentID ?wal"
    "replays U fin H L I" using c by (simp_all add: log_core_def)
  obtain hints idx0 where h: "loadIndexFromHintFile B env (hintDisk db, bt_New B) = ((hints, idx0), Ok ())"
    "places \<alpha> idx0 = hint_map H Map.empty" "hints_hold hints H"
    by (rule load_hints [OF B h n(2) io])
  have l: "loads \<alpha> (idx0, []) (hint_map H Map.empty, \<lambda>_. [])" using h(2) by (simp add: loads_def)
  obtain wal' t where ld: "load_loop (envFuel env) B env fin (NewReader ?wal) (SetIsStartupTraversal True ?wal, idx0, []) = ((wal', t), Ok ())"
    "places \<alpha> (fst t) = fst (replay (live fin L) (hint_map H Map.empty, \<lambda>_. []))" "wal_holds wal' (encoded L)" "kept ?wal wal'"
    by (rule load_loop_ok [OF B lc(1,2,4) l n(1)])
  let ?wal' = "SetIsStartupTraversal False wal'"
  have lw: "loadIndexFromWAL B env (finDisk db) (?wal, idx0) = ((?wal', fst t), Ok ())"
    using f ld(1) by (cases t) (simp add: loadIndexFromWAL_def)
  have k: "pendingWrites wal' = []" "ActiveSegmentID wal' = ActiveSegmentID ?wal" "kept ?wal ?wal'"
    using ld(4) lc(3) kept_trans [OF ld(4) kept_startup(1)] by (simp_all add: kept_def same_pending_def)
  have "log_core M U I ?wal' L H fin mg"
    by (rule log_core_wal [OF c holds_startup [OF ld(3)]]) (simp_all add: k)
  moreover have "places \<alpha> (fst t) = I" using ld(2) lc(5) by (auto simp: replays_def)
  ultimately show ?thesis using that [of "fst t" ?wal' hints] h(1,3) lw k(3) i by (simp add: loadIndex_def)
qed

lemma open_dir_ok:
  assumes B: "btree_ok B \<alpha>" and d: "disk_core opts M U d (envFuel env)" and io: "dirs_ok (envIO env)"
  obtains db wal where "open_dir B env opts d = Ok db" "store_ok \<alpha> opts M U db" "mergeRunning db = False"
    "openWalFiles io_fine opts (segFiles d) = Ok wal" "ActiveSegmentID (dataFiles db) = ActiveSegmentID wal"
proof -
  obtain wal L H fin I where w: "openWalFiles io_fine opts (segFiles d) = Ok wal" "woptions wal = wal_opts opts"
    "log_core M U I wal L H fin None" "hints_hold (hintFiles d) H" "getMergeFinSegmentId (finFiles d) = Ok fin"
    "length (walIds wal) + length L < envFuel env" "length H < envFuel env"
    using d by (auto simp: disk_core_def)
  let ?db = "\<lparr>dataFiles = wal, dbIndex = bt_New B, dbOpts = opts, dbMu = Unlocked, dbClosed = False, mergeRunning = False,
             watcher = (if 0 < optWatchQueueSize opts then Some (NewWatcher (optWatchQueueSize opts)) else None),
             hintDisk = hintFiles d, finDisk = finFiles d, mergeDisk = None\<rparr>"
  obtain wal' idx hints where l: "loadIndex B env ?db = (?db\<lparr>hintDisk := hints, dataFiles := wal', dbIndex := idx\<rparr>, Ok ())"
    "places \<alpha> idx = I" "log_core M U I wal' L H fin None" "hints_hold hints H" "kept wal wal'"
    by (rule loadIndex_ok [OF B, of M U I ?db L H fin None env]) (use w io in simp_all)
  show ?thesis
  proof (rule that [OF _ _ _ w(1)])
    show "open_dir B env opts d = Ok (?db\<lparr>hintDisk := hints, dataFiles := wal', dbIndex := idx\<rparr>)"
      using w(1) l(1) by (simp add: open_dir_def open_files_fine [OF io])
    show "store_ok \<alpha> opts M U (?db\<lparr>hintDisk := hints, dataFiles := wal', dbIndex := idx\<rparr>)"
      using l(2-5) w(2,5) by (auto simp: store_ok_def store_core_def kept_def same_pending_def)
  qed (use l(5) in \<open>simp_all add: kept_def\<close>)
qed

lemma openWalFiles_wal_opts: "openWalFiles io_fine opts = open_files io_fine (wal_opts opts)"
  by (simp add: openWalFiles_def wal_opts_def)

lemma wal_opts_ext [simp]: "take 1 (SegmentFileExt (wal_opts opts)) = ''.''"
  by (simp add: wal_opts_def)

text \<open>The directory of a store that is in use holds the same map.\<close>

lemma files_disk:
  assumes "log_core M U I wal L H fin mg" "hints_hold hs H" "getMergeFinSegmentId fs = Ok fin"
  shows "\<exists>n. disk_core opts M U \<lparr>segFiles = files_of wal, hintFiles = hs, finFiles = fs\<rparr> n"
proof -
  have lc: "wal_holds wal (encoded L)" "\<forall>x \<in> set L. good (snd x)" "fin < ActiveSegmentID wal"
    "replays U fin H L I" "shows_map L I M" using assms(1) by (simp_all add: log_core_def)
  obtain wal' where w: "open_files io_fine (wal_opts opts) (files_of wal) = Ok wal'" "wal_holds wal' (encoded L)"
    "woptions wal' = wal_opts opts" "ActiveSegmentID wal' = ActiveSegmentID wal" "pendingWrites wal' = []"
    by (rule open_files_of [OF lc(1) wal_opts_ext])
  have "log_core M U I wal' L H fin None" using w lc by (simp add: log_core_def)
  then show ?thesis using w(1,3) assms(2-3)
    unfolding disk_core_def openWalFiles_wal_opts
    by (intro exI [of _ "Suc (length (walIds wal') + length L + length H)"] exI [of _ wal'] exI [of _ L] exI [of _ H] exI [of _ fin] exI [of _ I]) simp
qed

subsection \<open>The files of a merge\<close>

definition kept_file :: "files \<Rightarrow> u32 \<Rightarrow> bytes option" where
  "kept_file src i = (case map_of src i of None \<Rightarrow> None | Some c \<Rightarrow> if c = [] then None else Some c)"

definition move_segments :: "files \<Rightarrow> u32 list \<Rightarrow> files \<Rightarrow> files" where
  "move_segments src is fs = fold (\<lambda>i fs. moveFile src i False (AList.delete i fs)) is fs"

lemma move_segments_Cons: "move_segments src (i # is) fs = move_segments src is (moveFile src i False (AList.delete i fs))"
  by (simp add: move_segments_def)

lemma move_segments_map:
  "map_of (move_segments src is fs) j = (if j \<in> set is then kept_file src j else map_of fs j)"
proof (induction "is" arbitrary: fs)
  case (Cons i "is")
  have "map_of (moveFile src i False (AList.delete i fs)) j = (if j = i then kept_file src i else map_of fs j)"
    by (simp add: moveFile_def kept_file_def update_conv' delete_conv' split: option.split)
  then show ?case using Cons.IH by (auto simp: move_segments_Cons)
qed (simp add: move_segments_def)

lemma move_segments_distinct: "distinct (map fst fs) \<Longrightarrow> distinct (map fst (move_segments src is fs))"
proof (induction "is" arbitrary: fs)
  case (Cons i "is")
  have "distinct (map fst (moveFile src i False (AList.delete i fs)))"
    using Cons.prems by (simp add: moveFile_def distinct_delete distinct_update split: option.split)
  then show ?case using Cons.IH by (simp add: move_segments_Cons)
qed (simp add: move_segments_def)

lemma ids_up_to: "set (map word_of_nat [1..<Suc (unat fin)]) = {i :: u32. i \<noteq> 0 \<and> i \<le> fin}"
proof (rule set_eqI)
  fix i :: u32
  have w: "unat (word_of_nat n :: u32) = n" if "n \<le> unat fin" for n
    using that unsigned_less [of fin, where ?'a = nat] by (simp add: unat_of_nat)
  have "i \<in> set (map word_of_nat [1..<Suc (unat fin)]) \<longleftrightarrow> (\<exists>n. 1 \<le> n \<and> n \<le> unat fin \<and> i = word_of_nat n)"
    by (auto simp: less_Suc_eq_le simp del: upt_Suc)
  also have "\<dots> \<longleftrightarrow> 1 \<le> unat i \<and> unat i \<le> unat fin"
    using w by (metis of_nat_unat ucast_id)
  also have "\<dots> \<longleftrightarrow> i \<in> {i. i \<noteq> 0 \<and> i \<le> fin}" by (simp add: word_le_nat_alt Suc_le_eq unat_eq_zero flip: neq0_conv)
  finally show "i \<in> set (map word_of_nat [1..<Suc (unat fin)]) \<longleftrightarrow> i \<in> {i. i \<noteq> 0 \<and> i \<le> fin}" .
qed

lemma map_of_files: "map_of (files_of wal) i = (if i \<in> set (walIds wal) then Some (walFiles wal i) else None)"
proof -
  have "map_of (map (\<lambda>i. (i, f i)) is) i = (if i \<in> set is then Some (f i) else None)" for f :: "u32 \<Rightarrow> bytes" and "is"
    by (induction "is") auto
  then show ?thesis by (simp add: files_of_def)
qed

text \<open>The log that the merged segments and the newer ones make.\<close>

definition merged_logs :: "u32 \<Rightarrow> WAL \<Rightarrow> logs \<Rightarrow> logs \<Rightarrow> logs" where
  "merged_logs fin ml mlogs logs = filter (\<lambda>(i, l). walFiles ml i \<noteq> []) mlogs @ filter (\<lambda>(i, l). fin < i) logs"

lemma wal_logs:
  assumes "wal_ok wal logs"
  shows "fst ` set logs = set (walIds wal)" "sorted_wrt (<) (map fst logs)" "distinct (map fst logs)" "0 \<notin> fst ` set logs"
    "(ActiveSegmentID wal, snd (last logs)) \<in> set logs" "last logs = (ActiveSegmentID wal, snd (last logs))" "logs \<noteq> []"
proof -
  have w: "logs \<noteq> []" "fst (last logs) = ActiveSegmentID wal" "sorted_wrt (<) (map fst logs)" "0 \<notin> fst ` set logs"
    using assms by (simp_all add: wal_ok_def ActiveSegmentID_def)
  then show "logs \<noteq> []" "sorted_wrt (<) (map fst logs)" "distinct (map fst logs)" "0 \<notin> fst ` set logs"
    by (simp_all add: strict_sorted_iff)
  show "fst ` set logs = set (walIds wal)" using walIds_ok [OF assms] by (metis set_map set_mset_mset)
  show l: "last logs = (ActiveSegmentID wal, snd (last logs))" using w(2) by (simp add: prod_eq_iff)
  show "(ActiveSegmentID wal, snd (last logs)) \<in> set logs" using w(1) l by (metis last_in_set)
qed

lemma fst_filter: "fst ` set (filter (\<lambda>(i, l). P i) xs) = {i \<in> fst ` set xs. P i}"
  by force

lemma merged_placed:
  assumes "wal_ok ml mlogs"
  shows "placed (merged_logs fin ml mlogs logs) = placed mlogs @ live fin (placed logs)"
proof -
  have "l = []" if "(i, l) \<in> set mlogs" "walFiles ml i = []" for i l
    using walFiles_ok [OF assms that(1)] log_from_ascending [of "walFiles ml i" 0 l] that(2) by (cases l) auto
  then have "placed (filter (\<lambda>(i, l). walFiles ml i \<noteq> []) lg) = placed lg" if "set lg \<subseteq> set mlogs" for lg
    using that by (induction lg) (auto simp: placed_def)
  then have "placed (filter (\<lambda>(i, l). walFiles ml i \<noteq> []) mlogs) = placed mlogs" by simp
  moreover have "placed (a @ b) = placed a @ placed b" for a b by (simp add: placed_def)
  ultimately show ?thesis by (simp add: merged_logs_def live_placed)
qed

lemma open_merged:
  assumes w: "wal_ok wal logs" and m: "wal_ok ml mlogs" "ActiveSegmentID ml \<le> fin" "fin < ActiveSegmentID wal"
    and o: "take 1 (SegmentFileExt opts) = ''.''"
  defines "fs \<equiv> move_segments (files_of ml) (map word_of_nat [1..<Suc (unat fin)]) (files_of wal)"
  obtains wal' where "open_files io_fine opts fs = Ok wal'" "wal_ok wal' (merged_logs fin ml mlogs logs)" "woptions wal' = opts"
    "pendingWrites wal' = []" "fin < ActiveSegmentID wal'"
proof -
  let ?logs = "merged_logs fin ml mlogs logs"
  note lw = wal_logs [OF w] and lm = wal_logs [OF m(1)]
  have mf: "i \<noteq> 0 \<and> i \<le> fin" if "i \<in> fst ` set mlogs" for i
    using that lm(1,4) holds_ids(3) [of ml "placed mlogs"] m by (auto simp: wal_holds_def dest: order_trans)
  have map: "map_of fs i = (if i \<noteq> 0 \<and> i \<le> fin then kept_file (files_of ml) i else map_of (files_of wal) i)" for i
    unfolding fs_def move_segments_map ids_up_to by simp
  have "distinct (map fst (files_of wal))" using lw(1) holds_ids(1) [of wal "placed logs"] w
    by (auto simp: files_of_def comp_def wal_holds_def)
  then have d: "distinct (map fst fs)" unfolding fs_def by (rule move_segments_distinct)
  have so: "sorted_wrt (<) (map fst ?logs)"
    using lw(2) lm(2) mf by (force simp: merged_logs_def sorted_wrt_append sorted_wrt_map sorted_wrt_filter)
  have dom: "fst ` set fs = fst ` set ?logs"
  proof -
    have "fst ` set fs = {i. map_of fs i \<noteq> None}" by (auto simp: map_of_eq_None_iff)
    also have "\<dots> = fst ` set ?logs"
    proof (rule set_eqI)
      fix i
      have "i \<in> fst ` set ?logs \<longleftrightarrow> (i \<in> set (walIds ml) \<and> walFiles ml i \<noteq> []) \<or> (i \<in> set (walIds wal) \<and> fin < i)"
        unfolding merged_logs_def set_append image_Un fst_filter lm(1) lw(1) by auto
      moreover have "i \<in> set (walIds ml) \<Longrightarrow> i \<noteq> 0 \<and> i \<le> fin" "i \<in> set (walIds wal) \<Longrightarrow> i \<noteq> 0"
        using mf lw(4) unfolding lm(1) lw(1) by auto
      ultimately show "i \<in> {i. map_of fs i \<noteq> None} \<longleftrightarrow> i \<in> fst ` set ?logs"
        by (auto simp: map kept_file_def map_of_files not_le)
    qed
    finally show ?thesis .
  qed
  have "mset (map fst fs) = mset (map fst ?logs)"
    using d so dom by (intro set_eq_iff_mset_eq_distinct [THEN iffD1]) (simp_all add: strict_sorted_iff)
  then have ids: "mset (map (uint \<circ> fst) fs) = mset (map uint (map fst ?logs))" by (metis map_map mset_map)
  have act: "(ActiveSegmentID wal, snd (last logs)) \<in> set (filter (\<lambda>(i, l). fin < i) logs)"
    using lw(5) m(3) by simp
  have la: "fin < fst (last ?logs)"
  proof -
    have "last ?logs \<in> set (filter (\<lambda>(i, l). fin < i) logs)"
      using act unfolding merged_logs_def by (metis empty_iff empty_set last_appendR last_in_set)
    then show ?thesis by auto
  qed
  let ?disk = "\<lambda>i. case map_of fs i of None \<Rightarrow> [] | Some bs \<Rightarrow> bs"
  obtain wal' where "walOpen io_fine opts (map (uint \<circ> fst) fs) ?disk = Ok wal'" "wal_ok wal' ?logs" "woptions wal' = opts" "pendingWrites wal' = []"
  proof (rule walOpen_ok [OF _ so _ _ disjI1 [OF ids] o])
    show "?logs \<noteq> []" using act unfolding merged_logs_def by (metis append_is_Nil_conv empty_iff empty_set)
    show "0 \<notin> fst ` set ?logs" using lw(4) lm(4) by (auto simp: merged_logs_def)
    show "log_from (?disk i) 0 l \<and> length (?disk i) < 2 ^ 45" if "(i, l) \<in> set ?logs" for i l
    proof (cases "(i, l) \<in> set mlogs")
      case True
      then have "i \<noteq> 0 \<and> i \<le> fin" "i \<in> set (walIds ml)" using mf lm(1) by force+
      then show ?thesis using walFiles_ok [OF m(1) True] by (auto simp: map kept_file_def map_of_files)
    next
      case False
      then have i: "(i, l) \<in> set logs" "fin < i" using that by (auto simp: merged_logs_def)
      then have "i \<in> set (walIds wal)" using lw(1) by force
      then show ?thesis using walFiles_ok [OF w i(1)] i(2) by (auto simp: map map_of_files dest: leD)
    qed
  qed
  then show ?thesis using that la by (simp add: open_files_def wal_ok_def ActiveSegmentID_def)
qed

lemma loadMergeFiles_ok:
  assumes w: "wal_holds wal (encoded L)" "\<forall>x \<in> set L. good (snd x)" and m: "merge_core M U (ActiveSegmentID wal) L d"
    and h: "hs = [] \<or> one_file hs"
  shows "\<exists>d' n. loadMergeFiles \<lparr>segFiles = files_of wal, hintFiles = hs, finFiles = fs\<rparr> (Some d) = Ok d' \<and> disk_core opts M U d' n"
proof -
  obtain ml K H fin I where d: "segFiles d = files_of ml" "wal_holds ml (encoded K)" "\<forall>x \<in> set K. good (snd x)"
    "ActiveSegmentID ml \<le> fin" "one_file (hintFiles d)" "hints_hold (hintFiles d) H" "one_file (finFiles d)"
    "getMergeFinSegmentId (finFiles d) = Ok fin" "fin < ActiveSegmentID wal" "replays U fin H L I" "shows_map (K @ live fin L) I M"
    using m by (auto simp: merge_core_def)
  obtain logs where lw: "wal_ok wal logs" "encoded L = placed logs" using w(1) by (auto simp: wal_holds_def)
  obtain mlogs where lm: "wal_ok ml mlogs" "encoded K = placed mlogs" using d(2) by (auto simp: wal_holds_def)
  let ?fs = "move_segments (files_of ml) (map word_of_nat [1..<Suc (unat fin)]) (files_of wal)"
  obtain wal' where o: "open_files io_fine (wal_opts opts) ?fs = Ok wal'" "wal_ok wal' (merged_logs fin ml mlogs logs)"
    "woptions wal' = wal_opts opts" "pendingWrites wal' = []" "fin < ActiveSegmentID wal'"
    by (rule open_merged [OF lw(1) lm(1) d(4,9) wal_opts_ext])
  let ?L = "K @ live fin L"
  have "encoded ?L = placed (merged_logs fin ml mlogs logs)"
    using merged_placed [OF lm(1)] lw(2) lm(2) live_encoded [of fin L] by simp
  then have wh: "wal_holds wal' (encoded ?L)" using o(2) by (auto simp: wal_holds_def)
  have "\<not> fin < fst (fst x)" if "x \<in> set K" for x
    using holds_place [OF d(2), of "(fst x, enc (snd x))"] that d(4) by (auto simp: encoded_def not_less case_prod_beta intro: order_trans)
  then have "live fin K = []" by (simp add: live_def)
  then have "live fin ?L = live fin L" by (simp add: live_def)
  then have r: "replays U fin H ?L I" using d(10) by (simp add: replays_def)
  have "\<forall>x \<in> set ?L. good (snd x)" using d(3) w(2) by (auto simp: live_def)
  then have lc: "log_core M U I wal' ?L H fin None" using wh o(4,5) r d(11) by (simp add: log_core_def)
  obtain c c' where one: "hintFiles d = [(1, c)]" "finFiles d = [(1, c')]" using d(5,7) by (auto simp: one_file_def)
  have hint: "moveFile (hintFiles d) 1 True hs = hintFiles d" using h by (auto simp: one one_file_def moveFile_def)
  have fin: "getMergeFinSegmentId (moveFile (finFiles d) 1 True fs) = Ok fin"
    using d(8) by (simp add: one moveFile_def getMergeFinSegmentId_def update_conv')
  let ?d = "\<lparr>segFiles = ?fs, hintFiles = moveFile (hintFiles d) 1 True hs, finFiles = moveFile (finFiles d) 1 True fs\<rparr>"
  have "loadMergeFiles \<lparr>segFiles = files_of wal, hintFiles = hs, finFiles = fs\<rparr> (Some d) = Ok ?d"
    using d(8) by (simp add: loadMergeFiles_def move_segments_def d(1))
  moreover have "disk_core opts M U ?d (Suc (length (walIds wal') + length ?L + length H))"
    using o(1,3) lc d(6) fin unfolding disk_core_def openWalFiles_wal_opts hint
    by (intro exI [of _ wal'] exI [of _ ?L] exI [of _ H] exI [of _ fin] exI [of _ I]) simp
  ultimately show ?thesis by blast
qed

text \<open>What an opening finds on the disk of a store, with or without a finished merge.\<close>

lemma log_disk:
  assumes c: "log_core M U I wal L H fin mg" and h: "hints_hold hs H" and f: "getMergeFinSegmentId fs = Ok fin"
  shows "\<exists>d n. loadMergeFiles \<lparr>segFiles = files_of wal, hintFiles = hs, finFiles = fs\<rparr> mg = Ok d \<and> disk_core opts M U d n"
proof (cases mg)
  case None
  then show ?thesis using files_disk [OF assms] by (simp add: loadMergeFiles_def)
next
  case (Some d)
  have "hs = [] \<or> one_file hs" using h by (simp add: hints_hold_def)
  then show ?thesis unfolding Some by (intro loadMergeFiles_ok [of wal L]) (use c Some in \<open>simp_all add: log_core_def\<close>)
qed

lemma store_disk:
  assumes "store_core \<alpha> opts M U db"
  shows "\<exists>d n. loadMergeFiles (dbDisk db) (mergeDisk db) = Ok d \<and> disk_core opts M U d n"
proof -
  obtain L H fin where "log_core M U (places \<alpha> (dbIndex db)) (dataFiles db) L H fin (mergeDisk db)" "hints_hold (hintDisk db) H"
    "getMergeFinSegmentId (finDisk db) = Ok fin" using assms by (auto simp: store_core_def)
  then show ?thesis unfolding dbDisk_def by (rule log_disk)
qed

subsection \<open>Enough fuel\<close>

lemma disk_core_mono: "disk_core opts M U d n \<Longrightarrow> n \<le> m \<Longrightarrow> disk_core opts M U d m"
  unfolding disk_core_def by (elim exE conjE) (intro exI conjI, assumption+, linarith+)

text \<open>More fuel does not change the result of an opening that succeeds.\<close>

lemma hint_loop_mono: "hint_loop n B pool rd s = (s', Ok ()) \<Longrightarrow> hint_loop (n + k) B pool rd s = (s', Ok ())"
proof (induction n arbitrary: rd s)
  case (Suc n)
  obtain wal1 rd1 r where n: "walNext pool (fst s) rd = ((wal1, rd1), r)" by (metis prod.collapse)
  show ?case
  proof (cases r)
    case (Ok y)
    obtain data pos where y: "y = (data, pos)" by (cases y)
    show ?thesis using Suc n Ok y by (cases "decodeHintRecord data") auto
  qed (use Suc.prems n in auto)
qed simp

lemma load_loop_mono: "load_loop n B env fin rd s = (s', Ok ()) \<Longrightarrow> load_loop (n + k) B env fin rd s = (s', Ok ())"
proof (induction n arbitrary: rd s)
  case (Suc n)
  obtain wal1 rd1 r where n: "walNext (envPool env) (fst s) rd = ((wal1, rd1), r)" by (metis prod.collapse)
  obtain i where i: "CurrentSegmentId rd = Ok i" using Suc.prems by (cases "CurrentSegmentId rd") auto
  show ?case
  proof (cases "i \<le> fin")
    case True
    then show ?thesis using Suc i by simp
  next
    case False
    show ?thesis
    proof (cases r)
      case (Ok y)
      obtain data pos where y: "y = (data, pos)" by (cases y)
      show ?thesis using Suc n Ok y i False by (cases "load_record B env data pos (snd s)") auto
    qed (use Suc.prems n i False in auto)
  qed
qed simp

lemma load_record_fuel: "load_record B (env\<lparr>envFuel := m\<rparr>) = load_record B env"
proof -
  have "envNow (env\<lparr>envFuel := m\<rparr>) = envNow env" "envSpare (env\<lparr>envFuel := m\<rparr>) = envSpare env" by simp_all
  then show ?thesis by (intro ext) (simp only: load_record_def)
qed

lemma load_loop_fuel: "load_loop n B (env\<lparr>envFuel := m\<rparr>) fin rd s = load_loop n B env fin rd s"
proof (induction n arbitrary: rd s)
  case (Suc n)
  obtain wal1 rd1 r where n: "walNext (envPool env) (fst s) rd = ((wal1, rd1), r)" by (metis prod.collapse)
  show ?case
  proof (cases r)
    case (Ok y)
    obtain data pos where y: "y = (data, pos)" by (cases y)
    show ?thesis using Suc n Ok y by (cases "CurrentSegmentId rd"; cases "load_record B env data pos (snd s)") (simp_all add: load_record_fuel)
  qed (cases "CurrentSegmentId rd"; use Suc n in simp)+
qed simp

lemma loadIndex_mono:
  assumes "loadIndex B env db = (db', Ok ())"
  shows "loadIndex B (env\<lparr>envFuel := envFuel env + k\<rparr>) db = (db', Ok ())"
proof -
  let ?env = "env\<lparr>envFuel := envFuel env + k\<rparr>"
  obtain hints idx r where r: "loadIndexFromHintFile B env (hintDisk db, dbIndex db) = ((hints, idx), r)" by (metis prod.collapse)
  then have "r = Ok ()" using assms by (cases r) (auto simp: loadIndex_def)
  then have h: "loadIndexFromHintFile B ?env (hintDisk db, dbIndex db) = ((hints, idx), Ok ())"
    using r by (auto simp: loadIndexFromHintFile_def hint_loop_mono split: gores.splits prod.splits)
  have l: "loadIndexFromWAL B env (finDisk db) (dataFiles db, idx) = ((dataFiles db', dbIndex db'), Ok ())"
    and d: "db' = db\<lparr>hintDisk := hints, dataFiles := dataFiles db', dbIndex := dbIndex db'\<rparr>"
    using assms r \<open>r = Ok ()\<close> by (auto simp: loadIndex_def split: prod.splits)
  obtain fin where fin: "getMergeFinSegmentId (finDisk db) = Ok fin"
    using l by (cases "getMergeFinSegmentId (finDisk db)") (auto simp: loadIndexFromWAL_def)
  obtain w t m r' where ll: "load_loop (envFuel env) B env fin (NewReader (dataFiles db)) (SetIsStartupTraversal True (dataFiles db), idx, []) =
      ((w, t, m), r')" by (metis prod.collapse)
  have "r' = Ok ()" using l fin ll by (cases r') (auto simp: loadIndexFromWAL_def)
  then have "load_loop (envFuel env + k) B ?env fin (NewReader (dataFiles db)) (SetIsStartupTraversal True (dataFiles db), idx, []) =
      ((w, t, m), Ok ())" using load_loop_mono ll unfolding load_loop_fuel by blast
  then have "loadIndexFromWAL B ?env (finDisk db) (dataFiles db, idx) = ((dataFiles db', dbIndex db'), Ok ())"
    using l fin ll \<open>r' = Ok ()\<close> by (simp add: loadIndexFromWAL_def)
  then show ?thesis using h by (simp add: loadIndex_def) (subst d, simp)
qed

lemma open_dir_mono:
  assumes "open_dir B env opts d = Ok db"
  shows "open_dir B (env\<lparr>envFuel := envFuel env + k\<rparr>) opts d = Ok db"
proof -
  obtain wal where w: "openWalFiles (envIO env) opts (segFiles d) = Ok wal" using assms by (auto simp: open_dir_def go_bind_Ok_iff)
  let ?db0 = "\<lparr>dataFiles = wal, dbIndex = bt_New B, dbOpts = opts, dbMu = Unlocked, dbClosed = False, mergeRunning = False,
             watcher = (if 0 < optWatchQueueSize opts then Some (NewWatcher (optWatchQueueSize opts)) else None),
             hintDisk = hintFiles d, finDisk = finFiles d, mergeDisk = None\<rparr>"
  obtain db1 r where l: "loadIndex B env ?db0 = (db1, r)" by fastforce
  then have r: "r = Ok ()" "db1 = db" using assms w by (auto simp: open_dir_def go_bind_Ok_iff)
  show ?thesis using loadIndex_mono [OF l [unfolded r]] w by (simp add: open_dir_def)
qed

lemma open_dir_dirs: "open_dir B env opts d = Ok db \<Longrightarrow> dirs_ok (envIO env)"
  using walOpen_dirs by (auto simp: open_dir_def openWalFiles_def open_files_def go_bind_Ok_iff)

lemma reopen_ok:
  assumes B: "btree_ok B \<alpha>" and l: "loadMergeFiles d mg = Ok d'" and d: "disk_core opts M U d' n"
    and o: "dbOpen B env opts d mg = Ok db"
  shows "store_ok \<alpha> opts M U db \<and> \<not> mergeRunning db \<and>
    (\<exists>wal. openWalFiles io_fine opts (segFiles d') = Ok wal \<and> ActiveSegmentID (dataFiles db) = ActiveSegmentID wal)"
proof -
  let ?env = "env\<lparr>envFuel := envFuel env + n\<rparr>"
  have "open_dir B env opts d' = Ok db" using o l by (simp add: dbOpen_def go_bind_Ok_iff)
  then have e: "open_dir B ?env opts d' = Ok db" by (rule open_dir_mono)
  have "disk_core opts M U d' (envFuel ?env)" using disk_core_mono [OF d] by simp
  then obtain db' wal where "open_dir B ?env opts d' = Ok db'" "store_ok \<alpha> opts M U db'" "mergeRunning db' = False"
    "openWalFiles io_fine opts (segFiles d') = Ok wal" "ActiveSegmentID (dataFiles db') = ActiveSegmentID wal"
    by (rule open_dir_ok [OF B, of opts M U d' ?env]) (use open_dir_dirs [OF e] in simp)
  then show ?thesis using e by auto
qed

lemma reopen_total:
  assumes "btree_ok B \<alpha>" "loadMergeFiles d mg = Ok d'" "disk_core opts M U d' n" "0 < optSegmentSize opts" "n \<le> envFuel env"
    and io: "dirs_ok (envIO env)"
  shows "\<exists>db. dbOpen B env opts d mg = Ok db"
proof -
  obtain db where "open_dir B env opts d' = Ok db"
    by (rule open_dir_ok [OF assms(1) disk_core_mono [OF assms(3,5)] io])
  then show ?thesis using assms(2,4) by (simp add: dbOpen_def checkOptions_def)
qed

definition empty_dir :: dir where "empty_dir = \<lparr>segFiles = [], hintFiles = [], finFiles = []\<rparr>"

lemma empty_disk: "disk_core opts Map.empty {} empty_dir 2"
proof -
  obtain wal where w: "open_files io_fine (wal_opts opts) [] = Ok wal" "wal_holds wal []" "woptions wal = wal_opts opts"
    "ActiveSegmentID wal = 1" "pendingWrites wal = []"
    by (rule open_no_files [OF wal_opts_ext])
  have "length (walIds wal) = 1" using w(1) by (auto simp: open_files_def walOpen_def walIds_def split: if_splits)
  moreover have "log_core Map.empty {} Map.empty wal [] [] 0 None"
    using w by (simp add: log_core_def replays_def shows_map_def encoded_def live_def)
  ultimately show ?thesis using w(1,3) no_hints
    by (auto simp: disk_core_def openWalFiles_wal_opts empty_dir_def getMergeFinSegmentId_def
        intro!: exI [of _ wal] exI [of _ "[]"] exI [of _ "0 :: u32"])
qed

subsection \<open>A commit that is cut off\<close>

text \<open>
  The process dies when the first \<open>k\<close> records of a batch are in the segment \<open>wal\<close> writes to; the end
  record is not among them. The code hands all records to one \<open>Write\<close> of the file; what is modelled is a
  file that took a part of these bytes which ends with a record. A part that ends inside a chunk leaves
  a chunk with a wrong checksum, and the log does not open any more.
\<close>

definition torn_disk :: "env \<Rightarrow> u64 \<Rightarrow> bop list \<Rightarrow> nat \<Rightarrow> WAL \<Rightarrow> 't db \<Rightarrow> dir" where
  "torn_disk env i ops k wal db =
     (let b = fst (run_bops env ops db (initBatch False False None));
          wal = fst (pend_records (take k (numbered i (bWrites b))) wal)
      in dbDisk (db\<lparr>dataFiles := fst (walWriteAll (envIO env) wal)\<rparr>))"

lemma replays_more: "replays U fin H L I \<Longrightarrow> replays (insert i U) fin H L I"
  by (auto simp: replays_def)

lemma replays_torn:
  assumes "replays U fin H L I" "\<forall>(pl, r) \<in> set L1. fst pl = j \<and> rBatchId r = i \<and> write_ok r" "i \<noteq> 0" "fin < j"
  shows "replays (insert i U) fin H (L @ L1) I"
proof -
  have "live fin L1 = L1" using assms(2,4) by (intro live_all) auto
  moreover obtain P where "replay (live fin L) (hint_map H Map.empty, \<lambda>_. []) = (I, P)" "\<forall>b. P b \<noteq> [] \<longrightarrow> b \<in> U"
    using assms(1) by (auto simp: replays_def)
  moreover have "\<forall>(pl, r) \<in> set L1. rBatchId r = i \<and> write_ok r" using assms(2) by auto
  ultimately show ?thesis using replay_batch [of L1 i I P] assms(3) by (auto simp: replays_def)
qed

lemma merge_ok_torn:
  assumes "merge_ok M U j L mg" "\<forall>(pl, r) \<in> set L1. fst pl = j \<and> rBatchId r = i \<and> write_ok r" "i \<noteq> 0"
  shows "merge_ok M (insert i U) j (L @ L1) mg"
proof (cases mg)
  case (Some d)
  then obtain wal K H fin I where d: "segFiles d = files_of wal" "wal_holds wal (encoded K)" "\<forall>x \<in> set K. good (snd x)"
    "ActiveSegmentID wal \<le> fin" "one_file (hintFiles d)" "hints_hold (hintFiles d) H" "one_file (finFiles d)"
    "getMergeFinSegmentId (finFiles d) = Ok fin" "fin < j" "replays U fin H L I" "shows_map (K @ live fin L) I M"
    using assms(1) by (auto simp: merge_core_def)
  have "replays (insert i U) fin H (L @ L1) I" by (rule replays_torn [OF d(10) assms(2,3) d(9)])
  moreover have "shows_map (K @ live fin (L @ L1)) I M" using d(11) by (rule shows_map_more) auto
  ultimately show ?thesis using d(1-9) unfolding Some merge_ok_simps merge_core_def by blast
qed simp

lemma torn_log:
  assumes c: "log_core M U I wal L H fin mg" and rs: "\<forall>r \<in> set rs. write_ok r" and i: "i \<noteq> 0" and io: "writable io wal"
  shows "\<exists>L'. log_core M (insert i U) I (fst (walWriteAll io (fst (pend_records (numbered i rs) wal)))) L' H fin mg"
proof -
  let ?rs = "numbered i rs"
  let ?ds = "map enc ?rs"
  let ?pw = "fold PendingWrites ?ds wal"
  have n: "\<forall>r \<in> set ?rs. write_ok r \<and> good r \<and> rBatchId r = i" by (rule numbered_ok [OF rs])
  have pend: "fst (pend_records ?rs wal) = ?pw" using n by (subst pend_records_ok) (auto simp: good_def)
  have lc: "wal_holds wal (encoded L)" "\<forall>x \<in> set L. good (snd x)" "pendingWrites wal = []" "fin < ActiveSegmentID wal"
    "replays U fin H L I" "shows_map L I M" "merge_ok M U (ActiveSegmentID wal) L mg" using c by (simp_all add: log_core_def)
  have more: "replays (insert i U) fin H L I" "merge_ok M (insert i U) (ActiveSegmentID wal) L mg"
    using replays_more [OF lc(5)] merge_ok_torn [OF lc(7), of "[]"] i by simp_all
  have pw: "pendingWrites ?pw = ?ds" "woptions ?pw = woptions wal" "ActiveSegmentID ?pw = ActiveSegmentID wal" "wal_holds ?pw (encoded L)"
    using lc fold_pending [where ds = ?ds and wal = wal] by simp_all
  have w: "writable io ?pw" using io unfolding writable_def pw(2,3) .
  show ?thesis
  proof (cases "rs = []")
    case True
    then have "fst (walWriteAll io ?pw) = wal" using lc(3) by (simp add: walWriteAll_def numbered_def)
    then show ?thesis using c more unfolding pend by (auto simp: log_core_def)
  next
    case ne: False
    show ?thesis
    proof (cases "pendingSize ?pw \<le> SegmentSize (woptions ?pw)")
      case False
      then have "walWriteAll io ?pw = (ClearPendingWrites ?pw, Err ErrPendingSizeTooLarge)"
        using ne by (simp add: walWriteAll_def pw(1))
      moreover have "log_core M (insert i U) I (ClearPendingWrites ?pw) L H fin mg"
        using holds_pending(2) [OF pw(4)] lc more pw(3) by (simp add: log_core_def ClearPendingWrites_def ActiveSegmentID_def)
      ultimately show ?thesis unfolding pend by auto
    next
      case True
      obtain wal' poss where wa: "walWriteAll io ?pw = (wal', Ok poss)" "length poss = length ?ds"
        "wal_holds wal' (encoded L @ zip (map place_of poss) ?ds)" "advanced ?pw wal'" "pendingWrites wal' = []"
        "\<forall>pos \<in> set poss. SegmentId pos = ActiveSegmentID wal'"
        by (rule holds_writeAll [OF pw(4) w True]) (simp add: pw(1))
      define L1 where "L1 = zip (map place_of poss) ?rs"
      have "encoded L1 = zip (map place_of poss) ?ds" by (simp add: L1_def encoded_def zip_map2)
      then have wh: "wal_holds wal' (encoded (L @ L1))" using wa(3) by simp
      have L1: "\<forall>(pl, r) \<in> set L1. rBatchId r = i \<and> write_ok r" "\<forall>x \<in> set L1. good (snd x)"
        using n by (auto simp: L1_def dest: set_zip_rightD)
      have f: "fin < ActiveSegmentID wal'" using lc(4) wa(4) less_le_trans [of fin] by (auto simp: advanced_def pw(3))
      have at: "\<forall>x \<in> set L1. fst (fst x) = ActiveSegmentID wal'" using wa(6) by (auto simp: L1_def place_of_def dest!: set_zip_leftD)
      have le: "ActiveSegmentID wal \<le> ActiveSegmentID wal'" using wa(4) by (simp add: advanced_def pw(3))
      have b: "\<forall>(pl, r) \<in> set L1. fst pl = ActiveSegmentID wal' \<and> rBatchId r = i \<and> write_ok r" using L1(1) at by auto
      have "replays (insert i U) fin H (L @ L1) I" by (rule replays_torn [OF lc(5) b i f])
      moreover have "merge_ok M (insert i U) (ActiveSegmentID wal') (L @ L1) mg"
        by (rule merge_ok_torn [OF merge_ok_later [OF lc(7) le] b i])
      moreover have "shows_map (L @ L1) I M" using lc(6) by (rule shows_map_more) simp
      ultimately have "log_core M (insert i U) I wal' (L @ L1) H fin mg" using wh lc(2) L1(2) wa(5) f by (auto simp: log_core_def)
      then show ?thesis using wa(1) unfolding pend by auto
    qed
  qed
qed

lemma rotate_log:
  assumes "log_core M U I wal L H fin mg" "writable io wal" "rotateActiveSegment io wal = (wal', Ok ())"
  shows "log_core M U I wal' L H fin mg \<and> woptions wal' = woptions wal"
proof -
  obtain logs where l: "wal_ok wal logs" "encoded L = placed logs" using assms(1) by (auto simp: log_core_def wal_holds_def)
  obtain w logs' where r: "(if True then rotateActiveSegment io wal else (wal, Ok ())) = (w, Ok ())"
    "grown wal logs w logs'" "records logs' = records logs"
    "segSize (activeSegment w) = (if True then 0 else segSize (activeSegment wal))"
    "segId (activeSegment w) = (if True then segId (activeSegment wal) + 1 else segId (activeSegment wal))"
    by (rule rotate_if_ok [OF l(1), of io True]) (use assms(2) in \<open>simp_all add: writable_def ActiveSegmentID_def\<close>)
  have "w = wal'" using r(1) assms(3) by simp
  then have w: "wal_holds wal' (encoded L)" "pendingWrites wal' = pendingWrites wal" "woptions wal' = woptions wal"
      "ActiveSegmentID wal \<le> ActiveSegmentID wal'"
    using r(2,3) l(2) by (auto simp: wal_holds_def grown_def placed_def same_pending_def ActiveSegmentID_def)
  have "log_core M U I wal' L H fin mg"
    by (rule log_core_wal [OF assms(1) w(1) _ w(4)]) (use assms(1) in \<open>simp add: w(2) log_core_def\<close>)
  then show ?thesis using w(3) by simp
qed

lemma torn_disk_ok:
  assumes s: "store_ok \<alpha> opts M U db" and ops: "bops_ok ops" and i: "i \<noteq> 0"
    and w: "wal = dataFiles db \<or> writable (envIO env) (dataFiles db) \<and> rotateActiveSegment (envIO env) (dataFiles db) = (wal, Ok ())"
    and io: "writable (envIO env) wal"
  shows "\<exists>d n. loadMergeFiles (torn_disk env i ops k wal db) (mergeDisk db) = Ok d \<and> disk_core opts M (insert i U) d n"
proof -
  obtain L H fin where c: "log_core M U (places \<alpha> (dbIndex db)) (dataFiles db) L H fin (mergeDisk db)" "hints_hold (hintDisk db) H"
    "getMergeFinSegmentId (finDisk db) = Ok fin" and cl: "\<not> dbClosed db" using s by (auto simp: store_ok_def store_core_def)
  have c': "log_core M U (places \<alpha> (dbIndex db)) wal L H fin (mergeDisk db)" using w rotate_log [OF c(1)] c(1) by auto
  let ?b = "initBatch False False None"
  obtain b where b: "run_bops env ops db ?b = (b, Ok ())" "batch_ok (envHash env) b"
    using run_bops_ok [of env ?b ops db M, OF batch_ok_init ops cl] by (auto simp: initBatch_def)
  let ?rs = "take k (bWrites b)"
  have rs: "\<forall>r \<in> set ?rs. write_ok r" using b(2) by (auto simp: batch_ok_def dest: in_set_takeD)
  let ?wal = "fst (walWriteAll (envIO env) (fst (pend_records (numbered i ?rs) wal)))"
  obtain L' where t: "log_core M (insert i U) (places \<alpha> (dbIndex db)) ?wal L' H fin (mergeDisk db)"
    using torn_log [OF c' rs i io] by blast
  have "torn_disk env i ops k wal db = \<lparr>segFiles = files_of ?wal, hintFiles = hintDisk db, finFiles = finDisk db\<rparr>"
    using b(1) by (simp add: torn_disk_def Let_def dbDisk_def numbered_def take_map)
  then show ?thesis using log_disk [OF t c(2,3)] by simp
qed

end
