(* ===== verification/DiskvMerge.thy ===== *)
theory DiskvMerge
  imports DiskvOpen
begin

text \<open>
  Merging (\<open>diskv/merge.go\<close>): the loop copies the records that the index points to, each once, into a
  log of its own with a hint file; its files with the newer segments stand for the same map.
\<close>

subsection \<open>What is copied\<close>

text \<open>The space that the bindings of the map take in the log of the merge.\<close>

definition binding_room :: "(bytes \<rightharpoonup> bytes) \<Rightarrow> bytes \<Rightarrow> nat" where
  "binding_room M k = room_for (31 + length k + length (the (M k)))"

definition live_room :: "(bytes \<rightharpoonup> bytes) \<Rightarrow> nat" where
  "live_room M = (\<Sum>k\<in>dom M. binding_room M k)"

text \<open>
  The bindings fit the segments up to the active one, \<open>i\<close>, with a factor of four for the space that
  rotation may leave; each fits a segment, and a hint file of one segment has room for their keys.
\<close>

definition mergeable :: "dbOptions \<Rightarrow> (bytes \<rightharpoonup> bytes) \<Rightarrow> u32 \<Rightarrow> bool" where
  "mergeable opts M i \<longleftrightarrow> (\<forall>k v. M k = Some v \<longrightarrow> int (38 + length k + length v) \<le> optSegmentSize opts) \<and>
     live_room M < unat i * nat (optSegmentSize opts) \<and> live_room M < 2 ^ 45"

text \<open>The records \<open>K\<close> and the hints \<open>H\<close> that the loop has made of the part \<open>Lp\<close> of the log.\<close>

definition hinted :: "(bytes \<rightharpoonup> place) \<Rightarrow> (bytes \<rightharpoonup> bytes) \<Rightarrow> rlog \<Rightarrow> rlog \<Rightarrow> bytes \<times> ChunkPosition \<Rightarrow> bool" where
  "hinted I M Lp K x \<longleftrightarrow> fst x \<in> dom M \<and> (\<exists>pl \<in> fst ` set Lp. I (fst x) = Some pl) \<and>
     (\<exists>r. (place_of (snd x), r) \<in> set K \<and> rType r = LogRecordNormal \<and> rKey r = fst x \<and> M (fst x) = Some (rValue r))"

definition copied :: "(bytes \<rightharpoonup> place) \<Rightarrow> (bytes \<rightharpoonup> bytes) \<Rightarrow> rlog \<Rightarrow> rlog \<Rightarrow> hints \<Rightarrow> bool" where
  "copied I M Lp K H \<longleftrightarrow> distinct (map fst H) \<and> (\<forall>x \<in> set K. good (snd x)) \<and> (\<forall>x \<in> set H. hinted I M Lp K x) \<and>
     (\<forall>x \<in> set Lp. rType (snd x) = LogRecordNormal \<and> I (rKey (snd x)) = Some (fst x) \<longrightarrow> rKey (snd x) \<in> fst ` set H)"

lemma hinted_more: "hinted I M Lp K x \<Longrightarrow> set Lp \<subseteq> set Lp' \<Longrightarrow> set K \<subseteq> set K' \<Longrightarrow> hinted I M Lp' K' x"
  unfolding hinted_def by blast

definition copied_room :: "(bytes \<rightharpoonup> bytes) \<Rightarrow> hints \<Rightarrow> nat" where
  "copied_room M H = (\<Sum>x\<leftarrow>H. binding_room M (fst x))"

lemma copied_room_le:
  assumes "copied I M Lp K H" "finite (dom M)"
  shows "copied_room M H \<le> live_room M"
proof -
  have "copied_room M H = (\<Sum>k\<leftarrow>map fst H. binding_room M k)" by (simp add: copied_room_def comp_def)
  also have "\<dots> = (\<Sum>k\<in>fst ` set H. binding_room M k)" using assms(1) by (subst sum_list_distinct_conv_sum_set) (simp_all add: copied_def)
  also have "\<dots> \<le> live_room M"
    unfolding live_room_def using assms by (intro sum_mono2) (auto simp: copied_def hinted_def)
  finally show ?thesis .
qed

lemma hint_map_of: "distinct (map fst H) \<Longrightarrow> hint_map H I k = (case map_of H k of None \<Rightarrow> I k | Some pos \<Rightarrow> Some (place_of pos))"
proof (induction H arbitrary: I)
  case (Cons x H)
  obtain k' pos where x: "x = (k', pos)" by (cases x)
  have "map_of H k' = None" using Cons.prems x by (simp add: map_of_eq_None_iff)
  then show ?case using Cons by (auto simp: x split: option.split)
qed simp

lemma copied_shows:
  assumes c: "copied I M L K H" and s: "shows_map L I M"
  shows "shows_map K (hint_map H Map.empty) M"
  unfolding shows_map_def
proof
  fix k
  have d: "distinct (map fst H)" using c by (simp add: copied_def)
  show "case hint_map H Map.empty k of None \<Rightarrow> M k = None
      | Some pl \<Rightarrow> \<exists>r. (pl, r) \<in> set K \<and> rType r = LogRecordNormal \<and> rKey r = k \<and> M k = Some (rValue r)"
  proof (cases "map_of H k")
    case None
    then have "k \<notin> fst ` set H" by (simp add: map_of_eq_None_iff)
    have "I k \<noteq> Some pl" for pl
    proof
      assume "I k = Some pl"
      then obtain r where "(pl, r) \<in> set L" "rType r = LogRecordNormal" "rKey r = k"
        using spec [OF s [unfolded shows_map_def], of k] by auto
      then have "k \<in> fst ` set H" using c \<open>I k = Some pl\<close> unfolding copied_def by (metis fst_conv snd_conv)
      then show False using \<open>k \<notin> fst ` set H\<close> by simp
    qed
    then have "I k = None" by (cases "I k") blast+
    then show ?thesis using spec [OF s [unfolded shows_map_def], of k] None by (simp add: hint_map_of [OF d])
  next
    case (Some pos)
    then have "(k, pos) \<in> set H" by (rule map_of_SomeD)
    then have "hinted I M L K (k, pos)" using c by (simp add: copied_def)
    then show ?thesis using Some by (simp add: hint_map_of [OF d] hinted_def)
  qed
qed

text \<open>A record that the index does not point to is left out, one that it points to is added.\<close>

lemma copied_skip:
  assumes "copied I M Lp K H" "\<not> (rType r = LogRecordNormal \<and> I (rKey r) = Some pl)"
  shows "copied I M (Lp @ [(pl, r)]) K H"
  using assms hinted_more [of I M Lp K _ "Lp @ [(pl, r)]" K] by (auto simp: copied_def)

lemma copied_add:
  assumes c: "copied I M Lp K H" and r: "I (rKey r) = Some pl" "pl \<notin> fst ` set Lp" "M (rKey r) = Some (rValue r)"
    and r': "good r'" "rType r' = LogRecordNormal" "rKey r' = rKey r" "rValue r' = rValue r"
  shows "copied I M (Lp @ [(pl, r)]) (K @ [(place_of pos, r')]) (H @ [(rKey r, pos)])"
proof -
  have "hinted I M (Lp @ [(pl, r)]) (K @ [(place_of pos, r')]) x" if "x \<in> set H" for x
  proof -
    have "hinted I M Lp K x" using c that by (simp add: copied_def)
    then show ?thesis by (rule hinted_more) auto
  qed
  moreover have "hinted I M (Lp @ [(pl, r)]) (K @ [(place_of pos, r')]) (rKey r, pos)"
    using r r' by (auto simp: hinted_def)
  moreover have "rKey r \<notin> fst ` set H"
  proof
    assume "rKey r \<in> fst ` set H"
    then obtain x where "x \<in> set H" "fst x = rKey r" by auto
    then have "hinted I M Lp K x" using c by (simp add: copied_def)
    then show False using r(1,2) \<open>fst x = rKey r\<close> unfolding hinted_def by (metis option.inject)
  qed
  ultimately show ?thesis using c r'(1) by (auto simp: copied_def)
qed

subsection \<open>One record\<close>

text \<open>The state of the loop: the log of the merge and its hints, with the space they take.\<close>

definition merging :: "dbOptions \<Rightarrow> (bytes \<rightharpoonup> place) \<Rightarrow> (bytes \<rightharpoonup> bytes) \<Rightarrow> rlog \<Rightarrow> mergeState \<Rightarrow> rlog \<Rightarrow> hints \<Rightarrow> bool" where
  "merging opts I M Lp m K H \<longleftrightarrow> copied I M Lp K H \<and>
     wal_holds (mData m) (encoded K) \<and> SegmentSize (woptions (mData m)) = optSegmentSize opts \<and> used (mData m) \<le> copied_room M H \<and>
     (\<exists>h. wal_holds (mHint m) h \<and> map snd h = map enc_hint H) \<and> woptions (mHint m) = hint_options \<and> used (mHint m) \<le> copied_room M H"

lemma positionEquals_place: "positionEquals p q \<longleftrightarrow> place_of p = place_of q"
  by (simp add: positionEquals_def place_of_def)

lemma enc_hint_Ok: "encodeHintRecord k pos = Ok (enc_hint (k, pos))" "length (enc_hint (k, pos)) \<le> 25 + length k"
  using decodeHintRecord_encode [of k pos] by (auto simp: enc_hint_def)

lemma room_for_mono: "a \<le> b \<Longrightarrow> room_for a \<le> room_for b"
  by (simp add: room_for_def)

lemma merging_active:
  assumes m: "merging opts I M Lp m K H" and f: "finite (dom M)" and a: "mergeable opts M i" "i < - 1"
  shows "ActiveSegmentID (mData m) \<le> i" "ActiveSegmentID (mData m) < - 1" "ActiveSegmentID (mHint m) = 1"
proof -
  have r: "copied_room M H \<le> live_room M" using copied_room_le [OF _ f] m by (auto simp: merging_def)
  have "used (mData m) < unat i * nat (SegmentSize (woptions (mData m)))" using m a(1) r by (simp add: merging_def mergeable_def)
  then have "unat (ActiveSegmentID (mData m)) \<le> unat i" using m used_active by (auto simp: merging_def)
  then show "ActiveSegmentID (mData m) \<le> i" by (simp add: word_le_nat_alt)
  then show "ActiveSegmentID (mData m) < - 1" using a(2) by simp
  obtain h where h: "wal_holds (mHint m) h" using m by (auto simp: merging_def)
  have "used (mHint m) < 1 * nat (SegmentSize (woptions (mHint m)))"
    using m a(1) r by (simp add: merging_def mergeable_def hint_options_def)
  then have "unat (ActiveSegmentID (mHint m)) \<le> 1" using used_active [OF h] by blast
  moreover have "unat (ActiveSegmentID (mHint m)) \<noteq> 0" using holds_active [OF h] by (simp add: unat_eq_zero)
  ultimately have "unat (ActiveSegmentID (mHint m)) = unat (1 :: u32)" by simp
  then show "ActiveSegmentID (mHint m) = 1" by (rule word_unat_eq_iff [THEN iffD2])
qed

text \<open>The two writes of the loop.\<close>

lemma merging_write:
  assumes m: "merging opts I M Lp m K H" and f: "finite (dom M)" and a: "mergeable opts M i" "i < - 1" "optSegmentSize opts \<le> 2 ^ 30"
    and io: "io_ok io" and r: "I (rKey r) = Some pl" "pl \<notin> fst ` set Lp" "M (rKey r) = Some (rValue r)"
    and g: "good r" "rType r = LogRecordNormal"
  obtains wal pos hw p' where "walWrite io (enc (r\<lparr>rBatchId := 0\<rparr>)) (mData m) = (wal, Ok pos)"
    "walWrite io (enc_hint (rKey r, pos)) (mHint m) = (hw, Ok p')"
    "merging opts I M (Lp @ [(pl, r)]) \<lparr>mData = wal, mHint = hw\<rparr> (K @ [(place_of pos, r\<lparr>rBatchId := 0\<rparr>)]) (H @ [(rKey r, pos)])"
proof -
  let ?r = "r\<lparr>rBatchId := 0\<rparr>" let ?k = "rKey r"
  have c: "copied I M Lp K H" "wal_holds (mData m) (encoded K)" "SegmentSize (woptions (mData m)) = optSegmentSize opts"
    "used (mData m) \<le> copied_room M H" "woptions (mHint m) = hint_options" "used (mHint m) \<le> copied_room M H"
    using m by (simp_all add: merging_def)
  obtain h where h: "wal_holds (mHint m) h" "map snd h = map enc_hint H" using m by (auto simp: merging_def)
  have gr: "good ?r" using g by (simp add: good_def record_fits_def record_types)
  have len: "length (enc ?r) \<le> 31 + length ?k + length (rValue r)" using enc_length [of ?r] gr by (simp add: good_def)
  have fit: "int (38 + length ?k + length (rValue r)) \<le> optSegmentSize opts" using a(1) r(3) by (auto simp: mergeable_def)
  have cp: "copied I M (Lp @ [(pl, r)]) (K @ [(place_of pos, ?r)]) (H @ [(?k, pos)])" for pos
    by (rule copied_add [OF c(1) r gr]) (use g(2) in simp_all)
  have room: "copied_room M (H @ [(?k, pos)]) = copied_room M H + binding_room M ?k" for pos
    by (simp add: copied_room_def)
  have b: "binding_room M ?k = room_for (31 + length ?k + length (rValue r))" using r(3) by (simp add: binding_room_def)
  note act = merging_active [OF m f a(1,2)]
  obtain wal pos where w: "walWrite io (enc ?r) (mData m) = (wal, Ok pos)" "wal_holds wal (encoded K @ [(place_of pos, enc ?r)])"
    "same_pending (mData m) wal" "used wal \<le> used (mData m) + room_for (length (enc ?r))"
  proof (rule holds_write_used [OF c(2) act(2) io])
    show "int (length (enc ?r)) + 7 \<le> SegmentSize (woptions (mData m))" using len fit c(3) by simp
    show "length (enc ?r) < 2 ^ 31" using len fit a(3) by simp
  qed (use a(3) c(3) in auto)
  have lh: "length (enc_hint (?k, pos)) \<le> 31 + length ?k + length (rValue r)" using enc_hint_Ok(2) [of ?k pos] by simp
  have all: "copied_room M (H @ [(?k, pos)]) < 2 ^ 45"
    using copied_room_le [OF cp f, of pos] a(1) by (simp add: mergeable_def)
  obtain hw p' where hw: "walWrite io (enc_hint (?k, pos)) (mHint m) = (hw, Ok p')" "wal_holds hw (h @ [(place_of p', enc_hint (?k, pos))])"
    "same_pending (mHint m) hw" "used hw \<le> used (mHint m) + room_for (length (enc_hint (?k, pos)))"
  proof (rule holds_write_used [OF h(1) _ io])
    show "ActiveSegmentID (mHint m) < - 1" unfolding act(3) by (rule one_below_last)
    show "length (enc_hint (?k, pos)) < 2 ^ 31" using lh fit a(3) by simp
    then show "int (length (enc_hint (?k, pos))) + 7 \<le> SegmentSize (woptions (mHint m))" by (simp add: c(5) hint_options_def)
    show "SegmentSize (woptions (mHint m)) \<le> 2 ^ 30 \<or> used (mHint m) + room_for (length (enc_hint (?k, pos))) < 2 ^ 45"
      using all c(6) room_for_mono [OF lh] by (simp add: room b)
  qed
  have "encoded (K @ [(place_of pos, ?r)]) = encoded K @ [(place_of pos, enc ?r)]" by simp
  then have "merging opts I M (Lp @ [(pl, r)]) \<lparr>mData = wal, mHint = hw\<rparr> (K @ [(place_of pos, ?r)]) (H @ [(?k, pos)])"
    using cp w hw(2-4) h(2) c(3-6) room_for_mono [OF len] room_for_mono [OF lh]
    unfolding merging_def room b by (auto simp: same_pending_def intro!: exI [of _ "h @ [(place_of p', enc_hint (?k, pos))]"])
  then show ?thesis using that w(1) hw(1) by blast
qed

lemma merge_record_ok:
  assumes B: "btree_ok B \<alpha>" and m: "merging opts (places \<alpha> idx) M Lp m K H" and f: "finite (dom M)"
    and a: "mergeable opts M i" "i < - 1" "optSegmentSize opts \<le> 2 ^ 30" and io: "io_ok (envIO env)"
    and s: "shows_map L (places \<alpha> idx) M" and L: "L = Lp @ (pl, r) # rest" "distinct (map fst L)" and g: "good r"
    and p: "place_of pos = pl"
  shows "\<exists>m' K' H'. merge_record B env idx (enc r) pos m = (m', Ok ()) \<and> merging opts (places \<alpha> idx) M (Lp @ [(pl, r)]) m' K' H'"
proof -
  let ?I = "places \<alpha> idx"
  have d: "decodeLogRecord (envSpare env (enc r)) (enc r) = Ok r" "rExpire r = 0" using g enc_Ok by (simp_all add: good_def)
  have i: "(case idxGet B (rKey r) idx of None \<Rightarrow> False | Some p \<Rightarrow> positionEquals p pos) \<longleftrightarrow> ?I (rKey r) = Some pl"
    by (simp add: idxGet_positions [OF B] places_def positionEquals_place p split: option.split)
  show ?thesis
  proof (cases "rType r = LogRecordNormal \<and> ?I (rKey r) = Some pl")
    case False
    have "copied ?I M (Lp @ [(pl, r)]) K H" using m False by (intro copied_skip) (auto simp: merging_def)
    then have "merging opts ?I M (Lp @ [(pl, r)]) m K H" using m by (simp add: merging_def)
    moreover have "merge_record B env idx (enc r) pos m = (m, Ok ())" using False by (auto simp: merge_record_def d i)
    ultimately show ?thesis by blast
  next
    case True
    obtain r' where "(pl, r') \<in> set L" "M (rKey r) = Some (rValue r')"
      using True spec [OF s [unfolded shows_map_def], of "rKey r"] by auto
    moreover have "(pl, r) \<in> set L" using L(1) by simp
    ultimately have "M (rKey r) = Some (rValue r)" using eq_key_imp_eq_value [OF L(2)] by metis
    moreover have "pl \<notin> fst ` set Lp" using L by auto
    ultimately obtain wal pos' hw p' where w: "walWrite (envIO env) (enc (r\<lparr>rBatchId := 0\<rparr>)) (mData m) = (wal, Ok pos')"
      "walWrite (envIO env) (enc_hint (rKey r, pos')) (mHint m) = (hw, Ok p')"
      "merging opts ?I M (Lp @ [(pl, r)]) \<lparr>mData = wal, mHint = hw\<rparr> (K @ [(place_of pos', r\<lparr>rBatchId := 0\<rparr>)]) (H @ [(rKey r, pos')])"
      using merging_write [OF m f a io _ _ _ g, of pl] True by metis
    have "encodeLogRecord (r\<lparr>rBatchId := 0\<rparr>) = Ok (enc (r\<lparr>rBatchId := 0\<rparr>))"
      using g enc_Ok [of "r\<lparr>rBatchId := 0\<rparr>"] by (simp add: good_def record_fits_def)
    then have "merge_record B env idx (enc r) pos m = (m\<lparr>mData := wal, mHint := hw\<rparr>, Ok ())"
      using True w(1,2) by (simp add: merge_record_def d i enc_hint_Ok(1))
    moreover have "m\<lparr>mData := wal, mHint := hw\<rparr> = \<lparr>mData = wal, mHint = hw\<rparr>" by simp
    ultimately show ?thesis using w(3) by metis
  qed
qed

subsection \<open>The loop\<close>

lemma merge_loop_ok:
  assumes B: "btree_ok B \<alpha>" and f: "finite (dom M)"
    and a: "mergeable opts M i" "i < - 1" "optSegmentSize opts \<le> 2 ^ 30" and io: "io_ok (envIO env)"
    and s: "shows_map L (places \<alpha> idx) M" and d: "distinct (map fst L)" and g: "\<forall>x \<in> set L. good (snd x)"
  shows "reading h wal rd (encoded rest) \<Longrightarrow> merging opts (places \<alpha> idx) M Lp m K H \<Longrightarrow> L = Lp @ rest \<Longrightarrow> length rest < n \<Longrightarrow>
    \<exists>wal' m' K' H'. merge_loop n B env idx rd (wal, m) = ((wal', m'), Ok ()) \<and> wal_holds wal' h \<and> kept wal wal' \<and>
      merging opts (places \<alpha> idx) M L m' K' H'"
proof (induction n arbitrary: wal rd rest Lp m K H)
  case (Suc n)
  show ?case
  proof (cases rest)
    case Nil
    then obtain rd' where "walNext (envPool env) wal rd = ((wal, rd'), Err EOF)"
      using reading_end [of h wal rd "envPool env"] Suc.prems(1) by auto
    then show ?thesis using Nil Suc.prems(2,3) reading_holds [OF Suc.prems(1)] by auto
  next
    case (Cons x rest')
    obtain pl r where x: "x = (pl, r)" by (cases x)
    obtain wal1 rd1 pos where n: "walNext (envPool env) wal rd = ((wal1, rd1), Ok (enc r, pos))" "place_of pos = pl"
      "reading h wal1 rd1 (encoded rest')" "kept wal wal1"
      by (rule reading_next [of h wal rd pl "enc r" "encoded rest'" "envPool env"]) (use Suc.prems(1) Cons x in auto)
    have L: "L = Lp @ (pl, r) # rest'" using Suc.prems(3) Cons x by simp
    have "good r" using g L by auto
    then obtain m1 K1 H1 where m1: "merge_record B env idx (enc r) pos m = (m1, Ok ())"
      "merging opts (places \<alpha> idx) M (Lp @ [(pl, r)]) m1 K1 H1"
      using merge_record_ok [OF B Suc.prems(2) f a io s L d _ n(2)] by blast
    obtain wal' m' K' H' where "merge_loop n B env idx rd1 (wal1, m1) = ((wal', m'), Ok ())" "wal_holds wal' h" "kept wal1 wal'"
      "merging opts (places \<alpha> idx) M L m' K' H'"
      using Suc.IH [OF n(3) m1(2)] L Suc.prems(4) Cons by auto
    then show ?thesis using n(1) m1(1) kept_trans [OF n(4)]
      by (intro exI [of _ wal'] exI [of _ m'] exI [of _ K'] exI [of _ H']) simp
  qed
qed simp

subsection \<open>The files of a merge\<close>

lemma used_first:
  assumes "wal_holds wal []" "ActiveSegmentID wal = 1"
  shows "used wal = 0"
proof -
  obtain logs where l: "wal_ok wal logs" "placed logs = []" using assms(1) by (auto simp: wal_holds_def)
  obtain logs0 k where k: "logs = logs0 @ [(segId (activeSegment wal), k)]" "seg_ok (activeSegment wal) k"
    by (rule wal_ok_active [OF l(1)])
  have "k = []" using l(2) k(1) by (simp add: placed_def)
  then have "segSize (activeSegment wal) = 0" using k(2) by (simp add: seg_ok_def)
  then show ?thesis using assms(2) by (simp add: used_def)
qed

lemma open_files_options: "open_files io_fine opts fs = Ok wal \<Longrightarrow> woptions wal = opts"
  by (auto simp: open_files_def walOpen_def Let_def split: if_splits)

lemma first_record:
  assumes "wal_holds wal [(pl, d)]" "ActiveSegmentID wal = 1" "length d = 4"
  shows "\<exists>c. files_of wal = [(1, c)] \<and> 11 \<le> length c \<and> take 4 (drop 7 c) = d"
proof -
  obtain logs where l: "wal_ok wal logs" "placed logs = [(pl, d)]" using assms(1) by (auto simp: wal_holds_def)
  have ids: "walIds wal = [1]" by (rule holds_first [OF assms(1,2)])
  then have "mset (map fst logs) = {#1#}" using walIds_ok [OF l(1)] by simp
  then obtain k where k: "logs = [(1, k)]" by (cases logs) (auto simp: add_eq_conv_diff)
  then obtain p where p: "k = [(p, d)]" using l(2) by (auto simp: placed_def)
  let ?c = "walFiles wal 1"
  have "log_from ?c 0 [(p, d)]" using walFiles_ok [OF l(1), of 1 k] k p by auto
  moreover have "align 0 = 0" by (simp add: align_def blockSize_def chunkHeaderSize_def)
  ultimately obtain e where "stored ?c 0 d e" by auto
  moreover have "\<not> blockSize dvd 0 + chunkHeaderSize + length d'" if "d = d' @ x" for d' x
    using that assms(3) by (auto simp: blockSize_def chunkHeaderSize_def dest!: dvd_imp_le)
  ultimately have "chunk_at ?c 0 ChunkTypeFull d" unfolding stored_def by blast
  then have c: "slice 0 11 ?c = chunk ChunkTypeFull d" "11 \<le> length ?c"
    using assms(3) chunk_at_length [of ?c 0 ChunkTypeFull d] by (simp_all add: chunk_at_def chunkHeaderSize_def)
  have "drop 7 (slice 0 11 ?c) = d" unfolding c(1) using assms(3) by (intro chunk_fields(4)) (simp add: blockSize_def)
  then have "take 4 (drop 7 ?c) = d" by (simp add: slice_def drop_take)
  then show ?thesis using c(2) ids by (simp add: files_of_def)
qed

lemma fin_file:
  assumes io: "io_ok io"
  obtains fin fin' p where "open_files io fin_options [] = Ok fin" "walWrite io (encodeMergeFinRecord i) fin = (fin', Ok p)"
    "one_file (files_of fin')" "getMergeFinSegmentId (files_of fin') = Ok i"
proof -
  let ?d = "encodeMergeFinRecord i"
  have len: "length ?d = 4" by (simp add: encodeMergeFinRecord_def)
  obtain fin where f: "open_files io_fine fin_options [] = Ok fin" "wal_holds fin []" "woptions fin = fin_options" "ActiveSegmentID fin = 1"
    by (rule open_no_files [of fin_options]) (simp add: fin_options_def)
  obtain fin' p where w: "walWrite io ?d fin = (fin', Ok p)" "wal_holds fin' ([] @ [(place_of p, ?d)])" "same_pending fin fin'"
    "used fin' \<le> used fin + room_for (length ?d)"
    by (rule holds_write_used [OF f(2) _ io, of ?d]) (use f(3,4) one_below_last in \<open>simp_all add: len fin_options_def\<close>)
  have "used fin' < 1 * nat (SegmentSize (woptions fin'))"
    using w(3,4) f(3) used_first [OF f(2,4)] by (simp add: len room_for_def same_pending_def fin_options_def)
  then have "unat (ActiveSegmentID fin') \<le> 1" using used_active [OF w(2)] by blast
  moreover have "unat (ActiveSegmentID fin') \<noteq> 0" using holds_active [OF w(2)] by (simp add: unat_eq_zero)
  ultimately have "unat (ActiveSegmentID fin') = unat (1 :: u32)" by simp
  then have a: "ActiveSegmentID fin' = 1" by (rule word_unat_eq_iff [THEN iffD2])
  obtain c where c: "files_of fin' = [(1, c)]" "11 \<le> length c" "take 4 (drop 7 c) = ?d"
    using first_record [OF _ a len, of "place_of p"] w(2) by auto
  have "word_of_nat (le_val ?d) = i" using unsigned_less [of i, where ?'a = nat] by (simp add: encodeMergeFinRecord_def le_val_le_bytes)
  then have "getMergeFinSegmentId (files_of fin') = Ok i" using c by (simp add: getMergeFinSegmentId_def)
  then show ?thesis using that f(1) w(1) c(1) by (auto simp: one_file_def open_files_fine [OF io_ok_dirs [OF io]])
qed

lemma open_empty:
  assumes B: "btree_ok B \<alpha>" and o: "0 < optSegmentSize opts" and n: "2 \<le> envFuel env" and io: "dirs_ok (envIO env)"
  obtains db hw where "dbOpen B env opts empty_dir None = Ok db" "wal_holds (dataFiles db) []" "ActiveSegmentID (dataFiles db) = 1"
    "woptions (dataFiles db) = wal_opts opts" "open_files io_fine hint_options (hintDisk db) = Ok hw" "wal_holds hw []" "ActiveSegmentID hw = 1"
proof -
  obtain wal where w: "open_files io_fine (wal_opts opts) [] = Ok wal" "wal_holds wal []" "woptions wal = wal_opts opts"
    "ActiveSegmentID wal = 1" "pendingWrites wal = []"
    by (rule open_no_files [OF wal_opts_ext])
  have lc: "log_core Map.empty {} Map.empty wal [] [] 0 None"
    using w by (simp add: log_core_def replays_def shows_map_def encoded_def live_def)
  let ?db = "\<lparr>dataFiles = wal, dbIndex = bt_New B, dbOpts = opts, dbMu = Unlocked, dbClosed = False, mergeRunning = False,
             watcher = (if 0 < optWatchQueueSize opts then Some (NewWatcher (optWatchQueueSize opts)) else None),
             hintDisk = [], finDisk = [], mergeDisk = None\<rparr>"
  obtain wal' idx hints where l: "loadIndex B env ?db = (?db\<lparr>hintDisk := hints, dataFiles := wal', dbIndex := idx\<rparr>, Ok ())"
    "log_core Map.empty {} Map.empty wal' [] [] 0 None" "hints_hold hints []" "kept wal wal'"
    by (rule loadIndex_ok [OF B, of Map.empty "{}" Map.empty ?db "[]" "[]" 0 None env])
      (use lc n io no_hints holds_first [OF w(2,4)] in \<open>simp_all add: getMergeFinSegmentId_def\<close>)
  obtain hw where h: "open_files io_fine hint_options hints = Ok hw" "wal_holds hw []" "hints = [] \<or> one_file hints"
    using l(3) by (auto simp: hints_hold_def)
  have "open_dir B env opts empty_dir = Ok (?db\<lparr>hintDisk := hints, dataFiles := wal', dbIndex := idx\<rparr>)"
    using w(1) l(1) by (simp add: open_dir_def open_files_fine [OF io] openWalFiles_wal_opts empty_dir_def)
  then show ?thesis using that [of "?db\<lparr>hintDisk := hints, dataFiles := wal', dbIndex := idx\<rparr>" hw] o h l(2,4) w(3,4) open_one [OF h(1,3)]
    by (simp add: dbOpen_def checkOptions_def loadMergeFiles_def log_core_def kept_def same_pending_def)
qed

subsection \<open>The merge\<close>

lemma shows_finite: "shows_map L I M \<Longrightarrow> finite (dom M)"
proof (rule finite_subset)
  assume s: "shows_map L I M"
  show "dom M \<subseteq> (rKey \<circ> snd) ` set L"
  proof
    fix k assume "k \<in> dom M"
    then obtain pl r where "(pl, r) \<in> set L" "rKey r = k"
      using spec [OF s [unfolded shows_map_def], of k] by (cases "I k") auto
    then show "k \<in> (rKey \<circ> snd) ` set L" by force
  qed
qed simp

lemma merge_files:
  assumes m: "merging opts I M L m K H" and w: "wal_holds wal (encoded L)" "ActiveSegmentID wal = i" and s: "shows_map L I M"
    and a: "mergeable opts M i" "i < - 1" "i < j"
    and f: "one_file ff" "getMergeFinSegmentId ff = Ok i"
  shows "merge_core M U j L \<lparr>segFiles = files_of (mData m), hintFiles = files_of (mHint m), finFiles = ff\<rparr>"
proof -
  note act = merging_active [OF m shows_finite [OF s] a(1,2)]
  obtain h where h: "wal_holds (mHint m) h" "map snd h = map enc_hint H" using m by (auto simp: merging_def)
  obtain hw where "open_files io_fine hint_options (files_of (mHint m)) = Ok hw" "wal_holds hw h"
    by (rule open_files_of [OF h(1), of hint_options]) (simp_all add: hint_options_def)
  then have hh: "one_file (files_of (mHint m))" "hints_hold (files_of (mHint m)) H"
    using one_file_of [OF h(1) act(3)] h(2) by (auto simp: hints_hold_def)
  have c: "copied I M L K H" "wal_holds (mData m) (encoded K)" using m by (simp_all add: merging_def)
  have "\<not> i < fst (fst x)" if "x \<in> set L" for x
    using holds_place [OF w(1), of "(fst x, enc (snd x))"] that w(2) by (auto simp: encoded_def not_less case_prod_beta)
  then have "live i L = []" by (simp add: live_def)
  then have "replays U i H L (hint_map H Map.empty)" "shows_map (K @ live i L) (hint_map H Map.empty) M"
    using copied_shows [OF c(1) s] by (simp_all add: replays_def)
  then show ?thesis unfolding merge_core_def using c act(1) hh f a(3)
    by (intro exI [of _ "mData m"] exI [of _ K] exI [of _ H] exI [of _ i] exI [of _ "hint_map H Map.empty"]) (simp add: copied_def)
qed

lemma next_id: "i < - 1 \<Longrightarrow> i < i + 1" for i :: u32
  by (simp add: word_less_nat_alt unat_word_ariths unsigned_minus_1_eq_mask mask_eq_exp_minus_1)

lemma doMerge_ok:
  assumes B: "btree_ok B \<alpha>" and s: "store_ok \<alpha> opts M U db" and io: "writable (envIO env) (dataFiles db)"
    and a: "mergeable opts M (ActiveSegmentID (dataFiles db))"
  shows "\<exists>n. \<forall>m\<ge>n. \<exists>db'. doMerge B (env\<lparr>envFuel := m\<rparr>) db = (db', Ok ()) \<and> store_ok \<alpha> opts M U db'"
proof -
  let ?wal = "dataFiles db" and ?I = "places \<alpha> (dbIndex db)"
  obtain L H fin where c: "log_core M U ?I ?wal L H fin (mergeDisk db)" and h: "hints_hold (hintDisk db) H"
    "getMergeFinSegmentId (finDisk db) = Ok fin" and o: "dbOpts db = opts" "woptions ?wal = wal_opts opts" "\<not> dbClosed db" "\<not> mergeRunning db"
    and mu: "dbMu db = Unlocked" using s by (auto simp: store_ok_def store_core_def)
  have lc: "wal_holds ?wal (encoded L)" "\<forall>x \<in> set L. good (snd x)" "pendingWrites ?wal = []" "shows_map L ?I M" "fin < ActiveSegmentID ?wal"
    "replays U fin H L ?I" using c by (simp_all add: log_core_def)
  have wr: "io_ok (envIO env)" "ActiveSegmentID ?wal < - 1" "optSegmentSize opts \<le> 2 ^ 30"
    using io o(2) by (simp_all add: writable_def wal_opts_def)
  have pos: "0 < optSegmentSize opts" using a by (cases "0 < optSegmentSize opts") (simp_all add: mergeable_def)
  show ?thesis
  proof (cases "walIsEmpty ?wal")
    case True
    then show ?thesis using s o mu by (simp add: doMerge_def)
  next
    case False
    obtain wal1 where w1: "OpenNewActiveSegment (envIO env) ?wal = (wal1, Ok ())" "same_pending ?wal wal1"
      "ActiveSegmentID wal1 = ActiveSegmentID ?wal + 1" "reading (encoded L) wal1 (NewReaderWithMax (ActiveSegmentID ?wal) wal1) (encoded L)"
      by (rule holds_new_segment [OF lc(1) io])
    obtain ff ff' p where ff: "open_files (envIO env) fin_options [] = Ok ff"
      "walWrite (envIO env) (encodeMergeFinRecord (ActiveSegmentID ?wal)) ff = (ff', Ok p)"
      "one_file (files_of ff')" "getMergeFinSegmentId (files_of ff') = Ok (ActiveSegmentID ?wal)"
      by (rule fin_file [OF wr(1)])
    let ?opts = "opts\<lparr>optSync := False, optBytesPerSync := 0\<rparr>"
    have "distinct (map fst (encoded L))" by (rule holds_distinct [OF lc(1)])
    then have d: "distinct (map fst L)" by (simp add: encoded_def comp_def case_prod_beta)
    show ?thesis
    proof (intro exI [of _ "Suc (Suc (length L))"] allI impI)
      fix m assume m: "Suc (Suc (length L)) \<le> m"
      let ?env = "env\<lparr>envFuel := m\<rparr>"
      obtain mdb hw where e: "dbOpen B ?env ?opts empty_dir None = Ok mdb" "wal_holds (dataFiles mdb) []" "ActiveSegmentID (dataFiles mdb) = 1"
        "woptions (dataFiles mdb) = wal_opts ?opts" "open_files io_fine hint_options (hintDisk mdb) = Ok hw" "wal_holds hw []" "ActiveSegmentID hw = 1"
        by (rule open_empty [OF B, of ?opts ?env]) (use pos m io_ok_dirs [OF wr(1)] in auto)
      let ?m = "\<lparr>mData = dataFiles mdb, mHint = hw\<rparr>"
      have m0: "merging opts ?I M [] ?m [] []"
        using e used_first [OF e(2,3)] used_first [OF e(6,7)] open_files_options [OF e(5)]
        by (simp add: merging_def copied_def encoded_def copied_room_def wal_opts_def)
      obtain wal2 m' K' H' where l: "merge_loop m B ?env (dbIndex db) (NewReaderWithMax (ActiveSegmentID ?wal) wal1) (wal1, ?m) = ((wal2, m'), Ok ())"
        "wal_holds wal2 (encoded L)" "kept wal1 wal2" "merging opts ?I M L m' K' H'"
        using merge_loop_ok [OF B shows_finite [OF lc(4)] a wr(2,3) _ lc(4) d lc(2) w1(4) m0, of ?env m] wr(1) m by auto
      have k: "pendingWrites wal2 = []" "woptions wal2 = wal_opts opts" "ActiveSegmentID wal2 = ActiveSegmentID ?wal + 1"
        using w1(2,3) l(3) lc(3) o(2) by (simp_all add: kept_def same_pending_def)
      note lt = next_id [OF wr(2)]
      let ?d = "\<lparr>segFiles = files_of (mData m'), hintFiles = files_of (mHint m'), finFiles = files_of ff'\<rparr>"
      have "merge_core M U (ActiveSegmentID wal2) L ?d"
        by (rule merge_files [OF l(4) lc(1) refl lc(4) a wr(2)]) (use lt k(3) ff(3,4) in simp_all)
      then have c2: "log_core M U ?I wal2 L H fin (Some ?d)"
        using lc l(2) k less_trans [OF lc(5) lt] by (simp add: log_core_def)
      have "store_ok \<alpha> opts M U (db\<lparr>dataFiles := wal2, mergeDisk := Some ?d\<rparr>)"
        using c2 h o mu k(2) by (auto simp: store_ok_def store_core_def)
      moreover have "doMerge B ?env db = (db\<lparr>dataFiles := wal2, mergeDisk := Some ?d\<rparr>, Ok ())"
        using False o mu w1(1) e(1,5) l(1) ff(1,2) by (simp add: doMerge_def Let_def empty_dir_def open_files_fine [OF io_ok_dirs [OF wr(1)]])
      ultimately show "\<exists>db'. doMerge B ?env db = (db', Ok ()) \<and> store_ok \<alpha> opts M U db'" by blast
    qed
  qed
qed

subsection \<open>Merging and opening again\<close>

lemma reload_ok:
  assumes B: "btree_ok B \<alpha>" and s: "store_ok \<alpha> opts M U db"
  obtains d wal n where "loadMergeFiles (dbDisk db) (mergeDisk db) = Ok d" "openWalFiles io_fine (dbOpts db) (segFiles d) = Ok wal"
    "\<forall>env. n \<le> envFuel env \<and> dirs_ok (envIO env) \<longrightarrow> (\<exists>db'. loadIndex B env
       (db\<lparr>mergeDisk := None, hintDisk := hintFiles d, finDisk := finFiles d, dataFiles := wal, dbIndex := bt_New B\<rparr>) = (db', Ok ()) \<and>
       store_ok \<alpha> opts M U db')"
proof -
  have db: "dbOpts db = opts" "\<not> dbClosed db" "\<not> mergeRunning db" "dbMu db = Unlocked" using s by (auto simp: store_ok_def store_core_def)
  obtain d n where d: "loadMergeFiles (dbDisk db) (mergeDisk db) = Ok d" "disk_core opts M U d n"
    using store_disk s unfolding store_ok_def by blast
  obtain wal L H fin I where w: "openWalFiles io_fine opts (segFiles d) = Ok wal" "woptions wal = wal_opts opts"
    "log_core M U I wal L H fin None" "hints_hold (hintFiles d) H" "getMergeFinSegmentId (finFiles d) = Ok fin"
    "length (walIds wal) + length L < n" "length H < n" using d(2) by (auto simp: disk_core_def)
  let ?db = "db\<lparr>mergeDisk := None, hintDisk := hintFiles d, finDisk := finFiles d, dataFiles := wal, dbIndex := bt_New B\<rparr>"
  show ?thesis
  proof (rule that [OF d(1)])
    show "openWalFiles io_fine (dbOpts db) (segFiles d) = Ok wal" using w(1) db(1) by simp
    show "\<forall>env. n \<le> envFuel env \<and> dirs_ok (envIO env) \<longrightarrow> (\<exists>db'. loadIndex B env ?db = (db', Ok ()) \<and> store_ok \<alpha> opts M U db')"
    proof (intro allI impI)
      fix env :: env assume n: "n \<le> envFuel env \<and> dirs_ok (envIO env)"
      obtain wal' idx hints where l: "loadIndex B env ?db = (?db\<lparr>hintDisk := hints, dataFiles := wal', dbIndex := idx\<rparr>, Ok ())"
        "places \<alpha> idx = I" "log_core M U I wal' L H fin None" "hints_hold hints H" "kept wal wal'"
        by (rule loadIndex_ok [OF B, of M U I ?db L H fin None env]) (use w n in simp_all)
      have "store_ok \<alpha> opts M U (?db\<lparr>hintDisk := hints, dataFiles := wal', dbIndex := idx\<rparr>)"
        using l(2-5) w(2,5) db by (auto simp: store_ok_def store_core_def kept_def same_pending_def)
      then show "\<exists>db'. loadIndex B env ?db = (db', Ok ()) \<and> store_ok \<alpha> opts M U db'" using l(1) by blast
    qed
  qed
qed

lemma merge_loop_mono: "merge_loop n B env idx rd s = (s', Ok ()) \<Longrightarrow> merge_loop (n + k) B env idx rd s = (s', Ok ())"
proof (induction n arbitrary: rd s)
  case (Suc n)
  obtain wal1 rd1 r where n: "walNext (envPool env) (fst s) rd = ((wal1, rd1), r)" by (metis prod.collapse)
  show ?case
  proof (cases r)
    case (Ok y)
    obtain data pos where y: "y = (data, pos)" by (cases y)
    obtain m r' where m: "merge_record B env idx data pos (snd s) = (m, r')" by fastforce
    show ?thesis using Suc n Ok y m by (cases r') auto
  qed (use Suc.prems n in auto)
qed simp

lemma merge_loop_fuel: "merge_loop n B (env\<lparr>envFuel := m\<rparr>) idx rd s = merge_loop n B env idx rd s"
proof (induction n arbitrary: rd s)
  case (Suc n)
  obtain wal1 rd1 r where n: "walNext (envPool env) (fst s) rd = ((wal1, rd1), r)" by (metis prod.collapse)
  have "envNow (env\<lparr>envFuel := m\<rparr>) = envNow env" "envSpare (env\<lparr>envFuel := m\<rparr>) = envSpare env" "envIO (env\<lparr>envFuel := m\<rparr>) = envIO env" by simp_all
  then have e: "merge_record B (env\<lparr>envFuel := m\<rparr>) = merge_record B env" by (intro ext) (simp only: merge_record_def)
  show ?case
  proof (cases r)
    case (Ok y)
    obtain data pos where y: "y = (data, pos)" by (cases y)
    obtain m r' where m: "merge_record B env idx data pos (snd s) = (m, r')" by fastforce
    show ?thesis using Suc n Ok y m by (cases r') (simp_all add: e)
  qed (use n in auto)
qed simp

lemma dbOpen_mono: "dbOpen B env opts d mg = Ok db \<Longrightarrow> dbOpen B (env\<lparr>envFuel := envFuel env + k\<rparr>) opts d mg = Ok db"
  using open_dir_mono by (auto simp: dbOpen_def go_bind_Ok_iff)

lemma st_bind_pair_Ok: "st_bind (s, r) f = (s', Ok y) \<longleftrightarrow> (\<exists>x. r = Ok x \<and> f s x = (s', Ok y))"
  by (cases r) auto

lemma doMerge_mono:
  assumes "doMerge B env db = (db', Ok ())"
  shows "doMerge B (env\<lparr>envFuel := envFuel env + k\<rparr>) db = (db', Ok ())"
proof (cases "walIsEmpty (dataFiles db)")
  case True
  then show ?thesis using assms by (simp add: doMerge_def split: if_splits)
next
  case False
  let ?env = "env\<lparr>envFuel := envFuel env + k\<rparr>" let ?i = "ActiveSegmentID (dataFiles db)"
  obtain wal r where w: "OpenNewActiveSegment (envIO env) (dataFiles db) = (wal, r)" by fastforce
  have g: "dbMu db = Unlocked" "\<not> dbClosed db" "\<not> mergeRunning db" using assms False by (auto simp: doMerge_def split: if_splits)
  have r: "r = Ok ()" using assms False g w by (cases r) (auto simp: doMerge_def)
  let ?opts = "(dbOpts db)\<lparr>optSync := False, optBytesPerSync := 0\<rparr>"
  let ?empty = "\<lparr>segFiles = [], hintFiles = [], finFiles = []\<rparr>"
  obtain mdb where o: "dbOpen B env ?opts ?empty None = Ok mdb"
    using assms False g w r by (cases "dbOpen B env ?opts ?empty None") (auto simp: doMerge_def Let_def)
  obtain hw where h: "open_files (envIO env) hint_options (hintDisk mdb) = Ok hw"
    using assms False g w r o by (cases "open_files (envIO env) hint_options (hintDisk mdb)") (auto simp: doMerge_def Let_def)
  obtain w2 m r2 where l: "merge_loop (envFuel env) B env (dbIndex db) (NewReaderWithMax ?i wal) (wal, \<lparr>mData = dataFiles mdb, mHint = hw\<rparr>) = ((w2, m), r2)"
    by (metis prod.collapse)
  have r2: "r2 = Ok ()" using assms False g w r o h l by (cases r2) (auto simp: doMerge_def Let_def)
  have "merge_loop (envFuel env + k) B ?env (dbIndex db) (NewReaderWithMax ?i wal) (wal, \<lparr>mData = dataFiles mdb, mHint = hw\<rparr>) = ((w2, m), Ok ())"
    using merge_loop_mono [OF l [unfolded r2], of k] unfolding merge_loop_fuel .
  then show ?thesis using assms False g w r h l r2 o dbOpen_mono [OF o] by (simp add: doMerge_def Let_def)
qed

lemma dbMerge_mono:
  assumes "dbMerge B env reopen db = (db', Ok ())"
  shows "dbMerge B (env\<lparr>envFuel := envFuel env + k\<rparr>) reopen db = (db', Ok ())"
proof -
  obtain db1 r where d: "doMerge B env db = (db1, r)" by fastforce
  then have r: "r = Ok ()" using assms by (cases r) (auto simp: dbMerge_def)
  note d1 = doMerge_mono [OF d [unfolded r]]
  show ?thesis
  proof (cases reopen)
    case True
    obtain d2 where d2: "loadMergeFiles (dbDisk db1) (mergeDisk db1) = Ok d2"
      using assms d r True by (auto simp: dbMerge_def st_bind_pair_Ok)
    let ?db = "db1\<lparr>dataFiles := fst (walClose (envIO env) (dataFiles db1)), mergeDisk := None, hintDisk := hintFiles d2, finDisk := finFiles d2\<rparr>"
    obtain wal where w: "openWalFiles (envIO env) (dbOpts db1) (segFiles d2) = Ok wal"
      using assms d r True d2 by (auto simp: dbMerge_def st_bind_pair_Ok Let_def)
    have "loadIndex B env (?db\<lparr>dataFiles := wal, dbIndex := bt_New B\<rparr>) = (db', Ok ())"
      using assms d r True d2 w by (simp add: dbMerge_def Let_def)
    then show ?thesis using loadIndex_mono d1 True d2 w by (simp add: dbMerge_def Let_def)
  qed (use assms d1 d r in \<open>simp add: dbMerge_def\<close>)
qed

lemma dbMerge_total:
  assumes B: "btree_ok B \<alpha>" and s: "store_ok \<alpha> opts M U db" and io: "writable (envIO env) (dataFiles db)"
    and a: "mergeable opts M (ActiveSegmentID (dataFiles db))"
  shows "\<exists>n. \<forall>m\<ge>n. \<exists>db'. dbMerge B (env\<lparr>envFuel := m\<rparr>) reopen db = (db', Ok ()) \<and> store_ok \<alpha> opts M U db'"
proof -
  obtain n where n: "\<forall>m\<ge>n. \<exists>db'. doMerge B (env\<lparr>envFuel := m\<rparr>) db = (db', Ok ()) \<and> store_ok \<alpha> opts M U db'"
    using doMerge_ok [OF B s io a] by blast
  obtain db1 where d: "doMerge B (env\<lparr>envFuel := n\<rparr>) db = (db1, Ok ())" "store_ok \<alpha> opts M U db1" using n by blast
  have same: "doMerge B (env\<lparr>envFuel := m\<rparr>) db = (db1, Ok ())" if "n \<le> m" for m
    using doMerge_mono [OF d(1), of "m - n"] that by simp
  show ?thesis
  proof (cases reopen)
    case False
    then show ?thesis using same d(2) by (intro exI [of _ n]) (simp add: dbMerge_def)
  next
    case True
    have dirs: "dirs_ok (envIO env)" using io by (simp add: writable_def io_ok_dirs)
    obtain d2 wal n2 where r: "loadMergeFiles (dbDisk db1) (mergeDisk db1) = Ok d2" "openWalFiles io_fine (dbOpts db1) (segFiles d2) = Ok wal"
      "\<forall>env. n2 \<le> envFuel env \<and> dirs_ok (envIO env) \<longrightarrow> (\<exists>db'. loadIndex B env
       (db1\<lparr>mergeDisk := None, hintDisk := hintFiles d2, finDisk := finFiles d2, dataFiles := wal, dbIndex := bt_New B\<rparr>) = (db', Ok ()) \<and>
       store_ok \<alpha> opts M U db')"
      by (rule reload_ok [OF B d(2)])
    show ?thesis
    proof (intro exI [of _ "max n n2"] allI impI)
      fix m assume m: "max n n2 \<le> m"
      have "dbMerge B (env\<lparr>envFuel := m\<rparr>) reopen db = loadIndex B (env\<lparr>envFuel := m\<rparr>)
         (db1\<lparr>mergeDisk := None, hintDisk := hintFiles d2, finDisk := finFiles d2, dataFiles := wal, dbIndex := bt_New B\<rparr>)"
        using same [of m] m True r(1,2) by (simp add: dbMerge_def Let_def open_files_fine [OF dirs])
      then show "\<exists>db'. dbMerge B (env\<lparr>envFuel := m\<rparr>) reopen db = (db', Ok ()) \<and> store_ok \<alpha> opts M U db'"
        using spec [OF r(3), of "env\<lparr>envFuel := m\<rparr>"] m dirs by simp
    qed
  qed
qed

lemma dbMerge_ok:
  assumes "btree_ok B \<alpha>" "store_ok \<alpha> opts M U db" "writable (envIO env) (dataFiles db)"
    and "mergeable opts M (ActiveSegmentID (dataFiles db))" and d: "dbMerge B env reopen db = (db', Ok ())"
  shows "store_ok \<alpha> opts M U db'"
proof -
  obtain n where n: "\<forall>m\<ge>n. \<exists>db'. dbMerge B (env\<lparr>envFuel := m\<rparr>) reopen db = (db', Ok ()) \<and> store_ok \<alpha> opts M U db'"
    using dbMerge_total [OF assms(1-4), of reopen] by blast
  have "dbMerge B (env\<lparr>envFuel := envFuel env + n\<rparr>) reopen db = (db', Ok ())" by (rule dbMerge_mono [OF d])
  then show ?thesis using spec [OF n, of "envFuel env + n"] by auto
qed

end
