(* ===== verification/DiskvHistory.thy ===== *)
theory DiskvHistory
  imports DiskvMerge
begin

text \<open>
  Histories of the key-value store: what a client may do with it from the day its directory is
  made, with the map that its calls describe, and the theorems on what each call returns. A step of a
  history says which map the client may expect; that the store answers with that map is what is proved.
  The faults of the file system that a history has are those of \<open>env_ok\<close>: a write that is refused writes
  nothing. A \<open>Sync\<close> that fails after its records were written, a write that stops inside a record and a
  merge that stops half-way are not steps of a history.
\<close>

inductive db_history :: "'t btree \<Rightarrow> dbOptions \<Rightarrow> 't db \<Rightarrow> (bytes \<rightharpoonup> bytes) \<Rightarrow> u64 set \<Rightarrow> bool" for B opts where
  created: "dbOpen B env opts empty_dir None = Ok db \<Longrightarrow> db_history B opts db Map.empty {}"
| put: "db_history B opts db M U \<Longrightarrow> env_ok env node U (dataFiles db) \<Longrightarrow> bops_ok [PutOp k v] \<Longrightarrow>
    dbPut B env node k v db = ((b, db'), r) \<Longrightarrow> db_history B opts db' (if r = Ok () then M(k \<mapsto> v) else M) U"
| deleted: "db_history B opts db M U \<Longrightarrow> env_ok env node U (dataFiles db) \<Longrightarrow> bops_ok [DeleteOp k] \<Longrightarrow>
    dbDelete B env node k db = ((b, db'), r) \<Longrightarrow> db_history B opts db' (if r = Ok () then M(k := None) else M) U"
| batch: "db_history B opts db M U \<Longrightarrow> env_ok env user_node U (dataFiles db) \<Longrightarrow> bops_ok ops \<Longrightarrow>
    run_batch B env sync ops db = ((b, db'), r) \<Longrightarrow> db_history B opts db' (if r = Ok () then apply_bops ops M else M) U"
| dropped: "db_history B opts db M U \<Longrightarrow> bops_ok ops \<Longrightarrow> drop_batch env sync ops db = ((b, db'), r) \<Longrightarrow> db_history B opts db' M U"
| got: "db_history B opts db M U \<Longrightarrow> k \<noteq> [] \<Longrightarrow> dbGet B env k db = (db', r) \<Longrightarrow> db_history B opts db' M U"
| asked: "db_history B opts db M U \<Longrightarrow> k \<noteq> [] \<Longrightarrow> dbExist B env k db = (db', e) \<Longrightarrow> db_history B opts db' M U"
| merged: "db_history B opts db M U \<Longrightarrow> writable (envIO env) (dataFiles db) \<Longrightarrow> mergeable opts M (ActiveSegmentID (dataFiles db)) \<Longrightarrow>
    dbMerge B env reopen db = (db', Ok ()) \<Longrightarrow> db_history B opts db' M U"
| reopened: "db_history B opts db M U \<Longrightarrow> dbOpen B env opts (dbDisk db) (mergeDisk db) = Ok db' \<Longrightarrow> db_history B opts db' M U"
| torn: "db_history B opts db M U \<Longrightarrow> bops_ok ops \<Longrightarrow> i \<noteq> 0 \<Longrightarrow>
    wal = dataFiles db \<or> writable (envIO env) (dataFiles db) \<and> rotateActiveSegment (envIO env) (dataFiles db) = (wal, Ok ()) \<Longrightarrow>
    writable (envIO env) wal \<Longrightarrow> dbOpen B env' opts (torn_disk env i ops k wal db) (mergeDisk db) = Ok db' \<Longrightarrow>
    db_history B opts db' M (insert i U)"

lemma commits_map:
  "commits \<alpha> opts M U env ops db db' r \<Longrightarrow> store_ok \<alpha> opts (if r = Ok () then apply_bops ops M else M) U db'"
  by (auto simp: commits_def)

lemma apply_one [simp]: "apply_bops [PutOp k v] M = M(k \<mapsto> v)" "apply_bops [DeleteOp k] M = M(k := None)"
  by (simp_all add: apply_bops_def)

lemma load_nothing: "loadMergeFiles d None = Ok d"
  by (simp add: loadMergeFiles_def)

lemma history_ok:
  assumes B: "btree_ok B \<alpha>" and h: "db_history B opts db M U"
  shows "store_ok \<alpha> opts M U db"
  using h
proof induction
  case (created env db)
  then show ?case using reopen_ok [OF B load_nothing empty_disk] by simp
next
  case (put db M U env node k v b db' r)
  then show ?case using in_batch_ok [OF B put.IH put.hyps(3,2)] commits_map unfolding dbPut_op
    by (metis apply_one(1) prod.inject)
next
  case (deleted db M U env node k b db' r)
  then show ?case using in_batch_ok [OF B deleted.IH deleted.hyps(3,2)] commits_map unfolding dbDelete_op
    by (metis apply_one(2) prod.inject)
next
  case (batch db M U env ops sync b db' r)
  then show ?case using run_batch_ok [OF B batch.IH batch.hyps(3,2)] commits_map by (metis prod.inject)
next
  case (dropped db M U ops env sync b db' r)
  then show ?case using drop_batch_ok [OF dropped.IH dropped.hyps(2)] by (metis prod.inject)
next
  case (got db M U k env db' r)
  then show ?case using dbGet_ok [OF B got.IH got.hyps(2)] by (metis prod.inject)
next
  case (asked db M U k env db' e)
  then show ?case using dbExist_ok [OF B asked.IH asked.hyps(2)] by (metis prod.inject)
next
  case (merged db M U env reopen db')
  show ?case by (rule dbMerge_ok [OF B merged.IH merged.hyps(2-4)])
next
  case (reopened db M U env db')
  then show ?case using store_disk [of \<alpha> opts M U db] reopen_ok [OF B _ _ reopened.hyps(2)] unfolding store_ok_def by blast
next
  case (torn db M U ops i wal env env' k db')
  show ?case using torn_disk_ok [OF torn.IH torn.hyps(2-5)] reopen_ok [OF B _ _ torn.hyps(6)] by blast
qed

subsection \<open>A small store\<close>

definition opts0 :: dbOptions where
  "opts0 = \<lparr>optSegmentSize = 2 ^ 20, optSync = False, optBytesPerSync = 0, optWatchQueueSize = 4\<rparr>"

definition env0 :: env where
  "env0 = \<lparr>envNow = 0, envClock = [5], envIO = io_fine, envPool = [], envSpare = (\<lambda>_. []), envHash = (\<lambda>_. 0), envFuel = 5\<rparr>"

lemma id0: "batch_id env0 user_node = Some 20975616"
  by code_simp

lemma store0:
  obtains db where "db_history list_btree opts0 db Map.empty {}" "env_ok env0 user_node {} (dataFiles db)"
    "writable (envIO env0) (dataFiles db)" "ActiveSegmentID (dataFiles db) = 1"
proof -
  obtain db where o: "dbOpen list_btree env0 opts0 empty_dir None = Ok db"
    using reopen_total [OF list_btree_ok load_nothing empty_disk, of opts0 env0] by (auto simp: opts0_def env0_def)
  note h = db_history.created [OF o]
  obtain wal where wal: "openWalFiles io_fine opts0 (segFiles empty_dir) = Ok wal" "ActiveSegmentID (dataFiles db) = ActiveSegmentID wal"
    using reopen_ok [OF list_btree_ok load_nothing empty_disk o] by blast
  obtain wal' where "open_files io_fine (wal_opts opts0) [] = Ok wal'" "ActiveSegmentID wal' = 1"
    by (rule open_no_files [OF wal_opts_ext])
  then have a: "ActiveSegmentID (dataFiles db) = 1" using wal by (simp add: openWalFiles_wal_opts empty_dir_def)
  have "woptions (dataFiles db) = wal_opts opts0" using history_ok [OF list_btree_ok h] by (simp add: store_ok_def store_core_def)
  then have "writable (envIO env0) (dataFiles db)"
    using a one_below_last by (simp add: writable_def wal_opts_def opts0_def env0_def io_ok_def io_fine_def)
  moreover from this have "env_ok env0 user_node {} (dataFiles db)"
    by (simp add: env_ok_def id0 io_state_def) (simp add: user_node_def)
  ultimately show ?thesis using that h a by blast
qed

lemma store1:
  obtains db where "db_history list_btree opts0 db [[7] \<mapsto> [1, 2]] {}" "writable (envIO env0) (dataFiles db)"
proof -
  obtain db where db: "db_history list_btree opts0 db Map.empty {}" "env_ok env0 user_node {} (dataFiles db)"
    "writable (envIO env0) (dataFiles db)" "ActiveSegmentID (dataFiles db) = 1" by (rule store0)
  have ops: "bops_ok [PutOp [7] [1, 2]]" by (simp add: bops_ok_def)
  obtain b db' r where c: "dbPut list_btree env0 user_node [7] [1, 2] db = ((b, db'), r)"
    "commits find_item opts0 Map.empty {} env0 [PutOp [7] [1, 2]] db db' r"
    unfolding dbPut_op by (rule in_batch_ok [OF list_btree_ok history_ok [OF list_btree_ok db(1)] ops db(2)])
  have "r = Ok ()" using c(2) db(3) by (simp add: commits_def bops_bound_def maxDataWriteSize_def opts0_def)
  then have h: "db_history list_btree opts0 db' [[7] \<mapsto> [1, 2]] {}" using db_history.put [OF db(1,2) ops c(1)] by simp
  have "unat (ActiveSegmentID (dataFiles db')) \<le> 2" "woptions (dataFiles db') = woptions (dataFiles db)"
    using c(2) db(4) by (simp_all add: commits_def advanced_def)
  then have "writable (envIO env0) (dataFiles db')"
    using db(3) by (simp add: writable_def word_less_nat_alt unsigned_minus_1_eq_mask mask_eq_exp_minus_1)
  then show ?thesis using that h by blast
qed

text \<open>
  C2: In every history of calls, failed calls, cut off commits and openings, the store is the finite
  map that the calls describe: \<open>Get\<close> gives the last value that was put for a key and
  \<open>ErrKeyNotFound\<close> when there is none or it was deleted, and \<open>Exist\<close> agrees.\<close>

theorem store_keeps_map:
  assumes "btree_ok B \<alpha>" "db_history B opts db M U" "key \<noteq> []"
  shows "(\<exists>db'. dbGet B env key db = (db', case M key of None \<Rightarrow> Err ErrKeyNotFound | Some v \<Rightarrow> Ok v)) \<and>
    (\<exists>db'. dbExist B env key db = (db', Ok (M key \<noteq> None)))"
  using dbGet_ok [OF assms(1) history_ok [OF assms(1,2)] assms(3)] dbExist_ok [OF assms(1) history_ok [OF assms(1,2)] assms(3)]
  unfolding found_def by metis

theorem store_keeps_map_witness:
  "\<exists>db db'. dbGet list_btree env0 [7] db = (db', Ok [1, 2])"
proof -
  obtain db where "db_history list_btree opts0 db [[7] \<mapsto> [1, 2]] {}" by (rule store1)
  from store_keeps_map [OF list_btree_ok this, of "[7]" env0] show ?thesis by auto
qed

subsection \<open>What a store answers, now and after an opening\<close>

text \<open>Every \<open>Get\<close> and every \<open>Exist\<close> of the store answers with the map \<open>M\<close>.\<close>

definition answers_map :: "'t btree \<Rightarrow> 't db \<Rightarrow> (bytes \<rightharpoonup> bytes) \<Rightarrow> bool" where
  "answers_map B db M \<longleftrightarrow> (\<forall>env key. key \<noteq> [] \<longrightarrow>
     snd (dbGet B env key db) = (case M key of None \<Rightarrow> Err ErrKeyNotFound | Some v \<Rightarrow> Ok v) \<and>
     snd (dbExist B env key db) = Ok (M key \<noteq> None))"

text \<open>Opening a directory that can be read, with fuel enough for its log, gives a free store that answers with \<open>M\<close>.\<close>

definition opens_with :: "'t btree \<Rightarrow> dbOptions \<Rightarrow> dir \<Rightarrow> dir option \<Rightarrow> (bytes \<rightharpoonup> bytes) \<Rightarrow> bool" where
  "opens_with B opts d merge M \<longleftrightarrow> (\<exists>n. \<forall>env. n \<le> envFuel env \<and> dirs_ok (envIO env) \<longrightarrow>
     (\<exists>db. dbOpen B env opts d merge = Ok db \<and> answers_map B db M \<and> dbMu db = Unlocked))"

lemma store_answers: "btree_ok B \<alpha> \<Longrightarrow> store_ok \<alpha> opts M U db \<Longrightarrow> answers_map B db M"
  unfolding answers_map_def found_def [symmetric] by (metis dbGet_ok dbExist_ok snd_conv)

lemma disk_opens:
  assumes "btree_ok B \<alpha>" "loadMergeFiles d mg = Ok d'" "disk_core opts M U d' n" "0 < optSegmentSize opts"
  shows "opens_with B opts d mg M"
  using reopen_total [OF assms] reopen_ok [OF assms(1-3)] store_answers [OF assms(1)]
  unfolding opens_with_def store_ok_def by (metis store_ok_def)

lemma store_opens:
  assumes "btree_ok B \<alpha>" "store_ok \<alpha> opts M U db" "0 < optSegmentSize opts"
  shows "opens_with B opts (dbDisk db) (mergeDisk db) M"
  using disk_opens [OF assms(1) _ _ assms(3)] store_disk [of \<alpha> opts M U db] assms(2) unfolding store_ok_def by blast

lemma history_size: "db_history B opts db M U \<Longrightarrow> 0 < optSegmentSize opts"
  by (induction rule: db_history.induct) (auto simp: dbOpen_def checkOptions_def go_bind_Ok_iff split: if_splits)

text \<open>
  C3: A batch is all or nothing, on a file system where a refused write writes nothing and no \<open>Sync\<close> fails
  after a write. A commit that the file system takes and that fits a segment
  succeeds, and its calls take effect in their order: every \<open>Get\<close> and \<open>Exist\<close> answers with the map that they
  make, and so it does when the directory is opened again. Any other commit
  returns an error, and the store and its directory answer as before. The lock is free afterwards either way.\<close>

theorem store_commits:
  assumes "btree_ok B \<alpha>" "db_history B opts db M U" "env_ok env user_node U (dataFiles db)" "bops_ok ops"
  shows "\<exists>b db' r M'. run_batch B env sync ops db = ((b, db'), r) \<and>
    (r = Ok () \<and> M' = apply_bops ops M \<or> (\<exists>e. r = Err e) \<and> M' = M) \<and>
    answers_map B db' M' \<and> opens_with B opts (dbDisk db') (mergeDisk db') M' \<and> dbMu db' = Unlocked \<and>
    (writable (envIO env) (dataFiles db) \<and> bops_bound ops + maxDataWriteSize 51 \<le> optSegmentSize opts \<longrightarrow> r = Ok ())"
proof -
  obtain b db' r where c: "run_batch B env sync ops db = ((b, db'), r)" "commits \<alpha> opts M U env ops db db' r"
    by (rule run_batch_ok [OF assms(1) history_ok [OF assms(1,2)] assms(4,3)])
  note s = commits_map [OF c(2)]
  show ?thesis
    using c store_answers [OF assms(1) s] store_opens [OF assms(1) s history_size [OF assms(2)]]
    by (intro exI [of _ b] exI [of _ db'] exI [of _ r] exI [of _ "if r = Ok () then apply_bops ops M else M"])
      (auto simp: commits_def store_ok_def)
qed

theorem store_commits_witness:
  "\<exists>db b db'. run_batch list_btree env0 True [PutOp [7] [1, 2], PutOp [8] [], DeleteOp [7]] db = ((b, db'), Ok ()) \<and>
     snd (dbGet list_btree env0 [8] db') = Ok [] \<and> snd (dbGet list_btree env0 [7] db') = Err ErrKeyNotFound"
proof -
  obtain db where db: "db_history list_btree opts0 db Map.empty {}" "env_ok env0 user_node {} (dataFiles db)"
    "writable (envIO env0) (dataFiles db)" by (rule store0)
  let ?ops = "[PutOp [7] [1, 2], PutOp [8] [], DeleteOp [7]]"
  have ops: "bops_ok ?ops" by (simp add: bops_ok_def)
  have "bops_bound ?ops + maxDataWriteSize 51 \<le> optSegmentSize opts0" by (simp add: bops_bound_def maxDataWriteSize_def opts0_def)
  then obtain b db' where "run_batch list_btree env0 True ?ops db = ((b, db'), Ok ())"
    "answers_map list_btree db' (apply_bops ?ops Map.empty)"
    using store_commits [OF list_btree_ok db(1,2) ops, of True] db(3) by auto
  then show ?thesis by (intro exI [of _ db] exI [of _ b] exI [of _ db']) (simp add: answers_map_def apply_bops_def)
qed

text \<open>
  The same for one operation: \<open>Put\<close> of a key and a value that fit a segment succeeds on a file system that
  works, and a \<open>Put\<close> that fails leaves the map as it was.\<close>

theorem store_puts:
  assumes "btree_ok B \<alpha>" "db_history B opts db M U" "env_ok env node U (dataFiles db)"
    and "key \<noteq> []" "length key + length value < 2 ^ 32 - 31"
  shows "\<exists>b db' r M'. dbPut B env node key value db = ((b, db'), r) \<and>
    (r = Ok () \<and> M' = M(key \<mapsto> value) \<or> (\<exists>e. r = Err e) \<and> M' = M) \<and>
    answers_map B db' M' \<and> opens_with B opts (dbDisk db') (mergeDisk db') M' \<and> dbMu db' = Unlocked \<and>
    (writable (envIO env) (dataFiles db) \<and>
      maxDataWriteSize (31 + int (length key + length value)) + maxDataWriteSize 51 \<le> optSegmentSize opts \<longrightarrow> r = Ok ())"
proof -
  have ops: "bops_ok [PutOp key value]" using assms(4,5) by (simp add: bops_ok_def)
  obtain b db' r where c: "dbPut B env node key value db = ((b, db'), r)" "commits \<alpha> opts M U env [PutOp key value] db db' r"
    unfolding dbPut_op by (rule in_batch_ok [OF assms(1) history_ok [OF assms(1,2)] ops assms(3)])
  note s = commits_map [OF c(2)]
  show ?thesis
    using c store_answers [OF assms(1) s] store_opens [OF assms(1) s history_size [OF assms(2)]]
    by (intro exI [of _ b] exI [of _ db'] exI [of _ r] exI [of _ "if r = Ok () then M(key \<mapsto> value) else M"])
      (auto simp: commits_def store_ok_def bops_bound_def)
qed

text \<open>
  C4: Opening the directory of a store again, with its log read to the end and the files of a finished
  merge moved in, gives a store that answers with the same map; so does opening it after a commit that was
  cut off between two of its records or before its end record: not one of
  its records counts. A cut inside a record is not covered: the log is then refused.\<close>

theorem store_survives:
  assumes "btree_ok B \<alpha>" "db_history B opts db M U"
  shows "opens_with B opts (dbDisk db) (mergeDisk db) M \<and>
    (writable (envIO env) (dataFiles db) \<and> bops_ok ops \<and> i \<noteq> 0 \<longrightarrow>
      opens_with B opts (torn_disk env i ops k (dataFiles db) db) (mergeDisk db) M)"
proof (intro conjI impI)
  note s = history_ok [OF assms] and z = history_size [OF assms(2)]
  show "opens_with B opts (dbDisk db) (mergeDisk db) M" by (rule store_opens [OF assms(1) s z])
  assume t: "writable (envIO env) (dataFiles db) \<and> bops_ok ops \<and> i \<noteq> 0"
  then show "opens_with B opts (torn_disk env i ops k (dataFiles db) db) (mergeDisk db) M"
    using torn_disk_ok [OF s _ _ disjI1 [OF refl], of ops i env k] disk_opens [OF assms(1) _ _ z] by blast
qed

theorem store_survives_witness:
  "\<exists>db env db'. db_history list_btree opts0 db [[7] \<mapsto> [1, 2]] {} \<and>
     dbOpen list_btree env opts0 (torn_disk env0 9 [PutOp [7] [3], DeleteOp [8]] 2 (dataFiles db) db) (mergeDisk db) = Ok db' \<and>
     snd (dbGet list_btree env [7] db') = Ok [1, 2]"
proof -
  obtain db where db: "db_history list_btree opts0 db [[7] \<mapsto> [1, 2]] {}" "writable (envIO env0) (dataFiles db)" by (rule store1)
  have "bops_ok [PutOp [7] [3], DeleteOp [8]]" by (simp add: bops_ok_def)
  then have "opens_with list_btree opts0 (torn_disk env0 9 [PutOp [7] [3], DeleteOp [8]] 2 (dataFiles db) db) (mergeDisk db) [[7] \<mapsto> [1, 2]]"
    using store_survives [OF list_btree_ok db(1), of env0 _ 9 2] db(2) by simp
  then obtain n where n: "\<forall>env. n \<le> envFuel env \<and> dirs_ok (envIO env) \<longrightarrow> (\<exists>db'. dbOpen list_btree env opts0
      (torn_disk env0 9 [PutOp [7] [3], DeleteOp [8]] 2 (dataFiles db) db) (mergeDisk db) = Ok db' \<and>
      answers_map list_btree db' [[7] \<mapsto> [1, 2]])" unfolding opens_with_def by blast
  have "n \<le> envFuel (env0\<lparr>envFuel := n\<rparr>)" "dirs_ok (envIO (env0\<lparr>envFuel := n\<rparr>))" by (simp_all add: env0_def)
  then obtain db' where "dbOpen list_btree (env0\<lparr>envFuel := n\<rparr>) opts0
      (torn_disk env0 9 [PutOp [7] [3], DeleteOp [8]] 2 (dataFiles db) db) (mergeDisk db) = Ok db'"
    "answers_map list_btree db' [[7] \<mapsto> [1, 2]]" using n by blast
  then show ?thesis using db(1)
    by (intro exI [of _ db] exI [of _ "env0\<lparr>envFuel := n\<rparr>"] exI [of _ db']) (simp add: answers_map_def)
qed

text \<open>
  C5: A merge keeps the map: with fuel enough for the log it succeeds and leaves a free store that answers
  with the same map, and a directory that opens with it, whether the merged files are moved in at once or wait for
  the next opening. The store may have been merged before. The file system takes every write, every live binding
  fits a segment, and the live bindings, counted with four times their size for the space that rotation may leave
  unused, fit the segments written so far (\<open>mergeable\<close>).\<close>

theorem merge_keeps_map:
  assumes "btree_ok B \<alpha>" "db_history B opts db M U" "writable (envIO env) (dataFiles db)"
    and "mergeable opts M (ActiveSegmentID (dataFiles db))"
  shows "\<exists>n. \<forall>m\<ge>n. \<exists>db'. dbMerge B (env\<lparr>envFuel := m\<rparr>) reopen db = (db', Ok ()) \<and>
    answers_map B db' M \<and> opens_with B opts (dbDisk db') (mergeDisk db') M \<and> dbMu db' = Unlocked"
proof -
  obtain n where n: "\<forall>m\<ge>n. \<exists>db'. dbMerge B (env\<lparr>envFuel := m\<rparr>) reopen db = (db', Ok ()) \<and> store_ok \<alpha> opts M U db'"
    using dbMerge_total [OF assms(1) history_ok [OF assms(1,2)] assms(3,4)] by blast
  then show ?thesis
    using store_answers [OF assms(1)] store_opens [OF assms(1) _ history_size [OF assms(2)]]
    unfolding store_ok_def by (metis store_ok_def)
qed

theorem merge_keeps_map_witness:
  "\<exists>db env db'. db_history list_btree opts0 db [[7] \<mapsto> [1, 2]] {} \<and> dbMerge list_btree env True db = (db', Ok ()) \<and>
     snd (dbGet list_btree env [7] db') = Ok [1, 2]"
proof -
  obtain db where db: "db_history list_btree opts0 db [[7] \<mapsto> [1, 2]] {}" "writable (envIO env0) (dataFiles db)" by (rule store1)
  have "live_room [[7 :: u8] \<mapsto> [1, 2 :: u8]] = 178" by (simp add: live_room_def binding_room_def room_for_def)
  moreover obtain L where "wal_holds (dataFiles db) (encoded L)"
    using history_ok [OF list_btree_ok db(1)] by (auto simp: store_ok_def store_core_def log_core_def)
  then have "1 \<le> unat (ActiveSegmentID (dataFiles db))" using holds_active by (simp add: Suc_le_eq unat_gt_0)
  then have "1 * 2 ^ 20 \<le> unat (ActiveSegmentID (dataFiles db)) * 2 ^ 20" by (rule mult_le_mono1)
  ultimately have "mergeable opts0 [[7] \<mapsto> [1, 2]] (ActiveSegmentID (dataFiles db))"
    by (auto simp: mergeable_def opts0_def)
  from merge_keeps_map [OF list_btree_ok db this, of True]
  obtain n db' where "dbMerge list_btree (env0\<lparr>envFuel := n\<rparr>) True db = (db', Ok ())" "answers_map list_btree db' [[7] \<mapsto> [1, 2]]"
    by blast
  then show ?thesis using db(1)
    by (intro exI [of _ db] exI [of _ "env0\<lparr>envFuel := n\<rparr>"] exI [of _ db']) (simp add: answers_map_def)
qed

text \<open>
  C39: The walks visit the bindings of the map once, in the order of the keys or against it: a range
  from its first bound up or down to but not including its second one.\<close>

theorem walks_in_order:
  assumes "btree_ok B \<alpha>" "db_history B opts db M U"
  shows "\<exists>kvs. sorted_wrt bytes_less (map fst kvs) \<and> map_of kvs = M \<and>
    (\<exists>db'. dbAscend B env collect [] db = ((db', kvs), Ok ())) \<and>
    (\<exists>db'. dbDescend B env collect [] db = ((db', rev kvs), Ok ())) \<and>
    (\<exists>db'. dbAscendRange B env a b collect [] db =
      ((db', filter (\<lambda>(k, v). \<not> bytes_less k a \<and> bytes_less k b) kvs), Ok ())) \<and>
    (\<exists>db'. dbDescendRange B env a b collect [] db =
      ((db', filter (\<lambda>(k, v). \<not> bytes_less a k \<and> bytes_less b k) (rev kvs)), Ok ())) \<and>
    (\<exists>db'. dbAscendGreaterOrEqual B env a collect [] db = ((db', filter (\<lambda>(k, v). \<not> bytes_less k a) kvs), Ok ())) \<and>
    (\<exists>db'. dbDescendLessOrEqual B env a collect [] db = ((db', filter (\<lambda>(k, v). \<not> bytes_less a k) (rev kvs)), Ok ()))"
proof -
  have s: "store_ok \<alpha> opts M U db" by (rule history_ok [OF assms])
  then have "store_core \<alpha> opts M U db" by (simp add: store_ok_def)
  then show ?thesis using bindings_ok [OF assms(1)] walks_ok [OF assms(1) s]
    by (intro exI [of _ "bindings B M (dbIndex db)"] conjI) blast+
qed

theorem walks_in_order_witness:
  "\<exists>db db' kvs. dbAscend list_btree env0 collect [] db = ((db', kvs), Ok ()) \<and> map_of kvs = [[7] \<mapsto> [1, 2]]"
proof -
  obtain db where "db_history list_btree opts0 db [[7] \<mapsto> [1, 2]] {}" by (rule store1)
  from walks_in_order [OF list_btree_ok this, of env0] show ?thesis by blast
qed

end
