(* ===== verification/Spec2Isabelle.thy ===== *)
theory Spec2Isabelle
  imports PriorityQueue FloatCodec InvertedSave VecSave EdgeSafety DiskvHistory
begin

text \<open>
  A verification development for coltt, a vector database in Go.

  \<^bold>\<open>The program.\<close> Two subsystems carry its own logic and are modelled here from the source up.
  The first is the edge server (\<open>edge/\<close>, \<open>pkg/inverted\<close>, \<open>pkg/distance\<close>, \<open>pkg/compresshelper\<close>,
  \<open>pkg/sharding\<close>, \<open>pkg/minio\<close>): collections of vectors with metadata, held in memory in sixteen shards,
  quantized in one of four formats, filtered through an inverted index of bitmaps, searched by brute
  force with a bounded priority queue, and saved to an object storage. The second is the storage engine
  (\<open>diskv/\<close> over \<open>pkg/wal\<close> and \<open>pkg/snowflake\<close>): a key-value store with batches, an index in
  memory and a write-ahead log of checksummed chunks, which the index is rebuilt from at every opening.

  \<^bold>\<open>Conventions.\<close> A Go call that returns an error or may panic has a result of type \<open>gores\<close>:
  \<open>Ok\<close>, \<open>Err\<close>, \<open>Panic\<close> for a panic that a caller may recover, \<open>Crash\<close> for the end of the process or a
  call that never returns. State is passed explicitly; a struct is a record, a Go map an association list in the
  order of its next \<open>range\<close>, a machine integer a word. Everything is executable but the
  inductive predicates of reachability and history.

  \<^bold>\<open>The Go language and its library.\<close> \<open>Prelude\<close> has results, maps and lemmas on lists. \<open>GoFloat\<close> and
  \<open>GoArith\<close> have IEEE 754 numbers as bit patterns with rounding, comparison and arithmetic. \<open>GoLock\<close> has a read-write lock between
  two requests: free, or held by goroutines that panicked or wait for ever; a call that never returns is \<open>Crash deadlock\<close>.
  \<open>GoBytes\<close> and
  \<open>GoEncoding\<close> have byte orders, readers, varints and the CRC. \<open>GoStrconv\<close> has the number parsers,
  \<open>GoValue\<close> the dynamic values of metadata, \<open>GoHeap\<close> the package \<open>container/heap\<close> as a locale over an order.

  \<^bold>\<open>The edge server.\<close>
  \<^item> \<open>PriorityQueue\<close>: \<open>edge/priorityqueue\<close> and \<open>edge/priority_queue.go\<close>; heap order, what the bounded queue
    keeps. \<open>go_heap\<close> is interpreted for both orders.
  \<^item> \<open>FloatCodec\<close>, \<open>Distance\<close>, \<open>Quantizers\<close>: \<open>float16.go\<close>, \<open>bf16.go\<close>, \<open>float8.go\<close>, the native
    distances and the four quantizers; the 16 bit conversion is IEEE rounding, the 8 bit one is not a format.
    \<open>quantizer_laws\<close> is interpreted for each of the four.
  \<^item> \<open>Inverted\<close>, \<open>InvertedSave\<close>: \<open>pkg/inverted\<close>; \<open>Add\<close>, \<open>Remove\<close> and the filter expressions against the set of ids
    they denote, saving and loading; the locks of the index and its shards.
  \<^item> \<open>EdgeMeta\<close>, \<open>VecSpace\<close>, \<open>VecCorrect\<close>, \<open>VecSave\<close>: the schema checks of \<open>edge_analyzer.go\<close> and the four
    \<open>*_vectorstore.go\<close>, which have one text over a quantizer; the invariant that ties vertices and index, what changes,
    removals and searches do, the binary image.
  \<^item> \<open>ObjectStore\<close>, \<open>EdgeStore\<close>, \<open>EdgeApi\<close>: \<open>pkg/minio\<close>, \<open>vectorstore.go\<close> and the handlers of
    \<open>edge.go\<close>, each one step on the shared state.
  \<^item> \<open>EdgeCorrect\<close>, \<open>EdgeIdle\<close>, \<open>EdgeDurable\<close>, \<open>EdgeSafety\<close>: reachable states and their invariant, which calls give
    back the locks they take, durability of a release, and what is lost when a save fails.

  \<^bold>\<open>The storage engine.\<close>
  \<^item> \<open>WalSegment\<close>, \<open>WalSegmentCorrect\<close>: \<open>pkg/wal/segment.go\<close>; where chunks lie, that a reader finds every record and
    that a write puts it there.
  \<^item> \<open>Wal\<close>, \<open>WalCorrect\<close>, \<open>WalLog\<close>, \<open>WalRoom\<close>: \<open>pkg/wal/wal.go\<close>; rotation, single and pending writes, readers,
    reopening. \<open>wal_holds\<close> is the abstract log, a list of records at their places, which every call refines, and
    \<open>wal_history\<close> all that a client may do; no two records have one place, and \<open>used\<close> bounds the space that writes take.
  \<^item> \<open>Snowflake\<close>: the ids of batches, their order and their texts.
  \<^item> \<open>DiskvRecord\<close>, \<open>DiskvIndex\<close>, \<open>DiskvWatch\<close>: \<open>record.go\<close>, \<open>index/btree.go\<close> and \<open>watch.go\<close>;
    \<open>newest_queue\<close> is the contract of the ring of events.
  \<^item> \<open>Diskv\<close>, \<open>DiskvDb\<close>: \<open>batch.go\<close>, \<open>db.go\<close> and \<open>merge.go\<close>: locks, batches, single operations, walks, the
    loading of the index, opening, closing and merging.
  \<^item> \<open>DiskvCorrect\<close>, \<open>DiskvBatch\<close>, \<open>DiskvStore\<close>: the replay of a log as an abstract index, batches as maps of
    changes, the invariant \<open>store_core\<close>, what each call makes of the map.
  \<^item> \<open>DiskvOpen\<close>, \<open>DiskvMerge\<close>, \<open>DiskvHistory\<close>: opening a directory, with the files of a finished merge and after a commit that
    was cut off; the loop of a merge, with the invariant \<open>merging\<close> on what it has copied; histories of a store with commits that
    fail or are cut off, merges and openings in any order: the store refines a finite map. \<open>answers_map\<close> and \<open>opens_with\<close> say
    what a client sees of it, now and after an opening.

  \<^bold>\<open>Parameters.\<close> Code that is not in the repository is an argument, and its documented behaviour a named hypothesis with an
  instance: roaring bitmaps (\<open>roaring_ok\<close>), the MinIO client (\<open>minio_ok\<close>, \<open>memClient\<close>), \<open>encoding/json\<close>, the
  assembler kernels of the distances, the B-tree (\<open>btree_ok\<close>, \<open>list_btree\<close>), regular expressions, the hash of the Go
  runtime, the clock and the file system.

  \<^bold>\<open>Bounds and fuel.\<close> Loops end by a measure, but for three kinds. The normalisation of a 16 bit float is a partial
  function that is shown to be total. The loops over a log at startup and in a merge take the fuel \<open>envFuel\<close>: one turn
  for each record and each skipped segment, so the number of segments and records plus one is enough, and more fuel changes
  nothing. The wait of the id generator runs through the given readings of the clock.
  Segments are at most a gigabyte, the default, where the theorems on writes need the sum of a segment and one
  write to stay below \<open>2 ^ 45\<close>. A merge needs the live bindings to take about a quarter of the space of the segments at most
  (\<open>mergeable\<close>): its files only replace segments up to the mark, so its log may not have more of them. A write of the file system either succeeds or takes no byte
  (\<open>io_state\<close>); a process may die between two records of a commit (\<open>torn_disk\<close>). Opening needs a directory that can be made and read
  (\<open>dirs_ok\<close>).

  \<^bold>\<open>Not modelled.\<close> The hnsw index and the core server (\<open>core/\<close>, \<open>pkg/index\<close>), whose search is randomised and has no
  exact contract; the experimental server, a copy of the edge server with several vectors per vertex;
  vendored packages that the program does not use (\<open>pkg/flate\<close>, \<open>pkg/bitset\<close>, \<open>pkg/diskhash\<close>,
  \<open>pkg/concurrentmap\<close>); start-up, configuration, gRPC and generated code. Of the modelled parts: two
  requests interleaved within one handler or one merge (requests run one after the other, and meet the locks that earlier ones
  left held), a \<open>Sync\<close> that fails in a history, the errors of moving merged files, the file lock, the channel of the watcher, the cron task, and
  texts for logging.
\<close>

end
